(* ===== verification/Prelude.thy ===== *)
theory Prelude
  imports Main "HOL-Library.Char_ord" "HOL-Library.List_Lexorder" "HOL-Library.Word"
begin

section \<open>Shared vocabulary of the development\<close>

text \<open>
  Exceptions as values, the two vector edits of the C++ standard library that the modelled
  code uses (insert before an iterator, erase a range of iterators) with iterators as
  indices, and list lemmas that several components share. Strings are \<open>char list\<close>;
  \<open>List_Lexorder\<close> and \<open>Char_ord\<close> order them by unsigned bytes, which is the order of
  \<open>std::string\<close> and of \<open>memcmp\<close>.
\<close>

named_theorems wf_simps \<open>the well-formedness predicates of the components, as rewrite rules\<close>

subsection \<open>Exceptions (src/cc/ex/exception.h)\<close>

text \<open>
  The exception classes that the modelled code raises, each with its message; \<open>Undefined\<close>
  stands for an operation that C++ leaves undefined, with the reason.
\<close>

datatype kdi_error =
    ValueError string
  | RuntimeError string
  | RowNotInTabletError string
  | Undefined string

type_synonym 'a result = "kdi_error + 'a"

definition bind_res :: "'a result \<Rightarrow> ('a \<Rightarrow> 'b result) \<Rightarrow> 'b result" where
  "bind_res r f = (case r of Inl e \<Rightarrow> Inl e | Inr x \<Rightarrow> f x)"

lemma bind_res_simps [simp]:
  "bind_res (Inl e) f = Inl e"
  "bind_res (Inr x) f = f x"
  by (simp_all add: bind_res_def)

lemma bind_res_eq_Inr: "bind_res r f = Inr y \<longleftrightarrow> (\<exists>x. r = Inr x \<and> f x = Inr y)"
  by (cases r) auto

lemma bind_res_eq_Inl:
  "bind_res r f = Inl e \<longleftrightarrow> r = Inl e \<or> (\<exists>x. r = Inr x \<and> f x = Inl e)"
  by (cases r) auto

fun map_res :: "('a \<Rightarrow> 'b result) \<Rightarrow> 'a list \<Rightarrow> 'b list result" where
  "map_res f [] = Inr []"
| "map_res f (x # xs) = bind_res (f x) (\<lambda>y. bind_res (map_res f xs) (\<lambda>ys. Inr (y # ys)))"

subsection \<open>Vectors and iterators\<close>

definition vec_insert :: "nat \<Rightarrow> 'a \<Rightarrow> 'a list \<Rightarrow> 'a list" where
  "vec_insert i x xs = take i xs @ x # drop i xs"

definition vec_erase :: "nat \<Rightarrow> nat \<Rightarrow> 'a list \<Rightarrow> 'a list" where
  "vec_erase i j xs = take i xs @ drop j xs"

lemma vec_insert_append [simp]: "vec_insert (length xs) x (xs @ ys) = xs @ x # ys"
  by (simp add: vec_insert_def)

lemma vec_insert_0 [simp]: "vec_insert 0 x xs = x # xs"
  by (simp add: vec_insert_def)

lemma vec_erase_append:
  "vec_erase (length xs) (length xs + length ys) (xs @ ys @ zs) = xs @ zs"
  by (simp add: vec_erase_def)

lemma vec_erase_split:
  assumes "ps = xs @ ys @ zs" "i = length xs" "j = length xs + length ys"
  shows "vec_erase i j ps = xs @ zs"
  using assms by (simp add: vec_erase_append)

lemma vec_erase_same [simp]: "vec_erase i i xs = xs"
  by (simp add: vec_erase_def)

lemma vec_erase_if:
  "(if i \<noteq> j then vec_erase i j xs else xs) = take i xs @ drop j xs"
  by (simp add: vec_erase_def)

subsection \<open>Splitting lists\<close>

lemma takeWhile_append_split:
  assumes "\<forall>x\<in>set xs. P x" "\<forall>y\<in>set ys. \<not> P y"
  shows "takeWhile P (xs @ ys) = xs" "dropWhile P (xs @ ys) = ys"
proof -
  have "takeWhile P ys = []" "dropWhile P ys = ys"
    using assms(2) by (cases ys; simp)+
  then show "takeWhile P (xs @ ys) = xs" "dropWhile P (xs @ ys) = ys"
    using assms(1) by (simp_all add: takeWhile_append2 dropWhile_append2)
qed

lemma filter_length_split:
  "length (filter P (xs @ ys)) = length (filter P xs) + length (filter P ys)"
  by simp

end
