(* ===== verification/Heap.thy ===== *)
theory Heap
  imports Prelude "HOL-Library.Multiset"
begin

section \<open>Heaps (src/cc/warp/heap.h)\<close>

text \<open>
  \<open>MaxHeap\<close> keeps a vector on which the standard heap algorithms work. Through the class only
  the front of the vector, its size and its elements can be observed, so a heap is the list of
  its items with the front first; what the standard promises of \<open>push_heap\<close> and \<open>pop_heap\<close> is
  that a greatest item is in front afterwards. \<open>MinHeap\<close> is a \<open>MaxHeap\<close> for the reversed order.
\<close>

subsection \<open>Operations\<close>

text \<open>The first of the greatest items is moved to the front.\<close>

definition greatest :: "('a \<Rightarrow> 'a \<Rightarrow> bool) \<Rightarrow> 'a \<Rightarrow> 'a list \<Rightarrow> 'a" where
  "greatest lt x xs = foldl (\<lambda>m y. if lt m y then y else m) x xs"

definition raise_greatest :: "('a \<Rightarrow> 'a \<Rightarrow> bool) \<Rightarrow> 'a list \<Rightarrow> 'a list" where
  "raise_greatest lt xs =
     (case xs of [] \<Rightarrow> [] | x # ys \<Rightarrow> let m = greatest lt x ys in m # remove1 m xs)"

definition heapEmpty :: "'a list \<Rightarrow> bool" where
  "heapEmpty v = (v = [])"

definition heapSize :: "'a list \<Rightarrow> nat" where
  "heapSize v = length v"

definition heapTop :: "'a list \<Rightarrow> 'a" where
  "heapTop v = hd v"

definition heapPush :: "('a \<Rightarrow> 'a \<Rightarrow> bool) \<Rightarrow> 'a \<Rightarrow> 'a list \<Rightarrow> 'a list" where
  "heapPush lt x v = raise_greatest lt (v @ [x])"

definition heapPop :: "('a \<Rightarrow> 'a \<Rightarrow> bool) \<Rightarrow> 'a list \<Rightarrow> 'a list" where
  "heapPop lt v = raise_greatest lt (drop 1 v)"

definition underTop :: "('a \<Rightarrow> 'a \<Rightarrow> bool) \<Rightarrow> 'a \<Rightarrow> 'a list \<Rightarrow> bool" where
  "underTop lt x v = lt x (heapTop v)"

definition heapReplace :: "('a \<Rightarrow> 'a \<Rightarrow> bool) \<Rightarrow> 'a \<Rightarrow> 'a list \<Rightarrow> 'a list" where
  "heapReplace lt x v = heapPush lt x (heapPop lt v)"

definition heapClear :: "'a list \<Rightarrow> 'a list" where
  "heapClear v = []"

text \<open>The range constructor copies the range and then arranges the range it was given, not the
  copy: the heap keeps the items in their original order.\<close>

definition heapFromRange :: "('a \<Rightarrow> 'a \<Rightarrow> bool) \<Rightarrow> 'a list \<Rightarrow> 'a list" where
  "heapFromRange lt items = items"

definition reverse_order :: "('a \<Rightarrow> 'a \<Rightarrow> bool) \<Rightarrow> 'a \<Rightarrow> 'a \<Rightarrow> bool" where
  "reverse_order lt a b = lt b a"

subsection \<open>The heap invariant\<close>

text \<open>
  The order of the items may depend on state and be an order on the items in use only:
  \<open>order_on\<close> says that it is a strict weak order on a set of items. The top of a heap is not
  less than any item.
\<close>

definition order_on :: "('a \<Rightarrow> 'a \<Rightarrow> bool) \<Rightarrow> 'a set \<Rightarrow> bool" where
  "order_on lt A \<longleftrightarrow> (\<forall>a\<in>A. \<forall>b\<in>A. lt a b \<longrightarrow> \<not> lt b a \<and> (\<forall>c\<in>A. lt a c \<or> lt c b))"

definition heap_inv :: "('a \<Rightarrow> 'a \<Rightarrow> bool) \<Rightarrow> 'a list \<Rightarrow> bool" where
  "heap_inv lt v \<longleftrightarrow> (\<forall>x\<in>set v. \<not> lt (hd v) x)"

lemma order_on_mono: "order_on lt A \<Longrightarrow> B \<subseteq> A \<Longrightarrow> order_on lt B"
  unfolding order_on_def by blast

lemma order_on_cotrans:
  "order_on lt A \<Longrightarrow> a \<in> A \<Longrightarrow> b \<in> A \<Longrightarrow> c \<in> A \<Longrightarrow> lt a b \<Longrightarrow> lt a c \<or> lt c b"
  unfolding order_on_def by blast

lemma order_on_reverse: "order_on (reverse_order lt) A \<longleftrightarrow> order_on lt A"
  unfolding order_on_def reverse_order_def by blast

lemma greatest_correct:
  "order_on lt (insert x (set xs)) \<Longrightarrow>
     greatest lt x xs \<in> insert x (set xs) \<and> (\<forall>y\<in>insert x (set xs). \<not> lt (greatest lt x xs) y)"
proof (induction xs arbitrary: x)
  case Nil
  then show ?case by (auto simp: greatest_def order_on_def)
next
  case (Cons y ys)
  let ?m = "if lt x y then y else x"
  have ord: "order_on lt (insert ?m (set ys))"
    by (rule order_on_mono [OF Cons.prems]) auto
  let ?g = "greatest lt ?m ys"
  from Cons.IH [OF ord] have IH: "?g \<in> insert ?m (set ys)" "\<forall>z\<in>insert ?m (set ys). \<not> lt ?g z"
    by blast+
  have eq: "greatest lt x (y # ys) = ?g"
    by (simp add: greatest_def)
  have g: "?g \<in> insert x (set (y # ys))" using IH(1) by (auto split: if_splits)
  have gm: "\<not> lt ?g ?m" using IH(2) by blast
  have asym: "\<not> lt y x" if "lt x y"
    using that Cons.prems by (auto simp: order_on_def)
  have "lt ?g y \<or> lt y x" if "lt ?g x"
    using that g by (intro order_on_cotrans [OF Cons.prems _ _ _ that]) auto
  then have "\<not> lt ?g x" using asym gm by (cases "lt x y") auto
  moreover have "lt ?g x \<or> lt x y" if "lt ?g y"
    using that g by (intro order_on_cotrans [OF Cons.prems _ _ _ that]) auto
  then have "\<not> lt ?g y" using gm by (cases "lt x y") auto
  ultimately show ?case
    unfolding eq using IH(2) g by auto
qed

lemma raise_greatest_correct:
  assumes "order_on lt (set xs)"
  shows "mset (raise_greatest lt xs) = mset xs" "heap_inv lt (raise_greatest lt xs)"
proof -
  have "mset (raise_greatest lt xs) = mset xs \<and> heap_inv lt (raise_greatest lt xs)"
  proof (cases xs)
    case (Cons x ys)
    let ?m = "greatest lt x ys"
    have "?m \<in> set xs" "\<forall>y\<in>set xs. \<not> lt ?m y"
      using greatest_correct [of lt x ys] assms by (simp_all add: Cons)
    moreover have "raise_greatest lt xs = ?m # remove1 ?m xs"
      by (simp add: raise_greatest_def Cons Let_def)
    ultimately show ?thesis
      by (auto simp: heap_inv_def dest: notin_set_remove1)
  qed (simp add: raise_greatest_def heap_inv_def)
  then show "mset (raise_greatest lt xs) = mset xs" "heap_inv lt (raise_greatest lt xs)" by blast+
qed

lemma raise_greatest_set: "order_on lt (set xs) \<Longrightarrow> set (raise_greatest lt xs) = set xs"
  using raise_greatest_correct(1) [of lt xs] mset_eq_setD by blast

lemma heapPush_correct:
  assumes "order_on lt (insert x (set v))"
  shows "mset (heapPush lt x v) = add_mset x (mset v)" "heap_inv lt (heapPush lt x v)"
  using raise_greatest_correct [of lt "v @ [x]"] assms by (simp_all add: heapPush_def)

lemma heapPop_correct:
  assumes "order_on lt (set (drop 1 v))"
  shows "mset (heapPop lt v) = mset (drop 1 v)" "heap_inv lt (heapPop lt v)"
  using raise_greatest_correct [OF assms] by (simp_all add: heapPop_def)

lemma heapReplace_correct:
  assumes "order_on lt (insert x (set (drop 1 v)))"
  shows "mset (heapReplace lt x v) = add_mset x (mset (drop 1 v))" "heap_inv lt (heapReplace lt x v)"
proof -
  have p: "order_on lt (set (drop 1 v))" by (rule order_on_mono [OF assms]) auto
  have "order_on lt (insert x (set (heapPop lt v)))"
    using assms raise_greatest_set [OF p] by (simp add: heapPop_def)
  from heapPush_correct [OF this] heapPop_correct [OF p]
  show "mset (heapReplace lt x v) = add_mset x (mset (drop 1 v))" "heap_inv lt (heapReplace lt x v)"
    by (simp_all add: heapReplace_def)
qed

subsection \<open>Properties\<close>

text \<open>
  A push adds exactly its item, a pop removes exactly the item on top, a replacement does
  both, and after each of them the top of the heap is a greatest item again.
\<close>
theorem heap_operations_correct:
  assumes "order_on lt (insert x (set v))" "v \<noteq> []"
  shows "(mset (heapPush lt x v) = add_mset x (mset v) \<and> heap_inv lt (heapPush lt x v)) \<and>
    (add_mset (heapTop v) (mset (heapPop lt v)) = mset v \<and> heap_inv lt (heapPop lt v)) \<and>
    (add_mset (heapTop v) (mset (heapReplace lt x v)) = add_mset x (mset v) \<and> heap_inv lt (heapReplace lt x v)) \<and>
    heapSize (heapReplace lt x v) = heapSize v"
proof -
  have sub: "order_on lt (set (drop 1 v))" "order_on lt (insert x (set (drop 1 v)))"
    by (rule order_on_mono [OF assms(1)]; use set_drop_subset [of 1 v] in blast)+
  have v: "add_mset (heapTop v) (mset (drop 1 v)) = mset v"
    using assms(2) by (cases v) (simp_all add: heapTop_def)
  have "heapSize (heapReplace lt x v) = heapSize v"
    using arg_cong [OF heapReplace_correct(1) [OF sub(2)], of size] assms(2) by (cases v) (simp_all add: heapSize_def)
  then show ?thesis
    using heapPush_correct [OF assms(1)] heapPop_correct [OF sub(1)] heapReplace_correct [OF sub(2)] v
    by simp
qed

theorem heap_operations_correct_witness:
  "heapTop (heapReplace (<) 1 (heapPush (<) 4 [7, 2])) = (4 :: int)"
proof -
  have h: "heapPush (<) 4 [7, 2] = [7 :: int, 2, 4]" by code_simp
  have "order_on (<) (insert (1 :: int) (set [7, 2, 4]))" by (auto simp: order_on_def)
  from heap_operations_correct [OF this]
  have "heap_inv (<) (heapReplace (<) 1 [7 :: int, 2, 4])"
    "add_mset 7 (mset (heapReplace (<) 1 [7 :: int, 2, 4])) = add_mset 1 (mset [7, 2, 4])"
    by (simp_all add: heapTop_def)
  moreover have "heapReplace (<) 1 [7 :: int, 2, 4] = [4, 2, 1]" by code_simp
  ultimately show ?thesis unfolding h by (simp add: heapTop_def)
qed

text \<open>The range constructor does not establish the invariant.\<close>

lemma heapFromRange_not_heap: "\<not> heap_inv (<) (heapFromRange (<) [1, 2 :: int])"
  by (simp add: heapFromRange_def heap_inv_def)

end
