(* ===== verification/Merge.thy ===== *)
theory Merge
  imports Heap
begin

section \<open>Ordered merge of streams (src/cc/flux/merge.h)\<close>

text \<open>
  A merge reads several streams through a heap of inputs ordered by their current value and,
  for ties, by the order in which they were added. A stream is the list of values it still
  has; the heap holds the positions of the inputs, which stand for the pointers. The
  value-initialised \<open>value_t()\<close> is the argument \<open>z\<close>. The main result is a refinement: the values
  still to come are the stable sort of the concatenated streams, and \<open>get\<close> takes them from the
  front, in a unique merge together with all their equals.
\<close>

subsection \<open>Operations\<close>

record 'a Input =
  stream :: "'a list"
  ivalue :: 'a
  hasValue :: bool

record 'a Merge =
  inputs :: "'a Input list"
  minHeap :: "nat list"
  inputChanged :: bool
  mergeUnique :: bool

definition Merge0 :: "bool \<Rightarrow> 'a Merge" where
  "Merge0 uniq = \<lparr>inputs = [], minHeap = [], inputChanged = False, mergeUnique = uniq\<rparr>"

definition readNext :: "'a \<Rightarrow> 'a Input \<Rightarrow> 'a Input" where
  "readNext z inp =
     (case stream inp of
        [] \<Rightarrow> inp\<lparr>ivalue := z, hasValue := False\<rparr>
      | x # xs \<Rightarrow> inp\<lparr>stream := xs, ivalue := x, hasValue := True\<rparr>)"

definition inputOrder :: "('a \<Rightarrow> 'a \<Rightarrow> bool) \<Rightarrow> 'a Input list \<Rightarrow> nat \<Rightarrow> nat \<Rightarrow> bool" where
  "inputOrder lt ins a b =
     (if lt (ivalue (ins ! a)) (ivalue (ins ! b)) then True
      else if lt (ivalue (ins ! b)) (ivalue (ins ! a)) then False
      else a < b)"

text \<open>The order of the \<open>MaxHeap\<close> under the \<open>MinHeap\<close>.\<close>

definition heapOrder :: "('a \<Rightarrow> 'a \<Rightarrow> bool) \<Rightarrow> 'a Input list \<Rightarrow> nat \<Rightarrow> nat \<Rightarrow> bool" where
  "heapOrder lt ins = reverse_order (inputOrder lt ins)"

definition advance :: "'a \<Rightarrow> ('a \<Rightarrow> 'a \<Rightarrow> bool) \<Rightarrow> 'a Merge \<Rightarrow> 'a Merge" where
  "advance z lt m =
     (let top = heapTop (minHeap m);
          inp = readNext z (inputs m ! top);
          ins = (inputs m)[top := inp]
      in m\<lparr>inputs := ins,
           minHeap := (if hasValue inp then heapReplace (heapOrder lt ins) top (minHeap m)
                       else heapPop (heapOrder lt ins) (minHeap m))\<rparr>)"

definition pipeFrom :: "'a \<Rightarrow> 'a list \<Rightarrow> 'a Merge \<Rightarrow> 'a Merge" where
  "pipeFrom z input m =
     m\<lparr>inputs := inputs m @ [\<lparr>stream = input, ivalue = z, hasValue = False\<rparr>], inputChanged := True\<rparr>"

definition fetchInput :: "'a \<Rightarrow> ('a \<Rightarrow> 'a \<Rightarrow> bool) \<Rightarrow> 'a Merge \<Rightarrow> nat \<Rightarrow> 'a Merge" where
  "fetchInput z lt m i =
     (if hasValue (inputs m ! i) then m
      else
        let inp = readNext z (inputs m ! i); ins = (inputs m)[i := inp]
        in if \<not> hasValue inp then m\<lparr>inputs := ins\<rparr>
           else m\<lparr>inputs := ins, minHeap := heapPush (heapOrder lt ins) i (minHeap m)\<rparr>)"

definition fetch :: "'a \<Rightarrow> ('a \<Rightarrow> 'a \<Rightarrow> bool) \<Rightarrow> 'a Merge \<Rightarrow> 'a Merge" where
  "fetch z lt m = foldl (fetchInput z lt) m [0..<length (inputs m)]"

text \<open>What is left to read bounds the number of times the inputs can be advanced; it is the fuel
  of the loop that skips duplicates, and enough (\<open>skipEqual_done\<close>).\<close>

definition work :: "'a Merge \<Rightarrow> nat" where
  "work m = sum_list (map (\<lambda>i. length (stream i)) (inputs m)) + length (minHeap m)"

definition topValue :: "'a Merge \<Rightarrow> 'a" where
  "topValue m = ivalue (inputs m ! heapTop (minHeap m))"

fun skipEqual :: "nat \<Rightarrow> 'a \<Rightarrow> ('a \<Rightarrow> 'a \<Rightarrow> bool) \<Rightarrow> 'a \<Rightarrow> 'a Merge \<Rightarrow> 'a Merge" where
  "skipEqual 0 z lt x m = m"
| "skipEqual (Suc n) z lt x m =
     (if \<not> heapEmpty (minHeap m) \<and> \<not> lt x (topValue m) then skipEqual n z lt x (advance z lt m) else m)"

definition mergeGet :: "'a \<Rightarrow> ('a \<Rightarrow> 'a \<Rightarrow> bool) \<Rightarrow> 'a Merge \<Rightarrow> 'a option \<times> 'a Merge" where
  "mergeGet z lt m =
     (let m1 = (if inputChanged m then (fetch z lt m)\<lparr>inputChanged := False\<rparr> else m)
      in if heapEmpty (minHeap m1) then (None, m1)
         else
           let x = topValue m1; m2 = advance z lt m1
           in (Some x, if mergeUnique m2 then skipEqual (work m2) z lt x m2 else m2))"

text \<open>All values that a reader gets by calling \<open>get\<close> up to \<open>n\<close> times.\<close>

fun mergeDrain :: "nat \<Rightarrow> 'a \<Rightarrow> ('a \<Rightarrow> 'a \<Rightarrow> bool) \<Rightarrow> 'a Merge \<Rightarrow> 'a list" where
  "mergeDrain 0 z lt m = []"
| "mergeDrain (Suc n) z lt m =
     (case mergeGet z lt m of (None, m') \<Rightarrow> [] | (Some x, m') \<Rightarrow> x # mergeDrain n z lt m')"

text \<open>The merge of a list of streams, added in order.\<close>

definition mergeStreams :: "'a \<Rightarrow> ('a \<Rightarrow> 'a \<Rightarrow> bool) \<Rightarrow> bool \<Rightarrow> 'a list list \<Rightarrow> 'a list" where
  "mergeStreams z lt uniq ss =
     mergeDrain (Suc (length (concat ss))) z lt (foldl (\<lambda>m s. pipeFrom z s m) (Merge0 uniq) ss)"

subsection \<open>Stable sorting\<close>

text \<open>The first of the least elements of a list comes first in its stable sort.\<close>

lemma sort_key_least:
  fixes f :: "'a \<Rightarrow> 'k::linorder"
  assumes "\<forall>a\<in>set A. f x < f a" "\<forall>b\<in>set B. f x \<le> f b"
  shows "sort_key f (A @ x # B) = x # sort_key f (A @ B)"
proof (rule properties_for_sort_key)
  show "mset (x # sort_key f (A @ B)) = mset (A @ x # B)" by simp
  show "sorted (map f (x # sort_key f (A @ B)))"
    using assms by (auto intro: less_imp_le)
  fix k assume "k \<in> set (x # sort_key f (A @ B))"
  have "filter (\<lambda>y. f k = f y) A = []" if "f k = f x"
    using assms(1) that by (auto simp: filter_empty_conv)
  moreover have "filter (\<lambda>y. f k = f y) (sort_key f (A @ B)) = filter (\<lambda>y. f k = f y) (A @ B)"
    using sort_key_stable [of f "f k" "A @ B"] by (simp add: eq_commute)
  ultimately show "filter (\<lambda>y. f k = f y) (x # sort_key f (A @ B)) = filter (\<lambda>y. f k = f y) (A @ x # B)"
    by auto
qed

text \<open>The first element of every run of elements with equal keys.\<close>

function firstOfRuns :: "('a \<Rightarrow> 'k) \<Rightarrow> 'a list \<Rightarrow> 'a list" where
  "firstOfRuns f [] = []"
| "firstOfRuns f (x # xs) = x # firstOfRuns f (dropWhile (\<lambda>y. f y = f x) xs)"
  by pat_completeness auto
termination
  by (relation "measure (\<lambda>(f, xs). length xs)") (auto simp: less_Suc_eq_le length_dropWhile_le)

lemma firstOfRuns_length: "length (firstOfRuns f xs) \<le> length xs"
proof (induction f xs rule: firstOfRuns.induct)
  case (2 f x xs)
  then show ?case
    using length_dropWhile_le [of "\<lambda>y. f y = f x" xs] by simp
qed simp

subsection \<open>What a merge still has to deliver\<close>

definition pending :: "'a Input \<Rightarrow> 'a list" where
  "pending i = (if hasValue i then [ivalue i] else []) @ stream i"

definition allPending :: "'a Merge \<Rightarrow> 'a list" where
  "allPending m = concat (map pending (inputs m))"

text \<open>The contract that the merge puts on the order of its values: on the values in use it is
  the order of a key.\<close>

locale keyed_values =
  fixes lt :: "'a \<Rightarrow> 'a \<Rightarrow> bool" and key :: "'a \<Rightarrow> 'k::linorder" and ok :: "'a \<Rightarrow> bool"
  assumes lt_key: "ok a \<Longrightarrow> ok b \<Longrightarrow> lt a b \<longleftrightarrow> key a < key b"
begin

definition input_ok :: "'a Input \<Rightarrow> bool" where
  "input_ok i \<longleftrightarrow> sorted (map key (pending i)) \<and> list_all ok (pending i)"

definition loaded :: "'a Merge \<Rightarrow> nat set" where
  "loaded m = {i. i < length (inputs m) \<and> hasValue (inputs m ! i)}"

definition heap_ok :: "'a Merge \<Rightarrow> bool" where
  "heap_ok m \<longleftrightarrow> distinct (minHeap m) \<and> set (minHeap m) = loaded m \<and>
     heap_inv (heapOrder lt (inputs m)) (minHeap m) \<and> list_all input_ok (inputs m)"

text \<open>Between calls, an input without a value is exhausted unless inputs were added.\<close>

definition merge_inv :: "'a Merge \<Rightarrow> bool" where
  "merge_inv m \<longleftrightarrow> heap_ok m \<and>
     (inputChanged m \<or> (\<forall>i\<in>set (inputs m). hasValue i \<or> stream i = []))"

definition remaining :: "'a Merge \<Rightarrow> 'a list" where
  "remaining m = sort_key key (allPending m)"

lemma loaded_ok:
  assumes "list_all input_ok (inputs m)" "i \<in> loaded m"
  shows "ok (ivalue (inputs m ! i))" "pending (inputs m ! i) = ivalue (inputs m ! i) # stream (inputs m ! i)"
    "input_ok (inputs m ! i)"
proof -
  have "input_ok (inputs m ! i)" "hasValue (inputs m ! i)"
    using assms by (auto simp: list_all_iff loaded_def)
  then show "ok (ivalue (inputs m ! i))" "pending (inputs m ! i) = ivalue (inputs m ! i) # stream (inputs m ! i)"
    "input_ok (inputs m ! i)"
    by (auto simp: input_ok_def pending_def)
qed

lemma inputOrder_key:
  assumes "list_all input_ok (inputs m)" "a \<in> loaded m" "b \<in> loaded m"
  shows "inputOrder lt (inputs m) a b \<longleftrightarrow>
     key (ivalue (inputs m ! a)) < key (ivalue (inputs m ! b)) \<or>
     key (ivalue (inputs m ! a)) = key (ivalue (inputs m ! b)) \<and> a < b"
  using lt_key [OF loaded_ok(1) [OF assms(1,2)] loaded_ok(1) [OF assms(1,3)]]
    lt_key [OF loaded_ok(1) [OF assms(1,3)] loaded_ok(1) [OF assms(1,2)]]
  by (auto simp: inputOrder_def)

lemma heapOrder_on:
  assumes "list_all input_ok (inputs m)"
  shows "order_on (heapOrder lt (inputs m)) (loaded m)"
  unfolding heapOrder_def order_on_reverse
  unfolding order_on_def
  using inputOrder_key [OF assms] by auto

end

context keyed_values
begin

definition settled :: "'a Merge \<Rightarrow> bool" where
  "settled m \<longleftrightarrow> (\<forall>i\<in>set (inputs m). hasValue i \<or> stream i = [])"

lemma pending_readNext: "pending (readNext z inp) = stream inp"
  by (simp add: readNext_def pending_def split: list.split)

lemma pending_unloaded: "\<not> hasValue inp \<Longrightarrow> pending inp = stream inp"
  by (simp add: pending_def)

lemma input_ok_readNext: "input_ok inp \<Longrightarrow> input_ok (readNext z inp)"
  unfolding input_ok_def pending_readNext by (auto simp: pending_def split: if_splits)

lemma readNext_settled: "hasValue (readNext z inp) \<or> stream (readNext z inp) = []"
  by (simp add: readNext_def split: list.split)

lemma allPending_update:
  assumes "i < length (inputs m)"
  shows "allPending (m\<lparr>inputs := (inputs m)[i := inp]\<rparr>) =
     concat (map pending (take i (inputs m))) @ pending inp @ concat (map pending (drop (Suc i) (inputs m)))"
  using assms by (simp add: allPending_def upd_conv_take_nth_drop)

lemma allPending_split:
  assumes "i < length (inputs m)"
  shows "allPending m =
     concat (map pending (take i (inputs m))) @ pending (inputs m ! i) @ concat (map pending (drop (Suc i) (inputs m)))"
  using allPending_update [OF assms, of "inputs m ! i"] by simp

text \<open>The contents of the heap after an input is read.\<close>

lemma heap_ok_update:
  assumes ok: "list_all input_ok (inputs m)" and i: "i < length (inputs m)"
    and h: "mset h = mset_set (loaded m - {i})" and z: "inp = readNext z (inputs m ! i)"
  defines "ins \<equiv> (inputs m)[i := inp]"
  shows "hasValue inp \<Longrightarrow> order_on (heapOrder lt ins) (insert i (set h))"
    and "\<not> hasValue inp \<Longrightarrow> order_on (heapOrder lt ins) (set h)"
    and "hasValue inp \<Longrightarrow> mset h' = add_mset i (mset h) \<Longrightarrow> heap_inv (heapOrder lt ins) h' \<Longrightarrow>
           heap_ok (m\<lparr>inputs := ins, minHeap := h'\<rparr>)"
    and "\<not> hasValue inp \<Longrightarrow> mset h' = mset h \<Longrightarrow> heap_inv (heapOrder lt ins) h' \<Longrightarrow>
           heap_ok (m\<lparr>inputs := ins, minHeap := h'\<rparr>)"
proof -
  have fin: "finite (loaded m - {i})" by (simp add: loaded_def)
  then have set_h: "set h = loaded m - {i}"
    using h by (metis finite_set_mset_mset_set set_mset_mset)
  have ok': "list_all input_ok ins"
    using ok i input_ok_readNext by (auto simp: ins_def z list_all_length nth_list_update)
  have ld: "loaded (m\<lparr>inputs := ins\<rparr>) = (if hasValue inp then insert i (loaded m) else loaded m - {i})"
    using i by (auto simp: loaded_def ins_def nth_list_update)
  have ord: "order_on (heapOrder lt ins) (loaded (m\<lparr>inputs := ins\<rparr>))"
    using heapOrder_on [of "m\<lparr>inputs := ins\<rparr>"] ok' by simp
  show "hasValue inp \<Longrightarrow> order_on (heapOrder lt ins) (insert i (set h))"
    using ord by (rule order_on_mono) (auto simp: ld set_h)
  show "\<not> hasValue inp \<Longrightarrow> order_on (heapOrder lt ins) (set h)"
    using ord by (rule order_on_mono) (auto simp: ld set_h)
  have dist: "distinct h' \<and> set h' = A" if "mset h' = mset_set A" "finite A" for h' :: "nat list" and A
    using that by (metis distinct_count_atmost_1 count_mset_set(1) count_mset_set(3) finite_set_mset_mset_set set_mset_mset)
  have ld': "loaded (m\<lparr>inputs := ins, minHeap := h'\<rparr>) = loaded (m\<lparr>inputs := ins\<rparr>)"
    by (simp add: loaded_def)
  show "heap_ok (m\<lparr>inputs := ins, minHeap := h'\<rparr>)"
    if "hasValue inp" "mset h' = add_mset i (mset h)" "heap_inv (heapOrder lt ins) h'"
  proof -
    have "mset h' = mset_set (insert i (loaded m - {i}))"
      using that(2) h fin by (simp add: mset_set.insert_remove)
    with dist [OF this] fin that(1,3) ok' show ?thesis
      unfolding heap_ok_def ld' ld by auto
  qed
  show "heap_ok (m\<lparr>inputs := ins, minHeap := h'\<rparr>)"
    if "\<not> hasValue inp" "mset h' = mset h" "heap_inv (heapOrder lt ins) h'"
  proof -
    have "mset h' = mset_set (loaded m - {i})" using that(2) h by simp
    with dist [OF this fin] that(1,3) ok' show ?thesis
      unfolding heap_ok_def ld' ld by auto
  qed
qed

lemma advance_heap_ok:
  assumes "heap_ok m" "minHeap m \<noteq> []"
  shows "heap_ok (advance z lt m)" "inputChanged (advance z lt m) = inputChanged m"
    "mergeUnique (advance z lt m) = mergeUnique m"
    "inputs (advance z lt m) = (inputs m)[hd (minHeap m) := readNext z (inputs m ! hd (minHeap m))]"
proof -
  let ?i = "hd (minHeap m)"
  note parts = assms(1) [unfolded heap_ok_def]
  have i: "?i \<in> loaded m" using hd_in_set [OF assms(2)] parts by blast
  then have il: "?i < length (inputs m)" by (simp add: loaded_def)
  have ok: "list_all input_ok (inputs m)" using assms(1) by (simp add: heap_ok_def)
  have h: "mset (drop 1 (minHeap m)) = mset_set (loaded m - {?i})"
  proof (cases "minHeap m")
    case (Cons a l)
    then have "loaded m - {a} = set l" "distinct l"
      using parts by auto
    then show ?thesis by (simp add: Cons mset_set_set)
  qed (use assms(2) in simp)
  note upd = heap_ok_update [OF ok il h refl, of z]
  show "heap_ok (advance z lt m)"
  proof (cases "hasValue (readNext z (inputs m ! ?i))")
    case True
    then show ?thesis
      using upd(3) [OF True heapReplace_correct [OF upd(1) [OF True]]]
      by (simp add: advance_def heapTop_def Let_def)
  next
    case False
    then show ?thesis
      using upd(4) [OF False heapPop_correct [OF upd(2) [OF False]]]
      by (simp add: advance_def heapTop_def Let_def)
  qed
qed (simp_all add: advance_def heapTop_def Let_def)

end

context keyed_values
begin

lemma settled_advance:
  assumes "heap_ok m" "minHeap m \<noteq> []" "settled m"
  shows "settled (advance z lt m)"
  using assms(3) readNext_settled set_update_subset_insert
  unfolding settled_def advance_heap_ok(4) [OF assms(1,2)] by fastforce

lemma sum_list_update_le:
  assumes "i < length xs"
  shows "sum_list (map f (xs[i := x])) + f (xs ! i) = sum_list (map f xs) + (f x :: nat)"
proof -
  have "map f xs = map f (take i xs) @ f (xs ! i) # map f (drop (Suc i) xs)"
    using assms by (metis id_take_nth_drop list.simps(9) map_append)
  then show ?thesis using assms by (simp add: upd_conv_take_nth_drop)
qed

lemma advance_work:
  assumes "heap_ok m" "minHeap m \<noteq> []"
  shows "work (advance z lt m) < work m"
proof -
  let ?i = "hd (minHeap m)" let ?inp = "readNext z (inputs m ! ?i)"
  note adv = advance_heap_ok [OF assms, of z]
  have il: "?i < length (inputs m)"
    using hd_in_set [OF assms(2)] assms(1) unfolding heap_ok_def loaded_def by blast
  have heap: "set (minHeap (advance z lt m)) = loaded (advance z lt m)" "distinct (minHeap (advance z lt m))"
    "set (minHeap m) = loaded m" "distinct (minHeap m)"
    using adv(1) assms(1) by (simp_all add: heap_ok_def)
  have len: "length (minHeap m) = card (loaded m)" "length (minHeap (advance z lt m)) = card (loaded (advance z lt m))"
    using heap distinct_card by metis+
  have iL: "?i \<in> loaded m" using heap(3) hd_in_set [OF assms(2)] by simp
  have fin: "finite (loaded m)" by (simp add: loaded_def)
  have ld: "loaded (advance z lt m) = (if hasValue ?inp then loaded m else loaded m - {?i})"
    using il iL by (auto simp: loaded_def adv(4) nth_list_update)
  have s: "sum_list (map (\<lambda>i. length (stream i)) (inputs (advance z lt m))) + length (stream (inputs m ! ?i)) =
      sum_list (map (\<lambda>i. length (stream i)) (inputs m)) + length (stream ?inp)"
    unfolding adv(4) by (rule sum_list_update_le [OF il])
  show ?thesis
  proof (cases "stream (inputs m ! ?i)")
    case Nil
    then have inp: "\<not> hasValue ?inp" "stream ?inp = []" by (simp_all add: readNext_def)
    have "card (loaded m - {?i}) < card (loaded m)"
      using iL fin by (intro psubset_card_mono) auto
    then show ?thesis using s len ld inp Nil by (simp add: work_def)
  next
    case (Cons x xs)
    then have inp: "hasValue ?inp" "stream ?inp = xs" by (simp_all add: readNext_def)
    then show ?thesis using s len ld Cons by (simp add: work_def)
  qed
qed

lemma heap_empty_pending:
  assumes "heap_ok m" "settled m" "minHeap m = []"
  shows "allPending m = []"
proof -
  have "loaded m = {}" using assms(1,3) by (simp add: heap_ok_def)
  then have "\<forall>i\<in>set (inputs m). \<not> hasValue i" by (auto simp: loaded_def in_set_conv_nth)
  then show ?thesis using assms(2) by (auto simp: allPending_def settled_def pending_def)
qed

lemma advance_remaining:
  assumes "heap_ok m" "settled m" "minHeap m \<noteq> []"
  shows "remaining m = topValue m # remaining (advance z lt m)"
proof -
  let ?i = "hd (minHeap m)"
  note parts = assms(1) [unfolded heap_ok_def]
  have iL: "?i \<in> loaded m" using hd_in_set [OF assms(3)] parts by blast
  have il: "?i < length (inputs m)" using iL by (simp add: loaded_def)
  have ok: "list_all input_ok (inputs m)" using parts by blast
  let ?A = "concat (map pending (take ?i (inputs m)))" and ?B = "concat (map pending (drop (Suc ?i) (inputs m)))"
  let ?x = "ivalue (inputs m ! ?i)" and ?s = "stream (inputs m ! ?i)"
  have split: "allPending m = ?A @ ?x # ?s @ ?B"
    unfolding allPending_split [OF il] loaded_ok(2) [OF ok iL] by simp
  have adv: "allPending (advance z lt m) = ?A @ ?s @ ?B"
  proof -
    have "allPending (advance z lt m) = allPending (m\<lparr>inputs := (inputs m)[?i := readNext z (inputs m ! ?i)]\<rparr>)"
      by (simp add: allPending_def advance_heap_ok(4) [OF assms(1,3)])
    then show ?thesis by (simp add: allPending_update [OF il] pending_readNext)
  qed
  have least: "key ?x < key (ivalue (inputs m ! j)) \<or> key ?x = key (ivalue (inputs m ! j)) \<and> ?i \<le> j"
    if "j \<in> loaded m" for j
  proof -
    have "\<not> heapOrder lt (inputs m) ?i j"
      using parts that unfolding heap_inv_def by blast
    then have "\<not> inputOrder lt (inputs m) j ?i"
      by (simp add: heapOrder_def reverse_order_def)
    then show ?thesis
      using inputOrder_key [OF ok that iL] by auto
  qed
  have pend: "\<forall>a\<in>set (pending (inputs m ! j)). (if j < ?i then key ?x < key a else key ?x \<le> key a)"
    if jl: "j < length (inputs m)" for j
  proof (cases "j \<in> loaded m")
    case True
    then have "\<forall>a\<in>set (pending (inputs m ! j)). key (ivalue (inputs m ! j)) \<le> key a"
      using loaded_ok(2,3) [OF ok True] by (simp add: input_ok_def)
    with least [OF True] show ?thesis by (auto intro: less_le_trans)
  next
    case False
    then have "pending (inputs m ! j) = []"
      using assms(2) jl by (auto simp: settled_def loaded_def pending_def)
    then show ?thesis by simp
  qed
  have A: "\<forall>a\<in>set ?A. key ?x < key a"
    using pend by (fastforce simp: in_set_conv_nth [of _ "take _ _"])
  have B: "\<forall>b\<in>set ?B. key ?x \<le> key b"
  proof
    fix b assume "b \<in> set ?B"
    then obtain j where "Suc ?i + j < length (inputs m)" "b \<in> set (pending (inputs m ! (Suc ?i + j)))"
      by (auto simp: in_set_conv_nth [of _ "drop _ _"] less_diff_conv add.commute)
    with pend [of "Suc ?i + j"] show "key ?x \<le> key b" by auto
  qed
  have S: "\<forall>b\<in>set ?s. key ?x \<le> key b"
    using loaded_ok(2,3) [OF ok iL] by (simp add: input_ok_def)
  have "sort_key key (?A @ ?x # (?s @ ?B)) = ?x # sort_key key (?A @ (?s @ ?B))"
    using A B S by (intro sort_key_least) auto
  then show ?thesis by (simp add: remaining_def split adv topValue_def heapTop_def)
qed

lemma remaining_ok:
  assumes "heap_ok m"
  shows "\<forall>x\<in>set (remaining m). ok x" "sorted (map key (remaining m))"
proof -
  have "\<forall>x\<in>set (allPending m). ok x"
    using assms by (auto simp: heap_ok_def allPending_def list_all_iff input_ok_def)
  then show "\<forall>x\<in>set (remaining m). ok x" "sorted (map key (remaining m))"
    by (simp_all add: remaining_def)
qed

lemma skipEqual_correct:
  assumes "heap_ok m" "settled m" "work m \<le> n"
  shows "heap_ok (skipEqual n z lt x m) \<and> settled (skipEqual n z lt x m) \<and>
     inputChanged (skipEqual n z lt x m) = inputChanged m \<and> mergeUnique (skipEqual n z lt x m) = mergeUnique m \<and>
     remaining (skipEqual n z lt x m) = dropWhile (\<lambda>y. \<not> lt x y) (remaining m)"
  using assms
proof (induction n arbitrary: m)
  case 0
  then have "minHeap m = []" by (simp add: work_def)
  then have "remaining m = []" using heap_empty_pending 0 by (simp add: remaining_def)
  then show ?case using 0 by simp
next
  case (Suc n)
  show ?case
  proof (cases "minHeap m = []")
    case True
    then have "remaining m = []" using heap_empty_pending Suc by (simp add: remaining_def)
    then show ?thesis using Suc True by (simp add: heapEmpty_def)
  next
    case False
    note adv = advance_heap_ok [OF Suc.prems(1) False, of z] settled_advance [OF Suc.prems(1) False Suc.prems(2), of z]
    have w: "work (advance z lt m) \<le> n" using advance_work [OF Suc.prems(1) False, of z] Suc.prems(3) by simp
    have r: "remaining m = topValue m # remaining (advance z lt m)"
      by (rule advance_remaining [OF Suc.prems(1,2) False])
    show ?thesis
      using Suc.IH [OF adv(1) adv(5) w] adv(2,3) False Suc.prems r by (simp add: heapEmpty_def)
  qed
qed

text \<open>The fuel of the loop is enough: it stops because its condition fails.\<close>

lemma skipEqual_done:
  assumes "heap_ok m" "settled m"
  shows "minHeap (skipEqual (work m) z lt x m) = [] \<or> lt x (topValue (skipEqual (work m) z lt x m))"
proof (cases "minHeap (skipEqual (work m) z lt x m) = []")
  case False
  let ?m = "skipEqual (work m) z lt x m"
  have s: "heap_ok ?m" "settled ?m" "remaining ?m = dropWhile (\<lambda>y. \<not> lt x y) (remaining m)"
    using skipEqual_correct [OF assms order_refl, of z x] by blast+
  from advance_remaining [OF s(1,2) False, of z] s(3)
  have "dropWhile (\<lambda>y. \<not> lt x y) (remaining m) = topValue ?m # remaining (advance z lt ?m)" by simp
  then show ?thesis by (simp add: dropWhile_eq_Cons_conv)
qed simp

subsection \<open>Loading the inputs\<close>

lemma fetchInput_correct:
  assumes "heap_ok m" "i < length (inputs m)"
  shows "heap_ok (fetchInput z lt m i)" "allPending (fetchInput z lt m i) = allPending m"
    "mergeUnique (fetchInput z lt m i) = mergeUnique m"
    "length (inputs (fetchInput z lt m i)) = length (inputs m)"
    "hasValue (inputs (fetchInput z lt m i) ! i) \<or> stream (inputs (fetchInput z lt m i) ! i) = []"
    "j \<noteq> i \<Longrightarrow> inputs (fetchInput z lt m i) ! j = inputs m ! j"
proof -
  have "heap_ok (fetchInput z lt m i) \<and> allPending (fetchInput z lt m i) = allPending m \<and>
    mergeUnique (fetchInput z lt m i) = mergeUnique m \<and> length (inputs (fetchInput z lt m i)) = length (inputs m) \<and>
    (hasValue (inputs (fetchInput z lt m i) ! i) \<or> stream (inputs (fetchInput z lt m i) ! i) = []) \<and>
    (j \<noteq> i \<longrightarrow> inputs (fetchInput z lt m i) ! j = inputs m ! j)"
  proof (cases "hasValue (inputs m ! i)")
    case False
    let ?inp = "readNext z (inputs m ! i)"
    let ?ins = "(inputs m)[i := ?inp]"
    note parts = assms(1) [unfolded heap_ok_def]
    have nl: "i \<notin> loaded m" using False by (simp add: loaded_def)
    have h: "mset (minHeap m) = mset_set (loaded m - {i})"
      using parts nl mset_set_set [of "minHeap m"] by simp
    have ok: "list_all input_ok (inputs m)" using parts by blast
    note upd = heap_ok_update [OF ok assms(2) h refl, of z]
    have pend: "allPending (m\<lparr>inputs := ?ins\<rparr>) = allPending m"
      using allPending_update [OF assms(2), of ?inp] allPending_split [OF assms(2)]
      by (simp add: pending_readNext pending_unloaded [OF False])
    have pend': "allPending (m\<lparr>inputs := ?ins, minHeap := hh\<rparr>) = allPending m" for hh
      using pend by (simp add: allPending_def)
    have "heap_ok (fetchInput z lt m i)"
    proof (cases "hasValue ?inp")
      case True
      then show ?thesis
        using upd(3) [OF True heapPush_correct [OF upd(1) [OF True]]] False
        by (simp add: fetchInput_def Let_def)
    next
      case nv: False
      have same: "order_on (heapOrder lt ?ins) (set (minHeap m))" by (rule upd(2) [OF nv])
      have "heap_inv (heapOrder lt ?ins) (minHeap m)"
      proof -
        have "heapOrder lt ?ins a b = heapOrder lt (inputs m) a b"
          if "a \<in> set (minHeap m)" "b \<in> set (minHeap m)" for a b
        proof -
          have "a \<noteq> i" "b \<noteq> i" using that parts nl by auto
          then show ?thesis by (simp add: heapOrder_def reverse_order_def inputOrder_def)
        qed
        moreover have "hd (minHeap m) \<in> set (minHeap m)" if "a \<in> set (minHeap m)" for a
          using that by (intro hd_in_set) auto
        ultimately show ?thesis
          using parts unfolding heap_inv_def by blast
      qed
      from upd(4) [OF nv refl this] show ?thesis
        using False nv by (simp add: fetchInput_def Let_def)
    qed
    moreover have "allPending (fetchInput z lt m i) = allPending m"
      using pend pend' False by (simp add: fetchInput_def Let_def)
    ultimately show ?thesis
      using False assms(2) readNext_settled [of z "inputs m ! i"] by (auto simp: fetchInput_def Let_def)
  qed (use assms in \<open>simp add: fetchInput_def\<close>)
  then show "heap_ok (fetchInput z lt m i)" "allPending (fetchInput z lt m i) = allPending m"
    "mergeUnique (fetchInput z lt m i) = mergeUnique m"
    "length (inputs (fetchInput z lt m i)) = length (inputs m)"
    "hasValue (inputs (fetchInput z lt m i) ! i) \<or> stream (inputs (fetchInput z lt m i) ! i) = []"
    "j \<noteq> i \<Longrightarrow> inputs (fetchInput z lt m i) ! j = inputs m ! j" by blast+
qed

lemma fetch_loop:
  assumes "heap_ok m" "\<forall>i\<in>set ks. i < length (inputs m)"
  shows "heap_ok (foldl (fetchInput z lt) m ks) \<and> allPending (foldl (fetchInput z lt) m ks) = allPending m \<and>
    mergeUnique (foldl (fetchInput z lt) m ks) = mergeUnique m \<and>
    length (inputs (foldl (fetchInput z lt) m ks)) = length (inputs m) \<and>
    (\<forall>j<length (inputs m). j \<in> set ks \<or> hasValue (inputs m ! j) \<or> stream (inputs m ! j) = [] \<longrightarrow>
       hasValue (inputs (foldl (fetchInput z lt) m ks) ! j) \<or> stream (inputs (foldl (fetchInput z lt) m ks) ! j) = [])"
  using assms
proof (induction ks arbitrary: m)
  case (Cons i ks)
  have i: "i < length (inputs m)" using Cons.prems(2) by simp
  note f = fetchInput_correct [OF Cons.prems(1) i, where z = z]
  have IH: "\<forall>j\<in>set ks. j < length (inputs (fetchInput z lt m i))" using Cons.prems(2) f(4) by simp
  have keep: "hasValue (inputs (fetchInput z lt m i) ! j) \<or> stream (inputs (fetchInput z lt m i) ! j) = []"
    if "j = i \<or> hasValue (inputs m ! j) \<or> stream (inputs m ! j) = []" for j
    using that f(5,6) by (cases "j = i") auto
  show ?case
    using Cons.IH [OF f(1) IH] f(2,3,4) keep by (auto simp: f(4))
qed simp

lemma fetch_correct:
  assumes "heap_ok m"
  shows "heap_ok (fetch z lt m) \<and> settled (fetch z lt m) \<and> allPending (fetch z lt m) = allPending m \<and>
    mergeUnique (fetch z lt m) = mergeUnique m"
  using fetch_loop [OF assms, where z = z and ks = "[0..<length (inputs m)]"]
  by (auto simp: fetch_def settled_def in_set_conv_nth)

end

subsection \<open>Reading a merge\<close>

context keyed_values
begin

text \<open>The abstract step: one value of the stable sort, with its equals in a unique merge.\<close>

definition taken :: "bool \<Rightarrow> 'a list \<Rightarrow> 'a list" where
  "taken uniq xs = (if uniq then dropWhile (\<lambda>y. key y = key (hd xs)) (tl xs) else tl xs)"

lemma mergeGet_refines:
  assumes "merge_inv m"
  shows "case mergeGet z lt m of (r, m') \<Rightarrow>
    merge_inv m' \<and> \<not> inputChanged m' \<and> mergeUnique m' = mergeUnique m \<and>
    (if remaining m = [] then r = None \<and> remaining m' = []
     else r = Some (hd (remaining m)) \<and> remaining m' = taken (mergeUnique m) (remaining m))"
proof -
  define m1 where "m1 = (if inputChanged m then (fetch z lt m)\<lparr>inputChanged := False\<rparr> else m)"
  have upd: "heap_ok (n\<lparr>inputChanged := b\<rparr>) = heap_ok n" "settled (n\<lparr>inputChanged := b\<rparr>) = settled n"
    "remaining (n\<lparr>inputChanged := b\<rparr>) = remaining n" for n :: "'a Merge" and b
    by (simp_all add: heap_ok_def settled_def remaining_def allPending_def loaded_def)
  have m1: "heap_ok m1" "settled m1" "\<not> inputChanged m1" "remaining m1 = remaining m" "mergeUnique m1 = mergeUnique m"
    using assms fetch_correct [of m z]
    by (auto simp: m1_def merge_inv_def upd) (auto simp: settled_def remaining_def)
  show ?thesis
  proof (cases "minHeap m1 = []")
    case True
    then have "remaining m = []"
      using heap_empty_pending [OF m1(1,2) True] m1(4) by (simp add: remaining_def)
    then show ?thesis
      using True m1 by (simp add: mergeGet_def m1_def [symmetric] heapEmpty_def merge_inv_def settled_def)
  next
    case False
    define m2 where "m2 = advance z lt m1"
    note adv = advance_heap_ok(1-3) [OF m1(1) False, of z, folded m2_def]
      settled_advance [OF m1(1) False m1(2), of z, folded m2_def]
      advance_remaining [OF m1(1,2) False, of z, folded m2_def]
    define x where "x = topValue m1"
    note skip = skipEqual_correct [OF adv(1,4) order_refl, of z x]
    have rem: "remaining m = x # remaining m2" using adv(5) m1(4) by (simp add: x_def)
    have xs: "\<forall>y\<in>set (remaining m2). (\<not> lt x y) = (key y = key x)"
      using remaining_ok [OF m1(1)] m1(4) rem lt_key by fastforce
    then have dw: "dropWhile (\<lambda>y. \<not> lt x y) (remaining m2) = dropWhile (\<lambda>y. key y = key x) (remaining m2)"
      by (intro dropWhile_cong) auto
    have get: "mergeGet z lt m = (Some x, if mergeUnique m2 then skipEqual (work m2) z lt x m2 else m2)"
      using False by (simp add: mergeGet_def m1_def [symmetric] heapEmpty_def x_def m2_def Let_def)
    show ?thesis
      unfolding get prod.case rem taken_def
      using skip adv m1 dw by (auto simp: merge_inv_def settled_def)
  qed
qed

lemma mergeDrain_correct:
  assumes "merge_inv m" "length (remaining m) < n"
  shows "mergeDrain n z lt m = (if mergeUnique m then firstOfRuns key (remaining m) else remaining m)"
  using assms
proof (induction n arbitrary: m)
  case (Suc n)
  obtain r m' where get: "mergeGet z lt m = (r, m')" by force
  note ref = mergeGet_refines [OF Suc.prems(1), of z, unfolded get prod.case]
  show ?case
  proof (cases "remaining m")
    case Nil
    then show ?thesis using ref by (simp add: get)
  next
    case (Cons x xs)
    have "length (taken (mergeUnique m) (x # xs)) \<le> length xs"
      by (simp add: taken_def length_dropWhile_le)
    then have "length (remaining m') < n"
      using ref Cons Suc.prems(2) by simp
    with Suc.IH [of m'] ref Cons show ?thesis
      by (simp add: get taken_def)
  qed
qed simp

lemma pipe_all:
  "inputs (foldl (\<lambda>m s. pipeFrom z s m) m ss) = inputs m @ map (\<lambda>s. \<lparr>stream = s, ivalue = z, hasValue = False\<rparr>) ss"
  "minHeap (foldl (\<lambda>m s. pipeFrom z s m) m ss) = minHeap m"
  "mergeUnique (foldl (\<lambda>m s. pipeFrom z s m) m ss) = mergeUnique m"
  "inputChanged (foldl (\<lambda>m s. pipeFrom z s m) m ss) = (inputChanged m \<or> ss \<noteq> [])"
  by (induction ss arbitrary: m) (simp_all add: pipeFrom_def)

lemma mergeStreams_correct:
  assumes "\<forall>s\<in>set ss. sorted (map key s) \<and> list_all ok s"
  shows "mergeStreams z lt uniq ss =
     (if uniq then firstOfRuns key (sort_key key (concat ss)) else sort_key key (concat ss))"
proof -
  let ?m = "foldl (\<lambda>m s. pipeFrom z s m) (Merge0 uniq) ss"
  have ins: "inputs ?m = map (\<lambda>s. \<lparr>stream = s, ivalue = z, hasValue = False\<rparr>) ss"
    by (simp add: pipe_all Merge0_def)
  have "loaded ?m = {}" by (auto simp: loaded_def ins)
  moreover have "list_all input_ok (inputs ?m)"
    using assms by (auto simp: ins list_all_iff input_ok_def pending_def)
  ultimately have inv: "merge_inv ?m"
    by (auto simp: merge_inv_def heap_ok_def pipe_all Merge0_def heap_inv_def)
  have rem: "remaining ?m = sort_key key (concat ss)"
    by (simp add: remaining_def allPending_def ins pending_def comp_def)
  have len: "length (remaining ?m) < Suc (length (concat ss))"
    unfolding rem by simp
  have mu: "mergeUnique ?m = uniq"
    by (simp add: pipe_all Merge0_def)
  show ?thesis
    unfolding mergeStreams_def mergeDrain_correct [OF inv len] mu rem ..
qed

text \<open>A unique merge gives each key once, in ascending order, with the first of the elements that
  have it in the order of the streams.\<close>

lemma firstOfRuns_sorted:
  assumes "sorted (map key xs)"
  shows "sorted_wrt (\<lambda>a b. key a < key b) (firstOfRuns key xs)"
    and "set (firstOfRuns key xs) = {x. \<exists>ys zs. xs = ys @ x # zs \<and> (\<forall>y\<in>set ys. key y \<noteq> key x)}"
  using assms
proof (induction key xs rule: firstOfRuns.induct)
  case (1 f)
  { case 1 show ?case by simp next case 2 show ?case by simp }
next
  case (2 f x xs)
  let ?d = "dropWhile (\<lambda>y. f y = f x) xs" and ?t = "takeWhile (\<lambda>y. f y = f x) xs"
  have sd: "sorted (map f ?d)" if "sorted (map f (x # xs))"
    using that by (metis dropWhile_eq_drop drop_map list.simps(9) sorted_simps(2) sorted_wrt_drop)
  have gt: "\<forall>y\<in>set ?d. f x < f y" if "sorted (map f (x # xs))"
  proof (cases ?d)
    case (Cons d ds)
    have "f d \<noteq> f x" using hd_dropWhile [of "\<lambda>y. f y = f x" xs] Cons by simp
    moreover have "f x \<le> f d" using that Cons set_dropWhileD [of d "\<lambda>y. f y = f x" xs] by auto
    moreover have "\<forall>y\<in>set ds. f d \<le> f y" using sd [OF that] Cons by simp
    ultimately show ?thesis using Cons by auto
  next
    case Nil
    show ?thesis unfolding Nil by simp
  qed
  { case 1
    have "set (firstOfRuns f ?d) \<subseteq> set ?d"
      using "2.IH"(2) [OF sd [OF 1]] by auto
    with 1 "2.IH"(1) [OF sd [OF 1]] gt [OF 1] show ?case by auto
  next
    case 2
    have IH: "set (firstOfRuns f ?d) = {y. \<exists>ys zs. ?d = ys @ y # zs \<and> (\<forall>w\<in>set ys. f w \<noteq> f y)}"
      by (rule "2.IH"(2) [OF sd [OF 2]])
    show ?case
    proof (intro set_eqI iffI)
      fix y assume "y \<in> set (firstOfRuns f (x # xs))"
      then consider "y = x" | ys zs where "?d = ys @ y # zs" "\<forall>w\<in>set ys. f w \<noteq> f y"
        using IH by auto
      then show "y \<in> {y. \<exists>ys zs. x # xs = ys @ y # zs \<and> (\<forall>w\<in>set ys. f w \<noteq> f y)}"
      proof cases
        case 1
        have "x # xs = [] @ x # xs" by simp
        with 1 show ?thesis by fastforce
      next
        case (2 ys zs)
        then have "y \<in> set ?d" by simp
        then have "f x < f y" using gt \<open>sorted (map f (x # xs))\<close> by blast
        then have ne: "f x \<noteq> f y" by simp
        have "f w = f x" if "w \<in> set ?t" for w
          using set_takeWhileD [OF that] by blast
        with ne have "\<forall>w\<in>set ?t. f w \<noteq> f y" by metis
        with ne 2(2) have "\<forall>w\<in>set (x # ?t @ ys). f w \<noteq> f y"
          unfolding list.set set_append by blast
        moreover have "x # xs = (x # ?t @ ys) @ y # zs"
          using 2(1) takeWhile_dropWhile_id [of "\<lambda>y. f y = f x" xs] by simp
        ultimately show ?thesis by blast
      qed
    next
      fix y assume "y \<in> {y. \<exists>ys zs. x # xs = ys @ y # zs \<and> (\<forall>w\<in>set ys. f w \<noteq> f y)}"
      then obtain ys zs where y: "x # xs = ys @ y # zs" "\<forall>w\<in>set ys. f w \<noteq> f y" by blast
      show "y \<in> set (firstOfRuns f (x # xs))"
      proof (cases ys)
        case (Cons w ws)
        then have w: "w = x" "xs = ws @ y # zs" "f x \<noteq> f y" "\<forall>v\<in>set ws. f v \<noteq> f y"
          using y by auto
        have "?d = dropWhile (\<lambda>v. f v = f x) ws @ y # zs"
          using w(3) by (simp add: w(2) dropWhile_append)
        moreover have "\<forall>v\<in>set (dropWhile (\<lambda>v. f v = f x) ws). f v \<noteq> f y"
          using w(4) by (auto dest: set_dropWhileD)
        ultimately show ?thesis using IH by auto
      qed (use y in simp)
    qed }
qed

end

text \<open>The default functor \<open>std::less\<close>.\<close>

interpretation std_values: keyed_values "(<) :: 'a::linorder \<Rightarrow> 'a \<Rightarrow> bool" "\<lambda>x. x" "\<lambda>x. True"
  by unfold_locales simp


text \<open>The elements that come first among those of their key are the heads of what a filter by the key leaves.\<close>

lemma first_of_key:
  "(\<exists>ys zs. xs = ys @ x # zs \<and> (\<forall>y\<in>set ys. f y \<noteq> f x)) \<longleftrightarrow> (\<exists>zs. filter (\<lambda>y. f y = f x) xs = x # zs)"
  by (auto simp: filter_eq_Cons_iff)

lemma sort_key_filter:
  fixes f :: "'a \<Rightarrow> 'k::linorder"
  shows "filter (\<lambda>x. f x = k) (sort_key f xs) = filter (\<lambda>x. f x = k) xs"
  using sort_key_stable [of f k xs] by simp

subsection \<open>Properties\<close>

text \<open>
  C23. Merging streams that are sorted by a key delivers the stable sort of their concatenation:
  every element once per occurrence, in ascending order of the keys, and the elements with the
  same key in the order in which the streams were added and in which they are in their streams. A
  unique merge delivers every key once, with the first of its elements in that order. The functor
  need only agree with the order of the keys on the elements that are merged.
\<close>
theorem mergeStreams_is_stable_sort:
  fixes key :: "'a \<Rightarrow> 'k::linorder" and ss :: "'a list list"
  assumes "\<And>a b. a \<in> set (concat ss) \<Longrightarrow> b \<in> set (concat ss) \<Longrightarrow> lt a b \<longleftrightarrow> key a < key b"
    and "\<And>s. s \<in> set ss \<Longrightarrow> sorted (map key s)"
  shows "mset (mergeStreams z lt False ss) = mset (concat ss) \<and> sorted (map key (mergeStreams z lt False ss)) \<and>
    filter (\<lambda>x. key x = k) (mergeStreams z lt False ss) = filter (\<lambda>x. key x = k) (concat ss) \<and>
    sorted_wrt (\<lambda>a b. key a < key b) (mergeStreams z lt True ss) \<and>
    set (mergeStreams z lt True ss) = {x. \<exists>ys zs. concat ss = ys @ x # zs \<and> (\<forall>y\<in>set ys. key y \<noteq> key x)}"
proof -
  have kv: "keyed_values lt key (\<lambda>x. x \<in> set (concat ss))" by unfold_locales (rule assms(1))
  have "\<forall>s\<in>set ss. sorted (map key s) \<and> list_all (\<lambda>x. x \<in> set (concat ss)) s"
    using assms(2) by (auto simp: list_all_iff)
  note merged = keyed_values.mergeStreams_correct [OF kv this, of z]
  have sorted: "sorted (map key (sort_key key (concat ss)))" by simp
  note firsts = keyed_values.firstOfRuns_sorted [OF kv sorted, unfolded first_of_key sort_key_filter, folded first_of_key]
  show ?thesis using merged firsts by (simp add: sort_key_filter del: set_concat)
qed

theorem mergeStreams_is_stable_sort_witness:
  "filter (\<lambda>x. fst x = 1) (mergeStreams (0, ''z'') (\<lambda>a b. fst a < fst b) False [[(1, ''a''), (4, ''b'')], [(1, ''c''), (2 :: nat, ''d'')]]) =
     [(1, ''a''), (1, ''c'')]"
proof -
  let ?ss = "[[(1, ''a''), (4, ''b'')], [(1, ''c''), (2 :: nat, ''d'')]]"
  have "sorted (map fst s)" if "s \<in> set ?ss" for s using that by auto
  then show ?thesis
    using mergeStreams_is_stable_sort [of ?ss "\<lambda>a b. fst a < fst b" fst "(0, ''z'')" 1] by simp
qed

end
