(* ===== verification/Interval.thy ===== *)
theory Interval
  imports Prelude
begin

section \<open>Interval points and intervals (src/cc/warp/interval.h)\<close>

text \<open>
  The point types with the enum's order, interval points, the less-than order between
  points, and the operations of \<open>Interval\<close>. Every operation that the code templates over a
  less-than functor takes the functor \<open>lt\<close> as an argument; the value-initialised element
  \<open>T()\<close> is the argument \<open>z\<close>. The locale \<open>value_order\<close> holds what the code relies on of the
  functor (a strict weak order, the requirement the C++ standard library puts on it), and is
  interpreted for the default \<open>std::less\<close> on every linear order.
\<close>

subsection \<open>Point types\<close>

datatype PointType =
    PT_INFINITE_LOWER_BOUND
  | PT_EXCLUSIVE_UPPER_BOUND
  | PT_INCLUSIVE_LOWER_BOUND
  | PT_POINT
  | PT_INCLUSIVE_UPPER_BOUND
  | PT_EXCLUSIVE_LOWER_BOUND
  | PT_INFINITE_UPPER_BOUND

datatype BoundType = BT_INFINITE | BT_INCLUSIVE | BT_EXCLUSIVE

text \<open>The integer value that C++ gives each enumerator; the code compares types with \<open><\<close>.\<close>

primrec pt_value :: "PointType \<Rightarrow> nat" where
  "pt_value PT_INFINITE_LOWER_BOUND = 0"
| "pt_value PT_EXCLUSIVE_UPPER_BOUND = 1"
| "pt_value PT_INCLUSIVE_LOWER_BOUND = 2"
| "pt_value PT_POINT = 3"
| "pt_value PT_INCLUSIVE_UPPER_BOUND = 4"
| "pt_value PT_EXCLUSIVE_LOWER_BOUND = 5"
| "pt_value PT_INFINITE_UPPER_BOUND = 6"

lemma pt_value_inj: "pt_value a = pt_value b \<Longrightarrow> a = b"
  by (cases a; cases b) simp_all

instantiation PointType :: linorder
begin

definition less_eq_PointType :: "PointType \<Rightarrow> PointType \<Rightarrow> bool" where
  "less_eq_PointType a b = (pt_value a \<le> pt_value b)"

definition less_PointType :: "PointType \<Rightarrow> PointType \<Rightarrow> bool" where
  "less_PointType a b = (pt_value a < pt_value b)"

instance
  by standard
    (auto simp: less_eq_PointType_def less_PointType_def intro: pt_value_inj)

end

definition isLowerBound :: "PointType \<Rightarrow> bool" where
  "isLowerBound t \<longleftrightarrow> t = PT_INFINITE_LOWER_BOUND \<or> t = PT_EXCLUSIVE_LOWER_BOUND \<or>
     t = PT_INCLUSIVE_LOWER_BOUND"

definition isUpperBound :: "PointType \<Rightarrow> bool" where
  "isUpperBound t \<longleftrightarrow> t = PT_INFINITE_UPPER_BOUND \<or> t = PT_EXCLUSIVE_UPPER_BOUND \<or>
     t = PT_INCLUSIVE_UPPER_BOUND"

definition isInfinite :: "PointType \<Rightarrow> bool" where
  "isInfinite t \<longleftrightarrow> t = PT_INFINITE_LOWER_BOUND \<or> t = PT_INFINITE_UPPER_BOUND"

definition isFinite :: "PointType \<Rightarrow> bool" where
  "isFinite t \<longleftrightarrow> \<not> isInfinite t"

definition isInclusive :: "PointType \<Rightarrow> bool" where
  "isInclusive t \<longleftrightarrow> t = PT_INCLUSIVE_LOWER_BOUND \<or> t = PT_INCLUSIVE_UPPER_BOUND"

definition isExclusive :: "PointType \<Rightarrow> bool" where
  "isExclusive t \<longleftrightarrow> t = PT_EXCLUSIVE_LOWER_BOUND \<or> t = PT_EXCLUSIVE_UPPER_BOUND"

lemmas point_type_defs =
  isLowerBound_def isUpperBound_def isInfinite_def isFinite_def isInclusive_def isExclusive_def

lemma isUpperBound_not_lower: "isUpperBound t \<Longrightarrow> \<not> isLowerBound t"
  by (auto simp: point_type_defs)

subsection \<open>Interval points\<close>

record 'a IntervalPoint =
  pvalue :: 'a
  ptype :: PointType

definition mk_point :: "'a \<Rightarrow> PointType \<Rightarrow> 'a IntervalPoint" where
  "mk_point v t = \<lparr>pvalue = v, ptype = t\<rparr>"

lemma mk_point_sel [simp]: "pvalue (mk_point v t) = v" "ptype (mk_point v t) = t"
  by (simp_all add: mk_point_def)

lemma mk_point_collapse: "mk_point (pvalue p) (ptype p) = p"
  by (simp add: mk_point_def)

definition getAdjacentComplement :: "'a IntervalPoint \<Rightarrow> 'a IntervalPoint result" where
  "getAdjacentComplement p =
     (case ptype p of
        PT_EXCLUSIVE_UPPER_BOUND \<Rightarrow> Inr (mk_point (pvalue p) PT_INCLUSIVE_LOWER_BOUND)
      | PT_EXCLUSIVE_LOWER_BOUND \<Rightarrow> Inr (mk_point (pvalue p) PT_INCLUSIVE_UPPER_BOUND)
      | PT_INCLUSIVE_UPPER_BOUND \<Rightarrow> Inr (mk_point (pvalue p) PT_EXCLUSIVE_LOWER_BOUND)
      | PT_INCLUSIVE_LOWER_BOUND \<Rightarrow> Inr (mk_point (pvalue p) PT_EXCLUSIVE_UPPER_BOUND)
      | _ \<Rightarrow> Inl (ValueError ''undefined adjacent complement''))"

definition pointIsLowerBound :: "'a IntervalPoint \<Rightarrow> bool" where
  "pointIsLowerBound p = isLowerBound (ptype p)"

definition pointIsUpperBound :: "'a IntervalPoint \<Rightarrow> bool" where
  "pointIsUpperBound p = isUpperBound (ptype p)"

definition pointIsInfinite :: "'a IntervalPoint \<Rightarrow> bool" where
  "pointIsInfinite p = isInfinite (ptype p)"

definition pointIsFinite :: "'a IntervalPoint \<Rightarrow> bool" where
  "pointIsFinite p = isFinite (ptype p)"

definition pointIsInclusive :: "'a IntervalPoint \<Rightarrow> bool" where
  "pointIsInclusive p = isInclusive (ptype p)"

definition pointIsExclusive :: "'a IntervalPoint \<Rightarrow> bool" where
  "pointIsExclusive p = isExclusive (ptype p)"

lemmas point_pred_defs =
  pointIsLowerBound_def pointIsUpperBound_def pointIsInfinite_def pointIsFinite_def
  pointIsInclusive_def pointIsExclusive_def

text \<open>The stream output of a point; \<open>sh\<close> is the output of a value.\<close>

definition showPoint :: "('a \<Rightarrow> string) \<Rightarrow> 'a IntervalPoint \<Rightarrow> string" where
  "showPoint sh pt =
     (case ptype pt of
        PT_INFINITE_LOWER_BOUND \<Rightarrow> ''<<''
      | PT_EXCLUSIVE_UPPER_BOUND \<Rightarrow> sh (pvalue pt) @ '')''
      | PT_INCLUSIVE_LOWER_BOUND \<Rightarrow> ''['' @ sh (pvalue pt)
      | PT_POINT \<Rightarrow> sh (pvalue pt)
      | PT_INCLUSIVE_UPPER_BOUND \<Rightarrow> sh (pvalue pt) @ '']''
      | PT_EXCLUSIVE_LOWER_BOUND \<Rightarrow> ''('' @ sh (pvalue pt)
      | PT_INFINITE_UPPER_BOUND \<Rightarrow> ''>>'')"

subsection \<open>The order of points\<close>

definition isLess :: "('a \<Rightarrow> 'a \<Rightarrow> bool) \<Rightarrow> 'a \<Rightarrow> PointType \<Rightarrow> 'a \<Rightarrow> PointType \<Rightarrow> bool" where
  "isLess valueLt aValue aType bValue bType =
     (if isInfinite aType then
        (if isLowerBound aType then isFinite bType \<or> isUpperBound bType
         else False)
      else if isInfinite bType then isUpperBound bType
      else if valueLt aValue bValue then True
      else if valueLt bValue aValue then False
      else aType < bType)"

text \<open>The three overloads of the call operator: two points, a value and a point, a point and
  a value.\<close>

definition pointLt :: "('a \<Rightarrow> 'a \<Rightarrow> bool) \<Rightarrow> 'a IntervalPoint \<Rightarrow> 'a IntervalPoint \<Rightarrow> bool" where
  "pointLt lt a b = isLess lt (pvalue a) (ptype a) (pvalue b) (ptype b)"

definition valuePointLt :: "('a \<Rightarrow> 'a \<Rightarrow> bool) \<Rightarrow> 'a \<Rightarrow> 'a IntervalPoint \<Rightarrow> bool" where
  "valuePointLt lt x b = isLess lt x PT_POINT (pvalue b) (ptype b)"

definition pointValueLt :: "('a \<Rightarrow> 'a \<Rightarrow> bool) \<Rightarrow> 'a IntervalPoint \<Rightarrow> 'a \<Rightarrow> bool" where
  "pointValueLt lt a x = isLess lt (pvalue a) (ptype a) x PT_POINT"

lemma pointLt_value:
  "pointLt lt (mk_point x PT_POINT) b = valuePointLt lt x b"
  "pointLt lt a (mk_point x PT_POINT) = pointValueLt lt a x"
  by (simp_all add: pointLt_def valuePointLt_def pointValueLt_def)

text \<open>The comparison operators of \<open>IntervalPoint\<close>, all derived from the less-than.\<close>

definition pointGt :: "('a \<Rightarrow> 'a \<Rightarrow> bool) \<Rightarrow> 'a IntervalPoint \<Rightarrow> 'a IntervalPoint \<Rightarrow> bool" where
  "pointGt lt a b = pointLt lt b a"

definition pointLe :: "('a \<Rightarrow> 'a \<Rightarrow> bool) \<Rightarrow> 'a IntervalPoint \<Rightarrow> 'a IntervalPoint \<Rightarrow> bool" where
  "pointLe lt a b = (\<not> pointLt lt b a)"

definition pointGe :: "('a \<Rightarrow> 'a \<Rightarrow> bool) \<Rightarrow> 'a IntervalPoint \<Rightarrow> 'a IntervalPoint \<Rightarrow> bool" where
  "pointGe lt a b = (\<not> pointLt lt a b)"

definition pointEq :: "('a \<Rightarrow> 'a \<Rightarrow> bool) \<Rightarrow> 'a IntervalPoint \<Rightarrow> 'a IntervalPoint \<Rightarrow> bool" where
  "pointEq lt a b = (\<not> (pointLt lt a b \<or> pointLt lt b a))"

definition pointNe :: "('a \<Rightarrow> 'a \<Rightarrow> bool) \<Rightarrow> 'a IntervalPoint \<Rightarrow> 'a IntervalPoint \<Rightarrow> bool" where
  "pointNe lt a b = (\<not> pointEq lt a b)"

subsection \<open>What the code relies on of the less-than functor\<close>

text \<open>
  A strict weak order, in two axioms: asymmetry, and co-transitivity (incomparability is then
  an equivalence).
\<close>

locale value_order =
  fixes lt :: "'a \<Rightarrow> 'a \<Rightarrow> bool"
  assumes lt_asym: "lt x y \<Longrightarrow> \<not> lt y x"
    and lt_cotrans: "lt x y \<Longrightarrow> lt x z \<or> lt z y"
begin

lemma lt_irrefl [simp]: "\<not> lt x x"
  using lt_asym by blast

lemma lt_trans: "lt x y \<Longrightarrow> lt y z \<Longrightarrow> lt x z"
  using lt_asym lt_cotrans by blast

lemma pointLt_asym: "pointLt lt a b \<Longrightarrow> \<not> pointLt lt b a"
  using lt_asym
  by (auto simp: pointLt_def isLess_def point_type_defs split: if_splits)

lemma pointLt_cotrans: "pointLt lt a b \<Longrightarrow> pointLt lt a c \<or> pointLt lt c b"
  unfolding pointLt_def isLess_def point_type_defs
  by (cases "ptype a"; cases "ptype b"; cases "ptype c")
    (auto simp: less_PointType_def split: if_splits dest: lt_asym lt_cotrans)

lemma pointLt_irrefl [simp]: "\<not> pointLt lt a a"
  using pointLt_asym by blast

lemma pointLt_trans: "pointLt lt a b \<Longrightarrow> pointLt lt b c \<Longrightarrow> pointLt lt a c"
  using pointLt_asym pointLt_cotrans by blast

lemma pointLt_le_trans: "pointLt lt a b \<Longrightarrow> \<not> pointLt lt c b \<Longrightarrow> pointLt lt a c"
  using pointLt_cotrans by blast

lemma pointLe_lt_trans: "\<not> pointLt lt b a \<Longrightarrow> pointLt lt b c \<Longrightarrow> pointLt lt a c"
  using pointLt_cotrans by blast

text \<open>A bound is never incomparable with a point value: their types differ.\<close>

lemma pointLt_value_total:
  assumes "ptype p \<noteq> PT_POINT"
  shows "pointLt lt p (mk_point v PT_POINT) \<longleftrightarrow> \<not> pointLt lt (mk_point v PT_POINT) p"
  using assms unfolding pointLt_def isLess_def point_type_defs
  by (cases "ptype p") (auto simp: less_PointType_def dest: lt_asym)

end

interpretation std_less: value_order "(<) :: 'a::linorder \<Rightarrow> 'a \<Rightarrow> bool"
  by unfold_locales auto

subsection \<open>Intervals\<close>

record 'a Interval =
  lowerBound :: "'a IntervalPoint"
  upperBound :: "'a IntervalPoint"

text \<open>The default constructor and the constructor from two points.\<close>

definition Interval0 :: "'a \<Rightarrow> 'a Interval" where
  "Interval0 z = \<lparr>lowerBound = mk_point z PT_EXCLUSIVE_LOWER_BOUND,
                  upperBound = mk_point z PT_EXCLUSIVE_UPPER_BOUND\<rparr>"

definition Interval2 :: "'a IntervalPoint \<Rightarrow> 'a IntervalPoint \<Rightarrow> 'a Interval result" where
  "Interval2 lb ub =
     (if \<not> pointIsLowerBound lb then Inl (ValueError ''invalid lower bound'')
      else if \<not> pointIsUpperBound ub then Inl (ValueError ''invalid upper bound'')
      else Inr \<lparr>lowerBound = lb, upperBound = ub\<rparr>)"

definition setLowerBound :: "'a \<Rightarrow> BoundType \<Rightarrow> 'a Interval \<Rightarrow> 'a Interval" where
  "setLowerBound bound type i =
     i\<lparr>lowerBound := mk_point bound
        (if type = BT_INCLUSIVE then PT_INCLUSIVE_LOWER_BOUND
         else if type = BT_EXCLUSIVE then PT_EXCLUSIVE_LOWER_BOUND
         else PT_INFINITE_LOWER_BOUND)\<rparr>"

definition setLowerBoundPoint :: "'a IntervalPoint \<Rightarrow> 'a Interval \<Rightarrow> 'a Interval result" where
  "setLowerBoundPoint p i =
     (if \<not> pointIsLowerBound p then Inl (ValueError ''invalid lower bound'')
      else Inr (i\<lparr>lowerBound := p\<rparr>))"

definition unsetLowerBound :: "'a \<Rightarrow> 'a Interval \<Rightarrow> 'a Interval" where
  "unsetLowerBound z i = i\<lparr>lowerBound := mk_point z PT_INFINITE_LOWER_BOUND\<rparr>"

definition setUpperBound :: "'a \<Rightarrow> BoundType \<Rightarrow> 'a Interval \<Rightarrow> 'a Interval" where
  "setUpperBound bound type i =
     i\<lparr>upperBound := mk_point bound
        (if type = BT_EXCLUSIVE then PT_EXCLUSIVE_UPPER_BOUND
         else if type = BT_INCLUSIVE then PT_INCLUSIVE_UPPER_BOUND
         else PT_INFINITE_UPPER_BOUND)\<rparr>"

definition setUpperBoundPoint :: "'a IntervalPoint \<Rightarrow> 'a Interval \<Rightarrow> 'a Interval result" where
  "setUpperBoundPoint p i =
     (if \<not> pointIsUpperBound p then Inl (ValueError ''invalid upper bound'')
      else Inr (i\<lparr>upperBound := p\<rparr>))"

definition unsetUpperBound :: "'a \<Rightarrow> 'a Interval \<Rightarrow> 'a Interval" where
  "unsetUpperBound z i = i\<lparr>upperBound := mk_point z PT_INFINITE_UPPER_BOUND\<rparr>"

definition setPoint :: "'a \<Rightarrow> 'a Interval \<Rightarrow> 'a Interval" where
  "setPoint x i = setUpperBound x BT_INCLUSIVE (setLowerBound x BT_INCLUSIVE i)"

definition setInfinite :: "'a \<Rightarrow> 'a Interval \<Rightarrow> 'a Interval" where
  "setInfinite z i = unsetUpperBound z (unsetLowerBound z i)"

definition setEmpty :: "'a \<Rightarrow> 'a Interval \<Rightarrow> 'a Interval" where
  "setEmpty z i = setUpperBound z BT_EXCLUSIVE (setLowerBound z BT_EXCLUSIVE i)"

definition intervalIsInfinite :: "'a Interval \<Rightarrow> bool" where
  "intervalIsInfinite i = (pointIsInfinite (lowerBound i) \<and> pointIsInfinite (upperBound i))"

definition intervalIsEmpty :: "('a \<Rightarrow> 'a \<Rightarrow> bool) \<Rightarrow> 'a Interval \<Rightarrow> bool" where
  "intervalIsEmpty lt i = pointLt lt (upperBound i) (lowerBound i)"

definition intervalContains :: "('a \<Rightarrow> 'a \<Rightarrow> bool) \<Rightarrow> 'a Interval \<Rightarrow> 'a \<Rightarrow> bool" where
  "intervalContains lt i x = (pointValueLt lt (lowerBound i) x \<and> valuePointLt lt x (upperBound i))"

definition intervalContainsInterval ::
  "('a \<Rightarrow> 'a \<Rightarrow> bool) \<Rightarrow> 'a Interval \<Rightarrow> 'a Interval \<Rightarrow> bool" where
  "intervalContainsInterval lt i o' =
     (if pointLt lt (upperBound i) (lowerBound i) then False
      else if pointLt lt (upperBound o') (lowerBound o') then True
      else \<not> pointLt lt (lowerBound o') (lowerBound i) \<and>
           \<not> pointLt lt (upperBound i) (upperBound o'))"

definition intervalOverlaps :: "('a \<Rightarrow> 'a \<Rightarrow> bool) \<Rightarrow> 'a Interval \<Rightarrow> 'a Interval \<Rightarrow> bool" where
  "intervalOverlaps lt i o' =
     (if pointLt lt (upperBound i) (lowerBound i) \<or> pointLt lt (upperBound o') (lowerBound o')
      then False
      else if pointLt lt (upperBound i) (lowerBound o') \<or> pointLt lt (upperBound o') (lowerBound i)
      then False
      else True)"

text \<open>
  \<open>clip\<close> takes an ordering and then builds its point order from a default-constructed one:
  \<open>dlt\<close> is the functor \<open>Lt()\<close>, and the argument \<open>lt\<close> is not used.
\<close>

definition intervalClip ::
  "('a \<Rightarrow> 'a \<Rightarrow> bool) \<Rightarrow> 'a Interval \<Rightarrow> ('a \<Rightarrow> 'a \<Rightarrow> bool) \<Rightarrow> 'a Interval \<Rightarrow> 'a Interval" where
  "intervalClip dlt o' lt i =
     (let i1 = (if pointLt dlt (lowerBound i) (lowerBound o')
                then i\<lparr>lowerBound := lowerBound o'\<rparr> else i)
      in if pointLt dlt (upperBound o') (upperBound i1)
         then i1\<lparr>upperBound := upperBound o'\<rparr> else i1)"

definition showInterval :: "('a \<Rightarrow> string) \<Rightarrow> 'a Interval \<Rightarrow> string" where
  "showInterval sh i = showPoint sh (lowerBound i) @ '' '' @ showPoint sh (upperBound i)"

definition makeInterval :: "'a \<Rightarrow> 'a \<Rightarrow> bool \<Rightarrow> bool \<Rightarrow> 'a Interval result" where
  "makeInterval lb ub lInclusive uInclusive =
     Interval2
       (mk_point lb (if lInclusive then PT_INCLUSIVE_LOWER_BOUND else PT_EXCLUSIVE_LOWER_BOUND))
       (mk_point ub (if uInclusive then PT_INCLUSIVE_UPPER_BOUND else PT_EXCLUSIVE_UPPER_BOUND))"

definition makeLowerBound :: "'a \<Rightarrow> 'a \<Rightarrow> bool \<Rightarrow> 'a Interval result" where
  "makeLowerBound z lb lInclusive =
     Interval2
       (mk_point lb (if lInclusive then PT_INCLUSIVE_LOWER_BOUND else PT_EXCLUSIVE_LOWER_BOUND))
       (mk_point z PT_INFINITE_UPPER_BOUND)"

definition makeUpperBound :: "'a \<Rightarrow> 'a \<Rightarrow> bool \<Rightarrow> 'a Interval result" where
  "makeUpperBound z ub uInclusive =
     Interval2
       (mk_point z PT_INFINITE_LOWER_BOUND)
       (mk_point ub (if uInclusive then PT_INCLUSIVE_UPPER_BOUND else PT_EXCLUSIVE_UPPER_BOUND))"

definition makeUnboundedInterval :: "'a \<Rightarrow> 'a Interval result" where
  "makeUnboundedInterval z =
     Interval2 (mk_point z PT_INFINITE_LOWER_BOUND) (mk_point z PT_INFINITE_UPPER_BOUND)"

text \<open>Well-formedness: what every constructor and setter of the class establishes.\<close>

definition interval_wf :: "'a Interval \<Rightarrow> bool" where
  [wf_simps]: "interval_wf i \<longleftrightarrow> pointIsLowerBound (lowerBound i) \<and> pointIsUpperBound (upperBound i)"

subsection \<open>Membership and the interval operations\<close>

lemma intervalContains_points:
  "intervalContains lt i x \<longleftrightarrow>
     pointLt lt (lowerBound i) (mk_point x PT_POINT) \<and> pointLt lt (mk_point x PT_POINT) (upperBound i)"
  by (simp add: intervalContains_def pointLt_value)

context value_order
begin

lemma contains_not_empty: "intervalContains lt i x \<Longrightarrow> \<not> intervalIsEmpty lt i"
  unfolding intervalContains_points intervalIsEmpty_def
  using pointLt_asym pointLt_trans by blast

lemma containsInterval_sound:
  assumes "intervalContainsInterval lt i j" "intervalContains lt j x"
  shows "intervalContains lt i x"
proof -
  let ?x = "mk_point x PT_POINT"
  have ne: "\<not> pointLt lt (upperBound j) (lowerBound j)"
    using contains_not_empty [OF assms(2)] by (simp add: intervalIsEmpty_def)
  have b: "\<not> pointLt lt (lowerBound j) (lowerBound i)" "\<not> pointLt lt (upperBound i) (upperBound j)"
    using assms(1) ne by (auto simp: intervalContainsInterval_def split: if_splits)
  have x: "pointLt lt (lowerBound j) ?x" "pointLt lt ?x (upperBound j)"
    using assms(2) by (simp_all add: intervalContains_points)
  show ?thesis
    using pointLe_lt_trans [OF b(1) x(1)] pointLt_le_trans [OF x(2) b(2)]
    by (simp add: intervalContains_points)
qed

lemma not_overlaps_disjoint:
  assumes "intervalContains lt i x" "intervalContains lt j x"
  shows "intervalOverlaps lt i j"
proof -
  let ?x = "mk_point x PT_POINT"
  have x: "pointLt lt (lowerBound i) ?x" "pointLt lt ?x (upperBound i)"
      "pointLt lt (lowerBound j) ?x" "pointLt lt ?x (upperBound j)"
    using assms by (simp_all add: intervalContains_points)
  have "\<not> pointLt lt (upperBound i) (lowerBound i)" "\<not> pointLt lt (upperBound j) (lowerBound j)"
      "\<not> pointLt lt (upperBound i) (lowerBound j)" "\<not> pointLt lt (upperBound j) (lowerBound i)"
    using pointLt_asym [OF pointLt_trans [OF x(1) x(2)]] pointLt_asym [OF pointLt_trans [OF x(3) x(4)]]
      pointLt_asym [OF pointLt_trans [OF x(3) x(2)]] pointLt_asym [OF pointLt_trans [OF x(1) x(4)]]
    by simp_all
  then show ?thesis
    by (simp add: intervalOverlaps_def)
qed

lemma clip_contains:
  "intervalContains lt (intervalClip lt j lt' i) x \<longleftrightarrow>
     intervalContains lt i x \<and> intervalContains lt j x"
proof -
  have lo: "pointLt lt (if pointLt lt a b then b else a) c \<longleftrightarrow> pointLt lt a c \<and> pointLt lt b c"
    for a b c
    using pointLt_trans [of a b c] pointLe_lt_trans [of a b c] by (cases "pointLt lt a b") auto
  have hi: "pointLt lt c (if pointLt lt b a then b else a) \<longleftrightarrow> pointLt lt c a \<and> pointLt lt c b"
    for a b c
    using pointLt_trans [of c b a] pointLt_le_trans [of c a b] by (cases "pointLt lt b a") auto
  have "lowerBound (intervalClip lt j lt' i) =
          (if pointLt lt (lowerBound i) (lowerBound j) then lowerBound j else lowerBound i)"
       "upperBound (intervalClip lt j lt' i) =
          (if pointLt lt (upperBound j) (upperBound i) then upperBound j else upperBound i)"
    by (simp_all add: intervalClip_def Let_def)
  then show ?thesis
    by (simp only: intervalContains_points lo hi conj_ac)
qed

end

lemma interval_ops_wf:
  "interval_wf i \<Longrightarrow> interval_wf (setLowerBound v t i)"
  "interval_wf i \<Longrightarrow> interval_wf (setUpperBound v t i)"
  "interval_wf i \<Longrightarrow> interval_wf (unsetLowerBound v i)"
  "interval_wf i \<Longrightarrow> interval_wf (unsetUpperBound v i)"
  "interval_wf (setPoint v i)" "interval_wf (setInfinite v i)" "interval_wf (setEmpty v i)"
  "interval_wf (Interval0 v)"
  "Interval2 a b = Inr j \<Longrightarrow> interval_wf j"
  by (auto simp: wf_simps setLowerBound_def setUpperBound_def unsetLowerBound_def
      unsetUpperBound_def setPoint_def setInfinite_def setEmpty_def Interval0_def Interval2_def
      pointIsLowerBound_def pointIsUpperBound_def isLowerBound_def isUpperBound_def split: if_splits)

text \<open>Membership against each kind of bound, for the default order.\<close>

lemma pointValueLt_simps [simp]:
  fixes b x :: "'a::linorder"
  shows "pointValueLt (<) (mk_point b PT_INFINITE_LOWER_BOUND) x"
    "pointValueLt (<) (mk_point b PT_INCLUSIVE_LOWER_BOUND) x \<longleftrightarrow> b \<le> x"
    "pointValueLt (<) (mk_point b PT_EXCLUSIVE_LOWER_BOUND) x \<longleftrightarrow> b < x"
  by (auto simp: pointValueLt_def isLess_def point_type_defs less_PointType_def)

lemma valuePointLt_simps [simp]:
  fixes b x :: "'a::linorder"
  shows "valuePointLt (<) x (mk_point b PT_INFINITE_UPPER_BOUND)"
    "valuePointLt (<) x (mk_point b PT_INCLUSIVE_UPPER_BOUND) \<longleftrightarrow> x \<le> b"
    "valuePointLt (<) x (mk_point b PT_EXCLUSIVE_UPPER_BOUND) \<longleftrightarrow> x < b"
  by (auto simp: valuePointLt_def isLess_def point_type_defs less_PointType_def)

fun aboveBound :: "BoundType \<Rightarrow> 'a::linorder \<Rightarrow> 'a \<Rightarrow> bool" where
  "aboveBound BT_INFINITE b x = True"
| "aboveBound BT_INCLUSIVE b x = (b \<le> x)"
| "aboveBound BT_EXCLUSIVE b x = (b < x)"

fun belowBound :: "BoundType \<Rightarrow> 'a::linorder \<Rightarrow> 'a \<Rightarrow> bool" where
  "belowBound BT_INFINITE b x = True"
| "belowBound BT_INCLUSIVE b x = (x \<le> b)"
| "belowBound BT_EXCLUSIVE b x = (x < b)"

lemma contains_setBounds:
  "intervalContains (<) (setUpperBound u ku (setLowerBound l kl i)) x \<longleftrightarrow>
     aboveBound kl l x \<and> belowBound ku u x"
  by (cases kl; cases ku) (simp_all add: intervalContains_def setUpperBound_def setLowerBound_def)

lemma contains_setters [simp]:
  fixes x :: "'a::linorder"
  shows "intervalContains (<) (setPoint v i) x \<longleftrightarrow> x = v"
    "intervalContains (<) (setInfinite v i) x"
    "\<not> intervalContains (<) (setEmpty v i) x"
    "intervalContains (<) (unsetUpperBound z (setLowerBound l kl i)) x \<longleftrightarrow> aboveBound kl l x"
    "intervalContains (<) (unsetLowerBound z (setUpperBound u ku i)) x \<longleftrightarrow> belowBound ku u x"
    "intervalContains (<) (unsetUpperBound z (unsetLowerBound z' i)) x"
proof -
  note defs = intervalContains_def unsetUpperBound_def unsetLowerBound_def setInfinite_def
    setLowerBound_def setUpperBound_def
  show "intervalContains (<) (setPoint v i) x \<longleftrightarrow> x = v" "\<not> intervalContains (<) (setEmpty v i) x"
    by (auto simp: setPoint_def setEmpty_def contains_setBounds)
  show "intervalContains (<) (setInfinite v i) x"
      "intervalContains (<) (unsetUpperBound z (unsetLowerBound z' i)) x"
    by (simp_all add: defs)
  show "intervalContains (<) (unsetUpperBound z (setLowerBound l kl i)) x \<longleftrightarrow> aboveBound kl l x"
    by (cases kl) (simp_all add: defs)
  show "intervalContains (<) (unsetLowerBound z (setUpperBound u ku i)) x \<longleftrightarrow> belowBound ku u x"
    by (cases ku) (simp_all add: defs)
qed

subsection \<open>Properties\<close>

text \<open>
  The order between interval points that every search, merge and clip uses is a strict
  weak order on points of all seven types (infinite bounds and plain values included), and it
  never leaves a bound and a value incomparable.
\<close>

theorem pointLt_strict_weak_order:
  fixes a b c :: "'a::linorder IntervalPoint"
  shows "(pointLt (<) a b \<longrightarrow> \<not> pointLt (<) b a)
    \<and> (pointLt (<) a b \<longrightarrow> pointLt (<) a c \<or> pointLt (<) c b)
    \<and> (ptype a \<noteq> PT_POINT \<longrightarrow> pointLt (<) a (mk_point v PT_POINT) \<noteq> pointLt (<) (mk_point v PT_POINT) a)"
  by (blast dest: std_less.pointLt_asym std_less.pointLt_cotrans std_less.pointLt_value_total)

theorem pointLt_strict_weak_order_witness:
  "pointLt (<) (mk_point (3::int) PT_EXCLUSIVE_UPPER_BOUND) (mk_point 3 PT_INCLUSIVE_LOWER_BOUND)
   \<and> pointLt (<) (mk_point 3 PT_EXCLUSIVE_UPPER_BOUND) (mk_point (3::int) PT_POINT)
   \<and> \<not> pointLt (<) (mk_point 3 PT_INCLUSIVE_LOWER_BOUND) (mk_point (3::int) PT_EXCLUSIVE_UPPER_BOUND)"
proof -
  let ?a = "mk_point (3::int) PT_EXCLUSIVE_UPPER_BOUND"
  let ?b = "mk_point (3::int) PT_INCLUSIVE_LOWER_BOUND"
  have "pointLt (<) ?a ?b" "pointLt (<) ?a (mk_point 3 PT_POINT)"
    by (simp_all add: pointLt_def isLess_def point_type_defs less_PointType_def)
  then show ?thesis
    using pointLt_strict_weak_order [of ?a ?b ?a 3] by simp
qed

text \<open>
  Clipping an interval to another is intersection: a value is in the clipped interval
  exactly when it is in both, whatever bounds the two have (also when they do not overlap).
\<close>

theorem interval_clip_is_intersection:
  fixes x :: "'a::linorder"
  shows "intervalContains (<) (intervalClip (<) j (<) i) x \<longleftrightarrow>
    intervalContains (<) i x \<and> intervalContains (<) j x"
  by (rule std_less.clip_contains)

text \<open>
  The interval tests are sound for membership: an interval reported to contain another
  holds each of its values, two intervals with a common value are reported to overlap, and an
  interval reported empty has no value.
\<close>

theorem interval_tests_sound:
  fixes x :: "'a::linorder"
  shows "(intervalContainsInterval (<) i j \<and> intervalContains (<) j x \<longrightarrow> intervalContains (<) i x)
    \<and> (intervalContains (<) i x \<and> intervalContains (<) j x \<longrightarrow> intervalOverlaps (<) i j)
    \<and> (intervalIsEmpty (<) i \<longrightarrow> \<not> intervalContains (<) i x)"
  using std_less.containsInterval_sound std_less.not_overlaps_disjoint std_less.contains_not_empty
  by blast

theorem interval_tests_sound_witness:
  "intervalOverlaps (<) (setPoint (2::int) (Interval0 0)) (setInfinite 0 (Interval0 0))"
  using interval_tests_sound [of "setPoint 2 (Interval0 0)" "setInfinite 0 (Interval0 0)" "2::int"]
  by simp

end
