(* ===== verification/IntervalSet.thy ===== *)
theory IntervalSet
  imports Interval
begin

section \<open>Sets of intervals (src/cc/warp/interval.h, class IntervalSet)\<close>

text \<open>
  The class keeps a sorted vector of bounds. Iterators are indices into it; the standard
  searches \<open>lower_bound\<close> and \<open>upper_bound\<close> return the partition point of a partitioned
  vector, which is the length of the prefix that satisfies the searched predicate. The
  invariants 1 to 5 of the class comment are \<open>iset_inv\<close>. Membership of a value in a vector of
  alternating bounds is the parity of the number of bounds below it, the fact from which the
  lemmas on \<open>add\<close>, \<open>clip\<close> and \<open>intersect\<close> are proved.
\<close>

record 'a IntervalSet =
  points :: "'a IntervalPoint list"

definition IntervalSet0 :: "'a IntervalSet" where
  "IntervalSet0 = \<lparr>points = []\<rparr>"

subsection \<open>Searches\<close>

definition lower_bound :: "('a \<Rightarrow> 'a \<Rightarrow> bool) \<Rightarrow> 'a IntervalPoint list \<Rightarrow> 'a IntervalPoint \<Rightarrow> nat" where
  "lower_bound lt ps x = length (takeWhile (\<lambda>p. pointLt lt p x) ps)"

definition upper_bound :: "('a \<Rightarrow> 'a \<Rightarrow> bool) \<Rightarrow> 'a IntervalPoint list \<Rightarrow> 'a IntervalPoint \<Rightarrow> nat" where
  "upper_bound lt ps x = length (takeWhile (\<lambda>p. \<not> pointLt lt x p) ps)"

definition isInRange :: "'a IntervalPoint list \<Rightarrow> nat \<Rightarrow> bool" where
  "isInRange ps it \<longleftrightarrow> it < length ps \<and> pointIsUpperBound (ps ! it)"

subsection \<open>Queries\<close>

definition isetSize :: "'a IntervalSet \<Rightarrow> nat" where
  "isetSize s = length (points s)"

definition isetIsEmpty :: "'a IntervalSet \<Rightarrow> bool" where
  "isetIsEmpty s = (points s = [])"

definition isetIsInfinite :: "'a IntervalSet \<Rightarrow> bool" where
  "isetIsInfinite s =
     (0 < length (points s) \<and> pointIsInfinite (points s ! 0) \<and>
      1 < length (points s) \<and> pointIsInfinite (points s ! 1))"

definition isetContains :: "('a \<Rightarrow> 'a \<Rightarrow> bool) \<Rightarrow> 'a IntervalSet \<Rightarrow> 'a \<Rightarrow> bool" where
  "isetContains lt s x = isInRange (points s) (lower_bound lt (points s) (mk_point x PT_POINT))"

definition isetContainsInterval :: "('a \<Rightarrow> 'a \<Rightarrow> bool) \<Rightarrow> 'a IntervalSet \<Rightarrow> 'a Interval \<Rightarrow> bool" where
  "isetContainsInterval lt s x =
     (if \<not> pointLt lt (lowerBound x) (upperBound x) then False
      else let lo = upper_bound lt (points s) (lowerBound x);
               hi = lower_bound lt (points s) (upperBound x)
           in lo = hi \<and> isInRange (points s) lo)"

definition isetOverlaps :: "('a \<Rightarrow> 'a \<Rightarrow> bool) \<Rightarrow> 'a IntervalSet \<Rightarrow> 'a Interval \<Rightarrow> bool" where
  "isetOverlaps lt s x =
     (if \<not> pointLt lt (lowerBound x) (upperBound x) then False
      else let lo = upper_bound lt (points s) (lowerBound x);
               hi = lower_bound lt (points s) (upperBound x)
           in lo \<noteq> hi \<or> isInRange (points s) lo)"

definition getHull :: "'a \<Rightarrow> 'a IntervalSet \<Rightarrow> 'a Interval result" where
  "getHull z s =
     (if isetIsEmpty s then Inr (setEmpty z (Interval0 z))
      else Interval2 (hd (points s)) (last (points s)))"

subsection \<open>Updates\<close>

definition pickLowerBound :: "('a \<Rightarrow> 'a \<Rightarrow> bool) \<Rightarrow> 'a IntervalPoint list \<Rightarrow> nat \<Rightarrow> nat" where
  "pickLowerBound lt ps it =
     (if it = 0 then it
      else let other = it - 1
           in if pointIsLowerBound (ps ! other) then other
              else if pointIsExclusive (ps ! it) \<and> pointIsExclusive (ps ! other) then it
              else if \<not> lt (pvalue (ps ! other)) (pvalue (ps ! it)) then other - 1
              else it)"

definition pickUpperBound :: "('a \<Rightarrow> 'a \<Rightarrow> bool) \<Rightarrow> 'a IntervalPoint list \<Rightarrow> nat \<Rightarrow> nat" where
  "pickUpperBound lt ps it =
     (let other = it + 1
      in if other = length ps then it
         else if pointIsUpperBound (ps ! other) then other
         else if pointIsExclusive (ps ! it) \<and> pointIsExclusive (ps ! other) then it
         else if \<not> lt (pvalue (ps ! it)) (pvalue (ps ! other)) then other + 1
         else it)"

definition isetAdd :: "('a \<Rightarrow> 'a \<Rightarrow> bool) \<Rightarrow> 'a Interval \<Rightarrow> 'a IntervalSet \<Rightarrow> 'a IntervalSet" where
  "isetAdd lt x s =
     (if \<not> pointLt lt (lowerBound x) (upperBound x) then s
      else
        let ps = points s;
            lower0 = lower_bound lt ps (lowerBound x);
            (ps1, lower) =
              (if lower0 = length ps \<or> pointLt lt (lowerBound x) (ps ! lower0)
               then let ps' = vec_insert lower0 (lowerBound x) ps
                    in (ps', pickLowerBound lt ps' lower0)
               else (ps, lower0));
            upper0 = upper_bound lt ps1 (upperBound x);
            (ps2, upper) =
              (if upper0 = length ps1 \<or> pointLt lt (ps1 ! (upper0 - 1)) (upperBound x)
               then let ps' = vec_insert upper0 (upperBound x) ps1
                    in (ps', pickUpperBound lt ps' upper0)
               else (ps1, upper0));
            lower' = lower + 1
        in s\<lparr>points := (if lower' \<noteq> upper then vec_erase lower' upper ps2 else ps2)\<rparr>)"

definition isetClip :: "('a \<Rightarrow> 'a \<Rightarrow> bool) \<Rightarrow> 'a Interval \<Rightarrow> 'a IntervalSet \<Rightarrow> 'a IntervalSet" where
  "isetClip lt x s =
     (if \<not> pointLt lt (lowerBound x) (upperBound x) then s\<lparr>points := []\<rparr>
      else
        let ps = points s;
            lower = lower_bound lt ps (lowerBound x);
            ps1 = (if isInRange ps lower then vec_insert lower (lowerBound x) ps else ps);
            ps2 = vec_erase 0 lower ps1;
            upper = upper_bound lt ps2 (upperBound x);
            (ps3, upper') =
              (if isInRange ps2 upper then (vec_insert upper (upperBound x) ps2, upper + 1)
               else (ps2, upper))
        in s\<lparr>points := vec_erase upper' (length ps3) ps3\<rparr>)"

text \<open>The loop of \<open>intersect\<close>: the two iterators are the remaining lists.\<close>

fun intersectLoop ::
  "('a \<Rightarrow> 'a \<Rightarrow> bool) \<Rightarrow> 'a IntervalPoint list \<Rightarrow> 'a IntervalPoint list \<Rightarrow> bool \<Rightarrow> bool \<Rightarrow>
     'a IntervalPoint list" where
  "intersectLoop lt (i # is) (j # js) inI inJ =
     (if pointLt lt j i
      then (if inI then [j] else []) @ intersectLoop lt (i # is) js inI (\<not> inJ)
      else (if inJ then [i] else []) @ intersectLoop lt is (j # js) (\<not> inI) inJ)"
| "intersectLoop lt [] js inI inJ = []"
| "intersectLoop lt is [] inI inJ = []"

definition isetIntersect :: "('a \<Rightarrow> 'a \<Rightarrow> bool) \<Rightarrow> 'a IntervalSet \<Rightarrow> 'a IntervalSet \<Rightarrow> 'a IntervalSet" where
  "isetIntersect lt o' s = s\<lparr>points := intersectLoop lt (points s) (points o') False False\<rparr>"

fun joinSpace :: "string list \<Rightarrow> string" where
  "joinSpace [] = []"
| "joinSpace [x] = x"
| "joinSpace (x # y # ys) = x @ '' '' @ joinSpace (y # ys)"

definition showIntervalSet :: "('a \<Rightarrow> string) \<Rightarrow> 'a IntervalSet \<Rightarrow> string" where
  "showIntervalSet sh s = joinSpace (map (showPoint sh) (points s))"

subsection \<open>The class invariant\<close>

text \<open>Lower and upper bounds alternate; \<open>b\<close> says that a lower bound comes next.\<close>

fun alternating :: "bool \<Rightarrow> 'a IntervalPoint list \<Rightarrow> bool" where
  "alternating b [] = True"
| "alternating b (p # ps) =
     ((if b then pointIsLowerBound p else pointIsUpperBound p) \<and> alternating (\<not> b) ps)"

definition iset_inv :: "('a \<Rightarrow> 'a \<Rightarrow> bool) \<Rightarrow> 'a IntervalSet \<Rightarrow> bool" where
  [wf_simps]: "iset_inv lt s \<longleftrightarrow> alternating True (points s) \<and> even (length (points s)) \<and>
     sorted_wrt (pointLt lt) (points s)"

subsection \<open>Alternating, sorted vectors\<close>

abbreviation pt :: "'a \<Rightarrow> 'a IntervalPoint" where
  "pt x \<equiv> mk_point x PT_POINT"

text \<open>The number of bounds below a point.\<close>

definition below :: "('a \<Rightarrow> 'a \<Rightarrow> bool) \<Rightarrow> 'a IntervalPoint list \<Rightarrow> 'a IntervalPoint \<Rightarrow> nat" where
  "below lt ps x = length (filter (\<lambda>p. pointLt lt p x) ps)"

lemma below_append [simp]: "below lt (ps @ qs) x = below lt ps x + below lt qs x"
  by (simp add: below_def)

lemma below_Nil [simp]: "below lt [] x = 0"
  by (simp add: below_def)

lemma below_Cons: "below lt (p # ps) x = (if pointLt lt p x then 1 else 0) + below lt ps x"
  by (simp add: below_def)

lemma below_all: "\<forall>p\<in>set ps. pointLt lt p x \<Longrightarrow> below lt ps x = length ps"
  by (simp add: below_def)

lemma below_none: "\<forall>p\<in>set ps. \<not> pointLt lt p x \<Longrightarrow> below lt ps x = 0"
  by (simp add: below_def)

lemma alternating_append:
  "alternating b (ps @ qs) \<longleftrightarrow> alternating b ps \<and> alternating (b = even (length ps)) qs"
  by (induction b ps rule: alternating.induct) auto

lemma bound_cases: "pointIsUpperBound p \<Longrightarrow> \<not> pointIsLowerBound p"
  by (simp add: pointIsUpperBound_def pointIsLowerBound_def isUpperBound_not_lower)

lemma alternating_nth:
  "alternating b ps \<Longrightarrow> i < length ps \<Longrightarrow>
     pointIsUpperBound (ps ! i) = (b = odd i) \<and> pointIsLowerBound (ps ! i) = (b = even i)"
proof (induction b ps arbitrary: i rule: alternating.induct)
  case (2 b p ps)
  then show ?case
    by (cases i) (auto dest: bound_cases split: if_splits)
qed simp

lemma alternating_bound:
  "alternating b ps \<Longrightarrow> p \<in> set ps \<Longrightarrow> pointIsUpperBound p \<or> pointIsLowerBound p"
  by (induction b ps rule: alternating.induct) (auto split: if_splits)

lemma bound_not_value: "pointIsUpperBound p \<or> pointIsLowerBound p \<Longrightarrow> ptype p \<noteq> PT_POINT"
  by (auto simp: pointIsUpperBound_def pointIsLowerBound_def isUpperBound_def isLowerBound_def)

context value_order
begin

lemma takeWhile_below:
  "sorted_wrt (pointLt lt) ps \<Longrightarrow> takeWhile (\<lambda>p. pointLt lt p x) ps = filter (\<lambda>p. pointLt lt p x) ps"
proof (induction ps)
  case (Cons p ps)
  show ?case
  proof (cases "pointLt lt p x")
    case False
    then have "\<forall>q\<in>set ps. \<not> pointLt lt q x"
      using Cons.prems pointLt_trans by auto
    with False show ?thesis by simp
  qed (use Cons in simp)
qed simp

lemma lower_bound_below: "sorted_wrt (pointLt lt) ps \<Longrightarrow> lower_bound lt ps x = below lt ps x"
  by (simp add: lower_bound_def below_def takeWhile_below)

lemma contains_parity:
  assumes "iset_inv lt s"
  shows "isetContains lt s x \<longleftrightarrow> odd (below lt (points s) (pt x))"
proof -
  let ?n = "below lt (points s) (pt x)"
  have le: "?n \<le> length (points s)"
    by (simp add: below_def)
  have "isInRange (points s) ?n \<longleftrightarrow> odd ?n"
  proof (cases "?n = length (points s)")
    case True
    then show ?thesis using assms by (simp add: isInRange_def wf_simps)
  next
    case False
    with le have "?n < length (points s)" by simp
    with assms show ?thesis
      using alternating_nth [of True "points s" ?n] by (simp add: isInRange_def wf_simps)
  qed
  then show ?thesis
    using assms by (simp add: isetContains_def lower_bound_below wf_simps)
qed

text \<open>No value lies between an upper bound and the adjacent lower bound of the same value.\<close>

lemma adjacent_gap:
  assumes "pointIsUpperBound a" "pointIsLowerBound l" "pointLt lt a l"
    "\<not> (pointIsExclusive l \<and> pointIsExclusive a)" "\<not> lt (pvalue a) (pvalue l)"
  shows "\<not> (pointLt lt a (pt v) \<and> pointLt lt (pt v) l)"
proof -
  have "\<not> isInfinite (ptype a)" "\<not> isInfinite (ptype l)"
    using assms by (auto simp: pointLt_def isLess_def point_pred_defs point_type_defs)
  then have t: "ptype a < ptype l" "\<not> lt (pvalue l) (pvalue a)"
    using assms by (auto simp: pointLt_def isLess_def split: if_splits)
  then have "ptype a = PT_EXCLUSIVE_UPPER_BOUND \<and> ptype l = PT_INCLUSIVE_LOWER_BOUND \<or>
      ptype a = PT_INCLUSIVE_UPPER_BOUND \<and> ptype l = PT_EXCLUSIVE_LOWER_BOUND"
    using assms \<open>\<not> isInfinite (ptype a)\<close> \<open>\<not> isInfinite (ptype l)\<close>
    by (auto simp: point_pred_defs point_type_defs less_PointType_def)
  then show ?thesis
    using assms(5) t lt_cotrans lt_asym
    by (auto simp: pointLt_def isLess_def point_type_defs less_PointType_def split: if_splits; blast)
qed

end

subsection \<open>Adding an interval\<close>

text \<open>
  The bounds below the new interval (\<open>A\<close>), within it (\<open>C\<close>) and above it (\<open>D\<close>): what the two
  halves of \<open>add\<close> keep on the left and on the right.
\<close>

definition joinLower ::
  "('a \<Rightarrow> 'a \<Rightarrow> bool) \<Rightarrow> 'a IntervalPoint list \<Rightarrow> 'a IntervalPoint \<Rightarrow> 'a IntervalPoint list \<Rightarrow>
     'a IntervalPoint list" where
  "joinLower lt A lb C =
     (if C \<noteq> [] \<and> \<not> pointLt lt lb (hd C) then A @ [hd C]
      else if A = [] then [lb]
      else if pointIsLowerBound (last A) then A
      else if pointIsExclusive lb \<and> pointIsExclusive (last A) then A @ [lb]
      else if \<not> lt (pvalue (last A)) (pvalue lb) then butlast A
      else A @ [lb])"

definition joinUpper ::
  "('a \<Rightarrow> 'a \<Rightarrow> bool) \<Rightarrow> 'a IntervalPoint \<Rightarrow> 'a IntervalPoint list \<Rightarrow> 'a IntervalPoint list" where
  "joinUpper lt ub D =
     (case D of [] \<Rightarrow> [ub]
      | d # ds \<Rightarrow>
          if pointIsUpperBound d then D
          else if pointIsExclusive ub \<and> pointIsExclusive d then ub # D
          else if \<not> lt (pvalue ub) (pvalue d) then ds
          else ub # D)"

context value_order
begin

definition add_split ::
  "'a Interval \<Rightarrow> 'a IntervalPoint list \<Rightarrow> 'a IntervalPoint list \<Rightarrow> 'a IntervalPoint list \<Rightarrow> bool" where
  "add_split x A C D \<longleftrightarrow> interval_wf x \<and> pointLt lt (lowerBound x) (upperBound x) \<and>
     alternating True (A @ C @ D) \<and> even (length (A @ C @ D)) \<and> sorted_wrt (pointLt lt) (A @ C @ D) \<and>
     (\<forall>a\<in>set A. pointLt lt a (lowerBound x)) \<and>
     (\<forall>c\<in>set C. \<not> pointLt lt c (lowerBound x) \<and> \<not> pointLt lt (upperBound x) c) \<and>
     (\<forall>d\<in>set D. pointLt lt (upperBound x) d)"

lemma add_split_parts:
  assumes "add_split x A C D"
  shows wf: "interval_wf x"
    and nonempty: "pointLt lt (lowerBound x) (upperBound x)"
    and alt: "alternating True (A @ C @ D)"
    and even_len: "even (length (A @ C @ D))"
    and sorted: "sorted_wrt (pointLt lt) (A @ C @ D)"
    and below_A: "\<And>a. a \<in> set A \<Longrightarrow> pointLt lt a (lowerBound x)"
    and within_C: "\<And>c. c \<in> set C \<Longrightarrow> \<not> pointLt lt c (lowerBound x) \<and> \<not> pointLt lt (upperBound x) c"
    and above_D: "\<And>d. d \<in> set D \<Longrightarrow> pointLt lt (upperBound x) d"
  using assms unfolding add_split_def by blast+

lemma lb_lower:
  assumes ok: "add_split x A C D"
  shows "pointIsLowerBound (lowerBound x)" and ub_upper: "pointIsUpperBound (upperBound x)"
  using wf [OF ok] by (simp_all add: wf_simps)

lemma above_D_lower:
  assumes ok: "add_split x A C D"
  shows "d \<in> set D \<Longrightarrow> pointLt lt (lowerBound x) d"
  using above_D [OF ok] nonempty [OF ok] pointLt_trans by blast

lemma lower_split:
  assumes ok: "add_split x A C D"
  shows "lower_bound lt (A @ C @ D) (lowerBound x) = length A"
  unfolding lower_bound_def
  by (subst takeWhile_append_split(1))
    (use below_A [OF ok] within_C [OF ok] above_D_lower [OF ok] pointLt_asym in auto)

lemma upper_split:
  assumes ok: "add_split x A C D"
    and "\<forall>c\<in>set C'. \<not> pointLt lt (upperBound x) c"
  shows "upper_bound lt (A @ C' @ D) (upperBound x) = length A + length C'"
proof -
  have "takeWhile (\<lambda>p. \<not> pointLt lt (upperBound x) p) ((A @ C') @ D) = A @ C'"
    using assms above_D [OF ok] pointLt_trans [OF _ nonempty [OF ok]] below_A [OF ok] pointLt_asym
    by (intro takeWhile_append_split(1)) auto
  then show ?thesis by (simp add: upper_bound_def)
qed

text \<open>The first half of \<open>add\<close>: the vector after the lower bound is in, and the index kept.\<close>

definition clampC :: "'a Interval \<Rightarrow> 'a IntervalPoint list \<Rightarrow> 'a IntervalPoint list" where
  "clampC x C = (if C \<noteq> [] \<and> \<not> pointLt lt (lowerBound x) (hd C) then C else lowerBound x # C)"

lemma clampC_nonempty: "clampC x C \<noteq> []"
  by (auto simp: clampC_def)

lemma clampC_within:
  assumes ok: "add_split x A C D"
  shows "\<forall>c\<in>set (clampC x C). \<not> pointLt lt (upperBound x) c"
  using within_C [OF ok] pointLt_asym [OF nonempty [OF ok]] by (auto simp: clampC_def)

lemma dup_iff:
  assumes ok: "add_split x A C D"
  shows "length A = length (A @ C @ D) \<or> pointLt lt (lowerBound x) ((A @ C @ D) ! length A) \<longleftrightarrow>
     \<not> (C \<noteq> [] \<and> \<not> pointLt lt (lowerBound x) (hd C))"
proof (cases C)
  case Nil
  then show ?thesis using above_D_lower [OF ok] by (cases D) (auto simp: nth_append)
qed (simp add: nth_append)

lemma pickLower_take:
  assumes ok: "add_split x A C D"
    and ps: "ps = A @ lowerBound x # R"
    and new: "C = [] \<or> pointLt lt (lowerBound x) (hd C)"
  shows "pickLowerBound lt ps (length A) \<le> length A \<and>
    take (pickLowerBound lt ps (length A) + 1) ps = joinLower lt A (lowerBound x) C"
proof (cases A rule: rev_cases)
  case Nil
  then show ?thesis using new by (auto simp: ps pickLowerBound_def joinLower_def)
next
  case (snoc B a)
  have "B \<noteq> []" if "\<not> pointIsLowerBound a"
    using alt [OF ok] that by (auto simp: snoc)
  then show ?thesis
    using new by (auto simp: ps snoc pickLowerBound_def joinLower_def Let_def nth_append neq_Nil_conv)
qed

lemma pickUpper_drop:
  assumes ps: "ps = B @ upperBound x # D"
  shows "length B \<le> pickUpperBound lt ps (length B) \<and>
    drop (pickUpperBound lt ps (length B)) ps = joinUpper lt (upperBound x) D"
  by (cases D) (auto simp: ps pickUpperBound_def joinUpper_def Let_def nth_append)

definition lower1 ::
  "'a Interval \<Rightarrow> 'a IntervalPoint list \<Rightarrow> 'a IntervalPoint list \<Rightarrow> 'a IntervalPoint list \<Rightarrow> nat" where
  "lower1 x A C D = (if C \<noteq> [] \<and> \<not> pointLt lt (lowerBound x) (hd C) then length A
  else pickLowerBound lt (A @ lowerBound x # C @ D) (length A))"

lemma lower1_take:
  assumes ok: "add_split x A C D"
  shows "take (lower1 x A C D + 1) (A @ (clampC x C) @ R) = joinLower lt A (lowerBound x) C" "lower1 x A C D \<le> length A"
proof -
  have "take (lower1 x A C D + 1) (A @ (clampC x C) @ R) = joinLower lt A (lowerBound x) C \<and> lower1 x A C D \<le> length A"
  proof (cases "C \<noteq> [] \<and> \<not> pointLt lt (lowerBound x) (hd C)")
    case True
    then show ?thesis by (auto simp: lower1_def clampC_def joinLower_def neq_Nil_conv)
  next
    case False
    then have clampC: "(clampC x C) = lowerBound x # C" and l1: "lower1 x A C D = pickLowerBound lt (A @ lowerBound x # C @ D) (length A)"
      by (simp_all only: clampC_def lower1_def if_False)
    have eq: "lower1 x A C D = pickLowerBound lt (A @ lowerBound x # C @ R) (length A)"
      by (simp add: l1 pickLowerBound_def Let_def nth_append)
    have new: "C = [] \<or> pointLt lt (lowerBound x) (hd C)"
      using False by blast
    show ?thesis
      using pickLower_take [OF ok, of _ "C @ R", OF refl new] by (simp only: clampC eq append_Cons)
  qed
  then show "take (lower1 x A C D + 1) (A @ (clampC x C) @ R) = joinLower lt A (lowerBound x) C" "lower1 x A C D \<le> length A"
    by blast+
qed

lemma first_half:
  assumes ok: "add_split x A C D"
  shows "(if length A = length (A @ C @ D) \<or> pointLt lt (lowerBound x) ((A @ C @ D) ! length A)
    then let ps' = vec_insert (length A) (lowerBound x) (A @ C @ D)
         in (ps', pickLowerBound lt ps' (length A))
    else (A @ C @ D, length A)) = (A @ (clampC x C) @ D, lower1 x A C D)"
  unfolding dup_iff [OF ok] by (auto simp: clampC_def lower1_def Let_def vec_insert_def)

lemma last_C1: "(A @ clampC x C @ D) ! (length A + length (clampC x C) - 1) = last (clampC x C)"
  using clampC_nonempty [of x C] by (cases "clampC x C" rule: rev_cases) (simp_all add: nth_append)

text \<open>The result when the upper bound is not already in the vector, or is its last element.\<close>

lemma add_result:
  assumes ok: "add_split x A C D"
    and nodup: "D = [] \<or> (\<forall>c\<in>set C. pointLt lt c (upperBound x))"
  shows "points (isetAdd lt x \<lparr>points = A @ C @ D\<rparr>) =
    joinLower lt A (lowerBound x) C @ joinUpper lt (upperBound x) D"
proof -
  let ?n = "length A + length (clampC x C)"
  let ?ps = "(A @ (clampC x C)) @ upperBound x # D"
  let ?u = "pickUpperBound lt ?ps ?n"
  have ins: "?n = length (A @ (clampC x C) @ D) \<or> pointLt lt (last (clampC x C)) (upperBound x)"
    using nodup nonempty [OF ok] clampC_nonempty by (auto simp: clampC_def)
  have pu: "?n \<le> ?u" "drop ?u ?ps = joinUpper lt (upperBound x) D"
    using pickUpper_drop [of ?ps "A @ (clampC x C)", OF refl] by (simp_all only: length_append)
  have vi: "vec_insert ?n (upperBound x) (A @ (clampC x C) @ D) = ?ps"
    by (simp add: vec_insert_def)
  have lu: "lower1 x A C D + 1 \<le> ?n"
    using lower1_take(2) [OF ok] clampC_nonempty by (cases "clampC x C") auto
  have "points (isetAdd lt x \<lparr>points = A @ C @ D\<rparr>) =
      (if lower1 x A C D + 1 \<noteq> ?u then vec_erase (lower1 x A C D + 1) ?u ?ps else ?ps)"
    by (simp only: isetAdd_def Let_def nonempty [OF ok] ins simp_thms if_True if_False
        IntervalSet.select_convs IntervalSet.update_convs lower_split [OF ok] first_half [OF ok, unfolded Let_def]
        prod.case upper_split [OF ok clampC_within [OF ok]] last_C1 vi)
  then show ?thesis
    using lower1_take(1) [OF ok, of "upperBound x # D"] pu(2) by (simp only: vec_erase_if append_assoc)
qed

text \<open>
  The result when the upper bound is already in the vector and is not its last element: no
  upper bound is inserted, and the erased range runs up to the next lower bound.
\<close>

lemma add_result_dup:
  assumes ok: "add_split x A C D"
    and dup: "D \<noteq> []" "\<not> pointLt lt (last (clampC x C)) (upperBound x)"
  shows "points (isetAdd lt x \<lparr>points = A @ C @ D\<rparr>) = joinLower lt A (lowerBound x) C @ D"
proof -
  let ?n = "length A + length (clampC x C)"
  have ins: "(?n = length (A @ (clampC x C) @ D)) = False"
    using dup by simp
  have lu: "lower1 x A C D + 1 \<le> ?n"
    using lower1_take(2) [OF ok] clampC_nonempty by (cases "clampC x C") auto
  have "points (isetAdd lt x \<lparr>points = A @ C @ D\<rparr>) =
      (if lower1 x A C D + 1 \<noteq> ?n then vec_erase (lower1 x A C D + 1) ?n (A @ (clampC x C) @ D) else A @ (clampC x C) @ D)"
    by (simp only: isetAdd_def Let_def nonempty [OF ok] ins dup(2) simp_thms if_True if_False
        IntervalSet.select_convs IntervalSet.update_convs lower_split [OF ok] first_half [OF ok, unfolded Let_def]
        prod.case upper_split [OF ok clampC_within [OF ok]] last_C1)
  then show ?thesis
    using lower1_take(1) [OF ok, of D] by (simp only: vec_erase_if) simp
qed

text \<open>The left part, its four shapes.\<close>

lemma same_type:
  "\<not> pointLt lt a b \<Longrightarrow> \<not> pointLt lt b a \<Longrightarrow> ptype a = ptype b"
  unfolding pointLt_def isLess_def point_type_defs
  by (cases "ptype a"; cases "ptype b") (auto simp: less_PointType_def split: if_splits)

lemma bound_A:
  assumes ok: "add_split x A C D"
  shows "a \<in> set A \<Longrightarrow> pointIsUpperBound a \<or> pointIsLowerBound a"
  using alternating_bound [OF alt [OF ok]] by simp

lemma lower_cases [consumes 1, case_names dup new low adj]:
  assumes ok: "add_split x A C D"
  obtains c C' where "C = c # C'" "\<not> pointLt lt (lowerBound x) c"
      "joinLower lt A (lowerBound x) C = A @ [c]" "pointIsLowerBound c" "even (length A)"
  | "joinLower lt A (lowerBound x) C = A @ [lowerBound x]" "even (length A)"
      "C = [] \<or> pointLt lt (lowerBound x) (hd C)"
  | "joinLower lt A (lowerBound x) C = A" "odd (length A)"
      "C = [] \<or> pointLt lt (lowerBound x) (hd C)"
  | B a where "A = B @ [a]" "odd (length B)" "joinLower lt A (lowerBound x) C = B"
      "pointIsUpperBound a" "\<not> (pointIsExclusive (lowerBound x) \<and> pointIsExclusive a)"
      "\<not> lt (pvalue a) (pvalue (lowerBound x))"
      "C = [] \<or> pointLt lt (lowerBound x) (hd C)"
proof (cases "C \<noteq> [] \<and> \<not> pointLt lt (lowerBound x) (hd C)")
  case True
  then obtain c C' where C: "C = c # C'" and c: "\<not> pointLt lt (lowerBound x) c"
    by (cases C) auto
  then have "ptype c = ptype (lowerBound x)"
    using same_type within_C [OF ok, of c] by simp
  then have low: "pointIsLowerBound c"
    using lb_lower [OF ok] by (simp add: pointIsLowerBound_def)
  then have "even (length A)"
    using alt [OF ok] bound_cases [of c] by (auto simp: C alternating_append split: if_splits)
  with C c low that(1) show ?thesis by (auto simp: joinLower_def)
next
  case False
  then have C: "C = [] \<or> pointLt lt (lowerBound x) (hd C)" by blast
  have new: "joinLower lt A (lowerBound x) C =
      (if A = [] then [lowerBound x]
       else if pointIsLowerBound (last A) then A
       else if pointIsExclusive (lowerBound x) \<and> pointIsExclusive (last A) then A @ [lowerBound x]
       else if \<not> lt (pvalue (last A)) (pvalue (lowerBound x)) then butlast A
       else A @ [lowerBound x])"
    using C by (simp only: joinLower_def if_False False)
  show ?thesis
  proof (cases A rule: rev_cases)
    case Nil
    with C new that(2) show ?thesis by simp
  next
    case (snoc B a)
    have low: "pointIsLowerBound a \<longleftrightarrow> even (length B)" "pointIsUpperBound a \<longleftrightarrow> odd (length B)"
      using alt [OF ok] bound_cases [of a] by (auto simp: snoc alternating_append split: if_splits)
    show ?thesis
    proof (cases "pointIsLowerBound a")
      case True
      with low C new snoc that(3) show ?thesis by simp
    next
      case False
      with low C new snoc that(2) that(4) show ?thesis
        by (cases "pointIsExclusive (lowerBound x) \<and> pointIsExclusive a \<or> lt (pvalue a) (pvalue (lowerBound x))")
          (auto split: if_splits)
    qed
  qed
qed

lemma upper_cases [consumes 1, case_names new high adj]:
  assumes ok: "add_split x A C D"
  obtains "joinUpper lt (upperBound x) D = upperBound x # D" "even (length A + length C)"
  | "joinUpper lt (upperBound x) D = D" "odd (length A + length C)" "D \<noteq> []"
  | d ds where "D = d # ds" "joinUpper lt (upperBound x) D = ds" "even (length A + length C)"
      "pointIsLowerBound d" "\<not> (pointIsExclusive d \<and> pointIsExclusive (upperBound x))"
      "\<not> lt (pvalue (upperBound x)) (pvalue d)"
proof (cases D)
  case Nil
  with even_len [OF ok] that(1) show ?thesis by (simp add: joinUpper_def)
next
  case (Cons d ds)
  have low: "pointIsLowerBound d \<longleftrightarrow> even (length A + length C)"
      "pointIsUpperBound d \<longleftrightarrow> odd (length A + length C)"
    using alt [OF ok] bound_cases [of d] by (auto simp: Cons alternating_append split: if_splits)
  show ?thesis
  proof (cases "pointIsUpperBound d")
    case True
    with low Cons that(2) show ?thesis by (simp add: joinUpper_def)
  next
    case False
    with low Cons that(1) that(3) show ?thesis
      by (cases "pointIsExclusive (upperBound x) \<and> pointIsExclusive d \<or> lt (pvalue (upperBound x)) (pvalue d)")
        (auto simp: joinUpper_def split: if_splits)
  qed
qed


lemma parts_sorted:
  assumes ok: "add_split x A C D"
  shows "sorted_wrt (pointLt lt) A" "sorted_wrt (pointLt lt) C" "sorted_wrt (pointLt lt) D"
  using sorted [OF ok] by (simp_all add: sorted_wrt_append)

lemma parts_alt:
  assumes ok: "add_split x A C D"
  shows "alternating True A" "alternating (even (length A + length C)) D"
  using alt [OF ok] by (auto simp: alternating_append)

lemma left_shape:
  assumes ok: "add_split x A C D"
  shows "alternating True (joinLower lt A (lowerBound x) C) \<and>
   odd (length (joinLower lt A (lowerBound x) C)) \<and>
   sorted_wrt (pointLt lt) (joinLower lt A (lowerBound x) C) \<and>
   (\<forall>l\<in>set (joinLower lt A (lowerBound x) C). \<not> pointLt lt (lowerBound x) l)"
proof -
  have A: "\<forall>a\<in>set A. \<not> pointLt lt (lowerBound x) a"
    using below_A [OF ok] pointLt_asym by blast
  show ?thesis
    using ok
  proof (cases rule: lower_cases)
    case (dup c C')
    moreover have "\<forall>a\<in>set A. pointLt lt a c"
      using sorted [OF ok] dup(1) by (auto simp: sorted_wrt_append)
    ultimately show ?thesis
      using A parts_alt(1) [OF ok] parts_sorted(1) [OF ok] by (auto simp: alternating_append sorted_wrt_append)
  next
    case new
    with A parts_alt(1) [OF ok] parts_sorted(1) [OF ok] lb_lower [OF ok] below_A [OF ok] show ?thesis
      by (auto simp: alternating_append sorted_wrt_append)
  next
    case low
    with A parts_alt(1) [OF ok] parts_sorted(1) [OF ok] show ?thesis by simp
  next
    case (adj B a)
    with A parts_alt(1) [OF ok] parts_sorted(1) [OF ok] show ?thesis
      by (auto simp: alternating_append sorted_wrt_append)
  qed
qed

lemma right_shape:
  assumes ok: "add_split x A C D"
  shows "alternating False (joinUpper lt (upperBound x) D) \<and>
   odd (length (joinUpper lt (upperBound x) D)) \<and>
   sorted_wrt (pointLt lt) (joinUpper lt (upperBound x) D) \<and>
   (\<forall>u\<in>set (joinUpper lt (upperBound x) D). \<not> pointLt lt u (upperBound x))"
proof -
  have D: "\<forall>d\<in>set D. \<not> pointLt lt d (upperBound x)"
    using above_D [OF ok] pointLt_asym by blast
  show ?thesis
    using ok
  proof (cases rule: upper_cases)
    case new
    with D parts_alt(2) [OF ok] parts_sorted(3) [OF ok] ub_upper [OF ok] above_D [OF ok] even_len [OF ok] show ?thesis by auto
  next
    case high
    with D parts_alt(2) [OF ok] parts_sorted(3) [OF ok] even_len [OF ok] show ?thesis by auto
  next
    case (adj d ds)
    with D parts_alt(2) [OF ok] parts_sorted(3) [OF ok] even_len [OF ok] show ?thesis by auto
  qed
qed

lemma left_right:
  assumes ok: "add_split x A C D"
  shows "\<forall>l\<in>set (joinLower lt A (lowerBound x) C). \<forall>u\<in>set (joinUpper lt (upperBound x) D).
    pointLt lt l u"
  using left_shape [OF ok] right_shape [OF ok] nonempty [OF ok] pointLt_le_trans pointLe_lt_trans by blast

text \<open>What the two parts count below a value.\<close>

lemma left_below:
  assumes ok: "add_split x A C D"
    and "pointLt lt (pt v) (lowerBound x)"
  shows "even (below lt (joinLower lt A (lowerBound x) C) (pt v) + below lt A (pt v))"
proof -
  have lb: "\<not> pointLt lt (lowerBound x) (pt v)"
    using assms pointLt_asym by blast
  show ?thesis
    using ok
  proof (cases rule: lower_cases)
    case (dup c C')
    then have "\<not> pointLt lt c (pt v)"
      using within_C [OF ok, of c] assms pointLt_trans by (auto dest: pointLt_trans)
    with dup show ?thesis by (simp add: below_Cons)
  next
    case (adj B a)
    then have "\<not> pointLt lt a (pt v)"
      using adjacent_gap [of a "lowerBound x" v] assms below_A [OF ok, of a] lb_lower [OF ok] by simp
    with adj show ?thesis by (simp add: below_Cons)
  qed (use lb in \<open>simp_all add: below_Cons\<close>)
qed

lemma left_all:
  assumes ok: "add_split x A C D"
    and "pointLt lt (lowerBound x) (pt v)"
  shows "odd (below lt (joinLower lt A (lowerBound x) C) (pt v))"
proof -
  have "\<forall>l\<in>set (joinLower lt A (lowerBound x) C). pointLt lt l (pt v)"
    using left_shape [OF ok] assms pointLe_lt_trans by blast
  with left_shape [OF ok] show ?thesis by (simp add: below_all)
qed

lemma right_none:
  assumes ok: "add_split x A C D"
    and "pointLt lt (pt v) (upperBound x)"
  shows "below lt (joinUpper lt (upperBound x) D) (pt v) = 0"
proof -
  have "\<forall>u\<in>set (joinUpper lt (upperBound x) D). \<not> pointLt lt u (pt v)"
    using right_shape [OF ok] assms pointLt_trans by blast
  then show ?thesis by (rule below_none)
qed

lemma right_below:
  assumes ok: "add_split x A C D"
    and "pointLt lt (upperBound x) (pt v)"
  shows "odd (below lt (joinUpper lt (upperBound x) D) (pt v)) =
    even (length A + length C + below lt D (pt v))"
  using ok
proof (cases rule: upper_cases)
  case new
  with assms show ?thesis by (simp add: below_Cons)
next
  case high
  with assms show ?thesis by auto
next
  case (adj d ds)
  then have "pointLt lt d (pt v)"
    using adjacent_gap [of "upperBound x" d v] assms above_D [OF ok, of d] ub_upper [OF ok]
      pointLt_value_total [of d v] bound_not_value by auto
  with adj show ?thesis by (auto simp: below_Cons)
qed

lemma bounds_total:
  assumes ok: "add_split x A C D"
  shows "pointLt lt (pt v) (lowerBound x) = (\<not> pointLt lt (lowerBound x) (pt v))"
  "pointLt lt (pt v) (upperBound x) = (\<not> pointLt lt (upperBound x) (pt v))"
  using pointLt_value_total [of "lowerBound x" v] pointLt_value_total [of "upperBound x" v]
    lb_lower [OF ok] ub_upper [OF ok] bound_not_value by auto

lemma join_parity:
  assumes ok: "add_split x A C D"
  shows "odd (below lt (joinLower lt A (lowerBound x) C @ joinUpper lt (upperBound x) D) (pt v)) \<longleftrightarrow>
     odd (below lt (A @ C @ D) (pt v)) \<or> intervalContains lt x v"
proof -
  have CD: "below lt C (pt v) = 0 \<and> below lt D (pt v) = 0" if v: "pointLt lt (pt v) (lowerBound x)"
  proof -
    have "\<not> pointLt lt c (pt v)" if "\<not> pointLt lt c (lowerBound x)" for c
      using that v pointLt_trans by blast
    then show ?thesis
      using within_C [OF ok] above_D_lower [OF ok] pointLt_asym by (intro conjI below_none ballI) blast+
  qed
  have AC: "below lt A (pt v) = length A \<and> below lt C (pt v) = length C"
    if v: "pointLt lt (upperBound x) (pt v)"
  proof -
    have "pointLt lt c (pt v)" if "\<not> pointLt lt (upperBound x) c" for c
      using that v pointLe_lt_trans by blast
    then show ?thesis
      using within_C [OF ok] below_A [OF ok] nonempty [OF ok] pointLt_trans pointLt_asym
      by (intro conjI below_all ballI) blast+
  qed
  consider "pointLt lt (pt v) (lowerBound x)"
    | "pointLt lt (lowerBound x) (pt v)" "pointLt lt (pt v) (upperBound x)"
    | "pointLt lt (upperBound x) (pt v)"
    using bounds_total [OF ok] by blast
  then show ?thesis
  proof cases
    case 1
    then have "pointLt lt (pt v) (upperBound x)" "\<not> intervalContains lt x v"
      using nonempty [OF ok] pointLt_trans [of "pt v"] pointLt_asym [of "pt v"]
      by (auto simp: intervalContains_points)
    with 1 CD show ?thesis using left_below [OF ok 1] right_none [OF ok, of v] by simp
  next
    case 2
    then show ?thesis using left_all [OF ok 2(1)] right_none [OF ok 2(2)]
      by (simp add: intervalContains_points)
  next
    case 3
    then have "pointLt lt (lowerBound x) (pt v)" "\<not> intervalContains lt x v"
      using nonempty [OF ok] pointLt_trans [of _ "upperBound x" "pt v"] pointLt_asym [of "pt v"]
      by (auto simp: intervalContains_points)
    with 3 AC show ?thesis using left_all [OF ok, of v] right_below [OF ok 3] by auto
  qed
qed

lemma add_correct:
  assumes ok: "add_split x A C D"
    and nodup: "D = [] \<or> (\<forall>c\<in>set C. pointLt lt c (upperBound x))"
  shows "iset_inv lt (isetAdd lt x \<lparr>points = A @ C @ D\<rparr>)"
    and "isetContains lt (isetAdd lt x \<lparr>points = A @ C @ D\<rparr>) v \<longleftrightarrow>
           isetContains lt \<lparr>points = A @ C @ D\<rparr> v \<or> intervalContains lt x v"
proof -
  show inv: "iset_inv lt (isetAdd lt x \<lparr>points = A @ C @ D\<rparr>)"
    using left_shape [OF ok] right_shape [OF ok] left_right [OF ok]
    by (simp add: wf_simps add_result [OF ok nodup] alternating_append sorted_wrt_append)
  have "iset_inv lt \<lparr>points = A @ C @ D\<rparr>"
    using alt [OF ok] even_len [OF ok] sorted [OF ok] by (simp only: wf_simps IntervalSet.select_convs)
  then show "isetContains lt (isetAdd lt x \<lparr>points = A @ C @ D\<rparr>) v \<longleftrightarrow>
      isetContains lt \<lparr>points = A @ C @ D\<rparr> v \<or> intervalContains lt x v"
    by (simp only: contains_parity [OF inv] contains_parity add_result [OF ok nodup]
        join_parity [OF ok] IntervalSet.select_convs)
qed

end

subsection \<open>Every valid set splits at an interval\<close>

context value_order
begin

lemma sorted_split:
  assumes inv: "iset_inv lt s" and wf: "interval_wf x"
    and ne: "pointLt lt (lowerBound x) (upperBound x)"
  obtains A C D where "points s = A @ C @ D" "add_split x A C D"
proof -
  let ?lb = "lowerBound x" and ?ub = "upperBound x"
  define A where "A = takeWhile (\<lambda>p. pointLt lt p ?lb) (points s)"
  define B where "B = dropWhile (\<lambda>p. pointLt lt p ?lb) (points s)"
  define C where "C = takeWhile (\<lambda>p. \<not> pointLt lt ?ub p) B"
  define D where "D = dropWhile (\<lambda>p. \<not> pointLt lt ?ub p) B"
  have ps: "points s = A @ B" and B: "B = C @ D"
    by (simp_all add: A_def B_def C_def D_def)
  have sorted: "sorted_wrt (pointLt lt) (A @ C @ D)"
    using inv by (simp add: wf_simps ps B)
  have B_ge: "\<forall>b\<in>set B. \<not> pointLt lt b ?lb"
  proof (cases B)
    case (Cons b bs)
    then have "\<not> pointLt lt b ?lb"
      unfolding B_def by (metis dropWhile_eq_Cons_conv)
    with Cons sorted show ?thesis
      by (auto simp: B [symmetric] sorted_wrt_append dest: pointLt_trans)
  qed simp
  have D_gt: "\<forall>d\<in>set D. pointLt lt ?ub d"
  proof (cases D)
    case (Cons d ds)
    then have "pointLt lt ?ub d"
      unfolding D_def by (metis dropWhile_eq_Cons_conv)
    with Cons sorted show ?thesis
      by (auto simp: sorted_wrt_append dest: pointLt_trans)
  qed simp
  have "add_split x A C D"
    unfolding add_split_def
  proof (intro conjI)
    show "\<forall>a\<in>set A. pointLt lt a ?lb"
      by (auto simp: A_def dest: set_takeWhileD)
    show "\<forall>c\<in>set C. \<not> pointLt lt c ?lb \<and> \<not> pointLt lt ?ub c"
      using B_ge by (auto simp: C_def dest: set_takeWhileD)
  qed (use wf ne inv sorted D_gt in \<open>simp_all add: wf_simps ps B\<close>)
  with ps B that show thesis by simp
qed

lemma iset_collapse [simp]: "\<lparr>points = points s\<rparr> = s"
  by simp

lemma add_correct_iset:
  assumes inv: "iset_inv lt s" and wf: "interval_wf x"
    and fresh: "\<forall>p\<in>set (butlast (points s)). \<not> pointEq lt p (upperBound x)"
  shows "iset_inv lt (isetAdd lt x s)"
    and "isetContains lt (isetAdd lt x s) v \<longleftrightarrow> isetContains lt s v \<or> intervalContains lt x v"
proof -
  have "iset_inv lt (isetAdd lt x s) \<and>
    (isetContains lt (isetAdd lt x s) v \<longleftrightarrow> isetContains lt s v \<or> intervalContains lt x v)"
  proof (cases "pointLt lt (lowerBound x) (upperBound x)")
    case False
    then have "isetAdd lt x s = s" "\<not> intervalContains lt x v"
      using pointLt_trans by (auto simp: isetAdd_def intervalContains_points)
    with inv show ?thesis by simp
  next
    case True
    then obtain A C D where ps: "points s = A @ C @ D" and ok: "add_split x A C D"
      using sorted_split [OF inv wf] by blast
    have "D = [] \<or> (\<forall>c\<in>set C. pointLt lt c (upperBound x))"
      using fresh within_C [OF ok] by (auto simp: ps butlast_append pointEq_def)
    then show ?thesis
      using add_correct [OF ok] by (simp flip: ps)
  qed
  then show "iset_inv lt (isetAdd lt x s)"
    "isetContains lt (isetAdd lt x s) v \<longleftrightarrow> isetContains lt s v \<or> intervalContains lt x v"
    by blast+
qed

lemma add_dup_breaks:
  assumes inv: "iset_inv lt s" and wf: "interval_wf x"
    and ne: "pointLt lt (lowerBound x) (upperBound x)"
    and dup: "p \<in> set (butlast (points s))" "pointEq lt p (upperBound x)"
  shows "odd (length (points (isetAdd lt x s)))"
proof -
  obtain A C D where ps: "points s = A @ C @ D" and ok: "add_split x A C D"
    using sorted_split [OF inv wf ne] by blast
  have eq: "\<not> pointLt lt p (upperBound x)" "\<not> pointLt lt (upperBound x) p"
    using dup(2) by (auto simp: pointEq_def)
  have "p \<notin> set A" "p \<notin> set D"
    using eq below_A [OF ok] above_D [OF ok] ne pointLt_trans by blast+
  moreover have "p \<in> set (points s)"
    using dup(1) by (rule in_set_butlastD)
  ultimately have p: "p \<in> set C"
    by (simp add: ps)
  then obtain C' c where C: "C = C' @ [c]"
    by (cases C rule: rev_cases) auto
  have c: "\<not> pointLt lt c (upperBound x)"
  proof (cases "p = c")
    case False
    then have "pointLt lt p c"
      using p sorted [OF ok] by (auto simp: C sorted_wrt_append)
    then show ?thesis using eq pointLt_trans by blast
  qed (use eq in simp)
  have "ptype p = PT_POINT \<or> ptype p = ptype (upperBound x)"
    using same_type eq by blast
  have up: "pointIsUpperBound c"
    using same_type [OF c] within_C [OF ok, of c] ub_upper [OF ok] by (simp add: C pointIsUpperBound_def)
  have "D \<noteq> []"
  proof
    assume "D = []"
    then have "p \<in> set (A @ C')"
      using dup(1) by (simp add: ps C butlast_append)
    with \<open>p \<notin> set A\<close> have "pointLt lt p c"
      using sorted [OF ok] by (auto simp: C sorted_wrt_append)
    with eq within_C [OF ok, of c] show False
      using pointLt_le_trans [of p c "upperBound x"] pointLe_lt_trans [of "upperBound x" p c]
      by (auto simp: C)
  qed
  moreover have "last (clampC x C) = c"
    by (simp add: clampC_def C)
  ultimately have "points (isetAdd lt x s) = joinLower lt A (lowerBound x) C @ D"
    using add_result_dup [OF ok] c by (simp flip: ps)
  moreover have "even (length D)"
    using up even_len [OF ok] alt [OF ok] bound_cases [of c]
    by (auto simp: C alternating_append split: if_splits)
  ultimately show ?thesis
    using left_shape [OF ok] by simp
qed

subsection \<open>Clipping\<close>

lemma clip_result:
  assumes ok: "add_split x A C D"
  shows "points (isetClip lt x \<lparr>points = A @ C @ D\<rparr>) =
    (if odd (length A) then [lowerBound x] else []) @ C @
    (if odd (length A + length C) then [upperBound x] else [])"
proof -
  let ?E = "(if odd (length A) then [lowerBound x] else []) @ C"
  have r1: "isInRange (A @ C @ D) (length A) = odd (length A)"
    using alternating_nth [OF alt [OF ok], of "length A"] even_len [OF ok]
    by (auto simp: isInRange_def)
  have e1: "vec_erase 0 (length A)
      (if odd (length A) then vec_insert (length A) (lowerBound x) (A @ C @ D) else A @ C @ D) = ?E @ D"
    by (simp add: vec_erase_def vec_insert_def)
  have E: "\<forall>e\<in>set ?E. \<not> pointLt lt (upperBound x) e"
    using within_C [OF ok] pointLt_asym [OF nonempty [OF ok]] by auto
  have u: "upper_bound lt (?E @ D) (upperBound x) = length ?E"
    unfolding upper_bound_def
    by (subst takeWhile_append_split(1)) (use E above_D [OF ok] in auto)
  have r2: "isInRange (?E @ D) (length ?E) = odd (length A + length C)"
    using alternating_nth [OF alt [OF ok], of "length A + length C"] even_len [OF ok]
    by (cases "D = []") (auto simp: isInRange_def nth_append)
  show ?thesis
    unfolding isetClip_def Let_def
    using nonempty [OF ok]
    by (simp only: simp_thms if_True if_False lower_split [OF ok] IntervalSet.select_convs
        IntervalSet.update_convs r1 e1 u r2)
      (auto simp: vec_erase_def vec_insert_def)
qed

lemma clip_shape:
  assumes ok: "add_split x A C D"
  shows "iset_inv lt (isetClip lt x \<lparr>points = A @ C @ D\<rparr>)"
proof -
  have CD: "alternating (even (length A)) (C @ D)"
    using alt [OF ok] by (simp add: alternating_append)
  have lower: "pointLt lt (lowerBound x) c" if "odd (length A)" "c \<in> set C" for c
  proof (cases C)
    case (Cons c' C')
    then have "pointIsUpperBound c'" using CD that by simp
    then have "pointLt lt (lowerBound x) c'"
      using same_type within_C [OF ok, of c'] bound_cases lb_lower [OF ok]
      by (metis Cons list.set_intros(1) pointIsLowerBound_def pointIsUpperBound_def)
    with that Cons sorted [OF ok] show ?thesis
      by (auto simp: sorted_wrt_append dest: pointLt_trans)
  qed (use that in simp)
  have upper: "pointLt lt c (upperBound x)" if "odd (length A + length C)" "c \<in> set C" for c
  proof (cases C rule: rev_cases)
    case (snoc C' c')
    then have "pointIsLowerBound c'" using CD that by (auto simp: alternating_append split: if_splits)
    then have "pointLt lt c' (upperBound x)"
      using same_type within_C [OF ok, of c'] bound_cases ub_upper [OF ok] snoc
      by (metis in_set_conv_decomp pointIsLowerBound_def pointIsUpperBound_def)
    with that snoc sorted [OF ok] show ?thesis
      by (auto simp: sorted_wrt_append dest: pointLt_trans)
  qed (use that in simp)
  have sC: "sorted_wrt (pointLt lt) C"
    using parts_sorted [OF ok] by blast
  show ?thesis
    using CD lower upper sC lb_lower [OF ok] ub_upper [OF ok] nonempty [OF ok]
    by (auto simp: wf_simps clip_result [OF ok] alternating_append sorted_wrt_append)
qed

lemma clip_parity:
  assumes ok: "add_split x A C D"
  shows "odd (below lt (points (isetClip lt x \<lparr>points = A @ C @ D\<rparr>)) (pt v)) \<longleftrightarrow>
     odd (below lt (A @ C @ D) (pt v)) \<and> intervalContains lt x v"
proof -
  note tot = bounds_total [OF ok, of v]
  have out: "\<not> intervalContains lt x v" if "pointLt lt (pt v) (lowerBound x) \<or> pointLt lt (upperBound x) (pt v)"
    using that tot by (auto simp: intervalContains_points)
  consider "pointLt lt (pt v) (lowerBound x)"
    | "pointLt lt (lowerBound x) (pt v)" "pointLt lt (pt v) (upperBound x)"
    | "pointLt lt (upperBound x) (pt v)" using tot by blast
  then show ?thesis
  proof cases
    case 1
    have "\<not> pointLt lt (upperBound x) (pt v)" "\<not> pointLt lt (lowerBound x) (pt v)"
      using 1 tot nonempty [OF ok] pointLt_trans by blast+
    moreover have "\<not> pointLt lt c (pt v)" if "c \<in> set C" for c
      using within_C [OF ok that] 1 pointLt_trans by blast
    ultimately have "below lt (points (isetClip lt x \<lparr>points = A @ C @ D\<rparr>)) (pt v) = 0"
      by (intro below_none) (auto simp: clip_result [OF ok] split: if_splits)
    with 1 out show ?thesis by simp
  next
    case 2
    have "\<not> pointLt lt d (pt v)" if "d \<in> set D" for d
      using above_D [OF ok that] 2 pointLt_trans pointLt_asym by blast
    then have "below lt D (pt v) = 0" "below lt A (pt v) = length A" "\<not> pointLt lt (upperBound x) (pt v)"
      using below_A [OF ok] 2 tot pointLt_trans [of _ "lowerBound x" "pt v"]
      by (auto intro!: below_none below_all)
    with 2 show ?thesis
      by (simp add: clip_result [OF ok] below_Cons intervalContains_points)
  next
    case 3
    have "pointLt lt (lowerBound x) (pt v)"
      using 3 nonempty [OF ok] pointLt_trans by blast
    moreover have "pointLt lt c (pt v)" if "c \<in> set C" for c
      using within_C [OF ok that] 3 pointLe_lt_trans by blast
    ultimately have "below lt C (pt v) = length C" "pointLt lt (lowerBound x) (pt v)"
      by (auto intro!: below_all)
    with 3 out show ?thesis
      by (simp add: clip_result [OF ok] below_Cons)
  qed
qed

lemma clip_correct:
  assumes inv: "iset_inv lt s" and wf: "interval_wf x"
  shows "iset_inv lt (isetClip lt x s)"
    and "isetContains lt (isetClip lt x s) v \<longleftrightarrow> isetContains lt s v \<and> intervalContains lt x v"
proof -
  have "iset_inv lt (isetClip lt x s) \<and>
    (isetContains lt (isetClip lt x s) v \<longleftrightarrow> isetContains lt s v \<and> intervalContains lt x v)"
  proof (cases "pointLt lt (lowerBound x) (upperBound x)")
    case False
    then have "points (isetClip lt x s) = []" "\<not> intervalContains lt x v"
      using pointLt_trans by (auto simp: isetClip_def intervalContains_points)
    then show ?thesis by (simp add: wf_simps isetContains_def isInRange_def)
  next
    case True
    then obtain A C D where ps: "points s = A @ C @ D" and ok: "add_split x A C D"
      using sorted_split [OF inv wf] by blast
    have "iset_inv lt (isetClip lt x s)"
      using clip_shape [OF ok] by (simp flip: ps)
    then show ?thesis
      using clip_parity [OF ok, of v] by (simp add: contains_parity inv flip: ps)
  qed
  then show "iset_inv lt (isetClip lt x s)"
    "isetContains lt (isetClip lt x s) v \<longleftrightarrow> isetContains lt s v \<and> intervalContains lt x v"
    by blast+
qed

end

subsection \<open>Intersection\<close>

lemma intersectLoop_subset:
  "set (intersectLoop lt is js inI inJ) \<subseteq> set is \<union> set js"
  by (induction lt "is" js inI inJ rule: intersectLoop.induct) auto

context value_order
begin

text \<open>Induction over the two iterators, with the comparator fixed.\<close>

lemma intersect_induct [case_names take_j take_i left_end right_end]:
  assumes "\<And>i is j js inI inJ. pointLt lt j i \<Longrightarrow> P (i # is) js inI (\<not> inJ) \<Longrightarrow> P (i # is) (j # js) inI inJ"
    and "\<And>i is j js inI inJ. \<not> pointLt lt j i \<Longrightarrow> P is (j # js) (\<not> inI) inJ \<Longrightarrow> P (i # is) (j # js) inI inJ"
    and "\<And>js inI inJ. P [] js inI inJ"
    and "\<And>i is inI inJ. P (i # is) [] inI inJ"
  shows "P is js inI inJ"
proof (induction "length is + length js" arbitrary: "is" js inI inJ rule: less_induct)
  case less
  then show ?case
    using assms by (cases "is"; cases js) (auto, metis (full_types) add_Suc_right length_Cons lessI add_Suc)
qed

text \<open>Nothing is kept before both iterators have passed a lower bound.\<close>

lemma intersectLoop_ge:
  assumes "sorted_wrt (pointLt lt) is" "sorted_wrt (pointLt lt) js"
    and "r \<in> set (intersectLoop lt is js inI inJ)"
  shows "(\<not> inI \<longrightarrow> is \<noteq> [] \<and> \<not> pointLt lt r (hd is)) \<and> (\<not> inJ \<longrightarrow> js \<noteq> [] \<and> \<not> pointLt lt r (hd js))"
  using assms
proof (induction "is" js inI inJ rule: intersect_induct)
  case (take_j i "is" j js inI inJ)
  have "\<forall>q\<in>set (i # is) \<union> set js. pointLt lt j q"
    using take_j.prems take_j.hyps by (auto dest: pointLt_trans)
  then have "\<not> pointLt lt r j"
    using take_j.prems intersectLoop_subset [of lt "i # is" js inI "\<not> inJ"] pointLt_asym
    by (auto simp: take_j.hyps split: if_splits)
  with take_j show ?case by (auto split: if_splits)
next
  case (take_i i "is" j js inI inJ)
  have "pointLt lt j r \<Longrightarrow> \<not> pointLt lt r i"
    using take_i.hyps pointLt_trans by blast
  then have "\<not> pointLt lt r i"
    using take_i.prems take_i.hyps intersectLoop_subset [of lt "is" "j # js" "\<not> inI" inJ]
    by (auto split: if_splits dest: pointLt_asym)
  with take_i show ?case by (auto split: if_splits)
qed simp_all

lemma intersectLoop_sorted:
  assumes "sorted_wrt (pointLt lt) is" "sorted_wrt (pointLt lt) js"
    and "alternating (\<not> inI) is" "alternating (\<not> inJ) js"
  shows "sorted_wrt (pointLt lt) (intersectLoop lt is js inI inJ)"
  using assms
proof (induction "is" js inI inJ rule: intersect_induct)
  case (take_j i "is" j js inI inJ)
  have "\<forall>r\<in>set (intersectLoop lt (i # is) js inI (\<not> inJ)). pointLt lt j r"
    using take_j.prems take_j.hyps intersectLoop_subset [of lt "i # is" js inI "\<not> inJ"]
    by (auto dest: pointLt_trans)
  with take_j show ?case by auto
next
  case (take_i i "is" j js inI inJ)
  have "pointLt lt i r" if inJ and r: "r \<in> set (intersectLoop lt is (j # js) (\<not> inI) inJ)" for r
  proof (cases inI)
    case True
    then have "is \<noteq> [] \<and> \<not> pointLt lt r (hd is)"
      using intersectLoop_ge [OF _ _ r] take_i.prems by auto
    then show ?thesis
      using take_i.prems by (cases "is") (auto dest: pointLt_le_trans)
  next
    case False
    have "ptype i \<noteq> ptype j"
      using take_i.prems False \<open>inJ\<close> bound_cases [of j]
      by (auto simp: pointIsLowerBound_def pointIsUpperBound_def)
    then have "pointLt lt i j"
      using same_type [of i j] take_i.hyps by blast
    then show ?thesis
      using r intersectLoop_subset [of lt "is" "j # js" "\<not> inI" inJ] take_i.prems
      by (auto dest: pointLt_trans)
  qed
  with take_i show ?case by auto
qed simp_all

lemma intersectLoop_alternating:
  assumes "alternating (\<not> inI) is" "alternating (\<not> inJ) js"
    and "even (length is) = (\<not> inI)" "even (length js) = (\<not> inJ)"
  shows "alternating (\<not> (inI \<and> inJ)) (intersectLoop lt is js inI inJ) \<and>
    even (length (intersectLoop lt is js inI inJ)) = (\<not> (inI \<and> inJ))"
  using assms
proof (induction "is" js inI inJ rule: intersect_induct)
  case (take_j i "is" j js inI inJ)
  then show ?case by (cases inI; cases inJ) simp_all
next
  case (take_i i "is" j js inI inJ)
  then show ?case by (cases inI; cases inJ) simp_all
qed simp_all

lemma intersectLoop_below:
  assumes "sorted_wrt (pointLt lt) is" "sorted_wrt (pointLt lt) js"
    and "even (length is) = (\<not> inI)" "even (length js) = (\<not> inJ)"
  shows "((inI \<and> inJ) \<noteq> odd (below lt (intersectLoop lt is js inI inJ) v)) \<longleftrightarrow>
    (inI \<noteq> odd (below lt is v)) \<and> (inJ \<noteq> odd (below lt js v))"
  using assms
proof (induction "is" js inI inJ rule: intersect_induct)
  case (take_j i "is" j js inI inJ)
  show ?case
  proof (cases "pointLt lt j v")
    case True
    with take_j show ?thesis by (cases inI; cases inJ) (auto simp: below_Cons)
  next
    case False
    have "\<forall>p\<in>set (i # is) \<union> set (j # js). \<not> pointLt lt p v"
      using take_j.prems take_j.hyps False by (auto dest: pointLt_trans)
    then have "below lt (i # is) v = 0" "below lt (j # js) v = 0"
        "below lt (intersectLoop lt (i # is) (j # js) inI inJ) v = 0"
      using intersectLoop_subset [of lt "i # is" "j # js" inI inJ] by (auto intro!: below_none)
    then show ?thesis by simp
  qed
next
  case (take_i i "is" j js inI inJ)
  show ?case
  proof (cases "pointLt lt i v")
    case True
    with take_i show ?thesis by (cases inI; cases inJ) (auto simp: below_Cons)
  next
    case False
    then have j: "\<not> pointLt lt j v"
      using take_i.hyps pointLt_cotrans by blast
    have "\<forall>p\<in>set (i # is) \<union> set (j # js). \<not> pointLt lt p v"
      using take_i.prems False j by (auto dest: pointLt_trans)
    then have "below lt (i # is) v = 0" "below lt (j # js) v = 0"
        "below lt (intersectLoop lt (i # is) (j # js) inI inJ) v = 0"
      using intersectLoop_subset [of lt "i # is" "j # js" inI inJ] by (auto intro!: below_none)
    then show ?thesis by simp
  qed
qed simp_all

lemma intersect_correct:
  assumes "iset_inv lt s" "iset_inv lt s'"
  shows "iset_inv lt (isetIntersect lt s' s)"
    and "isetContains lt (isetIntersect lt s' s) v \<longleftrightarrow> isetContains lt s v \<and> isetContains lt s' v"
proof -
  show inv: "iset_inv lt (isetIntersect lt s' s)"
    using assms intersectLoop_alternating [of False "points s" False "points s'"]
      intersectLoop_sorted [of "points s" "points s'" False False]
    by (simp add: wf_simps isetIntersect_def)
  show "isetContains lt (isetIntersect lt s' s) v \<longleftrightarrow> isetContains lt s v \<and> isetContains lt s' v"
    using assms intersectLoop_below [of "points s" "points s'" False False "pt v"]
    by (simp add: contains_parity inv) (simp add: wf_simps isetIntersect_def)
qed

end

subsection \<open>Queries\<close>

context value_order
begin

lemma takeWhile_upto:
  "sorted_wrt (pointLt lt) ps \<Longrightarrow>
     takeWhile (\<lambda>p. \<not> pointLt lt x p) ps = filter (\<lambda>p. \<not> pointLt lt x p) ps"
proof (induction ps)
  case (Cons p ps)
  show ?case
  proof (cases "pointLt lt x p")
    case True
    then have "\<forall>q\<in>set ps. pointLt lt x q"
      using Cons.prems pointLt_trans by auto
    with True show ?thesis by simp
  qed (use Cons in simp)
qed simp

lemma below_between:
  assumes "sorted_wrt (pointLt lt) ps" "intervalContains lt x v"
    and "upper_bound lt ps (lowerBound x) = lower_bound lt ps (upperBound x)"
  shows "below lt ps (pt v) = upper_bound lt ps (lowerBound x)"
proof -
  have v: "pointLt lt (lowerBound x) (pt v)" "pointLt lt (pt v) (upperBound x)"
    using assms(2) by (simp_all add: intervalContains_points)
  have le: "length (filter P ps) \<le> length (filter Q ps)" if "\<And>p. P p \<Longrightarrow> Q p" for P Q
    using that by (induction ps) (auto simp: le_SucI)
  have "upper_bound lt ps (lowerBound x) \<le> below lt ps (pt v)"
    unfolding upper_bound_def below_def takeWhile_upto [OF assms(1)]
    using v pointLe_lt_trans by (intro le) blast
  moreover have "below lt ps (pt v) \<le> lower_bound lt ps (upperBound x)"
    unfolding lower_bound_below [OF assms(1)] below_def
    using v pointLt_trans by (intro le) blast
  ultimately show ?thesis using assms(3) by simp
qed

lemma query_range:
  assumes "iset_inv lt s" "intervalContains lt x v"
    and "upper_bound lt (points s) (lowerBound x) = lower_bound lt (points s) (upperBound x)"
  shows "isetContains lt s v = isInRange (points s) (upper_bound lt (points s) (lowerBound x))"
  using assms below_between [of "points s" x v]
  by (simp add: isetContains_def lower_bound_below wf_simps)

lemma containsInterval_correct:
  assumes "iset_inv lt s" "isetContainsInterval lt s x" "intervalContains lt x v"
  shows "isetContains lt s v"
  using assms query_range [OF assms(1,3)] by (auto simp: isetContainsInterval_def Let_def split: if_splits)

lemma overlaps_correct:
  assumes "iset_inv lt s" "isetContains lt s v" "intervalContains lt x v"
  shows "isetOverlaps lt s x"
proof -
  have "pointLt lt (lowerBound x) (upperBound x)"
    using assms(3) pointLt_trans by (auto simp: intervalContains_points)
  then show ?thesis
    using query_range [OF assms(1,3)] assms(2) by (auto simp: isetOverlaps_def Let_def)
qed

lemma hull_correct:
  assumes "iset_inv lt s"
  shows "\<exists>h. getHull z s = Inr h \<and> (\<forall>v. isetContains lt s v \<longrightarrow> intervalContains lt h v)"
proof (cases "points s")
  case Nil
  then show ?thesis
    by (simp add: getHull_def isetIsEmpty_def isetContains_def isInRange_def)
next
  case (Cons p ps)
  let ?l = "last (points s)"
  have low: "pointIsLowerBound p"
    using assms by (simp add: wf_simps Cons)
  have up: "pointIsUpperBound ?l"
    using assms alternating_nth [of True "points s" "length (points s) - 1"]
    by (auto simp: wf_simps Cons last_conv_nth)
  have "intervalContains lt \<lparr>lowerBound = p, upperBound = ?l\<rparr> v" if v: "isetContains lt s v" for v
  proof -
    have odd: "odd (below lt (points s) (pt v))"
      using v contains_parity [OF assms] by blast
    have "pointLt lt p (pt v)"
    proof (rule ccontr)
      assume "\<not> ?thesis"
      then have "below lt (points s) (pt v) = 0"
        using assms by (intro below_none) (auto simp: wf_simps Cons dest: pointLt_trans)
      with odd show False by simp
    qed
    moreover have "\<not> pointLt lt ?l (pt v)"
    proof
      assume l: "pointLt lt ?l (pt v)"
      have "pointLt lt q (pt v)" if "q \<in> set (points s)" for q
      proof -
        have eq: "points s = butlast (points s) @ [?l]"
          by (simp add: Cons)
        have "sorted_wrt (pointLt lt) (butlast (points s) @ [?l])"
          using assms unfolding eq [symmetric] by (simp add: wf_simps)
        moreover have "q \<in> set (butlast (points s) @ [?l])"
          using that unfolding eq [symmetric] .
        ultimately have "q = ?l \<or> pointLt lt q ?l"
          by (auto simp: sorted_wrt_append)
        then show ?thesis using l pointLt_trans by blast
      qed
      then have "below lt (points s) (pt v) = length (points s)"
        by (intro below_all) blast
      with odd assms show False by (simp add: wf_simps)
    qed
    ultimately show ?thesis
      using pointLt_value_total [of ?l v] up bound_not_value by (auto simp: intervalContains_points)
  qed
  then show ?thesis
    using low up by (simp add: getHull_def isetIsEmpty_def Interval2_def Cons)
qed

lemma infinite_correct:
  assumes "iset_inv lt s" "isetIsInfinite s"
  shows "isetContains lt s v"
proof -
  obtain p q ps where ps: "points s = p # q # ps" and inf: "pointIsInfinite p" "pointIsInfinite q"
    using assms(2) by (cases "points s" rule: list.exhaust [case_names Nil Cons]; cases "tl (points s)")
      (auto simp: isetIsInfinite_def)
  have t: "ptype p = PT_INFINITE_LOWER_BOUND" "ptype q = PT_INFINITE_UPPER_BOUND"
    using assms(1) inf by (auto simp: wf_simps ps point_pred_defs point_type_defs)
  have "ps = []"
  proof (cases ps)
    case (Cons r rs)
    then have "pointLt lt q r" using assms(1) by (simp add: wf_simps ps)
    then show ?thesis using t by (simp add: pointLt_def isLess_def point_type_defs)
  qed
  then have "below lt (points s) (pt v) = 1"
    using t by (simp add: ps below_Cons pointLt_def isLess_def point_type_defs)
  then show ?thesis using contains_parity [OF assms(1)] by simp
qed

end

subsection \<open>Properties\<close>

text \<open>
  C30. Adding an interval to a valid set gives a valid set whose values are those of the set
  and those of the interval, whenever the interval's upper bound is not already a bound of the
  set other than its last one.
\<close>

theorem isetAdd_is_union:
  fixes s :: "'a::linorder IntervalSet"
  assumes "iset_inv (<) s" "interval_wf x"
    and "\<forall>p\<in>set (butlast (points s)). \<not> pointEq (<) p (upperBound x)"
  shows "iset_inv (<) (isetAdd (<) x s)
    \<and> (\<forall>v. isetContains (<) (isetAdd (<) x s) v \<longleftrightarrow> isetContains (<) s v \<or> intervalContains (<) x v)"
  using std_less.add_correct_iset [OF assms] by blast

theorem isetAdd_is_union_witness:
  "isetContains (<) (isetAdd (<) (setPoint 5 (Interval0 (0::int)))
      (isetAdd (<) (setUpperBound 3 BT_EXCLUSIVE (setLowerBound 1 BT_INCLUSIVE (Interval0 0)))
         IntervalSet0)) 5"
proof -
  let ?s = "isetAdd (<) (setUpperBound (3::int) BT_EXCLUSIVE (setLowerBound 1 BT_INCLUSIVE (Interval0 0)))
         IntervalSet0"
  have "iset_inv (<) ?s" "\<forall>p\<in>set (butlast (points ?s)). \<not> pointEq (<) p (upperBound (setPoint 5 (Interval0 (0::int))))"
    by code_simp+
  then show ?thesis
    using isetAdd_is_union [of ?s "setPoint 5 (Interval0 0)"] by (simp add: interval_ops_wf)
qed

text \<open>
  C39. The condition of the previous property is needed: when a non-empty interval ends at an
  upper bound that the set already has below its last one, \<open>add\<close> erases that bound and leaves
  an odd number of bounds, which breaks the class invariant.
\<close>

theorem isetAdd_existing_upper_bound_corrupts:
  fixes s :: "'a::linorder IntervalSet"
  assumes "iset_inv (<) s" "interval_wf x" "pointLt (<) (lowerBound x) (upperBound x)"
    and "p \<in> set (butlast (points s))" "pointEq (<) p (upperBound x)"
  shows "odd (length (points (isetAdd (<) x s))) \<and> \<not> iset_inv (<) (isetAdd (<) x s)"
  using std_less.add_dup_breaks [OF assms] by (simp add: wf_simps)

theorem isetAdd_existing_upper_bound_corrupts_witness:
  "\<not> iset_inv (<) (isetAdd (<)
      (setUpperBound 3 BT_EXCLUSIVE (setLowerBound 2 BT_INCLUSIVE (Interval0 (0::int))))
      \<lparr>points = [mk_point 1 PT_INCLUSIVE_LOWER_BOUND, mk_point 3 PT_EXCLUSIVE_UPPER_BOUND,
                mk_point 5 PT_INCLUSIVE_LOWER_BOUND, mk_point 7 PT_EXCLUSIVE_UPPER_BOUND]\<rparr>)"
proof -
  let ?s = "\<lparr>points = [mk_point (1::int) PT_INCLUSIVE_LOWER_BOUND, mk_point 3 PT_EXCLUSIVE_UPPER_BOUND,
                mk_point 5 PT_INCLUSIVE_LOWER_BOUND, mk_point 7 PT_EXCLUSIVE_UPPER_BOUND]\<rparr>"
  let ?x = "setUpperBound 3 BT_EXCLUSIVE (setLowerBound 2 BT_INCLUSIVE (Interval0 (0::int)))"
  have "iset_inv (<) ?s" "pointLt (<) (lowerBound ?x) (upperBound ?x)"
      "mk_point 3 PT_EXCLUSIVE_UPPER_BOUND \<in> set (butlast (points ?s))"
      "pointEq (<) (mk_point 3 PT_EXCLUSIVE_UPPER_BOUND) (upperBound ?x)"
    by code_simp+
  moreover have "interval_wf ?x"
    by (simp add: interval_ops_wf)
  ultimately show ?thesis
    using isetAdd_existing_upper_bound_corrupts [of ?s ?x] by blast
qed

text \<open>
  C32. Clipping a valid set to an interval keeps it valid and keeps exactly the values of the
  set that are in the interval.
\<close>

theorem isetClip_is_restriction:
  fixes s :: "'a::linorder IntervalSet"
  assumes "iset_inv (<) s" "interval_wf x"
  shows "iset_inv (<) (isetClip (<) x s)
    \<and> (\<forall>v. isetContains (<) (isetClip (<) x s) v \<longleftrightarrow> isetContains (<) s v \<and> intervalContains (<) x v)"
  using std_less.clip_correct [OF assms] by blast

theorem isetClip_is_restriction_witness:
  "isetContains (<) (isetClip (<) (setInfinite 0 (Interval0 (0::int)))
     (isetAdd (<) (setPoint 5 (Interval0 0)) IntervalSet0)) 5"
proof -
  let ?s = "isetAdd (<) (setPoint 5 (Interval0 (0::int))) IntervalSet0"
  have "iset_inv (<) ?s" "isetContains (<) ?s 5"
    by code_simp+
  then show ?thesis
    using isetClip_is_restriction [of ?s "setInfinite 0 (Interval0 0)"] by (simp add: interval_ops_wf)
qed

text \<open>
  C31. The merge loop of \<open>intersect\<close> computes the intersection of two valid sets, and its
  result is valid again.
\<close>

theorem isetIntersect_is_intersection:
  fixes s s' :: "'a::linorder IntervalSet"
  assumes "iset_inv (<) s" "iset_inv (<) s'"
  shows "iset_inv (<) (isetIntersect (<) s' s)
    \<and> (\<forall>v. isetContains (<) (isetIntersect (<) s' s) v \<longleftrightarrow> isetContains (<) s v \<and> isetContains (<) s' v)"
  using std_less.intersect_correct [OF assms] by blast

theorem isetIntersect_is_intersection_witness:
  "\<not> isetContains (<) (isetIntersect (<) (isetAdd (<) (setPoint 4 (Interval0 0)) IntervalSet0)
     (isetAdd (<) (setPoint 5 (Interval0 (0::int))) IntervalSet0)) 5"
proof -
  let ?s = "isetAdd (<) (setPoint 5 (Interval0 (0::int))) IntervalSet0"
  let ?t = "isetAdd (<) (setPoint 4 (Interval0 (0::int))) IntervalSet0"
  have "iset_inv (<) ?s" "iset_inv (<) ?t" "\<not> isetContains (<) ?t 5"
    by code_simp+
  then show ?thesis
    using isetIntersect_is_intersection [of ?s ?t] by simp
qed

text \<open>
  On a valid set, an interval reported contained has only values of the set, an interval
  with a value of the set is reported to overlap, the hull exists and holds every value of the
  set, and a set reported infinite holds every value.
\<close>

theorem iset_queries_sound:
  fixes s :: "'a::linorder IntervalSet"
  assumes "iset_inv (<) s"
  shows "(isetContainsInterval (<) s x \<and> intervalContains (<) x v \<longrightarrow> isetContains (<) s v)
    \<and> (isetContains (<) s v \<and> intervalContains (<) x v \<longrightarrow> isetOverlaps (<) s x)
    \<and> (\<exists>h. getHull z s = Inr h \<and> (\<forall>w. isetContains (<) s w \<longrightarrow> intervalContains (<) h w))
    \<and> (isetIsInfinite s \<longrightarrow> isetContains (<) s v)"
  using std_less.containsInterval_correct [OF assms] std_less.overlaps_correct [OF assms]
    std_less.hull_correct [OF assms] std_less.infinite_correct [OF assms]
  by blast

theorem iset_queries_sound_witness:
  "isetOverlaps (<) (isetAdd (<) (setPoint 5 (Interval0 (0::int))) IntervalSet0)
     (setInfinite 0 (Interval0 0))"
proof -
  let ?s = "isetAdd (<) (setPoint 5 (Interval0 (0::int))) IntervalSet0"
  have "iset_inv (<) ?s" "isetContains (<) ?s 5"
    by code_simp+
  then show ?thesis
    using iset_queries_sound [of ?s "setInfinite 0 (Interval0 0)" 5 0] by simp
qed

end
