(* ===== verification/StringInterval.thy ===== *)
theory StringInterval
  imports IntervalSet "HOL-Library.Sublist"
begin

section \<open>Byte strings and prefix intervals
  (src/cc/warp/string\_algorithm.h, src/cc/warp/string\_interval.cc)\<close>

text \<open>
  Comparison of byte ranges, and the interval of all strings with a given prefix. \<open>memcmp\<close>
  belongs to the C library: it returns a negative, zero or positive number for the first
  difference of two ranges, taken as unsigned bytes; the model returns the difference.
\<close>

subsection \<open>Comparison\<close>

fun memcmp :: "string \<Rightarrow> string \<Rightarrow> nat \<Rightarrow> int" where
  "memcmp (a # as) (b # bs) (Suc n) =
     (if a = b then memcmp as bs n else int (of_char a) - int (of_char b))"
| "memcmp as bs n = 0"

definition string_equals :: "string \<Rightarrow> string \<Rightarrow> bool" where
  "string_equals a b \<longleftrightarrow> length a = length b \<and> memcmp a b (length a) = 0"

definition string_less :: "string \<Rightarrow> string \<Rightarrow> bool" where
  "string_less a b =
     (if length a < length b then memcmp a b (length a) \<le> 0
      else memcmp a b (length b) < 0)"

text \<open>The three-way comparison returns a length difference narrowed to a 32-bit \<open>int\<close>.\<close>

definition string_compare :: "string \<Rightarrow> string \<Rightarrow> int" where
  "string_compare a b =
     (let cmp = memcmp a b (if length a < length b then length a else length b)
      in if cmp \<noteq> 0 then cmp else signed_take_bit 31 (int (length a) - int (length b)))"

lemma of_char_eq_nat [simp]: "(of_char a :: nat) = of_char b \<longleftrightarrow> a = b"
  by (rule of_char_eq_iff)

lemma memcmp_less_iff:
  "length a < length b \<Longrightarrow> memcmp a b (length a) \<le> 0 \<longleftrightarrow> a < b"
proof (induction a arbitrary: b)
  case (Cons x xs)
  then obtain y ys where b: "b = y # ys" by (cases b) auto
  with Cons show ?case by (auto simp: less_char_def order.order_iff_strict)
qed (auto simp: neq_Nil_conv)

lemma memcmp_less_iff':
  "length b \<le> length a \<Longrightarrow> memcmp a b (length b) < 0 \<longleftrightarrow> a < b"
proof (induction b arbitrary: a)
  case (Cons y ys)
  then obtain x xs where a: "a = x # xs" by (cases a) auto
  with Cons show ?case by (auto simp: less_char_def)
qed simp

lemma string_less_lex: "string_less a b \<longleftrightarrow> a < b"
  by (simp add: string_less_def memcmp_less_iff memcmp_less_iff')

lemma memcmp_zero:
  "n \<le> length a \<Longrightarrow> n \<le> length b \<Longrightarrow> memcmp a b n = 0 \<longleftrightarrow> take n a = take n b"
proof (induction a b n rule: memcmp.induct)
  case (1 a as b bs n)
  then show ?case by (cases "a = b") auto
qed auto

lemma string_equals_eq: "string_equals a b \<longleftrightarrow> a = b"
  by (auto simp: string_equals_def memcmp_zero)

lemma memcmp_sym: "memcmp b a n = - memcmp a b n"
  by (induction a b n rule: memcmp.induct) auto

lemma string_compare_sign:
  assumes "length a < 2 ^ 31" "length b < 2 ^ 31"
  shows "(string_compare a b < 0 \<longleftrightarrow> a < b) \<and> (string_compare a b = 0 \<longleftrightarrow> a = b)"
proof -
  have st: "signed_take_bit 31 (int (length a) - int (length b)) = int (length a) - int (length b)"
    using assms by (intro signed_take_bit_int_eq_self) auto
  show ?thesis
  proof (cases "length a < length b")
    case True
    then have "memcmp a b (length a) = 0 \<longleftrightarrow> a = take (length a) b"
      by (simp add: memcmp_zero)
    moreover have "a \<noteq> b" using True by auto
    ultimately show ?thesis
      using True memcmp_less_iff [OF True] by (auto simp: string_compare_def Let_def st)
  next
    case False
    then have len: "length b \<le> length a" by simp
    have z: "memcmp a b (length b) = 0 \<longleftrightarrow> take (length b) a = b"
      using len by (simp add: memcmp_zero)
    have "a = b" if "take (length b) a = b" "length a \<le> length b"
      using that by simp
    then show ?thesis
      using memcmp_less_iff' [OF len] z False by (auto simp: string_compare_def Let_def st)
  qed
qed

subsection \<open>Prefix intervals\<close>

text \<open>\<open>getPrefixSuccessor\<close> returns its result through a reference when it returns true; the
  recursion drops the last character.\<close>

function getPrefixSuccessor :: "string \<Rightarrow> string option" where
  "getPrefixSuccessor prefix' =
     (if prefix' = [] then None
      else if last prefix' \<noteq> CHR 0xFF
      then Some (butlast prefix' @ [char_of (of_char (last prefix') + 1 :: nat)])
      else getPrefixSuccessor (butlast prefix'))"
  by pat_completeness auto
termination
  by (relation "measure length") auto

declare getPrefixSuccessor.simps [simp del]

definition makePrefixInterval :: "string \<Rightarrow> string Interval" where
  "makePrefixInterval prefix' =
     (let r = setLowerBound prefix' BT_INCLUSIVE (Interval0 [])
      in case getPrefixSuccessor prefix' of
           Some successor \<Rightarrow> setUpperBound successor BT_EXCLUSIVE r
         | None \<Rightarrow> unsetUpperBound [] r)"

lemma of_char_less_256: "(of_char c :: nat) < 256"
proof -
  have "(of_char c :: nat) mod 256 < 256" by (rule mod_less_divisor) simp
  then show ?thesis by simp
qed

lemma of_char_max: "(of_char c :: nat) < 255 \<longleftrightarrow> c \<noteq> CHR 0xFF"
proof -
  have "(of_char c :: nat) < 256"
    using of_char_less_256 by blast
  moreover have "(of_char c :: nat) = 255 \<longleftrightarrow> c = CHR 0xFF"
    using of_char_eq_nat [of c "CHR 0xFF"] by simp
  ultimately show ?thesis by linarith
qed

lemma of_char_succ:
  assumes "c \<noteq> CHR 0xFF"
  shows "(of_char (char_of (of_char c + 1 :: nat)) :: nat) = of_char c + 1"
  using assms of_char_max [of c] by (simp add: of_char_mod_256)

lemma prefix_le: "prefix p s \<Longrightarrow> p \<le> (s :: string)"
proof (induction p arbitrary: s)
  case (Cons a p)
  then show ?case by (cases s) auto
qed simp

lemma prefix_snoc_bound:
  assumes d: "\<And>x :: char. x < d \<longleftrightarrow> x \<le> c"
  shows "prefix (q @ [c]) s \<longleftrightarrow> q @ [c] \<le> s \<and> s < q @ [d]"
proof (induction q arbitrary: s)
  case Nil
  show ?case
  proof (cases s)
    case (Cons a l)
    have "a = c \<longleftrightarrow> (c < a \<or> c = a) \<and> (a < d)" using d[of a] by auto
    moreover have "\<not> l < []" by simp
    ultimately show ?thesis unfolding Cons append_Nil by (simp only: Cons_prefix_Cons Cons_le_Cons Cons_less_Cons Nil_le_Cons Nil_prefix) blast
  qed simp
next
  case (Cons x q)
  show ?case
  proof (cases s)
    case (Cons a l)
    then show ?thesis using Cons.IH[of l] less_asym[of x a] by (auto simp only: append_Cons Cons_prefix_Cons Cons_le_Cons Cons_less_Cons)
  qed simp
qed

lemma prefix_snoc_succ:
  assumes "(of_char d :: nat) = of_char c + 1"
  shows "prefix (q @ [c]) s \<longleftrightarrow> q @ [c] \<le> s \<and> s < q @ [d]"
proof (rule prefix_snoc_bound)
  show "x < d \<longleftrightarrow> x \<le> c" for x
  unfolding less_char_def less_eq_char_def assms by linarith
qed

lemma max_char: "\<not> CHR 0xFF < (y :: char)"
proof -
  have "(of_char CHR 0xFF :: nat) = 255" by simp
  then show ?thesis
    using of_char_less_256 [of y] unfolding less_char_def by linarith
qed

lemma prefix_all_max: "set p \<subseteq> {CHR 0xFF} \<Longrightarrow> prefix p s \<longleftrightarrow> p \<le> s"
proof (induction p arbitrary: s)
  case (Cons x p)
  with max_char show ?case by (cases s) auto
qed simp

lemma prefix_successor:
  "case getPrefixSuccessor p of
     None \<Rightarrow> set p \<subseteq> {CHR 0xFF}
   | Some r \<Rightarrow> (\<forall>s. prefix p s \<longleftrightarrow> p \<le> s \<and> s < r)"
proof (induction p rule: getPrefixSuccessor.induct)
  case (1 p)
  consider "p = []" | q c where "p = q @ [c]" "c \<noteq> CHR 0xFF" | q where "p = q @ [CHR 0xFF]"
    by (cases p rule: rev_cases) auto
  then show ?case
  proof cases
    case 1
    then show ?thesis by (simp add: getPrefixSuccessor.simps)
  next
    case 2
    then have "getPrefixSuccessor p = Some (q @ [char_of (of_char c + 1 :: nat)])"
      by (simp add: getPrefixSuccessor.simps [of "q @ [c]"])
    then show ?thesis
      using prefix_snoc_succ [OF of_char_succ [OF 2(2)]] by (simp only: 2(1) option.case simp_thms)
  next
    case 3
    then have eq: "getPrefixSuccessor p = getPrefixSuccessor q"
      using 3 by (simp add: getPrefixSuccessor.simps [of "q @ [CHR 0xFF]"])
    have IH: "case getPrefixSuccessor q of None \<Rightarrow> set q \<subseteq> {CHR 0xFF}
        | Some r \<Rightarrow> (\<forall>s. prefix q s \<longleftrightarrow> q \<le> s \<and> s < r)"
      using 1 by (simp add: 3 cong: option.case_cong)
    have snoc: "prefix (q @ [CHR 0xFF]) s \<longleftrightarrow> prefix q s \<and> q @ [CHR 0xFF] \<le> s" for s
    proof (induction q arbitrary: s)
      case Nil
      then show ?case using prefix_all_max [of "[CHR 0xFF]"] by simp
    next
      case (Cons x q)
      then show ?case by (cases s) auto
    qed
    have le: "q \<le> s" if "q @ [CHR 0xFF] \<le> s" for s
      using that prefix_le [of q "q @ [CHR 0xFF]"] by (meson order_trans prefixI)
    show ?thesis
      using IH le snoc unfolding eq by (auto simp: 3 split: option.splits)
  qed
qed

lemma makePrefixInterval_wf: "interval_wf (makePrefixInterval p)"
  by (simp add: makePrefixInterval_def Let_def interval_ops_wf split: option.split)

lemma makePrefixInterval_contains:
  "intervalContains (<) (makePrefixInterval p) s \<longleftrightarrow> prefix p s"
  using prefix_successor [of p] prefix_all_max [of p s]
  by (auto simp: makePrefixInterval_def Let_def contains_setBounds split: option.splits)

subsection \<open>Properties\<close>

text \<open>
  Strings of bytes are compared lexicographically as unsigned bytes: \<open>string_less\<close>,
  \<open>string_equals\<close> and, below the 2 GB length from which its \<open>int\<close> result may have
  the wrong sign, the three-way \<open>string_compare\<close> all decide the lexicographic order.
\<close>
theorem string_order_lexicographic:
  assumes "length a < 2 ^ 31" "length b < 2 ^ 31"
  shows "(string_less a b \<longleftrightarrow> a < b) \<and> (string_equals a b \<longleftrightarrow> a = b) \<and>
         (string_compare a b < 0 \<longleftrightarrow> a < b) \<and> (string_compare a b = 0 \<longleftrightarrow> a = b) \<and>
         (0 < string_compare a b \<longleftrightarrow> b < a)"
proof -
  have "0 < string_compare a b \<longleftrightarrow> \<not> string_compare a b < 0 \<and> string_compare a b \<noteq> 0"
    by linarith
  moreover have "b < a \<longleftrightarrow> \<not> a < b \<and> a \<noteq> b"
    by auto
  ultimately show ?thesis
    using string_compare_sign [OF assms] by (simp add: string_less_lex string_equals_eq)
qed

theorem string_order_lexicographic_witness:
  "string_less ''ab'' ''b'' \<and> string_compare ''ab'' [CHR ''a'', CHR 0xFF] < 0"
proof -
  have "''ab'' < [CHR ''a'', CHR 0xFF]"
    by code_simp
  then show ?thesis
    using string_order_lexicographic [of "''ab''" "''b''"]
      string_order_lexicographic [of "''ab''" "[CHR ''a'', CHR 0xFF]"]
    by (simp add: less_char_def)
qed

text \<open>
  The interval built from a prefix holds exactly the strings that start with it, also when
  the prefix ends in bytes 0xFF, which have no successor, or is empty.
\<close>
theorem makePrefixInterval_is_prefix_set:
  "{s. intervalContains string_less (makePrefixInterval p) s} = {s. prefix p s} \<and>
   interval_wf (makePrefixInterval p)"
proof -
  have "string_less = (<)"
    by (intro ext) (rule string_less_lex)
  then show ?thesis
    by (simp add: makePrefixInterval_contains makePrefixInterval_wf)
qed

end
