(* ===== verification/StrUtil.thy ===== *)
theory StrUtil
  imports StringInterval
begin

section \<open>String utilities (src/cc/warp/strutil.h, strutil.cc, repr.h, parsing/quoted\_str.h)\<close>

text \<open>
  The escaping of byte strings as C literals and its inverse, UTF-8 encoding, integer and size
  parsing, the pseudo-numeric string order, hexadecimal dumps and text normalisation. Iterator
  ranges are strings; a function that returns an iterator into its input returns the rest of
  the range. The character classes are those of the C locale.
\<close>

subsection \<open>Character classes and digits\<close>

definition isprint :: "char \<Rightarrow> bool" where
  "isprint c \<longleftrightarrow> CHR '' '' \<le> c \<and> c \<le> CHR ''~''"

definition isspace :: "char \<Rightarrow> bool" where
  "isspace c \<longleftrightarrow> c = CHR '' '' \<or> CHR 0x09 \<le> c \<and> c \<le> CHR 0x0D"

definition isdigit :: "char \<Rightarrow> bool" where
  "isdigit c \<longleftrightarrow> CHR ''0'' \<le> c \<and> c \<le> CHR ''9''"

definition isupper :: "char \<Rightarrow> bool" where
  "isupper c \<longleftrightarrow> CHR ''A'' \<le> c \<and> c \<le> CHR ''Z''"

definition islower :: "char \<Rightarrow> bool" where
  "islower c \<longleftrightarrow> CHR ''a'' \<le> c \<and> c \<le> CHR ''z''"

definition isalpha :: "char \<Rightarrow> bool" where
  "isalpha c \<longleftrightarrow> isupper c \<or> islower c"

definition tolower :: "char \<Rightarrow> char" where
  "tolower c = (if isupper c then char_of (of_char c + 32 :: nat) else c)"

text \<open>The array \<open>HEX\<close> and the two digits of a byte.\<close>

definition HEX :: "nat \<Rightarrow> char" where
  "HEX i = ''0123456789abcdef'' ! i"

definition hexByte :: "char \<Rightarrow> string" where
  "hexByte c = [HEX (of_char c div 16), HEX (of_char c mod 16)]"

subsection \<open>Escaped output\<close>

definition reprChar :: "char \<Rightarrow> string" where
  "reprChar c =
     (if c = CHR 0x22 then [CHR 0x5C, CHR 0x22]
      else if c = CHR 0x5C then [CHR 0x5C, CHR 0x5C]
      else if c = CHR 0x07 then [CHR 0x5C, CHR ''a'']
      else if c = CHR 0x08 then [CHR 0x5C, CHR ''b'']
      else if c = CHR 0x0C then [CHR 0x5C, CHR ''f'']
      else if c = CHR 0x0A then [CHR 0x5C, CHR ''n'']
      else if c = CHR 0x0D then [CHR 0x5C, CHR ''r'']
      else if c = CHR 0x09 then [CHR 0x5C, CHR ''t'']
      else if c = CHR 0x0B then [CHR 0x5C, CHR ''v'']
      else if isprint c then [c]
      else [CHR 0x5C, CHR ''x''] @ hexByte c)"

definition reprString :: "string \<Rightarrow> bool \<Rightarrow> string" where
  "reprString s quote =
     (let r = (if quote then [CHR 0x22] else []) @ concat (map reprChar s)
      in if quote then r @ [CHR 0x22] else r)"

text \<open>\<open>typeString\<close> shows the four bytes of a type code, in the little-endian layout of the
  platforms the program is built for.\<close>

definition typeString :: "32 word \<Rightarrow> string" where
  "typeString typecode =
     reprString (map (\<lambda>i. char_of (unat (drop_bit (8 * i) typecode))) [0, 1, 2, 3]) False"

text \<open>
  The stream output of \<open>ReprEscape\<close> (repr.h) fills a buffer of 1024 bytes and flushes it
  whenever at most four bytes are left. The state is the text written and the buffer; \<open>char\<close>
  is signed, so bytes from 0x80 count as smaller than a space.
\<close>

definition escapeChar :: "char \<Rightarrow> string" where
  "escapeChar c =
     (if c \<le> CHR ''~'' \<or> CHR 0x80 \<le> c then
        (if CHR '' '' \<le> c \<and> \<not> CHR 0x80 \<le> c then
           (if c = CHR 0x22 then [CHR 0x5C, CHR 0x22]
            else if c = CHR 0x5C then [CHR 0x5C, CHR 0x5C]
            else [c])
         else if c = CHR 0x0A then [CHR 0x5C, CHR ''n'']
         else if c = CHR 0x09 then [CHR 0x5C, CHR ''t'']
         else if c = CHR 0x0D then [CHR 0x5C, CHR ''r'']
         else if c = CHR 0x08 then [CHR 0x5C, CHR ''b'']
         else if c = CHR 0x07 then [CHR 0x5C, CHR ''a'']
         else if c = CHR 0x0C then [CHR 0x5C, CHR ''f'']
         else if c = CHR 0x0B then [CHR 0x5C, CHR ''v'']
         else [CHR 0x5C, CHR ''x''] @ hexByte c)
      else [CHR 0x5C, CHR ''x''] @ hexByte c)"

definition escapeStep :: "char \<Rightarrow> string \<times> string \<Rightarrow> string \<times> string" where
  "escapeStep c st =
     (let (out, buf) = st; buf' = buf @ escapeChar c
      in if 1024 - 4 \<le> length buf' then (out @ buf', []) else (out, buf'))"

definition reprEscape :: "string \<Rightarrow> string" where
  "reprEscape x =
     (let (out, buf) = fold escapeStep x ([], []) in if buf \<noteq> [] then out @ buf else out)"

subsection \<open>Escape sequences and quoted strings\<close>

definition hexHi :: "char \<Rightarrow> int option" where
  "hexHi = map_of
     [(CHR ''0'', 0x00), (CHR ''1'', 0x10), (CHR ''2'', 0x20), (CHR ''3'', 0x30),
      (CHR ''4'', 0x40), (CHR ''5'', 0x50), (CHR ''6'', 0x60), (CHR ''7'', 0x70),
      (CHR ''8'', 0x80), (CHR ''9'', 0x90), (CHR ''a'', 0xA0), (CHR ''A'', 0xA0),
      (CHR ''b'', 0xB0), (CHR ''B'', 0xB0), (CHR ''c'', 0xC0), (CHR ''C'', 0xC0),
      (CHR ''d'', 0xD0), (CHR ''D'', 0xD0), (CHR ''e'', 0xE0), (CHR ''E'', 0xE0),
      (CHR ''f'', 0xF0), (CHR ''F'', 0xF0)]"

definition hexLo :: "char \<Rightarrow> int option" where
  "hexLo = map_of
     [(CHR ''0'', 0x00), (CHR ''1'', 0x01), (CHR ''2'', 0x02), (CHR ''3'', 0x03),
      (CHR ''4'', 0x04), (CHR ''5'', 0x05), (CHR ''6'', 0x06), (CHR ''7'', 0x07),
      (CHR ''8'', 0x08), (CHR ''9'', 0x09), (CHR ''a'', 0x0A), (CHR ''A'', 0x0A),
      (CHR ''b'', 0x0B), (CHR ''B'', 0x0B), (CHR ''c'', 0x0C), (CHR ''C'', 0x0C),
      (CHR ''d'', 0x0D), (CHR ''D'', 0x0D), (CHR ''e'', 0x0E), (CHR ''E'', 0x0E),
      (CHR ''f'', 0x0F), (CHR ''F'', 0x0F)]"

definition dehex :: "char \<Rightarrow> char \<Rightarrow> int" where
  "dehex hi lo =
     (case hexHi hi of
        None \<Rightarrow> -1
      | Some x \<Rightarrow> (case hexLo lo of None \<Rightarrow> -1 | Some y \<Rightarrow> or x y))"

definition wchar :: "32 word \<Rightarrow> char" where
  "wchar w = char_of (unat w)"

text \<open>The format \<open>%08X\<close>.\<close>

definition showHex8 :: "32 word \<Rightarrow> string" where
  "showHex8 w = map (\<lambda>i. ''0123456789ABCDEF'' ! unat (and (drop_bit (4 * i) w) 15)) [7, 6, 5, 4, 3, 2, 1, 0]"

text \<open>A continuation byte: six bits of the character from bit \<open>n\<close>.\<close>

definition utf8Tail :: "nat \<Rightarrow> 32 word \<Rightarrow> char" where
  "utf8Tail n u = wchar (or 0x80 (and (drop_bit n u) 0x3F))"

definition encodeUtf8 :: "32 word \<Rightarrow> string result" where
  "encodeUtf8 u =
     (if u < 0x0000007F then Inr [wchar u]
      else if u < 0x000007FF then
        Inr [wchar (or 0xC0 (drop_bit 6 u)), utf8Tail 0 u]
      else if u < 0x0000FFFF then
        Inr [wchar (or 0xE0 (drop_bit 12 u)), utf8Tail 6 u, utf8Tail 0 u]
      else if u < 0x001FFFFF then
        Inr [wchar (or 0xF0 (drop_bit 18 u)), utf8Tail 12 u, utf8Tail 6 u, utf8Tail 0 u]
      else if u < 0x03FFFFFF then
        Inr [wchar (or 0xF8 (drop_bit 24 u)), utf8Tail 18 u, utf8Tail 12 u, utf8Tail 6 u, utf8Tail 0 u]
      else if u < 0x7FFFFFFF then
        Inr [wchar (or 0xFC (drop_bit 30 u)), utf8Tail 24 u, utf8Tail 18 u, utf8Tail 12 u,
             utf8Tail 6 u, utf8Tail 0 u]
      else Inl (ValueError (''invalid Unicode character: U+'' @ showHex8 u)))"

definition simpleEscape :: "char \<Rightarrow> char option" where
  "simpleEscape = map_of
     [(CHR 0x5C, CHR 0x5C), (CHR ''a'', CHR 0x07), (CHR ''b'', CHR 0x08), (CHR ''f'', CHR 0x0C),
      (CHR ''n'', CHR 0x0A), (CHR ''r'', CHR 0x0D), (CHR ''t'', CHR 0x09), (CHR ''v'', CHR 0x0B)]"

text \<open>Returns the text appended to \<open>dst\<close> and the rest of the range.\<close>

definition decodeEscapeSequence :: "string \<Rightarrow> (string \<times> string) result" where
  "decodeEscapeSequence s =
     (if length s < 1 then Inl (ValueError ''empty escape sequence'')
      else case simpleEscape (s ! 0) of
        Some c \<Rightarrow> Inr ([c], drop 1 s)
      | None \<Rightarrow>
          if s ! 0 = CHR ''x'' then
            (if length s < 3 \<or> dehex (s ! 1) (s ! 2) = -1
             then Inl (ValueError (''invalid hex escape sequence: '' @ CHR 0x5C # take 3 s))
             else Inr ([char_of (nat (dehex (s ! 1) (s ! 2)))], drop 3 s))
          else if s ! 0 = CHR ''u'' then
            (if length s < 5 \<or> dehex (s ! 1) (s ! 2) = -1 \<or> dehex (s ! 3) (s ! 4) = -1
             then Inl (ValueError (''invalid Unicode escape sequence: '' @ CHR 0x5C # take 5 s))
             else bind_res (encodeUtf8 (or (push_bit 8 (word_of_int (dehex (s ! 1) (s ! 2))))
                                           (word_of_int (dehex (s ! 3) (s ! 4)))))
                    (\<lambda>r. Inr (r, drop 5 s)))
          else if s ! 0 = CHR ''U'' then
            (if length s < 9 \<or> dehex (s ! 1) (s ! 2) = -1 \<or> dehex (s ! 3) (s ! 4) = -1 \<or>
                dehex (s ! 5) (s ! 6) = -1 \<or> dehex (s ! 7) (s ! 8) = -1
             then Inl (ValueError (''invalid Unicode escape sequence: '' @ CHR 0x5C # take 9 s))
             else bind_res (encodeUtf8 (or (or (or (push_bit 24 (word_of_int (dehex (s ! 1) (s ! 2))))
                                                   (push_bit 16 (word_of_int (dehex (s ! 3) (s ! 4)))))
                                               (push_bit 8 (word_of_int (dehex (s ! 5) (s ! 6)))))
                                           (word_of_int (dehex (s ! 7) (s ! 8)))))
                    (\<lambda>r. Inr (r, drop 9 s)))
          else Inr ([s ! 0], drop 1 s))"

lemma decodeEscapeSequence_shorter:
  "decodeEscapeSequence s = Inr (r, s') \<Longrightarrow> length s' < length s"
  by (auto simp: decodeEscapeSequence_def bind_res_eq_Inr split: if_splits option.splits)

text \<open>The action of \<open>QuotedStringParser\<close>: the loop over the text between the quotes, and the
  action, which drops the first and the last character of the matched text.\<close>

function unquoteLoop :: "string \<Rightarrow> string \<Rightarrow> string result" where
  "unquoteLoop [] res = Inr res"
| "unquoteLoop (c # s) res =
     (if c = CHR 0x5C then
        (case decodeEscapeSequence s of
           Inl e \<Rightarrow> Inl e
         | Inr (r, s') \<Rightarrow> unquoteLoop s' (res @ r))
      else unquoteLoop s (res @ [c]))"
  by pat_completeness auto
termination
  by (relation "measure (\<lambda>(s, res). length s)") (auto dest: decodeEscapeSequence_shorter)

definition quotedAssign :: "string \<Rightarrow> string result" where
  "quotedAssign matched = unquoteLoop (butlast (drop 1 matched)) []"

subsection \<open>Unquoting inverts escaping\<close>

lemma of_char_byte: "(of_char c :: nat) < 256"
  using of_char_less_256 by blast

lemma of_char_nibble: "(of_char c :: nat) div 16 < 16"
  using of_char_byte [of c] by (simp add: less_mult_imp_div_less)

lemma dehex_HEX:
  assumes "n < 256"
  shows "dehex (HEX (n div 16)) (HEX (n mod 16)) = int n"
proof -
  have "\<forall>a\<in>set [0..<16]. hexHi (HEX a) = Some (push_bit 4 (int a)) \<and> hexLo (HEX a) = Some (int a)"
    by code_simp
  moreover have "n div 16 < 16" "n mod 16 < 16"
    using assms by auto
  ultimately have "dehex (HEX (n div 16)) (HEX (n mod 16)) = or (push_bit 4 (int (n div 16))) (int (n mod 16))"
    by (simp add: dehex_def)
  also have "\<dots> = concat_bit 4 (int (n mod 16)) (int (n div 16))"
    by (simp add: concat_bit_def or.commute take_bit_eq_mod flip: zmod_int)
  also have "\<dots> = int (n mod 16) + 16 * int (n div 16)"
    by (simp add: concat_bit_eq take_bit_eq_mod push_bit_eq_mult flip: zmod_int)
  also have "\<dots> = int n"
    using mod_mult_div_eq [of n 16] by linarith
  finally show ?thesis .
qed

lemma decode_hexByte: "decodeEscapeSequence (CHR ''x'' # hexByte c @ t) = Inr ([c], t)"
  by (simp add: decodeEscapeSequence_def simpleEscape_def hexByte_def dehex_HEX [OF of_char_byte])

lemma decode_simple:
  "simpleEscape e = Some c \<Longrightarrow> decodeEscapeSequence (e # t) = Inr ([c], t)"
  by (simp add: decodeEscapeSequence_def)

lemma decode_quote: "decodeEscapeSequence (CHR 0x22 # t) = Inr ([CHR 0x22], t)"
  by (simp add: decodeEscapeSequence_def simpleEscape_def)

lemma unquote_reprChar: "unquoteLoop (reprChar c @ t) res = unquoteLoop t (res @ [c])"
  unfolding reprChar_def
  by (auto simp: decode_quote decode_hexByte decode_simple simpleEscape_def)

lemma unquote_escaped: "unquoteLoop (concat (map reprChar s) @ t) res = unquoteLoop t (res @ s)"
  by (induction s arbitrary: res) (simp_all add: unquote_reprChar)

lemma quotedAssign_reprString: "quotedAssign (reprString s True) = Inr s"
  using unquote_escaped [of s "[]" "[]"]
  by (simp add: quotedAssign_def reprString_def Let_def butlast_append)

text \<open>What \<open>confix_p\<close> relies on: between the quotes, a quote is always escaped.\<close>

fun quote_free :: "string \<Rightarrow> bool" where
  "quote_free (c # d # s) = (if c = CHR 0x5C then quote_free s else c \<noteq> CHR 0x22 \<and> quote_free (d # s))"
| "quote_free [c] = (c \<noteq> CHR 0x5C \<and> c \<noteq> CHR 0x22)"
| "quote_free [] = True"

lemma quote_free_Cons: "c \<noteq> CHR 0x5C \<Longrightarrow> quote_free (c # s) \<longleftrightarrow> c \<noteq> CHR 0x22 \<and> quote_free s"
  by (cases s) auto

lemma HEX_range: "n < 16 \<Longrightarrow> CHR ''0'' \<le> HEX n \<and> HEX n \<le> CHR ''f'' \<and> HEX n \<noteq> CHR 0x5C"
proof -
  have "\<forall>n\<in>set [0..<16]. CHR ''0'' \<le> HEX n \<and> HEX n \<le> CHR ''f'' \<and> HEX n \<noteq> CHR 0x5C"
    by code_simp
  then show "n < 16 \<Longrightarrow> CHR ''0'' \<le> HEX n \<and> HEX n \<le> CHR ''f'' \<and> HEX n \<noteq> CHR 0x5C" by simp
qed

lemma hexByte_range:
  "d \<in> set (hexByte c) \<Longrightarrow> CHR ''0'' \<le> d \<and> d \<le> CHR ''f'' \<and> d \<noteq> CHR 0x5C"
  using HEX_range [of "of_char c div 16"] HEX_range [of "of_char c mod 16"] of_char_nibble [of c]
  by (auto simp: hexByte_def)

lemma quote_free_hexByte: "quote_free (hexByte c @ t) \<longleftrightarrow> quote_free t"
proof -
  have "HEX (of_char c div 16) \<noteq> CHR 0x5C \<and> HEX (of_char c div 16) \<noteq> CHR 0x22"
    "HEX (of_char c mod 16) \<noteq> CHR 0x5C \<and> HEX (of_char c mod 16) \<noteq> CHR 0x22"
    using HEX_range [of "of_char c div 16"] HEX_range [of "of_char c mod 16"] of_char_nibble [of c] by auto
  then show ?thesis by (simp add: hexByte_def quote_free_Cons)
qed

lemma quote_free_reprChar: "quote_free (reprChar c @ t) \<longleftrightarrow> quote_free t"
  unfolding reprChar_def by (auto simp: quote_free_hexByte quote_free_Cons)

lemma quote_free_escaped: "quote_free (concat (map reprChar s))"
  by (induction s) (simp_all add: quote_free_reprChar)

lemma reprChar_printable: "d \<in> set (reprChar c) \<Longrightarrow> isprint d"
proof -
  have "isprint d" if "d \<in> set (hexByte c)"
    using hexByte_range [OF that] order_trans [of "CHR '' ''" "CHR ''0''" d]
      order_trans [of d "CHR ''f''" "CHR ''~''"] by (simp add: isprint_def)
  moreover have "isprint CHR 0x22 \<and> isprint CHR 0x5C \<and> isprint CHR ''a'' \<and> isprint CHR ''b'' \<and>
      isprint CHR ''f'' \<and> isprint CHR ''n'' \<and> isprint CHR ''r'' \<and> isprint CHR ''t'' \<and>
      isprint CHR ''v'' \<and> isprint CHR ''x''"
    by code_simp
  ultimately show "d \<in> set (reprChar c) \<Longrightarrow> isprint d"
    by (auto simp: reprChar_def simp del: isprint_def split: if_splits)
qed

subsection \<open>The buffered escape writes the same text\<close>

lemma escapeChar_eq: "escapeChar c = reprChar c"
proof -
  have "\<not> (CHR 0x80 \<le> c \<and> c \<le> CHR ''~'')"
    using order_trans [of "CHR 0x80" c "CHR ''~''"] by auto
  moreover have "CHR 0x80 \<le> c \<Longrightarrow> CHR '' '' \<le> c"
    using order_trans [of "CHR '' ''" "CHR 0x80" c] by simp
  ultimately show ?thesis
    by (auto simp: escapeChar_def reprChar_def isprint_def)
qed

lemma reprChar_length: "length (reprChar c) \<le> 4"
  by (simp add: reprChar_def hexByte_def)

text \<open>The buffer holds at most 1019 bytes between characters, so a step writes within it.\<close>

lemma escape_fold:
  assumes "length buf < 1020"
  shows "case fold escapeStep x (out, buf) of (out', buf') \<Rightarrow>
     length buf' < 1020 \<and> out' @ buf' = out @ buf @ concat (map reprChar x)"
  using assms
proof (induction x arbitrary: out buf)
  case (Cons c x)
  show ?case
  proof (cases "1020 \<le> length (buf @ reprChar c)")
    case True
    then show ?thesis
      using Cons.IH [of "[]" "out @ buf @ reprChar c"]
      by (auto simp: escapeStep_def escapeChar_eq split: prod.splits)
  next
    case False
    then show ?thesis
      using Cons.IH [of "buf @ reprChar c" out]
      by (auto simp: escapeStep_def escapeChar_eq split: prod.splits)
  qed
qed simp

lemma reprEscape_eq: "reprEscape x = reprString x False"
proof -
  obtain o' b' where f: "fold escapeStep x ([], []) = (o', b')" by force
  have "length ([] :: string) < 1020" by simp
  from escape_fold [OF this, of "[]" x] have "o' @ b' = concat (map reprChar x)"
    unfolding f by simp
  then show ?thesis by (auto simp: reprEscape_def reprString_def f)
qed

subsection \<open>Integers\<close>

text \<open>
  \<open>parseInt\<close> for an integer type of the word's width; \<open>sgd\<close> is
  \<open>numeric_limits<Int>::is_signed\<close>. It does not detect overflow: the value wraps.
\<close>

fun parseDigits :: "'w::len word \<Rightarrow> string \<Rightarrow> 'w word option" where
  "parseDigits x [] = Some x"
| "parseDigits x (c # p) =
     (if CHR ''0'' \<le> c \<and> c \<le> CHR ''9''
      then parseDigits (x * 10 + of_nat (of_char c) - 48) p
      else None)"

definition parseInt :: "bool \<Rightarrow> string \<Rightarrow> 'w::len word option" where
  "parseInt sgd s =
     (if s \<noteq> [] \<and> s ! 0 = CHR ''-'' then
        (if \<not> sgd then None
         else if drop 1 s = [] then None
         else map_option uminus (parseDigits 0 (drop 1 s)))
      else if s = [] then None
      else parseDigits 0 s)"

definition parseIntOrRaise :: "bool \<Rightarrow> string \<Rightarrow> 'w::len word result" where
  "parseIntOrRaise sgd s =
     (case parseInt sgd s of
        Some x \<Rightarrow> Inr x
      | None \<Rightarrow> Inl (ValueError (''invalid integer: '' @ s)))"

text \<open>The stream output of an integer, and the value of a string of digits.\<close>

fun showNat :: "nat \<Rightarrow> string" where
  "showNat n = (if n < 10 then [char_of (48 + n)] else showNat (n div 10) @ [char_of (48 + n mod 10)])"

declare showNat.simps [simp del]

definition showInt :: "int \<Rightarrow> string" where
  "showInt i = (if i < 0 then CHR ''-'' # showNat (nat (- i)) else showNat (nat i))"

fun decVal :: "nat \<Rightarrow> string \<Rightarrow> nat" where
  "decVal n [] = n"
| "decVal n (c # s) = decVal (n * 10 + (of_char c - 48)) s"

definition PseudoNumericLt :: "string \<Rightarrow> string \<Rightarrow> bool" where
  "PseudoNumericLt a b =
     (case (parseInt True a :: 32 word option) of
        Some aVal \<Rightarrow>
          (case (parseInt True b :: 32 word option) of
             Some bVal \<Rightarrow> sint aVal < sint bVal
           | None \<Rightarrow> True)
      | None \<Rightarrow>
          (case (parseInt True b :: 32 word option) of
             Some bVal \<Rightarrow> False
           | None \<Rightarrow> a < b))"

interpretation pseudo_numeric: value_order PseudoNumericLt
proof
  show "PseudoNumericLt x y \<Longrightarrow> \<not> PseudoNumericLt y x" for x y
    using less_asym [of x y] by (auto simp: PseudoNumericLt_def split: option.splits)
  show "PseudoNumericLt x y \<Longrightarrow> PseudoNumericLt x z \<or> PseudoNumericLt z y" for x y z
    using std_less.lt_cotrans [of x y z] by (auto simp: PseudoNumericLt_def split: option.splits)
qed

subsection \<open>Sizes\<close>

text \<open>
  \<open>size_t\<close> is a 64-bit word. The string is read through \<open>c_str()\<close>, with its terminating
  zero byte. The divisor \<open>d\<close> of the fraction wraps too, and can reach zero.
\<close>

fun sizeDigits :: "bool \<Rightarrow> 64 word \<Rightarrow> 64 word \<Rightarrow> string \<Rightarrow> 64 word \<times> 64 word \<times> string" where
  "sizeDigits frac n d (c # p) =
     (if isdigit c
      then sizeDigits frac (n * 10 + of_nat (of_char c) - 48) (if frac then d * 10 else d) p
      else (n, d, c # p))"
| "sizeDigits frac n d [] = (n, d, [])"

definition sizeQuotient :: "64 word \<Rightarrow> 64 word \<Rightarrow> 64 word result" where
  "sizeQuotient n d = (if d = 0 then Inl (Undefined ''division by zero'') else Inr (n div d))"

definition parseSize :: "string \<Rightarrow> 64 word result" where
  "parseSize s =
     (let bad = Inl (RuntimeError (''invalid size: '' @ takeWhile (\<lambda>c. c \<noteq> CHR 0x00) s));
          p0 = dropWhile isspace (s @ [CHR 0x00])
      in if \<not> isdigit (hd p0) then bad
         else
           let (n1, d1, p1) = sizeDigits False (of_nat (of_char (hd p0)) - 48) 1 (drop 1 p0);
               (n2, d2, p2) = (if hd p1 = CHR ''.'' then sizeDigits True n1 d1 (drop 1 p1)
                               else (n1, d1, p1));
               p3 = dropWhile isspace p2;
               c = hd p3
           in if c = CHR 0x00 then sizeQuotient n2 d2
              else if c \<notin> set ''kKmMgG'' then bad
              else
                let n3 = (if c = CHR ''k'' \<or> c = CHR ''K'' then push_bit 10 n2
                          else if c = CHR ''m'' \<or> c = CHR ''M'' then push_bit 20 n2
                          else push_bit 30 n2)
                in if hd (drop 1 p3) \<noteq> CHR 0x00 then bad
                   else sizeQuotient n3 d2)"

subsection \<open>Hexadecimal dumps\<close>

definition hexString :: "string \<Rightarrow> string" where
  "hexString s = concat (map hexByte s)"

text \<open>\<open>memDump\<close> puts a space before every byte but the first at an aligned address.\<close>

fun memDumpLoop :: "nat \<Rightarrow> 64 word \<Rightarrow> 64 word \<Rightarrow> string \<Rightarrow> string" where
  "memDumpLoop i addr wordSize [] = []"
| "memDumpLoop i addr wordSize (c # p) =
     (if i \<noteq> 0 \<and> addr mod wordSize = 0 then '' '' else []) @ hexByte c @
     memDumpLoop (i + 1) (addr + 1) wordSize p"

definition memDump :: "64 word \<Rightarrow> string \<Rightarrow> 64 word \<Rightarrow> string" where
  "memDump ptr bytes wordSize = memDumpLoop 0 ptr wordSize bytes"

subsection \<open>Text\<close>

text \<open>
  \<open>alphaNormalize\<close> works in place: the output is never longer than the input read, so the
  write pointer stays behind the read pointer (\<open>anLoop_behind\<close>).
\<close>

fun anLoop :: "bool \<Rightarrow> string \<Rightarrow> string \<Rightarrow> string" where
  "anLoop needSpace out [] = out"
| "anLoop needSpace out (c # i) =
     (if isalpha c then anLoop False ((if needSpace then out @ '' '' else out) @ [tolower c]) i
      else anLoop (needSpace \<or> out \<noteq> []) out i)"

definition alphaNormalize :: "string \<Rightarrow> string" where
  "alphaNormalize x = anLoop False [] x"

text \<open>\<open>string::find\<close> from a position, and the replacement loop.\<close>

function find_from :: "string \<Rightarrow> string \<Rightarrow> nat \<Rightarrow> nat option" where
  "find_from match s pos =
     (if length s < pos then None
      else if prefix match (drop pos s) then Some pos
      else find_from match s (pos + 1))"
  by pat_completeness auto
termination
  by (relation "measure (\<lambda>(m, s, pos). Suc (length s) - pos)") auto

declare find_from.simps [simp del]

lemma find_from_bound: "find_from match s pos = Some k \<Longrightarrow> pos \<le> k \<and> k \<le> length s \<and> prefix match (drop k s)"
  by (induction match s pos rule: find_from.induct) (subst (asm) (2) find_from.simps, auto split: if_splits)

text \<open>The match is replaced and the search goes on after the replacement; after an empty match
  it skips one character.\<close>

function replaceLoop :: "string \<Rightarrow> string \<Rightarrow> string \<Rightarrow> nat \<Rightarrow> string" where
  "replaceLoop match repl s start =
     (case find_from match s start of
        None \<Rightarrow> s
      | Some pos \<Rightarrow>
          replaceLoop match repl (take pos s @ repl @ drop (pos + length match) s)
            (pos + (if length match = 0 then length repl + 1 else length repl)))"
  by pat_completeness auto
termination
proof (relation "measure (\<lambda>(m, r, s, start). Suc (length s) - start)", goal_cases)
  case (2 match repl s start pos)
  have "length match \<le> length s - pos" "pos \<le> length s" "start \<le> pos"
    using find_from_bound [OF 2] prefix_length_le [of match "drop pos s"] by auto
  then show ?case by (cases match) (auto simp: min_def)
qed simp

declare replaceLoop.simps [simp del]

definition replace_inplace :: "string \<Rightarrow> string \<Rightarrow> string \<Rightarrow> string" where
  "replace_inplace s match repl = replaceLoop match repl s 0"

subsection \<open>Integers: the value parsed, and the round trip with output\<close>

lemma isdigit_bounds: "isdigit c \<longleftrightarrow> CHR ''0'' \<le> c \<and> c \<le> CHR ''9''"
  by (simp add: isdigit_def)

lemma isdigit_nat: "isdigit c \<longleftrightarrow> 48 \<le> (of_char c :: nat) \<and> (of_char c :: nat) \<le> 57"
  by (simp add: isdigit_def less_eq_char_def)

lemma digit_step:
  assumes "isdigit c"
  shows "(of_nat n :: 'w::len word) * 10 + of_nat (of_char c) - 48 = of_nat (n * 10 + (of_char c - 48))"
  using assms by (simp add: isdigit_nat of_nat_diff)

lemma parseDigits_value:
  "parseDigits (of_nat n) s =
     (if \<forall>c\<in>set s. isdigit c then Some (of_nat (decVal n s) :: 'w::len word) else None)"
proof (induction s arbitrary: n)
  case (Cons c s)
  then show ?case
    by (simp add: isdigit_bounds [symmetric] digit_step del: of_nat_add of_nat_mult)
qed simp

lemma parseDigits_0:
  "parseDigits 0 s =
     (if \<forall>c\<in>set s. isdigit c then Some (of_nat (decVal 0 s) :: 'w::len word) else None)"
  using parseDigits_value [of 0 s] by simp

declare parseDigits.simps [simp del]

lemma decVal_append: "decVal n (s @ t) = decVal (decVal n s) t"
  by (induction s arbitrary: n) auto

lemma of_char_digit: "n < 10 \<Longrightarrow> (of_char (char_of (48 + n)) :: nat) = 48 + n"
  by simp

lemma showNat_digits: "showNat n \<noteq> [] \<and> (\<forall>c\<in>set (showNat n). isdigit c)"
proof (induction n rule: showNat.induct)
  case (1 n)
  then show ?case
    by (subst showNat.simps, subst (2) showNat.simps) (auto simp: isdigit_nat)
qed

lemma decVal_showNat: "decVal 0 (showNat n) = n"
proof (induction n rule: showNat.induct)
  case (1 n)
  then show ?case
    by (subst showNat.simps) (auto simp: decVal_append)
qed

lemma digit_not_minus: "isdigit c \<Longrightarrow> c \<noteq> CHR ''-''"
  by (auto simp: isdigit_nat)

lemma showNat_first: "showNat n ! 0 \<noteq> CHR ''-''"
  using showNat_digits [of n] by (cases "showNat n") (auto dest: digit_not_minus)

lemma parseInt_showNat: "parseInt sgd (showNat n) = Some (of_nat n)"
proof -
  have "showNat n \<noteq> []" "\<forall>c\<in>set (showNat n). isdigit c"
    using showNat_digits [of n] by blast+
  then show ?thesis
    by (simp only: parseInt_def showNat_first parseDigits_0 decVal_showNat) simp
qed

lemma parseInt_showInt: "parseInt sgd (showInt i) = (if i < 0 \<and> \<not> sgd then None else Some (word_of_int i))"
proof (cases "i < 0")
  case True
  have "showNat (nat (- i)) \<noteq> []" "\<forall>c\<in>set (showNat (nat (- i))). isdigit c"
    using showNat_digits [of "nat (- i)"] by blast+
  moreover have "- (of_nat (nat (- i)) :: 'a word) = word_of_int i"
    using True by simp
  ultimately show ?thesis
    using True by (simp add: parseInt_def showInt_def parseDigits_0 decVal_showNat)
qed (simp add: showInt_def parseInt_showNat)

text \<open>The integer a string denotes: an optional minus, then at least one digit.\<close>

definition decInt :: "string \<Rightarrow> int option" where
  "decInt s =
     (let (neg, ds) = (if take 1 s = ''-'' then (True, drop 1 s) else (False, s))
      in if ds = [] \<or> \<not> list_all isdigit ds then None
         else Some (if neg then - int (decVal 0 ds) else int (decVal 0 ds)))"

lemma parseInt_decInt: "parseInt True s = map_option word_of_int (decInt s)"
  by (cases s) (auto simp: parseInt_def decInt_def parseDigits_0 list_all_iff)

subsection \<open>Dumps\<close>

lemma hexByte_no_space: "filter (\<lambda>c. c \<noteq> CHR '' '') (hexByte c) = hexByte c"
proof -
  have "\<forall>d\<in>set (hexByte c). d \<noteq> CHR '' ''"
    using hexByte_range [of "CHR '' ''" c] by auto
  then show ?thesis by simp
qed

lemma memDump_hex: "filter (\<lambda>c. c \<noteq> CHR '' '') (memDump ptr s w) = hexString s"
proof -
  have "filter (\<lambda>c. c \<noteq> CHR '' '') (memDumpLoop i a w s) = hexString s" for i a
    by (induction s arbitrary: i a) (simp_all add: hexString_def hexByte_no_space)
  then show ?thesis by (simp add: memDump_def)
qed

subsection \<open>Text normalisation\<close>

text \<open>Normal text: lower-case words separated by single spaces.\<close>

fun wordsFrom :: "bool \<Rightarrow> string \<Rightarrow> bool" where
  "wordsFrom letter [] = letter"
| "wordsFrom letter (c # s) =
     (if islower c then wordsFrom True s else letter \<and> c = CHR '' '' \<and> wordsFrom False s)"

definition alphaNormal :: "string \<Rightarrow> bool" where
  "alphaNormal s \<longleftrightarrow> s = [] \<or> wordsFrom False s"

lemma wordsFrom_snoc_letter: "islower c \<Longrightarrow> wordsFrom b s \<Longrightarrow> wordsFrom b (s @ [c])"
  by (induction b s rule: wordsFrom.induct) auto

lemma wordsFrom_snoc_space: "islower c \<Longrightarrow> wordsFrom b s \<Longrightarrow> wordsFrom b (s @ '' '' @ [c])"
  by (induction b s rule: wordsFrom.induct) (auto simp: islower_def)

lemma tolower_lower: "isalpha c \<Longrightarrow> islower (tolower c)"
  by (auto simp: isalpha_def tolower_def isupper_def islower_def less_eq_char_def)

lemma tolower_id: "islower c \<Longrightarrow> tolower c = c"
  by (auto simp: tolower_def isupper_def islower_def less_eq_char_def)

lemma anLoop_normal:
  "alphaNormal out \<Longrightarrow> ns \<longrightarrow> out \<noteq> [] \<Longrightarrow> alphaNormal (anLoop ns out i)"
proof (induction ns out i rule: anLoop.induct)
  case (2 ns out c i)
  have "alphaNormal ((if ns then out @ '' '' else out) @ [tolower c])" if "isalpha c"
    using 2 tolower_lower [OF that] wordsFrom_snoc_letter wordsFrom_snoc_space
    by (auto simp: alphaNormal_def)
  with 2 show ?case by auto
qed simp

lemma anLoop_letters:
  "filter isalpha (anLoop ns out i) = filter isalpha out @ map tolower (filter isalpha i)"
proof (induction ns out i rule: anLoop.induct)
  case (2 ns out c i)
  have "isalpha (tolower c)" if "isalpha c"
    using tolower_lower [OF that] by (simp add: isalpha_def)
  moreover have "\<not> isalpha CHR '' ''"
    by (simp add: isalpha_def isupper_def islower_def)
  ultimately show ?case using 2 by auto
qed simp

lemma anLoop_behind: "length (anLoop ns out i) \<le> length out + (if ns then 1 else 0) + length i"
proof (induction ns out i rule: anLoop.induct)
  case (2 ns out c i)
  then show ?case by (auto split: if_splits)
qed simp

lemma anLoop_id:
  "wordsFrom b i \<Longrightarrow> out \<noteq> [] \<or> \<not> b \<Longrightarrow> (b \<or> out = []) \<Longrightarrow> anLoop False out i = out @ i"
  "wordsFrom False i \<Longrightarrow> out \<noteq> [] \<Longrightarrow> anLoop True out i = out @ '' '' @ i"
proof (induction i arbitrary: out b)
  case (Cons c i)
  { case 1
    show ?case
    proof (cases "islower c")
      case True
      with 1 Cons.IH(1) [of True "out @ [c]"] show ?thesis
        by (simp add: isalpha_def tolower_id)
    next
      case False
      with 1 have "c = CHR '' ''" "b" "wordsFrom False i" by auto
      with 1 Cons.IH(2) [of out] show ?thesis
        by (simp add: isalpha_def isupper_def islower_def)
    qed
  next
    case 2
    then have "islower c" "wordsFrom True i" by (auto split: if_splits)
    with Cons.IH(1) [of True "out @ '' '' @ [c]"] show ?case
      by (simp add: isalpha_def tolower_id) }
qed auto

lemma alphaNormalize_correct:
  "alphaNormal (alphaNormalize x)"
  "filter isalpha (alphaNormalize x) = map tolower (filter isalpha x)"
  "alphaNormal x \<Longrightarrow> alphaNormalize x = x"
  using anLoop_normal [of "[]" False x] anLoop_letters [of False "[]" x] anLoop_id(1) [of False x "[]"]
  by (auto simp: alphaNormalize_def alphaNormal_def)

subsection \<open>Replacement\<close>

text \<open>The specification: occurrences are replaced from left to right without overlap; an empty
  match puts the replacement around every character.\<close>

function replaceSpec :: "string \<Rightarrow> string \<Rightarrow> string \<Rightarrow> string" where
  "replaceSpec m r s =
     (if m = [] then concat (map (\<lambda>c. r @ [c]) s) @ r
      else if s = [] then []
      else if prefix m s then r @ replaceSpec m r (drop (length m) s)
      else hd s # replaceSpec m r (drop 1 s))"
  by pat_completeness auto
termination
  by (relation "measure (\<lambda>(m, r, s). length s)") auto

declare replaceSpec.simps [simp del]

lemma find_from_here:
  "find_from m (pre @ s) (length pre) =
     (if prefix m s then Some (length pre)
      else if s = [] then None
      else find_from m ((pre @ [hd s]) @ drop 1 s) (length (pre @ [hd s])))"
proof (cases "prefix m s \<or> s \<noteq> []")
  case True
  then have eq: "s \<noteq> [] \<Longrightarrow> (pre @ [hd s]) @ drop 1 s = pre @ s"
    by (cases s) auto
  show ?thesis
  proof (cases "prefix m s")
    case False
    with True have "s \<noteq> []" by simp
    with False eq show ?thesis
      by (subst find_from.simps) (simp del: append_assoc)
  qed (simp add: find_from.simps)
next
  case False
  then show ?thesis
    by (subst find_from.simps, subst find_from.simps) simp
qed

lemma replaceLoop_empty:
  "replaceLoop [] r (pre @ s) (length pre) = pre @ concat (map (\<lambda>c. r @ [c]) s) @ r"
proof (induction s arbitrary: pre)
  case Nil
  have "find_from [] (pre @ r) (length pre + length r + 1) = None"
    by (subst find_from.simps) simp
  then have "replaceLoop [] r (pre @ r) (length pre + length r + 1) = pre @ r"
    by (subst replaceLoop.simps) simp
  then show ?case
    by (subst replaceLoop.simps) (simp add: find_from_here [of _ _ "[]", simplified])
next
  case (Cons c s)
  show ?case
    using Cons.IH [of "pre @ r @ [c]"]
    by (subst replaceLoop.simps) (simp add: find_from_here)
qed

lemma replaceLoop_spec:
  "m \<noteq> [] \<Longrightarrow> replaceLoop m r (pre @ s) (length pre) = pre @ replaceSpec m r s"
proof (induction m r s arbitrary: pre rule: replaceSpec.induct)
  case (1 m r s)
  consider "s = []" | "s \<noteq> []" "prefix m s" | "s \<noteq> []" "\<not> prefix m s" by auto
  then show ?case
  proof cases
    case 1
    then show ?thesis
      using \<open>m \<noteq> []\<close> find_from_here [of m pre "[]"]
      by (subst replaceLoop.simps) (simp add: replaceSpec.simps)
  next
    case 2
    then show ?thesis
      using "1.IH"(1) [of "pre @ r"] \<open>m \<noteq> []\<close> find_from_here [of m pre s]
      by (subst replaceLoop.simps, subst replaceSpec.simps) simp
  next
    case 3
    have "replaceLoop m r (pre @ s) (length pre) =
        replaceLoop m r ((pre @ [hd s]) @ drop 1 s) (length (pre @ [hd s]))"
    proof -
      have "find_from m (pre @ s) (length pre) = find_from m ((pre @ [hd s]) @ drop 1 s) (length (pre @ [hd s]))"
        using find_from_here [of m pre s] 3 by (simp only: if_False)
      moreover have "(pre @ [hd s]) @ drop 1 s = pre @ s"
        using 3 by (cases s) auto
      ultimately show ?thesis
        by (subst (1 2) replaceLoop.simps) (simp only:)
    qed
    then show ?thesis
      using "1.IH"(2) [of "pre @ [hd s]"] 3 \<open>m \<noteq> []\<close> by (simp add: replaceSpec.simps [of m r s])
  qed
qed

lemma replace_inplace_spec: "replace_inplace s m r = replaceSpec m r s"
  using replaceLoop_spec [of m r "[]" s] replaceLoop_empty [of r "[]" s]
  by (cases "m = []") (simp_all add: replace_inplace_def replaceSpec.simps [of "[]"])

subsection \<open>UTF-8\<close>

text \<open>The character that a sequence of bytes encodes, with no requirement of the shortest form,
  and the length of the shortest form.\<close>

definition utf8Value :: "nat list \<Rightarrow> nat option" where
  "utf8Value bs =
     (case bs of
        [] \<Rightarrow> None
      | b # ts \<Rightarrow>
          (let (base, k) =
             (if b < 0x80 then (0, 0) else if b < 0xE0 then (0xC0, 1) else if b < 0xF0 then (0xE0, 2)
              else if b < 0xF8 then (0xF0, 3) else if b < 0xFC then (0xF8, 4) else (0xFC, 5))
           in if length ts = k \<and> base \<le> b \<and> (\<forall>t\<in>set ts. 0x80 \<le> t \<and> t < 0xC0)
              then Some (foldl (\<lambda>v t. v * 64 + (t - 0x80)) (b - base) ts) else None))"

definition utf8Length :: "nat \<Rightarrow> nat" where
  "utf8Length n =
     (if n < 0x80 then 1 else if n < 0x800 then 2 else if n < 0x10000 then 3
      else if n < 0x200000 then 4 else if n < 0x4000000 then 5 else 6)"

lemma wchar_small: "unat w < 256 \<Longrightarrow> (of_char (wchar w) :: nat) = unat w"
  by (simp add: wchar_def)

lemma or_add_nat:
  fixes a b :: nat
  assumes "take_bit k a = 0" "b < 2 ^ k"
  shows "or a b = a + b"
proof -
  have "\<not> (bit a n \<and> bit b n)" for n
    using assms bit_take_bit_iff [of k a n] bit_take_bit_iff [of k b n]
    by (auto simp: take_bit_nat_eq_self)
  then have "and a b = 0"
    by (simp add: bit_eq_iff bit_and_iff)
  then show ?thesis
    by (simp add: disjunctive_add_eq_or)
qed

lemma unat_drop: "unat (drop_bit j u) = unat u div 2 ^ j"
  by (simp add: unsigned_drop_bit_eq drop_bit_eq_div [where 'a = nat] take_bit_nat_eq_self)

lemma unat_lead:
  assumes "take_bit k (unat L) = 0" "n < 2 ^ k" "unat u div 2 ^ j = n" "unat (L :: 32 word) + n < 256"
  shows "(of_char (wchar (or L (drop_bit j u))) :: nat) = unat L + n"
proof -
  have "unat (or L (drop_bit j u)) = or (unat L) n"
    using assms(3) by (simp only: unsigned_or_eq unat_drop)
  also have "\<dots> = unat L + n"
    by (rule or_add_nat [OF assms(1,2)])
  finally show ?thesis using assms(4) by (simp add: wchar_small)
qed

lemma of_char_utf8Tail: "(of_char (utf8Tail j u) :: nat) = 0x80 + unat u div 2 ^ j mod 64"
proof -
  have m: "and (drop_bit j u) 0x3F = take_bit 6 (drop_bit j u)"
    by (simp add: take_bit_eq_mask mask_eq_exp_minus_1)
  have "unat (or 0x80 (and (drop_bit j u) 0x3F)) = or 0x80 (unat u div 2 ^ j mod 64)"
    unfolding m
    by (simp add: unsigned_or_eq unsigned_take_bit_eq unat_drop take_bit_eq_mod [where 'a = nat])
  also have "\<dots> = 0x80 + unat u div 2 ^ j mod 64"
    by (rule or_add_nat [of 6]) (auto simp: take_bit_eq_mod)
  finally show ?thesis
    by (simp add: utf8Tail_def wchar_small)
qed

lemma utf8_join: "n div (a * 64) * 64 + n div a mod 64 = n div (a :: nat)"
  using div_mult_mod_eq [of "n div a" 64] by (simp add: div_mult2_eq)

lemma utf8_joins:
  fixes n :: nat
  shows "n div 2 ^ 6 * 64 + n mod 64 = n"
    and "n div 2 ^ 12 * 64 + n div 2 ^ 6 mod 64 = n div 2 ^ 6"
    and "n div 2 ^ 18 * 64 + n div 2 ^ 12 mod 64 = n div 2 ^ 12"
    and "n div 2 ^ 24 * 64 + n div 2 ^ 18 mod 64 = n div 2 ^ 18"
    and "n div 2 ^ 30 * 64 + n div 2 ^ 24 mod 64 = n div 2 ^ 24"
  using utf8_join [of n 1] utf8_join [of n "2 ^ 6"] utf8_join [of n "2 ^ 12"]
    utf8_join [of n "2 ^ 18"] utf8_join [of n "2 ^ 24"]
  by simp_all

lemma utf8_value_1: "n < 0x80 \<Longrightarrow> utf8Value [n] = Some n"
  by (simp add: utf8Value_def)

lemma utf8_value_2:
  "n < 0x800 \<Longrightarrow> utf8Value [0xC0 + n div 2 ^ 6, 0x80 + n mod 64] = Some n"
  using utf8_joins(1) [of n] by (simp add: utf8Value_def less_mult_imp_div_less)

lemma utf8_value_3:
  "n < 0x10000 \<Longrightarrow> utf8Value [0xE0 + n div 2 ^ 12, 0x80 + n div 2 ^ 6 mod 64, 0x80 + n mod 64] = Some n"
  using utf8_joins(1,2) [of n] by (simp add: utf8Value_def less_mult_imp_div_less)

lemma utf8_value_4:
  "n < 0x200000 \<Longrightarrow> utf8Value [0xF0 + n div 2 ^ 18, 0x80 + n div 2 ^ 12 mod 64,
     0x80 + n div 2 ^ 6 mod 64, 0x80 + n mod 64] = Some n"
  using utf8_joins(1-3) [of n] by (simp add: utf8Value_def less_mult_imp_div_less)

lemma utf8_value_5:
  "n < 0x4000000 \<Longrightarrow> utf8Value [0xF8 + n div 2 ^ 24, 0x80 + n div 2 ^ 18 mod 64,
     0x80 + n div 2 ^ 12 mod 64, 0x80 + n div 2 ^ 6 mod 64, 0x80 + n mod 64] = Some n"
  using utf8_joins(1-4) [of n] by (simp add: utf8Value_def less_mult_imp_div_less)

lemma utf8_value_6:
  "n < 0x80000000 \<Longrightarrow> utf8Value [0xFC + n div 2 ^ 30, 0x80 + n div 2 ^ 24 mod 64,
     0x80 + n div 2 ^ 18 mod 64, 0x80 + n div 2 ^ 12 mod 64, 0x80 + n div 2 ^ 6 mod 64,
     0x80 + n mod 64] = Some n"
  using utf8_joins(1-5) [of n] by (simp add: utf8Value_def less_mult_imp_div_less)

lemma utf8_lead:
  "unat u < 0x800 \<Longrightarrow> (of_char (wchar (or 0xC0 (drop_bit 6 u))) :: nat) = 0xC0 + unat u div 2 ^ 6"
  "unat u < 0x10000 \<Longrightarrow> (of_char (wchar (or 0xE0 (drop_bit 12 u))) :: nat) = 0xE0 + unat u div 2 ^ 12"
  "unat u < 0x200000 \<Longrightarrow> (of_char (wchar (or 0xF0 (drop_bit 18 u))) :: nat) = 0xF0 + unat u div 2 ^ 18"
  "unat u < 0x4000000 \<Longrightarrow> (of_char (wchar (or 0xF8 (drop_bit 24 u))) :: nat) = 0xF8 + unat u div 2 ^ 24"
  "unat u < 0x80000000 \<Longrightarrow> (of_char (wchar (or 0xFC (drop_bit 30 u))) :: nat) = 0xFC + unat u div 2 ^ 30"
  using unat_lead [of 5 "0xC0" _ u 6, OF _ _ refl] unat_lead [of 4 "0xE0" _ u 12, OF _ _ refl]
    unat_lead [of 3 "0xF0" _ u 18, OF _ _ refl] unat_lead [of 2 "0xF8" _ u 24, OF _ _ refl]
    unat_lead [of 1 "0xFC" _ u 30, OF _ _ refl]
  by (simp_all add: take_bit_eq_mod [where 'a = nat] less_mult_imp_div_less)

lemma word_less_nat: "u < v \<longleftrightarrow> unat u < unat (v :: 32 word)"
  by (rule word_less_nat_alt)

lemma of_char_tail0: "(of_char (utf8Tail 0 u) :: nat) = 0x80 + unat u mod 64"
  using of_char_utf8Tail [of 0 u] by simp

lemma encodeUtf8_value:
  assumes "u < 0x7FFFFFFF"
  shows "\<exists>s. encodeUtf8 u = Inr s \<and> utf8Value (map of_char s) = Some (unat u) \<and>
     (length s = utf8Length (unat u) \<longleftrightarrow> unat u \<notin> {0x7F, 0x7FF, 0xFFFF, 0x1FFFFF, 0x3FFFFFF}) \<and>
     (length s \<noteq> utf8Length (unat u) \<longrightarrow> length s = utf8Length (unat u) + 1)"
proof -
  let ?n = "unat u"
  have n: "?n < 0x7FFFFFFF" using assms by (simp add: word_less_nat)
  note e = encodeUtf8_def word_less_nat
  consider "?n < 0x7F" | "0x7F \<le> ?n" "?n < 0x7FF" | "0x7FF \<le> ?n" "?n < 0xFFFF"
    | "0xFFFF \<le> ?n" "?n < 0x1FFFFF" | "0x1FFFFF \<le> ?n" "?n < 0x3FFFFFF" | "0x3FFFFFF \<le> ?n"
    by linarith
  then show ?thesis
  proof cases
    case 1
    then have "(of_char (wchar u) :: nat) = ?n" by (simp add: wchar_small)
    with 1 utf8_value_1 [of ?n] show ?thesis
      by (simp add: e utf8Length_def)
  next
    case 2
    with utf8_value_2 [of ?n] show ?thesis
      by (simp add: e utf8_lead of_char_tail0 of_char_utf8Tail utf8Length_def)
  next
    case 3
    with utf8_value_3 [of ?n] show ?thesis
      by (simp add: e utf8_lead of_char_tail0 of_char_utf8Tail utf8Length_def)
  next
    case 4
    with utf8_value_4 [of ?n] show ?thesis
      by (simp add: e utf8_lead of_char_tail0 of_char_utf8Tail utf8Length_def)
  next
    case 5
    with utf8_value_5 [of ?n] show ?thesis
      by (simp add: e utf8_lead of_char_tail0 of_char_utf8Tail utf8Length_def)
  next
    case 6
    with n utf8_value_6 [of ?n] show ?thesis
      by (simp add: e utf8_lead of_char_tail0 of_char_utf8Tail utf8Length_def)
  qed
qed

subsection \<open>Sizes\<close>

lemma sizeDigits_run:
  assumes "\<forall>c\<in>set ds. isdigit c" "\<not> isdigit c"
  shows "sizeDigits frac (of_nat n) (of_nat d) (ds @ c # rest) =
     (of_nat (decVal n ds), of_nat (if frac then d * 10 ^ length ds else d), c # rest)"
  using assms(1)
proof (induction ds arbitrary: n d)
  case (Cons e ds)
  from Cons.prems have "(of_nat n :: 64 word) * 10 + of_nat (of_char e) - 48 = of_nat (n * 10 + (of_char e - 48))"
    by (intro digit_step) simp
  moreover have "(if frac then of_nat d * 10 else of_nat d) = (of_nat (if frac then d * 10 else d) :: 64 word)"
    by simp
  ultimately show ?case
    using Cons by (simp add: mult.assoc del: of_nat_add of_nat_mult)
qed (use assms(2) in simp)

definition sizeSuffixes :: "(string \<times> nat) list" where
  "sizeSuffixes = [('''', 0), (''k'', 10), (''K'', 10), (''m'', 20), (''M'', 20), (''g'', 30), (''G'', 30)]"

lemma sizeQuotient_of_nat:
  assumes "a < 2 ^ 64" "0 < b" "b < 2 ^ 64"
  shows "sizeQuotient (of_nat a) (of_nat b) = Inr (of_nat (a div b))"
proof -
  have "a div b < 2 ^ 64" using assms(1) div_le_dividend [of a b] by linarith
  then have "unat (of_nat a div of_nat b :: 64 word) = unat (of_nat (a div b) :: 64 word)"
    using assms by (simp add: unat_div unat_of_nat)
  moreover have "(of_nat b :: 64 word) \<noteq> 0"
    using assms unat_of_nat [of b, where 'a = 64] by auto
  ultimately show ?thesis by (simp add: sizeQuotient_def word_unat_eq_iff)
qed

lemma push_of_nat: "push_bit k (of_nat n :: 64 word) = of_nat (n * 2 ^ k)"
  by (simp add: push_bit_eq_mult)

lemma size_tail:
  assumes "(suf, k) \<in> set sizeSuffixes" "list_all isspace ws"
  obtains t ts where "ws @ suf @ [CHR 0x00] = t # ts" "\<not> isdigit t" "t \<noteq> CHR ''.''"
    and "dropWhile isspace (t # ts) = suf @ [CHR 0x00]"
proof (cases ws)
  case Nil
  have "\<forall>c \<in> set (CHR 0x00 # ''kKmMgG''). \<not> isdigit c \<and> c \<noteq> CHR ''.'' \<and> \<not> isspace c"
    by code_simp
  then show ?thesis
    using that [of "hd (suf @ [CHR 0x00])" "drop 1 (suf @ [CHR 0x00])"] assms(1) Nil
    by (auto simp: sizeSuffixes_def)
next
  case (Cons t ts)
  have nsp: "\<forall>c \<in> set (CHR 0x00 # ''kKmMgG''). \<not> isspace c"
    by code_simp
  have "\<not> isdigit t \<and> t \<noteq> CHR ''.''"
    using assms(2) by (auto simp: Cons isspace_def isdigit_def less_eq_char_def)
  moreover have "dropWhile isspace (ws @ suf @ [CHR 0x00]) = suf @ [CHR 0x00]"
  proof -
    have "dropWhile isspace (ws @ suf @ [CHR 0x00]) = dropWhile isspace (suf @ [CHR 0x00])"
      using assms(2) by (simp add: list_all_iff dropWhile_append2)
    then show ?thesis using assms(1) nsp by (auto simp: sizeSuffixes_def)
  qed
  ultimately show ?thesis
    using that [of t "ts @ suf @ [CHR 0x00]"] by (simp add: Cons)
qed

lemma parseSize_correct:
  assumes ds: "ds \<noteq> []" "list_all isdigit (ds @ fs)" "dot \<or> fs = []"
    and suf: "(suf, k) \<in> set sizeSuffixes" and sp: "list_all isspace ws" "list_all isspace ws'"
    and bound: "decVal 0 (ds @ fs) * 2 ^ k < 2 ^ 64" "10 ^ length fs < (2 ^ 64 :: nat)"
  shows "parseSize (ws @ ds @ (if dot then ''.'' else []) @ fs @ ws' @ suf) =
     Inr (of_nat (decVal 0 (ds @ fs) * 2 ^ k div 10 ^ length fs))"
proof -
  obtain c ds' where d: "ds = c # ds'" using ds(1) by (cases ds) auto
  have dig: "isdigit c" "\<forall>c\<in>set ds'. isdigit c" "\<forall>c\<in>set fs. isdigit c"
    using ds(2) by (auto simp: d list_all_iff)
  obtain t ts where t: "ws' @ suf @ [CHR 0x00] = t # ts" "\<not> isdigit t" "t \<noteq> CHR ''.''"
    and p3: "dropWhile isspace (t # ts) = suf @ [CHR 0x00]"
    using size_tail [OF suf sp(2)] .
  let ?s = "ws @ ds @ (if dot then ''.'' else []) @ fs @ ws' @ suf"
  let ?q = "(if dot then ''.'' else []) @ fs @ t # ts"
  have s: "?s @ [CHR 0x00] = ws @ ds @ ?q"
    using t(1) by simp
  have "\<not> isspace c" using dig(1) by (auto simp: isspace_def isdigit_def less_eq_char_def)
  then have p0: "dropWhile isspace (?s @ [CHR 0x00]) = ds @ ?q"
    unfolding s using sp(1) by (simp add: d list_all_iff dropWhile_append2)
  have ndot: "\<not> isdigit CHR ''.''" by code_simp
  let ?N = "decVal (of_char c - 48) ds'"
  have dec: "decVal 0 (ds @ fs) = decVal ?N fs" by (simp add: d decVal_append)
  have n0: "of_nat (of_char c) - 48 = (of_nat (of_char c - 48) :: 64 word)"
    using dig(1) by (simp add: isdigit_nat of_nat_diff)
  have run1: "sizeDigits False (of_nat (of_char c) - 48) 1 (drop 1 (ds @ ?q)) = (of_nat ?N, 1, ?q)"
  proof (cases dot)
    case True
    then show ?thesis
      using sizeDigits_run [OF dig(2) ndot, of False "of_char c - 48" 1 "fs @ t # ts"]
      by (simp add: d n0)
  next
    case False
    with ds(3) show ?thesis
      using sizeDigits_run [OF dig(2) t(2), of False "of_char c - 48" 1 ts]
      by (simp add: d n0)
  qed
  have run2: "(if hd ?q = CHR ''.'' then sizeDigits True (of_nat ?N) 1 (drop 1 ?q)
      else (of_nat ?N, 1, ?q)) = (of_nat (decVal ?N fs), of_nat (10 ^ length fs), t # ts)"
  proof (cases dot)
    case True
    then show ?thesis
      using sizeDigits_run [OF dig(3) t(2), of True ?N 1 ts] by simp
  next
    case False
    with ds(3) t(3) show ?thesis by simp
  qed
  have q: "sizeQuotient (of_nat (decVal 0 (ds @ fs) * 2 ^ k)) (of_nat (10 ^ length fs)) =
      Inr (of_nat (decVal 0 (ds @ fs) * 2 ^ k div 10 ^ length fs))"
    using sizeQuotient_of_nat [OF bound(1) _ bound(2)] by simp
  have hd0: "hd (ds @ ?q) = c" by (simp add: d)
  show ?thesis
    unfolding parseSize_def p0 Let_def hd0 run1 prod.case run2 p3
    using suf dig(1) q [unfolded dec] by (auto simp: sizeSuffixes_def push_of_nat dec simp del: of_nat_mult of_nat_power)
qed

lemma parseSize_division_by_zero:
  "parseSize (''1.'' @ replicate 64 (CHR ''0'')) = Inl (Undefined ''division by zero'')"
  by code_simp

subsection \<open>Properties\<close>

text \<open>
  C36. A byte string written as a quoted literal by \<open>reprString\<close> is read back unchanged by the
  quoted-string parser; the literal has only printable characters and no unescaped quote
  between its two quotes.
\<close>
theorem quoted_string_round_trip:
  "quotedAssign (reprString s True) = Inr s
   \<and> reprString s True = CHR 0x22 # reprString s False @ [CHR 0x22]
   \<and> quote_free (reprString s False) \<and> list_all isprint (reprString s False)"
proof -
  have "list_all isprint (concat (map reprChar s))"
    using reprChar_printable by (auto simp: list_all_iff)
  then show ?thesis
    using quotedAssign_reprString [of s] quote_free_escaped [of s] by (simp add: reprString_def)
qed

text \<open>
  The buffered stream output of \<open>ReprEscape\<close> writes exactly the text of the unbuffered
  \<open>reprString\<close> without quotes, and before every character its buffer of 1024 bytes has room
  for the four bytes that a character needs at most.
\<close>
theorem reprEscape_is_reprString:
  "reprEscape x = reprString x False \<and>
   (\<forall>n. length (snd (fold escapeStep (take n x) ([], []))) + 4 < 1024)"
proof -
  have "length (snd (fold escapeStep y ([], []))) < 1020" for y
    using escape_fold [of "[]" "[]" y] by (simp add: case_prod_beta)
  then show ?thesis by (simp add: reprEscape_eq less_diff_conv)
qed

text \<open>
  C37. Every character below U+7FFFFFFF is encoded to UTF-8 bytes that decode to it again; the
  encoding is the shortest one except for the last character of each length class, which
  takes one byte more (the code compares with \<open><\<close> where the last value is still in range).
\<close>
theorem encodeUtf8_round_trip:
  assumes "u < 0x7FFFFFFF"
  shows "\<exists>s. encodeUtf8 u = Inr s \<and> utf8Value (map of_char s) = Some (unat u) \<and>
     (length s = utf8Length (unat u) \<longleftrightarrow> unat u \<notin> {0x7F, 0x7FF, 0xFFFF, 0x1FFFFF, 0x3FFFFFF}) \<and>
     length s \<le> utf8Length (unat u) + 1"
  using encodeUtf8_value [OF assms] by (metis le_add1 order_refl)

theorem encodeUtf8_round_trip_witness:
  "\<exists>s. encodeUtf8 0x20AC = Inr s \<and> utf8Value (map of_char s) = Some 0x20AC \<and> length s = 3"
  using encodeUtf8_round_trip [of "0x20AC"] by (auto simp: utf8Length_def)

text \<open>
  A size of decimal digits with an optional fraction and an optional suffix k, m or g (in
  either case) is parsed to its value in bytes, rounded down, whenever the digits scaled by
  the suffix fit in 64 bits and the fraction has fewer than twenty digits.
\<close>
theorem parseSize_value:
  assumes "ds \<noteq> []" "list_all isdigit (ds @ fs)" "dot \<or> fs = []"
    and "(suf, k) \<in> set sizeSuffixes" "list_all isspace ws" "list_all isspace ws'"
    and "decVal 0 (ds @ fs) * 2 ^ k < 2 ^ 64" "10 ^ length fs < (2 ^ 64 :: nat)"
  shows "parseSize (ws @ ds @ (if dot then ''.'' else []) @ fs @ ws' @ suf) =
     Inr (of_nat (decVal 0 (ds @ fs) * 2 ^ k div 10 ^ length fs))"
  by (rule parseSize_correct [OF assms])

theorem parseSize_value_witness:
  "parseSize '' 1.5 k'' = Inr 1536"
proof -
  have "list_all isdigit (''1'' @ ''5'') \<and> list_all isspace '' '' \<and> (''k'', 10) \<in> set sizeSuffixes"
    by code_simp
  then show ?thesis
    using parseSize_value [of "''1''" "''5''" True "''k''" 10 "'' ''" "'' ''"] by simp
qed

text \<open>
  \<open>alphaNormalize\<close> leaves lower-case words separated by single spaces, with no space at
  either end; it keeps the letters in order, lower-cased, never lengthens the text (it works
  in place), and changes nothing when applied again.
\<close>
theorem alphaNormalize_normal_form:
  "alphaNormal (alphaNormalize x)
   \<and> filter isalpha (alphaNormalize x) = map tolower (filter isalpha x)
   \<and> length (alphaNormalize x) \<le> length x
   \<and> alphaNormalize (alphaNormalize x) = alphaNormalize x"
  using alphaNormalize_correct [of x] alphaNormalize_correct(3) [of "alphaNormalize x"]
    anLoop_behind [of False "[]" x] by (simp add: alphaNormalize_def)

end
