(* ===== verification/ScanPredicate.thy ===== *)
theory ScanPredicate
  imports StrUtil
begin

section \<open>Scan predicates (src/cc/kdi/scan\_predicate.h, scan\_predicate.cc)\<close>

text \<open>
  A scan predicate restricts the rows, the columns and the timestamps of a scan to interval
  sets, and the number of revisions of a cell. The grammar is recognised by Boost.Spirit, which
  is not part of the program: the recognised phrases are the datatypes \<open>IntervalExpr\<close> and
  \<open>SubPredicate\<close>, in which string literals are the quoted source text, and everything the
  semantic actions do with them is modelled. The recogniser is the argument \<open>parse\<close> of the
  constructor: it returns the phrases recognised from the start of the text and whether they
  make up all of it.
\<close>

subsection \<open>Expressions\<close>

datatype OperatorType = OP_LT | OP_LTE | OP_GT | OP_GTE | OP_EQ | OP_STARTSWITH

text \<open>\<open>field op literal\<close> and \<open>literal op field op literal\<close>, each with the source text that the
  error messages quote.\<close>

datatype 'v IntervalExpr =
    IntervalExpr1 string OperatorType 'v string
  | IntervalExpr2 'v OperatorType string OperatorType 'v string

datatype SubPredicate =
    StringSet "string IntervalExpr list"
  | TimeSet "int IntervalExpr list"
  | History int

definition unexpected :: "string \<Rightarrow> 'a result" where
  "unexpected txt = Inl (ValueError (''unexpected operator: '' @ txt))"

definition stringAssign1 :: "OperatorType \<Rightarrow> string \<Rightarrow> string Interval \<Rightarrow> string Interval" where
  "stringAssign1 op val ival =
     (case op of
        OP_GT \<Rightarrow> unsetUpperBound [] (setLowerBound val BT_EXCLUSIVE ival)
      | OP_GTE \<Rightarrow> unsetUpperBound [] (setLowerBound val BT_INCLUSIVE ival)
      | OP_LT \<Rightarrow> unsetLowerBound [] (setUpperBound val BT_EXCLUSIVE ival)
      | OP_LTE \<Rightarrow> unsetLowerBound [] (setUpperBound val BT_INCLUSIVE ival)
      | OP_EQ \<Rightarrow> setPoint val ival
      | OP_STARTSWITH \<Rightarrow> makePrefixInterval val)"

definition timeAssign1 :: "OperatorType \<Rightarrow> int \<Rightarrow> string \<Rightarrow> int Interval \<Rightarrow> int Interval result" where
  "timeAssign1 op val txt ival =
     (case op of
        OP_GT \<Rightarrow> Inr (unsetUpperBound 0 (setLowerBound val BT_EXCLUSIVE ival))
      | OP_GTE \<Rightarrow> Inr (unsetUpperBound 0 (setLowerBound val BT_INCLUSIVE ival))
      | OP_LT \<Rightarrow> Inr (unsetLowerBound 0 (setUpperBound val BT_EXCLUSIVE ival))
      | OP_LTE \<Rightarrow> Inr (unsetLowerBound 0 (setUpperBound val BT_INCLUSIVE ival))
      | OP_EQ \<Rightarrow> Inr (setPoint val ival)
      | _ \<Rightarrow> unexpected txt)"

definition assign2 ::
  "'v \<Rightarrow> OperatorType \<Rightarrow> OperatorType \<Rightarrow> 'v \<Rightarrow> string \<Rightarrow> 'v Interval \<Rightarrow> 'v Interval result" where
  "assign2 val1 op1 op2 val2 txt ival =
     bind_res
       (case op1 of
          OP_GT \<Rightarrow>
            (if op2 = OP_LT \<or> op2 = OP_LTE then Inl (ValueError (''bad interval: '' @ txt))
             else Inr (setUpperBound val1 BT_EXCLUSIVE ival))
        | OP_GTE \<Rightarrow>
            (if op2 = OP_LT \<or> op2 = OP_LTE then Inl (ValueError (''bad interval: '' @ txt))
             else Inr (setUpperBound val1 BT_INCLUSIVE ival))
        | OP_LT \<Rightarrow>
            (if op2 = OP_GT \<or> op2 = OP_GTE then Inl (ValueError (''bad interval: '' @ txt))
             else Inr (setLowerBound val1 BT_EXCLUSIVE ival))
        | OP_LTE \<Rightarrow>
            (if op2 = OP_GT \<or> op2 = OP_GTE then Inl (ValueError (''bad interval: '' @ txt))
             else Inr (setLowerBound val1 BT_INCLUSIVE ival))
        | _ \<Rightarrow> unexpected txt)
       (\<lambda>i. case op2 of
          OP_GT \<Rightarrow> Inr (setLowerBound val2 BT_EXCLUSIVE i)
        | OP_GTE \<Rightarrow> Inr (setLowerBound val2 BT_INCLUSIVE i)
        | OP_LT \<Rightarrow> Inr (setUpperBound val2 BT_EXCLUSIVE i)
        | OP_LTE \<Rightarrow> Inr (setUpperBound val2 BT_INCLUSIVE i)
        | _ \<Rightarrow> unexpected txt)"

text \<open>The class of time intervals has the same \<open>Assign2\<close>, for another value type.\<close>

definition timeAssign2 ::
  "int \<Rightarrow> OperatorType \<Rightarrow> OperatorType \<Rightarrow> int \<Rightarrow> string \<Rightarrow> int Interval \<Rightarrow> int Interval result" where
  "timeAssign2 = assign2"

text \<open>The two interval parsers: the literals are unquoted as they are matched, then the
  alternative's action sets the interval of a default-constructed result.\<close>

primrec evalStringInterval :: "string IntervalExpr \<Rightarrow> (string \<times> string Interval) result" where
  "evalStringInterval (IntervalExpr1 field op lit txt) =
     bind_res (quotedAssign lit) (\<lambda>s1. Inr (field, stringAssign1 op s1 (Interval0 [])))"
| "evalStringInterval (IntervalExpr2 lit1 op1 field op2 lit2 txt) =
     bind_res (quotedAssign lit1) (\<lambda>s1. bind_res (quotedAssign lit2) (\<lambda>s2.
       bind_res (assign2 s1 op1 op2 s2 txt (Interval0 [])) (\<lambda>i. Inr (field, i))))"

primrec evalTimeInterval :: "int IntervalExpr \<Rightarrow> (string \<times> int Interval) result" where
  "evalTimeInterval (IntervalExpr1 field op t txt) =
     bind_res (timeAssign1 op t txt (Interval0 0)) (\<lambda>i. Inr (field, i))"
| "evalTimeInterval (IntervalExpr2 t1 op1 field op2 t2 txt) =
     bind_res (timeAssign2 t1 op1 op2 t2 txt (Interval0 0)) (\<lambda>i. Inr (field, i))"

text \<open>\<open>Union\<close>, and the list of intervals separated by \<open>or\<close>.\<close>

definition unionInterval ::
  "string \<times> 'v::linorder Interval \<Rightarrow> string \<times> 'v IntervalSet \<Rightarrow> (string \<times> 'v IntervalSet) result" where
  "unionInterval interval result =
     (if fst result = [] then Inr (fst interval, isetAdd (<) (snd interval) (snd result))
      else if fst result \<noteq> fst interval
      then Inl (ValueError ''cannot form disjunction of different field predicates'')
      else Inr (fst result, isetAdd (<) (snd interval) (snd result)))"

fun evalIntervalSet ::
  "('e \<Rightarrow> (string \<times> 'v::linorder Interval) result) \<Rightarrow> 'e list \<Rightarrow> string \<times> 'v IntervalSet \<Rightarrow>
     (string \<times> 'v IntervalSet) result" where
  "evalIntervalSet ev [] r = Inr r"
| "evalIntervalSet ev (e # es) r =
     bind_res (ev e) (\<lambda>i. bind_res (unionInterval i r) (evalIntervalSet ev es))"

subsection \<open>The predicate\<close>

record ScanPredicate =
  rows :: "string IntervalSet option"
  columns :: "string IntervalSet option"
  timestamps :: "int IntervalSet option"
  maxHistory :: int

definition ScanPredicate0 :: ScanPredicate where
  "ScanPredicate0 = \<lparr>rows = None, columns = None, timestamps = None, maxHistory = 0\<rparr>"

definition isConstrained :: "ScanPredicate \<Rightarrow> bool" where
  "isConstrained p \<longleftrightarrow> rows p \<noteq> None \<or> columns p \<noteq> None \<or> timestamps p \<noteq> None \<or> maxHistory p \<noteq> 0"

definition setRowPredicate :: "string IntervalSet \<Rightarrow> ScanPredicate \<Rightarrow> ScanPredicate" where
  "setRowPredicate pred p = p\<lparr>rows := Some pred\<rparr>"

definition setColumnPredicate :: "string IntervalSet \<Rightarrow> ScanPredicate \<Rightarrow> ScanPredicate" where
  "setColumnPredicate pred p = p\<lparr>columns := Some pred\<rparr>"

definition setTimePredicate :: "int IntervalSet \<Rightarrow> ScanPredicate \<Rightarrow> ScanPredicate" where
  "setTimePredicate pred p = p\<lparr>timestamps := Some pred\<rparr>"

definition setMaxHistory :: "int \<Rightarrow> ScanPredicate \<Rightarrow> ScanPredicate" where
  "setMaxHistory k p = p\<lparr>maxHistory := k\<rparr>"

definition clearRowPredicate :: "ScanPredicate \<Rightarrow> ScanPredicate" where
  "clearRowPredicate p = p\<lparr>rows := None\<rparr>"

definition clearColumnPredicate :: "ScanPredicate \<Rightarrow> ScanPredicate" where
  "clearColumnPredicate p = p\<lparr>columns := None\<rparr>"

definition clearTimePredicate :: "ScanPredicate \<Rightarrow> ScanPredicate" where
  "clearTimePredicate p = p\<lparr>timestamps := None\<rparr>"

text \<open>The actions \<open>Update\<close> (two overloads) and \<open>SetHistory\<close>.\<close>

definition updateString :: "string \<times> string IntervalSet \<Rightarrow> ScanPredicate \<Rightarrow> ScanPredicate result" where
  "updateString x r =
     (if fst x = ''row'' then
        (if rows r \<noteq> None then Inl (ValueError ''cannot specify row set conjunctions'')
         else Inr (setRowPredicate (snd x) r))
      else if fst x = ''column'' then
        (if columns r \<noteq> None then Inl (ValueError ''cannot specify column set conjunctions'')
         else Inr (setColumnPredicate (snd x) r))
      else Inl (ValueError (''unexpected field: '' @ fst x)))"

definition updateTime :: "string \<times> int IntervalSet \<Rightarrow> ScanPredicate \<Rightarrow> ScanPredicate result" where
  "updateTime x r =
     (if fst x = ''time'' then
        (if timestamps r \<noteq> None then Inl (ValueError ''cannot specify time set conjunctions'')
         else Inr (setTimePredicate (snd x) r))
      else Inl (ValueError (''unexpected field: '' @ fst x)))"

definition setHistory :: "int \<Rightarrow> ScanPredicate \<Rightarrow> ScanPredicate result" where
  "setHistory k r =
     (if maxHistory r \<noteq> 0 then Inl (ValueError ''cannot specify history conjunctions'')
      else if k = 0 then Inl (ValueError ''history should be non-zero'')
      else Inr (setMaxHistory k r))"

primrec evalSub :: "SubPredicate \<Rightarrow> ScanPredicate \<Rightarrow> ScanPredicate result" where
  "evalSub (StringSet es) r =
     bind_res (evalIntervalSet evalStringInterval es ([], IntervalSet0)) (\<lambda>x. updateString x r)"
| "evalSub (TimeSet es) r =
     bind_res (evalIntervalSet evalTimeInterval es ([], IntervalSet0)) (\<lambda>x. updateTime x r)"
| "evalSub (History k) r = setHistory k r"

fun evalPredicate :: "SubPredicate list \<Rightarrow> ScanPredicate \<Rightarrow> ScanPredicate result" where
  "evalPredicate [] r = Inr r"
| "evalPredicate (s # ss) r = bind_res (evalSub s r) (evalPredicate ss)"

text \<open>The constructor from an expression rewraps every exception.\<close>

primrec what :: "kdi_error \<Rightarrow> string" where
  "what (ValueError msg) = msg"
| "what (RuntimeError msg) = msg"
| "what (RowNotInTabletError msg) = msg"
| "what (Undefined msg) = msg"

definition ScanPredicate1 :: "(string \<Rightarrow> SubPredicate list \<times> bool) \<Rightarrow> string \<Rightarrow> ScanPredicate result" where
  "ScanPredicate1 parse expr =
     (case bind_res (evalPredicate (fst (parse expr)) ScanPredicate0)
             (\<lambda>p. if snd (parse expr) then Inr p else Inl (ValueError ''malformed input'')) of
        Inr p \<Rightarrow> Inr p
      | Inl ex \<Rightarrow> Inl (ValueError
          (''ScanPredicate parse failed ('' @ what ex @ ''): '' @ reprString expr True)))"

definition clipRows :: "string Interval \<Rightarrow> ScanPredicate \<Rightarrow> ScanPredicate" where
  "clipRows span pred =
     (if intervalIsInfinite span then pred
      else case rows pred of
        Some r \<Rightarrow> setRowPredicate (isetClip (<) span r) pred
      | None \<Rightarrow> setRowPredicate (isetAdd (<) span IntervalSet0) pred)"

subsection \<open>Column families\<close>

text \<open>\<open>find\<close> returns the end position when the character does not occur; the empty string
  stands for no family.\<close>

definition find_char :: "string \<Rightarrow> char \<Rightarrow> nat" where
  "find_char s c = length (takeWhile (\<lambda>d. d \<noteq> c) s)"

definition getColumnFamily :: "string IntervalPoint \<Rightarrow> string" where
  "getColumnFamily colPoint =
     (if pointIsInfinite colPoint then []
      else
        let s = pvalue colPoint; sep = find_char s CHR '':''
        in if pointIsLowerBound colPoint then
             (if sep < length s then take sep s else [])
           else if sep + 1 = length s \<and> pointIsExclusive colPoint then []
           else if sep < length s then take sep s
           else if pointIsExclusive colPoint then
             (let sep' = find_char s CHR '';'' in if sep' + 1 = length s then take sep' s else [])
           else [])"

text \<open>The loop reads the bounds in pairs; the class invariant of the set excludes an odd
  bound, on which the code would read past the end.\<close>

fun familyLoop :: "string IntervalPoint list \<Rightarrow> string list \<Rightarrow> string list option" where
  "familyLoop [] fams = Some fams"
| "familyLoop [lb] fams = None"
| "familyLoop (lb # ub # ps) fams =
     (let lower = getColumnFamily lb
      in if lower = [] then None
         else
           let upper = getColumnFamily ub
           in if upper \<noteq> lower then None
              else familyLoop ps (if fams = [] \<or> last fams \<noteq> upper then fams @ [upper] else fams))"

definition getColumnFamilies :: "ScanPredicate \<Rightarrow> string list option" where
  "getColumnFamilies p =
     (case columns p of None \<Rightarrow> None | Some cs \<Rightarrow> familyLoop (points cs) [])"

subsection \<open>Output\<close>

definition outputString :: "string \<Rightarrow> string" where
  "outputString val = reprString val True"

text \<open>\<open>showTimestamp\<close> is the output of \<open>Timestamp::fromMicroseconds\<close>.\<close>

definition outputTime :: "(int \<Rightarrow> string) \<Rightarrow> int \<Rightarrow> string" where
  "outputTime showTimestamp val =
     (if - 10000 < val \<and> val < 10000 then CHR ''@'' # showInt val else showTimestamp val)"

definition isPrefixBoundAny :: "'v IntervalPoint \<Rightarrow> 'v IntervalPoint \<Rightarrow> bool" where
  "isPrefixBoundAny lb ub = False"

definition isPrefixBound :: "string IntervalPoint \<Rightarrow> string IntervalPoint \<Rightarrow> bool" where
  "isPrefixBound lb ub =
     (pointIsInclusive lb \<and> pointIsExclusive ub \<and>
      (case getPrefixSuccessor (pvalue lb) of None \<Rightarrow> False | Some successor \<Rightarrow> pvalue ub = successor))"

definition outputInterval ::
  "('v \<Rightarrow> string) \<Rightarrow> ('v IntervalPoint \<Rightarrow> 'v IntervalPoint \<Rightarrow> bool) \<Rightarrow> string \<Rightarrow>
     'v IntervalPoint \<Rightarrow> 'v IntervalPoint \<Rightarrow> string \<times> bool" where
  "outputInterval outv prefixBound field lb ub =
     (if pointIsInfinite ub then
        (if pointIsInfinite lb then ([], False)
         else (field @ (if pointIsExclusive lb then '' > '' else '' >= '') @ outv (pvalue lb), True))
      else if \<not> pointIsInfinite lb \<and> pvalue lb = pvalue ub \<and> pointIsInclusive lb \<and> pointIsInclusive ub
      then (field @ '' = '' @ outv (pvalue lb), True)
      else if \<not> pointIsInfinite lb \<and> prefixBound lb ub
      then (field @ '' ~= '' @ outv (pvalue lb), True)
      else ((if \<not> pointIsInfinite lb
             then outv (pvalue lb) @ (if pointIsExclusive lb then '' < '' else '' <= '') else []) @
            field @ (if pointIsExclusive ub then '' < '' else '' <= '') @ outv (pvalue ub), True))"

fun outputLoop ::
  "('v IntervalPoint \<Rightarrow> 'v IntervalPoint \<Rightarrow> string \<times> bool) \<Rightarrow> bool \<Rightarrow> 'v IntervalPoint list \<Rightarrow> string" where
  "outputLoop outi needOr (lb # ub # ps) =
     (if needOr then '' or '' else []) @ fst (outi lb ub) @ outputLoop outi (needOr \<or> snd (outi lb ub)) ps"
| "outputLoop outi needOr ps = []"

definition outputIntervalSet ::
  "'v \<Rightarrow> ('v \<Rightarrow> string) \<Rightarrow> ('v IntervalPoint \<Rightarrow> 'v IntervalPoint \<Rightarrow> bool) \<Rightarrow> string \<Rightarrow>
     'v IntervalSet \<Rightarrow> string" where
  "outputIntervalSet z outv prefixBound field iset =
     (if isetIsEmpty iset then
        (let i = setEmpty z (Interval0 z)
         in fst (outputInterval outv prefixBound field (lowerBound i) (upperBound i)))
      else outputLoop (outputInterval outv prefixBound field) False (points iset))"

text \<open>The parts that are written, each preceded by \<open>and\<close> when \<open>needAnd\<close> is set.\<close>

definition outputPart :: "string option \<Rightarrow> string \<times> bool \<Rightarrow> string \<times> bool" where
  "outputPart part st =
     (case part of None \<Rightarrow> st | Some t \<Rightarrow> (fst st @ (if snd st then '' and '' else []) @ t, True))"

definition constraint :: "'v IntervalSet option \<Rightarrow> 'v IntervalSet option" where
  "constraint s = (case s of None \<Rightarrow> None | Some i \<Rightarrow> if isetIsInfinite i then None else Some i)"

definition showScanPredicate :: "(int \<Rightarrow> string) \<Rightarrow> ScanPredicate \<Rightarrow> string" where
  "showScanPredicate showTimestamp pred =
     fst (outputPart (if maxHistory pred \<noteq> 0 then Some (''history = '' @ showInt (maxHistory pred)) else None)
       (outputPart (map_option (outputIntervalSet 0 (outputTime showTimestamp) isPrefixBoundAny ''time'')
                      (constraint (timestamps pred)))
         (outputPart (map_option (outputIntervalSet [] outputString isPrefixBound ''column'')
                        (constraint (columns pred)))
           (outputPart (map_option (outputIntervalSet [] outputString isPrefixBound ''row'')
                          (constraint (rows pred)))
             ([], False)))))"

subsection \<open>The meaning of an interval expression\<close>

primrec opHolds :: "OperatorType \<Rightarrow> 'v::linorder \<Rightarrow> 'v \<Rightarrow> bool" where
  "opHolds OP_LT a b = (a < b)"
| "opHolds OP_LTE a b = (a \<le> b)"
| "opHolds OP_GT a b = (a > b)"
| "opHolds OP_GTE a b = (a \<ge> b)"
| "opHolds OP_EQ a b = (a = b)"
| "opHolds OP_STARTSWITH a b = False"

definition stringOpHolds :: "OperatorType \<Rightarrow> string \<Rightarrow> string \<Rightarrow> bool" where
  "stringOpHolds op a b = (if op = OP_STARTSWITH then prefix b a else opHolds op a b)"

definition opsAgree :: "OperatorType \<Rightarrow> OperatorType \<Rightarrow> bool" where
  "opsAgree op1 op2 \<longleftrightarrow> {op1, op2} \<subseteq> {OP_LT, OP_LTE} \<or> {op1, op2} \<subseteq> {OP_GT, OP_GTE}"

lemma stringAssign1_correct:
  "interval_wf i \<Longrightarrow> interval_wf (stringAssign1 op v i)"
  "intervalContains (<) (stringAssign1 op v i) x \<longleftrightarrow> stringOpHolds op x v"
  by (cases op; simp add: stringAssign1_def stringOpHolds_def interval_ops_wf makePrefixInterval_wf
      makePrefixInterval_contains)+

lemma timeAssign1_correct:
  "timeAssign1 op v txt i = Inl e \<longleftrightarrow> op = OP_STARTSWITH \<and> e = ValueError (''unexpected operator: '' @ txt)"
  "timeAssign1 op v txt i = Inr j \<Longrightarrow> interval_wf i \<Longrightarrow> interval_wf j"
  "timeAssign1 op v txt i = Inr j \<Longrightarrow> intervalContains (<) j x \<longleftrightarrow> opHolds op x v"
  by (cases op; auto simp: timeAssign1_def unexpected_def interval_ops_wf)+

lemma setBounds_commute:
  "setLowerBound l kl (setUpperBound u ku i) = setUpperBound u ku (setLowerBound l kl i)"
  by (simp add: setLowerBound_def setUpperBound_def)

lemma assign2_correct:
  "(\<exists>j. assign2 v1 op1 op2 v2 txt i = Inr j) \<longleftrightarrow> opsAgree op1 op2"
  "assign2 v1 op1 op2 v2 txt i = Inr j \<Longrightarrow> interval_wf i \<Longrightarrow> interval_wf j"
  "assign2 v1 op1 op2 v2 txt i = Inr j \<Longrightarrow>
     intervalContains (<) j x \<longleftrightarrow> opHolds op1 v1 x \<and> opHolds op2 x (v2 :: 'v::linorder)"
  by (cases op1; cases op2;
      auto simp: assign2_def opsAgree_def unexpected_def interval_ops_wf setBounds_commute contains_setBounds)+

primrec stringExprHolds :: "string IntervalExpr \<Rightarrow> string \<Rightarrow> bool" where
  "stringExprHolds (IntervalExpr1 field op lit txt) x =
     (\<exists>v. quotedAssign lit = Inr v \<and> stringOpHolds op x v)"
| "stringExprHolds (IntervalExpr2 lit1 op1 field op2 lit2 txt) x =
     (\<exists>v1 v2. quotedAssign lit1 = Inr v1 \<and> quotedAssign lit2 = Inr v2 \<and>
        opHolds op1 v1 x \<and> opHolds op2 x v2)"

primrec timeExprHolds :: "int IntervalExpr \<Rightarrow> int \<Rightarrow> bool" where
  "timeExprHolds (IntervalExpr1 field op t txt) x = opHolds op x t"
| "timeExprHolds (IntervalExpr2 t1 op1 field op2 t2 txt) x = (opHolds op1 t1 x \<and> opHolds op2 x t2)"

primrec exprField :: "'v IntervalExpr \<Rightarrow> string" where
  "exprField (IntervalExpr1 field op lit txt) = field"
| "exprField (IntervalExpr2 lit1 op1 field op2 lit2 txt) = field"

text \<open>An expression is accepted if its literals are well-formed and its operators fit.\<close>

primrec stringExprOk :: "string IntervalExpr \<Rightarrow> bool" where
  "stringExprOk (IntervalExpr1 field op lit txt) \<longleftrightarrow> (\<exists>v. quotedAssign lit = Inr v)"
| "stringExprOk (IntervalExpr2 lit1 op1 field op2 lit2 txt) \<longleftrightarrow>
     (\<exists>v. quotedAssign lit1 = Inr v) \<and> (\<exists>v. quotedAssign lit2 = Inr v) \<and> opsAgree op1 op2"

primrec timeExprOk :: "int IntervalExpr \<Rightarrow> bool" where
  "timeExprOk (IntervalExpr1 field op lit txt) \<longleftrightarrow> op \<noteq> OP_STARTSWITH"
| "timeExprOk (IntervalExpr2 lit1 op1 field op2 lit2 txt) \<longleftrightarrow> opsAgree op1 op2"

lemma evalString_ok: "(\<exists>r. evalStringInterval e = Inr r) \<longleftrightarrow> stringExprOk e"
proof (cases e)
  case (IntervalExpr2 l1 o1 f o2 l2 t)
  then show ?thesis
    using assign2_correct(1) [of _ o1 o2 _ t] by (auto simp: bind_res_eq_Inr)
qed (auto simp: bind_res_eq_Inr)

lemma evalTime_ok: "(\<exists>r. evalTimeInterval e = Inr r) \<longleftrightarrow> timeExprOk e"
proof (cases e)
  case (IntervalExpr1 f o1 l t)
  then show ?thesis
    using timeAssign1_correct(1) [of o1 l t "Interval0 0"]
    by (cases "timeAssign1 o1 l t (Interval0 0)") (auto simp: bind_res_eq_Inr)
next
  case (IntervalExpr2 l1 o1 f o2 l2 t)
  then show ?thesis
    using assign2_correct(1) [of l1 o1 o2 l2 t] by (auto simp: bind_res_eq_Inr timeAssign2_def)
qed

lemma evalString_sound:
  assumes "evalStringInterval e = Inr (f, i)"
  shows "f = exprField e" "interval_wf i" "intervalContains (<) i x \<longleftrightarrow> stringExprHolds e x"
  using assms stringAssign1_correct assign2_correct(2,3) interval_ops_wf(8)
  by (cases e; fastforce simp: bind_res_eq_Inr)+

lemma evalTime_sound:
  assumes "evalTimeInterval e = Inr (f, i)"
  shows "f = exprField e" "interval_wf i" "intervalContains (<) i x \<longleftrightarrow> timeExprHolds e x"
  using assms timeAssign1_correct(2,3) assign2_correct(2,3) interval_ops_wf(8)
  by (cases e; fastforce simp: bind_res_eq_Inr timeAssign2_def)+

subsection \<open>Clipping\<close>

definition rowAllowed :: "ScanPredicate \<Rightarrow> string \<Rightarrow> bool" where
  "rowAllowed p r = (case rows p of None \<Rightarrow> True | Some s \<Rightarrow> isetContains (<) s r)"

definition columnAllowed :: "ScanPredicate \<Rightarrow> string \<Rightarrow> bool" where
  "columnAllowed p c = (case columns p of None \<Rightarrow> True | Some s \<Rightarrow> isetContains (<) s c)"

definition timeAllowed :: "ScanPredicate \<Rightarrow> int \<Rightarrow> bool" where
  "timeAllowed p t = (case timestamps p of None \<Rightarrow> True | Some s \<Rightarrow> isetContains (<) s t)"

definition scan_predicate_inv :: "ScanPredicate \<Rightarrow> bool" where
  [wf_simps]: "scan_predicate_inv p \<longleftrightarrow>
     (case rows p of None \<Rightarrow> True | Some s \<Rightarrow> iset_inv (<) s) \<and>
     (case columns p of None \<Rightarrow> True | Some s \<Rightarrow> iset_inv (<) s) \<and>
     (case timestamps p of None \<Rightarrow> True | Some s \<Rightarrow> iset_inv (<) s)"

lemma infinite_interval_contains:
  assumes "interval_wf i" "intervalIsInfinite i"
  shows "intervalContains lt i x"
proof -
  have "ptype (lowerBound i) = PT_INFINITE_LOWER_BOUND" "ptype (upperBound i) = PT_INFINITE_UPPER_BOUND"
    using assms by (auto simp: wf_simps intervalIsInfinite_def point_pred_defs point_type_defs)
  then show ?thesis
    by (simp add: intervalContains_def pointValueLt_def valuePointLt_def isLess_def point_type_defs)
qed

lemma add_to_empty:
  assumes "interval_wf (x :: 'v::linorder Interval)"
  shows "iset_inv (<) (isetAdd (<) x IntervalSet0)"
    and "isetContains (<) (isetAdd (<) x IntervalSet0) v \<longleftrightarrow> intervalContains (<) x v"
proof -
  have inv: "iset_inv (<) (IntervalSet0 :: 'v IntervalSet)"
    and nc: "\<not> isetContains (<) (IntervalSet0 :: 'v IntervalSet) v"
    by (simp_all add: wf_simps IntervalSet0_def isetContains_def isInRange_def)
  show "iset_inv (<) (isetAdd (<) x IntervalSet0)"
    "isetContains (<) (isetAdd (<) x IntervalSet0) v \<longleftrightarrow> intervalContains (<) x v"
    using std_less.add_correct_iset [OF inv assms] nc by (simp_all add: IntervalSet0_def)
qed

lemma clipRows_correct:
  assumes "scan_predicate_inv p" "interval_wf span"
  shows "scan_predicate_inv (clipRows span p)"
    and "rowAllowed (clipRows span p) r \<longleftrightarrow> rowAllowed p r \<and> intervalContains (<) span r"
    and "columns (clipRows span p) = columns p \<and> timestamps (clipRows span p) = timestamps p
         \<and> maxHistory (clipRows span p) = maxHistory p"
proof -
  show "scan_predicate_inv (clipRows span p)"
    using assms add_to_empty(1) [OF assms(2)] std_less.clip_correct(1)
    by (auto simp: clipRows_def setRowPredicate_def wf_simps split: option.splits)
  show "columns (clipRows span p) = columns p \<and> timestamps (clipRows span p) = timestamps p
         \<and> maxHistory (clipRows span p) = maxHistory p"
    by (auto simp: clipRows_def setRowPredicate_def split: option.splits)
  show "rowAllowed (clipRows span p) r \<longleftrightarrow> rowAllowed p r \<and> intervalContains (<) span r"
  proof (cases "rows p")
    case None
    then show ?thesis
      using infinite_interval_contains [OF assms(2)] add_to_empty(2) [OF assms(2)]
      by (simp add: clipRows_def setRowPredicate_def rowAllowed_def)
  next
    case (Some s)
    then have "iset_inv (<) s" using assms(1) by (simp add: scan_predicate_inv_def)
    with Some show ?thesis
      using infinite_interval_contains [OF assms(2)] std_less.clip_correct(2) [of s span r] assms(2)
      by (simp add: clipRows_def setRowPredicate_def rowAllowed_def)
  qed
qed

subsection \<open>Column families\<close>

lemma find_char_split:
  "find_char s c < length s \<Longrightarrow> s = take (find_char s c) s @ c # drop (find_char s c + 1) s \<and> c \<notin> set (take (find_char s c) s)"
proof (induction s)
  case (Cons d s)
  then show ?case by (auto simp: find_char_def split: if_splits)
qed simp

text \<open>A column starting with a family and the separator is at least that prefix; a column that
  is at least the prefix and below some string with the prefix has the prefix.\<close>

lemma prefix_between:
  assumes "p \<le> (s :: string)" "s \<le> u" "prefix p u"
  shows "prefix p s"
  using assms
proof (induction p arbitrary: s u)
  case (Cons a p)
  from Cons.prems(3) obtain u' where u: "u = a # u'" "prefix p u'"
    by (cases u) auto
  obtain b s' where s: "s = b # s'" using Cons.prems(1) by (cases s) auto
  have "b = a" using Cons.prems(1,2) u s by auto
  then show ?case using Cons u s by auto
qed simp

lemma point_bounds:
  "pointIsLowerBound lb \<Longrightarrow> \<not> pointIsInfinite lb \<Longrightarrow> pointLt (<) lb (pt s) \<Longrightarrow> pvalue lb \<le> (s :: 'v::linorder)"
  "pointIsUpperBound ub \<Longrightarrow> \<not> pointIsInfinite ub \<Longrightarrow> pointLt (<) (pt s) ub \<Longrightarrow>
     (if pointIsExclusive ub then s < pvalue ub else s \<le> pvalue ub)"
  by (auto simp: pointLt_def isLess_def point_pred_defs point_type_defs less_PointType_def split: if_splits)

lemma column_family_pair:
  assumes lb: "pointIsLowerBound lb" and ub: "pointIsUpperBound ub"
    and f: "getColumnFamily lb = f" "getColumnFamily ub = f" "f \<noteq> []"
    and s: "pointLt (<) lb (pt s)" "pointLt (<) (pt s) ub"
  shows "prefix (f @ '':'') s" "CHR '':'' \<notin> set f"
proof -
  have fin: "\<not> pointIsInfinite lb" "\<not> pointIsInfinite ub"
    using f by (auto simp: getColumnFamily_def split: if_splits)
  let ?l = "pvalue lb" and ?u = "pvalue ub"
  have l: "find_char ?l CHR '':'' < length ?l" "take (find_char ?l CHR '':'') ?l = f"
    using f lb fin by (auto simp: getColumnFamily_def Let_def split: if_splits)
  then show nf: "CHR '':'' \<notin> set f" using find_char_split [OF l(1)] by simp
  have "prefix (f @ '':'') ?l"
    using find_char_split [OF l(1)] l(2) by (metis append.assoc append_Cons append_Nil prefixI)
  then have ge: "f @ '':'' \<le> s"
    using prefix_le point_bounds(1) [OF lb fin(1) s(1)] order_trans by blast
  have ubnl: "\<not> pointIsLowerBound ub" using ub bound_cases by blast
  show "prefix (f @ '':'') s"
  proof (cases "find_char ?u CHR '':'' < length ?u")
    case True
    then have "take (find_char ?u CHR '':'') ?u = f"
      using f ubnl fin by (auto simp: getColumnFamily_def Let_def split: if_splits)
    then have "prefix (f @ '':'') ?u"
      using find_char_split [OF True] by (metis append.assoc append_Cons append_Nil prefixI)
    moreover have "s \<le> ?u"
      using point_bounds(2) [OF ub fin(2) s(2)] by (auto split: if_splits)
    ultimately show ?thesis using prefix_between [OF ge] by blast
  next
    case False
    let ?p = "find_char ?u CHR '';''"
    have ex: "pointIsExclusive ub" "?p + 1 = length ?u" "take ?p ?u = f"
      using f ubnl fin False by (auto simp: getColumnFamily_def Let_def split: if_splits)
    then have "?u = f @ '';''"
      using find_char_split [of ?u "CHR '';''"] by simp
    moreover have "s < ?u"
      using point_bounds(2) [OF ub fin(2) s(2)] ex(1) by simp
    moreover have "(of_char CHR '';'' :: nat) = of_char CHR '':'' + 1" by simp
    ultimately show ?thesis
      using ge prefix_snoc_succ [of "CHR '';''" "CHR '':''" f s] by simp
  qed
qed

lemma familyLoop_pairs:
  assumes "familyLoop ps fams = Some F"
  shows "set fams \<subseteq> set F \<and> (\<forall>i. even i \<longrightarrow> i + 1 < length ps \<longrightarrow>
     getColumnFamily (ps ! i) \<noteq> [] \<and> getColumnFamily (ps ! (i + 1)) = getColumnFamily (ps ! i) \<and>
     getColumnFamily (ps ! i) \<in> set F)"
  using assms
proof (induction ps fams rule: familyLoop.induct)
  case (3 lb ub ps fams)
  let ?f = "getColumnFamily lb"
  let ?fs = "if fams = [] \<or> last fams \<noteq> ?f then fams @ [?f] else fams"
  have fam: "?f \<noteq> []" "getColumnFamily ub = ?f" and rest: "familyLoop ps ?fs = Some F"
    using 3(2) by (auto simp: Let_def split: if_splits)
  have both: "set ?fs \<subseteq> set F \<and> (\<forall>i. even i \<longrightarrow> i + 1 < length ps \<longrightarrow>
     getColumnFamily (ps ! i) \<noteq> [] \<and> getColumnFamily (ps ! (i + 1)) = getColumnFamily (ps ! i) \<and>
     getColumnFamily (ps ! i) \<in> set F)"
    by (rule 3(1) [OF refl fam(1) refl, unfolded fam(2), OF _ rest]) simp
  then have IH: "set ?fs \<subseteq> set F" "\<And>i. even i \<Longrightarrow> i + 1 < length ps \<Longrightarrow>
     getColumnFamily (ps ! i) \<noteq> [] \<and> getColumnFamily (ps ! (i + 1)) = getColumnFamily (ps ! i) \<and>
     getColumnFamily (ps ! i) \<in> set F"
    by blast+
  have "?f \<in> set ?fs" using last_in_set [of fams] by (cases "fams = [] \<or> last fams \<noteq> ?f") (simp, metis)
  then have "?f \<in> set F" "set fams \<subseteq> set F" using IH(1) by (auto split: if_splits)
  moreover have "getColumnFamily ((lb # ub # ps) ! i) \<noteq> [] \<and>
      getColumnFamily ((lb # ub # ps) ! (i + 1)) = getColumnFamily ((lb # ub # ps) ! i) \<and>
      getColumnFamily ((lb # ub # ps) ! i) \<in> set F"
    if i: "even i" "i + 1 < length (lb # ub # ps)" for i
  proof (cases "i = 0")
    case True
    with fam \<open>?f \<in> set F\<close> show ?thesis by simp
  next
    case False
    with i(1) obtain j where j: "i = Suc (Suc j)" "even j"
      by (cases i; cases "i - 1") auto
    with i(2) IH(2) [of j] show ?thesis by simp
  qed
  ultimately show ?case by blast
qed auto

lemma contains_pair:
  fixes s :: "'v::linorder IntervalSet"
  assumes inv: "iset_inv (<) s" and c: "isetContains (<) s v"
  obtains i where "even i" "i + 1 < length (points s)"
    "pointIsLowerBound (points s ! i)" "pointIsUpperBound (points s ! (i + 1))"
    "pointLt (<) (points s ! i) (pt v)" "pointLt (<) (pt v) (points s ! (i + 1))"
proof -
  let ?ps = "points s" and ?n = "below (<) (points s) (pt v)"
  have alt: "alternating True ?ps" and sorted: "sorted_wrt (pointLt (<)) ?ps" and ev: "even (length ?ps)"
    using inv by (simp_all add: wf_simps)
  have odd: "odd ?n" using std_less.contains_parity [OF inv] c by blast
  have tw: "?n = length (takeWhile (\<lambda>p. pointLt (<) p (pt v)) ?ps)"
    using std_less.lower_bound_below [OF sorted] by (simp add: lower_bound_def)
  have le: "?n \<le> length ?ps" by (simp add: below_def)
  with odd ev have lt: "?n < length ?ps" by (cases "?n = length ?ps") auto
  have pos: "0 < ?n" using odd by (cases ?n) auto
  have prev: "pointLt (<) (?ps ! (?n - 1)) (pt v)"
    using pos tw takeWhile_nth [of "?n - 1" "\<lambda>p. pointLt (<) p (pt v)" ?ps]
      nth_mem [of "?n - 1" "takeWhile (\<lambda>p. pointLt (<) p (pt v)) ?ps"] set_takeWhileD by fastforce
  have nlt: "\<not> pointLt (<) (?ps ! ?n) (pt v)"
    using nth_length_takeWhile [of "\<lambda>p. pointLt (<) p (pt v)" ?ps] lt tw by simp
  have up: "pointIsUpperBound (?ps ! ?n)" and lo: "pointIsLowerBound (?ps ! (?n - 1))"
    using alternating_nth [OF alt lt] alternating_nth [OF alt, of "?n - 1"] lt odd pos by auto
  have "pointLt (<) (pt v) (?ps ! ?n)"
    using std_less.pointLt_value_total [of "?ps ! ?n" v] nlt up bound_not_value by blast
  then show ?thesis
    using that [of "?n - 1"] odd pos lt prev up lo by simp
qed

lemma getColumnFamilies_correct:
  assumes "scan_predicate_inv p" "getColumnFamilies p = Some F" "columnAllowed p c"
  shows "\<exists>f\<in>set F. prefix (f @ '':'') c \<and> CHR '':'' \<notin> set f \<and> f \<noteq> []"
proof -
  obtain cs where cs: "columns p = Some cs" "familyLoop (points cs) [] = Some F"
    using assms(2) by (auto simp: getColumnFamilies_def split: option.splits)
  with assms have inv: "iset_inv (<) cs" and "isetContains (<) cs c"
    by (simp_all add: scan_predicate_inv_def columnAllowed_def)
  from contains_pair [OF this] obtain i where i: "even i" "i + 1 < length (points cs)"
    "pointIsLowerBound (points cs ! i)" "pointIsUpperBound (points cs ! (i + 1))"
    "pointLt (<) (points cs ! i) (pt c)" "pointLt (<) (pt c) (points cs ! (i + 1))" .
  then show ?thesis
    using familyLoop_pairs [OF cs(2)] column_family_pair [OF i(3,4) refl _ _ i(5,6)] by metis
qed

subsection \<open>Output and evaluation\<close>

text \<open>The phrase that each pair of bounds is written as; \<open>lit\<close> makes a literal of a value.\<close>

definition toExpr ::
  "('v \<Rightarrow> 'l) \<Rightarrow> ('v IntervalPoint \<Rightarrow> 'v IntervalPoint \<Rightarrow> bool) \<Rightarrow> string \<Rightarrow>
     'v IntervalPoint \<Rightarrow> 'v IntervalPoint \<Rightarrow> 'l IntervalExpr" where
  "toExpr lit prefixBound field lb ub =
     (if pointIsInfinite ub
      then IntervalExpr1 field (if pointIsExclusive lb then OP_GT else OP_GTE) (lit (pvalue lb)) []
      else if \<not> pointIsInfinite lb \<and> pvalue lb = pvalue ub \<and> pointIsInclusive lb \<and> pointIsInclusive ub
      then IntervalExpr1 field OP_EQ (lit (pvalue lb)) []
      else if \<not> pointIsInfinite lb \<and> prefixBound lb ub
      then IntervalExpr1 field OP_STARTSWITH (lit (pvalue lb)) []
      else if \<not> pointIsInfinite lb
      then IntervalExpr2 (lit (pvalue lb)) (if pointIsExclusive lb then OP_LT else OP_LTE) field
             (if pointIsExclusive ub then OP_LT else OP_LTE) (lit (pvalue ub)) []
      else IntervalExpr1 field (if pointIsExclusive ub then OP_LT else OP_LTE) (lit (pvalue ub)) [])"

primrec showOp :: "OperatorType \<Rightarrow> string" where
  "showOp OP_LT = '' < ''"
| "showOp OP_LTE = '' <= ''"
| "showOp OP_GT = '' > ''"
| "showOp OP_GTE = '' >= ''"
| "showOp OP_EQ = '' = ''"
| "showOp OP_STARTSWITH = '' ~= ''"

primrec showExpr :: "('l \<Rightarrow> string) \<Rightarrow> 'l IntervalExpr \<Rightarrow> string" where
  "showExpr sh (IntervalExpr1 field op l txt) = field @ showOp op @ sh l"
| "showExpr sh (IntervalExpr2 l1 op1 field op2 l2 txt) = sh l1 @ showOp op1 @ field @ showOp op2 @ sh l2"

fun pairExprs :: "('v IntervalPoint \<Rightarrow> 'v IntervalPoint \<Rightarrow> 'e) \<Rightarrow> 'v IntervalPoint list \<Rightarrow> 'e list" where
  "pairExprs te (lb # ub # ps) = te lb ub # pairExprs te ps"
| "pairExprs te ps = []"

fun joinWith :: "string \<Rightarrow> string list \<Rightarrow> string" where
  "joinWith sep [] = []"
| "joinWith sep [x] = x"
| "joinWith sep (x # y # ys) = x @ sep @ joinWith sep (y # ys)"

definition setExprs ::
  "'v \<Rightarrow> ('v \<Rightarrow> 'l) \<Rightarrow> ('v IntervalPoint \<Rightarrow> 'v IntervalPoint \<Rightarrow> bool) \<Rightarrow> string \<Rightarrow>
     'v IntervalSet \<Rightarrow> 'l IntervalExpr list" where
  "setExprs z lit prefixBound field s =
     (if points s = [] then [IntervalExpr2 (lit z) OP_LT field OP_LT (lit z) []]
      else pairExprs (toExpr lit prefixBound field) (points s))"

definition predicateExprs :: "ScanPredicate \<Rightarrow> SubPredicate list" where
  "predicateExprs p =
     (case constraint (rows p) of None \<Rightarrow> []
      | Some s \<Rightarrow> [StringSet (setExprs [] outputString isPrefixBound ''row'' s)]) @
     (case constraint (columns p) of None \<Rightarrow> []
      | Some s \<Rightarrow> [StringSet (setExprs [] outputString isPrefixBound ''column'' s)]) @
     (case constraint (timestamps p) of None \<Rightarrow> []
      | Some s \<Rightarrow> [TimeSet (setExprs 0 id isPrefixBoundAny ''time'' s)]) @
     (if maxHistory p \<noteq> 0 then [History (maxHistory p)] else [])"

primrec showSub :: "(int \<Rightarrow> string) \<Rightarrow> SubPredicate \<Rightarrow> string" where
  "showSub showTimestamp (StringSet es) = joinWith '' or '' (map (showExpr id) es)"
| "showSub showTimestamp (TimeSet es) = joinWith '' or '' (map (showExpr (outputTime showTimestamp)) es)"
| "showSub showTimestamp (History k) = ''history = '' @ showInt k"

lemma outputInterval_expr:
  assumes "\<not> (pointIsInfinite lb \<and> pointIsInfinite ub)" "outv = (\<lambda>v. sh (lit v))"
  shows "outputInterval outv pb field lb ub = (showExpr sh (toExpr lit pb field lb ub), True)"
  using assms by (auto simp: outputInterval_def toExpr_def)

fun someFinite :: "'v IntervalPoint list \<Rightarrow> bool" where
  "someFinite (lb # ub # ps) \<longleftrightarrow> \<not> (pointIsInfinite lb \<and> pointIsInfinite ub) \<and> someFinite ps"
| "someFinite ps = True"

lemma joinWith_Cons: "joinWith sep (x # ys) = x @ concat (map (\<lambda>y. sep @ y) ys)"
  by (induction ys arbitrary: x) simp_all

lemma outputLoop_exprs:
  assumes "someFinite ps" "outv = (\<lambda>v. sh (lit v))"
  shows "outputLoop (outputInterval outv pb field) b ps =
     (let es = map (showExpr sh) (pairExprs (toExpr lit pb field) ps)
      in if b then concat (map (\<lambda>y. '' or '' @ y) es) else joinWith '' or '' es)"
  using assms(1)
proof (induction "outputInterval outv pb field" b ps rule: outputLoop.induct)
  case (1 b lb ub ps)
  then have fin: "\<not> (pointIsInfinite lb \<and> pointIsInfinite ub)" by simp
  note out = outputInterval_expr [where sh = sh and lit = lit and pb = pb and field = field, OF fin assms(2)]
  show ?case
    using 1 by (simp add: out joinWith_Cons Let_def comp_def)
qed (auto simp: Let_def)

text \<open>Only the first pair of a valid set can be infinite on both sides, and then the set is.\<close>

lemma someFinite_iset:
  fixes s :: "'v::linorder IntervalSet"
  assumes "iset_inv (<) s" "\<not> isetIsInfinite s"
  shows "someFinite (points s)"
proof -
  have rest: "someFinite ps" if "sorted_wrt (pointLt (<)) (q # ps)" "alternating True ps" for q :: "'v IntervalPoint" and ps
    using that
  proof (induction ps arbitrary: q rule: someFinite.induct)
    case (1 lb ub ps)
    then have "pointLt (<) q lb" "pointIsLowerBound lb" by auto
    then have "\<not> pointIsInfinite lb"
      by (auto simp: pointLt_def isLess_def point_pred_defs point_type_defs split: if_splits)
    with 1 show ?case by (auto intro: "1.IH" [of ub])
  qed auto
  show ?thesis
  proof (cases "points s" rule: someFinite.cases)
    case (1 lb ub ps)
    then have "sorted_wrt (pointLt (<)) (ub # ps)" "alternating True ps"
      using assms(1) by (simp_all add: wf_simps)
    with rest have "someFinite ps" by blast
    moreover have "\<not> (pointIsInfinite lb \<and> pointIsInfinite ub)"
      using assms(2) 1 by (auto simp: isetIsInfinite_def)
    ultimately show ?thesis by (simp add: 1)
  qed simp_all
qed

lemma outputIntervalSet_exprs:
  fixes s :: "'v::linorder IntervalSet"
  assumes "iset_inv (<) s" "\<not> isetIsInfinite s" "outv = (\<lambda>v. sh (lit v))" "\<And>l u. pb l u \<Longrightarrow> pointIsInclusive l"
  shows "outputIntervalSet z outv pb field s = joinWith '' or '' (map (showExpr sh) (setExprs z lit pb field s))"
proof (cases "points s = []")
  case True
  have "\<not> pb (mk_point z PT_EXCLUSIVE_LOWER_BOUND) u" for u
    using assms(4) [of "mk_point z PT_EXCLUSIVE_LOWER_BOUND" u] by (auto simp: point_pred_defs point_type_defs)
  then show ?thesis
    using True by (simp add: outputIntervalSet_def setExprs_def isetIsEmpty_def outputInterval_def setEmpty_def
        setLowerBound_def setUpperBound_def point_pred_defs point_type_defs assms(3))
next
  case False
  then show ?thesis
    using outputLoop_exprs [where sh = sh and lit = lit and pb = pb and field = field and b = False,
        OF someFinite_iset [OF assms(1,2)] assms(3)]
    by (simp add: outputIntervalSet_def isetIsEmpty_def setExprs_def Let_def)
qed

lemma showScanPredicate_exprs:
  assumes "scan_predicate_inv p"
  shows "showScanPredicate showTimestamp p = joinWith '' and '' (map (showSub showTimestamp) (predicateExprs p))"
proof -
  have r: "map_option (outputIntervalSet [] outputString isPrefixBound field) (constraint x) =
      map_option (\<lambda>s. showSub showTimestamp (StringSet (setExprs [] outputString isPrefixBound field s))) (constraint x)"
    if "case x of None \<Rightarrow> True | Some s \<Rightarrow> iset_inv (<) s" for x field
  proof (cases "constraint x")
    case (Some s)
    with that have "iset_inv (<) s" "\<not> isetIsInfinite s"
      by (auto simp: constraint_def split: option.splits if_splits)
    from outputIntervalSet_exprs [OF this, where sh = id and lit = outputString and pb = isPrefixBound and outv = outputString] show ?thesis
      using Some by (simp add: isPrefixBound_def)
  qed simp
  have t: "map_option (outputIntervalSet 0 (outputTime showTimestamp) isPrefixBoundAny field) (constraint x) =
      map_option (\<lambda>s. showSub showTimestamp (TimeSet (setExprs 0 id isPrefixBoundAny field s))) (constraint x)"
    if "case x of None \<Rightarrow> True | Some s \<Rightarrow> iset_inv (<) s" for x field
  proof (cases "constraint x")
    case (Some s)
    with that have "iset_inv (<) s" "\<not> isetIsInfinite s"
      by (auto simp: constraint_def split: option.splits if_splits)
    from outputIntervalSet_exprs [OF this, where sh = "outputTime showTimestamp" and lit = id and pb = isPrefixBoundAny
        and outv = "outputTime showTimestamp"]
    show ?thesis
      using Some by (simp add: isPrefixBoundAny_def)
  qed simp
  have inv: "case rows p of None \<Rightarrow> True | Some s \<Rightarrow> iset_inv (<) s"
    "case columns p of None \<Rightarrow> True | Some s \<Rightarrow> iset_inv (<) s"
    "case timestamps p of None \<Rightarrow> True | Some s \<Rightarrow> iset_inv (<) s"
    using assms by (simp_all add: scan_predicate_inv_def)
  show ?thesis
    unfolding showScanPredicate_def predicateExprs_def r [OF inv(1)] r [OF inv(2)] t [OF inv(3)]
    by (cases "constraint (rows p)"; cases "constraint (columns p)"; cases "constraint (timestamps p)")
      (simp_all add: outputPart_def)
qed

text \<open>An infinite bound with the default value: what the setters store.\<close>

definition normPoint :: "'v \<Rightarrow> 'v IntervalPoint \<Rightarrow> 'v IntervalPoint" where
  "normPoint z p = (if pointIsInfinite p then mk_point z (ptype p) else p)"

lemma normPoint_lt [simp]:
  "pointLt lt (normPoint z p) q = pointLt lt p q"
  "pointLt lt q (normPoint z p) = pointLt lt q p"
  by (auto simp: normPoint_def pointLt_def isLess_def pointIsInfinite_def)

lemma normPoint_types [simp]:
  "pointIsLowerBound (normPoint z p) = pointIsLowerBound p"
  "pointIsUpperBound (normPoint z p) = pointIsUpperBound p"
  by (auto simp: normPoint_def point_pred_defs)

lemma lower_types:
  "pointIsLowerBound p \<Longrightarrow> \<exists>v. p = mk_point v PT_INFINITE_LOWER_BOUND \<or>
     p = mk_point v PT_EXCLUSIVE_LOWER_BOUND \<or> p = mk_point v PT_INCLUSIVE_LOWER_BOUND"
  by (cases p) (auto simp: mk_point_def point_pred_defs point_type_defs)

lemma upper_types:
  "pointIsUpperBound p \<Longrightarrow> \<exists>v. p = mk_point v PT_INFINITE_UPPER_BOUND \<or>
     p = mk_point v PT_EXCLUSIVE_UPPER_BOUND \<or> p = mk_point v PT_INCLUSIVE_UPPER_BOUND"
  by (cases p) (auto simp: mk_point_def point_pred_defs point_type_defs)

lemmas setter_defs = setLowerBound_def setUpperBound_def unsetLowerBound_def unsetUpperBound_def setPoint_def
  Interval0_def

lemma evalString_toExpr:
  assumes lb: "pointIsLowerBound lb" and ub: "pointIsUpperBound ub"
    and fin: "\<not> (pointIsInfinite lb \<and> pointIsInfinite ub)"
  shows "evalStringInterval (toExpr outputString isPrefixBound field lb ub) =
     Inr (field, \<lparr>lowerBound = normPoint [] lb, upperBound = normPoint [] ub\<rparr>)"
proof -
  note defs = toExpr_def outputString_def quotedAssign_reprString stringAssign1_def assign2_def
    makePrefixInterval_def isPrefixBound_def setter_defs normPoint_def point_pred_defs point_type_defs
  from lower_types [OF lb] upper_types [OF ub] fin show ?thesis
    by (elim exE disjE) (simp_all add: defs split: option.split)
qed

lemma evalTime_toExpr:
  assumes lb: "pointIsLowerBound lb" and ub: "pointIsUpperBound ub"
    and fin: "\<not> (pointIsInfinite lb \<and> pointIsInfinite ub)"
  shows "evalTimeInterval (toExpr id isPrefixBoundAny field lb ub) =
     Inr (field, \<lparr>lowerBound = normPoint 0 lb, upperBound = normPoint 0 ub\<rparr>)"
proof -
  note defs = toExpr_def isPrefixBoundAny_def timeAssign1_def timeAssign2_def assign2_def
    setter_defs normPoint_def point_pred_defs point_type_defs
  from lower_types [OF lb] upper_types [OF ub] fin show ?thesis
    by (elim exE disjE) (simp_all add: defs)
qed

lemma isetAdd_points:
  "set (points (isetAdd lt x s)) \<subseteq> set (points s) \<union> {lowerBound x, upperBound x}"
proof (cases "pointLt lt (lowerBound x) (upperBound x)")
  case True
  have ins: "set (fst (if c then (vec_insert i p ps, k) else (ps, l))) \<subseteq> insert p (set ps)"
    for c i k l p and ps :: "'a IntervalPoint list"
    by (auto simp: vec_insert_def dest: in_set_takeD in_set_dropD)
  have era: "set (vec_erase i j ps) \<subseteq> set ps" for i j and ps :: "'a IntervalPoint list"
    by (auto simp: vec_erase_def dest: in_set_takeD in_set_dropD)
  have chain: "set (if c then vec_erase i j ps2 else ps2) \<subseteq> set ps \<union> {p, q}"
    if "set ps1 \<subseteq> insert p (set ps)" "set ps2 \<subseteq> insert q (set ps1)"
    for c i j p q and ps ps1 ps2 :: "'a IntervalPoint list"
    using that era [of i j ps2] by (cases c) (simp, blast)+
  have pu: "points (s\<lparr>points := ps\<rparr>) = ps" for ps
    by simp
  show ?thesis
    using True unfolding isetAdd_def Let_def case_prod_beta
    by (simp only: simp_thms if_False pu) (rule chain [OF ins ins])
qed (auto simp: isetAdd_def)

lemma below_pair:
  fixes ps :: "'v::linorder IntervalPoint list"
  assumes "sorted_wrt (pointLt (<)) (lb # ub # ps)" "pointIsLowerBound lb" "pointIsUpperBound ub"
  shows "odd (below (<) (lb # ub # ps) (pt v)) \<longleftrightarrow>
     pointLt (<) lb (pt v) \<and> pointLt (<) (pt v) ub \<or> odd (below (<) ps (pt v))"
proof -
  have tot: "pointLt (<) ub (pt v) \<longleftrightarrow> \<not> pointLt (<) (pt v) ub"
    using std_less.pointLt_value_total [of ub v] bound_not_value assms(3) by blast
  have none: "below (<) ps (pt v) = 0" if "\<not> pointLt (<) ub (pt v)"
    using that assms(1) std_less.pointLt_trans [of ub _ "pt v"] by (intro below_none) auto
  have "pointLt (<) ub (pt v) \<Longrightarrow> pointLt (<) lb (pt v)"
    using assms(1) std_less.pointLt_trans [of lb ub "pt v"] by simp
  then show ?thesis
    using none tot by (cases "pointLt (<) ub (pt v)"; cases "pointLt (<) lb (pt v)") (auto simp: below_Cons)
qed

lemma evalIntervalSet_pairs:
  fixes ps :: "'v::linorder IntervalPoint list"
  assumes ev: "\<And>lb ub. pointIsLowerBound lb \<Longrightarrow> pointIsUpperBound ub \<Longrightarrow>
      \<not> (pointIsInfinite lb \<and> pointIsInfinite ub) \<Longrightarrow>
      ev (te lb ub) = Inr (field, \<lparr>lowerBound = normPoint z lb, upperBound = normPoint z ub\<rparr>)"
    and "someFinite ps" "alternating True ps" "even (length ps)" "sorted_wrt (pointLt (<)) ps"
    and "iset_inv (<) s" "\<forall>p\<in>set (points s). \<forall>q\<in>set ps. pointLt (<) p q"
    and "f = field \<or> f = []" "ps = [] \<longrightarrow> f = field" "field \<noteq> []"
  shows "\<exists>s'. evalIntervalSet ev (pairExprs te ps) (f, s) = Inr (field, s') \<and> iset_inv (<) s' \<and>
     (\<forall>v. isetContains (<) s' v \<longleftrightarrow> isetContains (<) s v \<or> odd (below (<) ps (pt v)))"
  using assms(2-)
proof (induction ps arbitrary: s f rule: someFinite.induct)
  case (1 lb ub ps)
  let ?i = "\<lparr>lowerBound = normPoint z lb, upperBound = normPoint z ub\<rparr>"
  let ?s = "isetAdd (<) ?i s"
  have bounds: "pointIsLowerBound lb" "pointIsUpperBound ub"
    and tails: "someFinite ps" "alternating True ps" "even (length ps)" "sorted_wrt (pointLt (<)) ps"
    and fin: "\<not> (pointIsInfinite lb \<and> pointIsInfinite ub)"
    using "1.prems" by auto
  have fresh: "\<forall>p\<in>set (butlast (points s)). \<not> pointEq (<) p (upperBound ?i)"
    using "1.prems"(6) by (auto simp: pointEq_def dest: in_set_butlastD)
  have wf: "interval_wf ?i" using bounds by (simp add: wf_simps)
  have inv: "iset_inv (<) ?s"
    and con: "isetContains (<) ?s v \<longleftrightarrow> isetContains (<) s v \<or> intervalContains (<) ?i v" for v
    using std_less.add_correct_iset [OF "1.prems"(5) wf fresh] by blast+
  have "\<forall>p\<in>set (points ?s). \<forall>q\<in>set ps. pointLt (<) p q"
  proof (intro ballI)
    fix p q assume "p \<in> set (points ?s)" "q \<in> set ps"
    then have "p \<in> set (points s) \<or> p = normPoint z lb \<or> p = normPoint z ub"
      using isetAdd_points [of "(<)" ?i s] by auto
    with \<open>q \<in> set ps\<close> "1.prems"(4,6) show "pointLt (<) p q" by auto
  qed
  then obtain s' where s': "evalIntervalSet ev (pairExprs te ps) (field, ?s) = Inr (field, s')"
    "iset_inv (<) s'" "\<And>v. isetContains (<) s' v \<longleftrightarrow> isetContains (<) ?s v \<or> odd (below (<) ps (pt v))"
    using "1.IH" [OF tails inv _ _ _ "1.prems"(9), of field] by auto
  have "evalIntervalSet ev (pairExprs te (lb # ub # ps)) (f, s) = Inr (field, s')"
    using s'(1) "1.prems"(7,9) by (auto simp: ev [OF bounds fin] unionInterval_def)
  moreover have "isetContains (<) s' v \<longleftrightarrow> isetContains (<) s v \<or> odd (below (<) (lb # ub # ps) (pt v))" for v
    using below_pair [OF "1.prems"(4) bounds, of v] s'(3) [of v] con [of v]
    by (auto simp: intervalContains_points)
  ultimately show ?case using s'(2) by blast
qed auto

lemma evalIntervalSet_exprs:
  fixes s :: "'v::linorder IntervalSet"
  assumes ev: "\<And>lb ub. pointIsLowerBound lb \<Longrightarrow> pointIsUpperBound ub \<Longrightarrow>
      \<not> (pointIsInfinite lb \<and> pointIsInfinite ub) \<Longrightarrow>
      ev (toExpr lit pb field lb ub) = Inr (field, \<lparr>lowerBound = normPoint z lb, upperBound = normPoint z ub\<rparr>)"
    and ev0: "ev (IntervalExpr2 (lit z) OP_LT field OP_LT (lit z) []) = Inr (field, setEmpty z (Interval0 z))"
    and s: "iset_inv (<) s" "\<not> isetIsInfinite s" "field \<noteq> []"
  shows "\<exists>s'. evalIntervalSet ev (setExprs z lit pb field s) ([], IntervalSet0) = Inr (field, s') \<and>
     iset_inv (<) s' \<and> (\<forall>v. isetContains (<) s' v \<longleftrightarrow> isetContains (<) s v)"
proof (cases "points s = []")
  case True
  have wf: "interval_wf (setEmpty z (Interval0 z))" by (simp add: interval_ops_wf)
  have "\<not> isetContains (<) s v" for v
    using True by (simp add: isetContains_def isInRange_def)
  then show ?thesis
    using True add_to_empty [OF wf] by (simp add: setExprs_def ev0 unionInterval_def)
next
  case False
  have e: "iset_inv (<) (IntervalSet0 :: 'v IntervalSet)" "points (IntervalSet0 :: 'v IntervalSet) = []"
    "\<not> isetContains (<) (IntervalSet0 :: 'v IntervalSet) v" for v
    by (simp_all add: wf_simps IntervalSet0_def isetContains_def isInRange_def)
  have "\<exists>s'. evalIntervalSet ev (pairExprs (toExpr lit pb field) (points s)) ([], IntervalSet0) = Inr (field, s') \<and>
      iset_inv (<) s' \<and> (\<forall>v. isetContains (<) s' v \<longleftrightarrow> isetContains (<) IntervalSet0 v \<or> odd (below (<) (points s) (pt v)))"
    using s e False someFinite_iset [OF s(1,2)]
    by (intro evalIntervalSet_pairs [where z = z]) (auto simp: iset_inv_def ev)
  then show ?thesis
    using False e(3) std_less.contains_parity [OF s(1)] by (simp add: setExprs_def)
qed

lemma evalPredicate_append:
  "evalPredicate (xs @ ys) r = bind_res (evalPredicate xs r) (evalPredicate ys)"
proof (induction xs arbitrary: r)
  case (Cons x xs)
  then show ?case by (cases "evalSub x r") simp_all
qed simp

lemma string_set_round_trip:
  assumes "iset_inv (<) s" "\<not> isetIsInfinite s" "field \<noteq> []"
  shows "\<exists>s'. evalIntervalSet evalStringInterval (setExprs [] outputString isPrefixBound field s) ([], IntervalSet0)
      = Inr (field, s') \<and> iset_inv (<) s' \<and> (\<forall>v. isetContains (<) s' v \<longleftrightarrow> isetContains (<) s v)"
proof (rule evalIntervalSet_exprs [OF evalString_toExpr _ assms])
  show "evalStringInterval (IntervalExpr2 (outputString []) OP_LT field OP_LT (outputString []) []) =
      Inr (field, setEmpty [] (Interval0 []))"
    by (simp add: outputString_def quotedAssign_reprString assign2_def setEmpty_def)
qed

lemma time_set_round_trip:
  assumes "iset_inv (<) s" "\<not> isetIsInfinite s" "field \<noteq> []"
  shows "\<exists>s'. evalIntervalSet evalTimeInterval (setExprs 0 id isPrefixBoundAny field s) ([], IntervalSet0)
      = Inr (field, s') \<and> iset_inv (<) s' \<and> (\<forall>v. isetContains (<) s' v \<longleftrightarrow> isetContains (<) s v)"
proof (rule evalIntervalSet_exprs [OF evalTime_toExpr _ assms])
  show "evalTimeInterval (IntervalExpr2 (id 0) OP_LT field OP_LT (id 0) []) =
      Inr (field, setEmpty 0 (Interval0 0))"
    by (simp add: assign2_def timeAssign2_def setEmpty_def)
qed

text \<open>A constraint and the set that evaluation gives for it.\<close>

definition sameSet :: "'v::linorder IntervalSet option \<Rightarrow> 'v IntervalSet option \<Rightarrow> bool" where
  "sameSet x y \<longleftrightarrow> (case y of None \<Rightarrow> True | Some s \<Rightarrow> iset_inv (<) s) \<and>
     (\<forall>v. (case y of None \<Rightarrow> True | Some s \<Rightarrow> isetContains (<) s v) \<longleftrightarrow>
          (case x of None \<Rightarrow> True | Some s \<Rightarrow> isetContains (<) s v))"

lemma constraint_cases:
  assumes "case x of None \<Rightarrow> True | Some s \<Rightarrow> iset_inv (<) (s :: 'v::linorder IntervalSet)"
  obtains (none) "constraint x = None" "sameSet x None"
  | (some) s where "constraint x = Some s" "x = Some s" "iset_inv (<) s" "\<not> isetIsInfinite s"
proof (cases "constraint x")
  case None
  then have "sameSet x None"
    using assms std_less.infinite_correct
    by (auto simp: constraint_def sameSet_def split: option.splits if_splits)
  with None none show ?thesis by blast
next
  case (Some s)
  with assms some show ?thesis by (auto simp: constraint_def split: option.splits if_splits)
qed

lemma evalPredicate_row:
  assumes "case x of None \<Rightarrow> True | Some s \<Rightarrow> iset_inv (<) s" "rows r = None"
  shows "\<exists>y. evalPredicate (case constraint x of None \<Rightarrow> []
      | Some s \<Rightarrow> [StringSet (setExprs [] outputString isPrefixBound ''row'' s)]) r = Inr (r\<lparr>rows := y\<rparr>) \<and> sameSet x y"
  using assms(1)
proof (cases rule: constraint_cases)
  case none
  with assms(2) show ?thesis by (intro exI [of _ None]) simp
next
  case (some s)
  with string_set_round_trip [of s "''row''"] obtain s' where
    "evalIntervalSet evalStringInterval (setExprs [] outputString isPrefixBound ''row'' s) ([], IntervalSet0) = Inr (''row'', s')"
    "iset_inv (<) s'" "\<forall>v. isetContains (<) s' v \<longleftrightarrow> isetContains (<) s v"
    by auto
  with some assms(2) show ?thesis
    by (intro exI [of _ "Some s'"]) (simp add: updateString_def setRowPredicate_def sameSet_def)
qed

lemma evalPredicate_column:
  assumes "case x of None \<Rightarrow> True | Some s \<Rightarrow> iset_inv (<) s" "columns r = None"
  shows "\<exists>y. evalPredicate (case constraint x of None \<Rightarrow> []
      | Some s \<Rightarrow> [StringSet (setExprs [] outputString isPrefixBound ''column'' s)]) r = Inr (r\<lparr>columns := y\<rparr>) \<and> sameSet x y"
  using assms(1)
proof (cases rule: constraint_cases)
  case none
  with assms(2) show ?thesis by (intro exI [of _ None]) simp
next
  case (some s)
  with string_set_round_trip [of s "''column''"] obtain s' where
    "evalIntervalSet evalStringInterval (setExprs [] outputString isPrefixBound ''column'' s) ([], IntervalSet0) = Inr (''column'', s')"
    "iset_inv (<) s'" "\<forall>v. isetContains (<) s' v \<longleftrightarrow> isetContains (<) s v"
    by auto
  with some assms(2) show ?thesis
    by (intro exI [of _ "Some s'"]) (simp add: updateString_def setColumnPredicate_def sameSet_def)
qed

lemma evalPredicate_time:
  assumes "case x of None \<Rightarrow> True | Some s \<Rightarrow> iset_inv (<) s" "timestamps r = None"
  shows "\<exists>y. evalPredicate (case constraint x of None \<Rightarrow> []
      | Some s \<Rightarrow> [TimeSet (setExprs 0 id isPrefixBoundAny ''time'' s)]) r = Inr (r\<lparr>timestamps := y\<rparr>) \<and> sameSet x y"
  using assms(1)
proof (cases rule: constraint_cases)
  case none
  with assms(2) show ?thesis by (intro exI [of _ None]) simp
next
  case (some s)
  with time_set_round_trip [of s "''time''"] obtain s' where
    "evalIntervalSet evalTimeInterval (setExprs 0 id isPrefixBoundAny ''time'' s) ([], IntervalSet0) = Inr (''time'', s')"
    "iset_inv (<) s'" "\<forall>v. isetContains (<) s' v \<longleftrightarrow> isetContains (<) s v"
    by auto
  with some assms(2) show ?thesis
    by (intro exI [of _ "Some s'"]) (simp add: updateTime_def setTimePredicate_def sameSet_def)
qed

lemma evalPredicate_exprs:
  assumes "scan_predicate_inv p"
  shows "\<exists>q. evalPredicate (predicateExprs p) ScanPredicate0 = Inr q \<and> sameSet (rows p) (rows q) \<and>
    sameSet (columns p) (columns q) \<and> sameSet (timestamps p) (timestamps q) \<and> maxHistory q = maxHistory p"
proof -
  have inv: "case rows p of None \<Rightarrow> True | Some s \<Rightarrow> iset_inv (<) s"
    "case columns p of None \<Rightarrow> True | Some s \<Rightarrow> iset_inv (<) s"
    "case timestamps p of None \<Rightarrow> True | Some s \<Rightarrow> iset_inv (<) s"
    using assms by (simp_all add: scan_predicate_inv_def)
  obtain a where a: "evalPredicate (case constraint (rows p) of None \<Rightarrow> []
      | Some s \<Rightarrow> [StringSet (setExprs [] outputString isPrefixBound ''row'' s)]) ScanPredicate0 = Inr (ScanPredicate0\<lparr>rows := a\<rparr>)"
    "sameSet (rows p) a"
    using evalPredicate_row [OF inv(1), of ScanPredicate0] by (auto simp: ScanPredicate0_def)
  let ?r = "ScanPredicate0\<lparr>rows := a\<rparr>"
  obtain b where b: "evalPredicate (case constraint (columns p) of None \<Rightarrow> []
      | Some s \<Rightarrow> [StringSet (setExprs [] outputString isPrefixBound ''column'' s)]) ?r = Inr (?r\<lparr>columns := b\<rparr>)"
    "sameSet (columns p) b"
    using evalPredicate_column [OF inv(2), of ?r] by (auto simp: ScanPredicate0_def)
  let ?c = "?r\<lparr>columns := b\<rparr>"
  obtain t where t: "evalPredicate (case constraint (timestamps p) of None \<Rightarrow> []
      | Some s \<Rightarrow> [TimeSet (setExprs 0 id isPrefixBoundAny ''time'' s)]) ?c = Inr (?c\<lparr>timestamps := t\<rparr>)"
    "sameSet (timestamps p) t"
    using evalPredicate_time [OF inv(3), of ?c] by (auto simp: ScanPredicate0_def)
  let ?t = "?c\<lparr>timestamps := t\<rparr>"
  have "evalPredicate (if maxHistory p \<noteq> 0 then [History (maxHistory p)] else []) ?t = Inr (?t\<lparr>maxHistory := maxHistory p\<rparr>)"
    by (simp add: setHistory_def setMaxHistory_def ScanPredicate0_def)
  then have "evalPredicate (predicateExprs p) ScanPredicate0 = Inr (?t\<lparr>maxHistory := maxHistory p\<rparr>)"
    unfolding predicateExprs_def evalPredicate_append a(1) bind_res_simps b(1) t(1) .
  with a(2) b(2) t(2) show ?thesis by (intro exI [of _ "?t\<lparr>maxHistory := maxHistory p\<rparr>"]) simp
qed

text \<open>The defect of \<open>IntervalSet::add\<close> is reachable from an expression that repeats a term:
  \<open>row = "a" or row = "b" or row = "a"\<close> evaluates to a set of three bounds.\<close>

lemma repeated_term_corrupts_rows:
  "(case evalPredicate [StringSet
        [IntervalExpr1 ''row'' OP_EQ (outputString ''a'') [], IntervalExpr1 ''row'' OP_EQ (outputString ''b'') [],
         IntervalExpr1 ''row'' OP_EQ (outputString ''a'') []]] ScanPredicate0 of
      Inr p \<Rightarrow> map_option (\<lambda>s. length (points s)) (rows p) | Inl e \<Rightarrow> None) = Some 3"
  by code_simp

subsection \<open>Properties\<close>

text \<open>
  An interval expression is accepted exactly when its literals are well-formed and its two
  operators point in the same direction; the interval it gives holds exactly the strings, or
  the timestamps, that satisfy every comparison in it.
\<close>
theorem interval_expressions_meaning:
  "((\<exists>r. evalStringInterval e = Inr r) \<longleftrightarrow> stringExprOk e) \<and>
   ((\<exists>r. evalTimeInterval t = Inr r) \<longleftrightarrow> timeExprOk t) \<and>
   {(f, x) |f i x. evalStringInterval e = Inr (f, i) \<and> intervalContains (<) i x} =
     {(f, x) |f x. stringExprOk e \<and> f = exprField e \<and> stringExprHolds e x} \<and>
   {(f, x) |f i x. evalTimeInterval t = Inr (f, i) \<and> intervalContains (<) i x} =
     {(f, x) |f x. timeExprOk t \<and> f = exprField t \<and> timeExprHolds t x}"
proof -
  have "{(f, x) |f i x. evalStringInterval e = Inr (f, i) \<and> intervalContains (<) i x} =
      {(f, x) |f x. stringExprOk e \<and> f = exprField e \<and> stringExprHolds e x}"
  proof (cases "evalStringInterval e")
    case (Inl err)
    then have "\<not> stringExprOk e" using evalString_ok [of e] by auto
    with Inl show ?thesis by simp
  next
    case (Inr fi)
    then obtain f i where fi: "evalStringInterval e = Inr (f, i)" by (cases fi) auto
    moreover have "stringExprOk e" using evalString_ok [of e] fi by blast
    ultimately show ?thesis
      using evalString_sound [OF fi] by auto
  qed
  moreover have "{(f, x) |f i x. evalTimeInterval t = Inr (f, i) \<and> intervalContains (<) i x} =
      {(f, x) |f x. timeExprOk t \<and> f = exprField t \<and> timeExprHolds t x}"
  proof (cases "evalTimeInterval t")
    case (Inl err)
    then have "\<not> timeExprOk t" using evalTime_ok [of t] by auto
    with Inl show ?thesis by simp
  next
    case (Inr fi)
    then obtain f i where fi: "evalTimeInterval t = Inr (f, i)" by (cases fi) auto
    moreover have "timeExprOk t" using evalTime_ok [of t] fi by blast
    ultimately show ?thesis
      using evalTime_sound [OF fi] by auto
  qed
  ultimately show ?thesis using evalString_ok [of e] evalTime_ok [of t] by blast
qed

text \<open>
  C33. The text written for a valid predicate is the concrete syntax of phrases that evaluate,
  without an error, to a predicate with the same rows, columns, timestamps and history.
\<close>
theorem scan_predicate_output_evaluates:
  assumes "scan_predicate_inv p"
  shows "showScanPredicate showTimestamp p = joinWith '' and '' (map (showSub showTimestamp) (predicateExprs p)) \<and>
    (\<exists>q. evalPredicate (predicateExprs p) ScanPredicate0 = Inr q \<and> scan_predicate_inv q \<and>
       rowAllowed q = rowAllowed p \<and> columnAllowed q = columnAllowed p \<and> timeAllowed q = timeAllowed p \<and>
       maxHistory q = maxHistory p)"
proof -
  obtain q where "evalPredicate (predicateExprs p) ScanPredicate0 = Inr q" "maxHistory q = maxHistory p"
    "sameSet (rows p) (rows q)" "sameSet (columns p) (columns q)" "sameSet (timestamps p) (timestamps q)"
    using evalPredicate_exprs [OF assms] by blast
  then show ?thesis
    using showScanPredicate_exprs [OF assms]
    by (auto simp: sameSet_def scan_predicate_inv_def rowAllowed_def columnAllowed_def timeAllowed_def)
qed

theorem scan_predicate_output_evaluates_witness:
  "showScanPredicate (\<lambda>t. []) (setMaxHistory 3 (setRowPredicate
     (isetAdd (<) (makePrefixInterval ''com'') IntervalSet0) ScanPredicate0)) =
   ''row ~= '' @ CHR 0x22 # ''com'' @ CHR 0x22 # '' and history = 3''"
proof -
  let ?p = "setMaxHistory 3 (setRowPredicate (isetAdd (<) (makePrefixInterval ''com'') IntervalSet0) ScanPredicate0)"
  have "scan_predicate_inv ?p"
    using add_to_empty(1) [OF makePrefixInterval_wf]
    by (simp add: scan_predicate_inv_def setMaxHistory_def setRowPredicate_def ScanPredicate0_def)
  moreover have "joinWith '' and '' (map (showSub (\<lambda>t. [])) (predicateExprs ?p)) =
      ''row ~= '' @ CHR 0x22 # ''com'' @ CHR 0x22 # '' and history = 3''"
    by code_simp
  ultimately show ?thesis
    using scan_predicate_output_evaluates [of ?p "\<lambda>t. []"] by simp
qed

text \<open>
  Clipping a predicate to a span of rows allows exactly the rows it allowed that lie in the
  span, keeps the predicate valid and leaves every other restriction alone.
\<close>
theorem clipRows_restricts_rows:
  assumes "scan_predicate_inv p" "interval_wf span"
  shows "scan_predicate_inv (clipRows span p) \<and>
    (\<forall>r. rowAllowed (clipRows span p) r \<longleftrightarrow> rowAllowed p r \<and> intervalContains (<) span r) \<and>
    columns (clipRows span p) = columns p \<and> timestamps (clipRows span p) = timestamps p \<and>
    maxHistory (clipRows span p) = maxHistory p"
  using clipRows_correct [OF assms] by blast

theorem clipRows_restricts_rows_witness:
  "rowAllowed (clipRows (makePrefixInterval ''com'') ScanPredicate0) ''com.foo''"
proof -
  have "scan_predicate_inv ScanPredicate0" "rowAllowed ScanPredicate0 ''com.foo''"
    by (simp_all add: scan_predicate_inv_def ScanPredicate0_def rowAllowed_def)
  then show ?thesis
    using clipRows_restricts_rows [OF _ makePrefixInterval_wf, of ScanPredicate0 "''com''"]
    by (simp add: makePrefixInterval_contains)
qed

text \<open>
  When column families are inferred from a column predicate, every column the predicate
  allows belongs to one of them: it starts with the family's name and the separator.
\<close>
theorem getColumnFamilies_contain_columns:
  assumes "scan_predicate_inv p" "getColumnFamilies p = Some F" "columnAllowed p c"
  shows "\<exists>f\<in>set F. prefix (f @ '':'') c \<and> CHR '':'' \<notin> set f \<and> f \<noteq> []"
  by (rule getColumnFamilies_correct [OF assms])

theorem getColumnFamilies_contain_columns_witness:
  "\<exists>F. getColumnFamilies (setColumnPredicate (isetAdd (<) (makePrefixInterval ''word:'') IntervalSet0) ScanPredicate0)
       = Some F \<and> (\<exists>f\<in>set F. prefix (f @ '':'') ''word:cat'')"
proof -
  let ?p = "setColumnPredicate (isetAdd (<) (makePrefixInterval ''word:'') IntervalSet0) ScanPredicate0"
  have "scan_predicate_inv ?p"
    using add_to_empty(1) [OF makePrefixInterval_wf]
    by (simp add: scan_predicate_inv_def setColumnPredicate_def ScanPredicate0_def)
  moreover have "getColumnFamilies ?p = Some [''word'']" "columnAllowed ?p ''word:cat''"
    by code_simp+
  ultimately show ?thesis
    using getColumnFamilies_contain_columns [of ?p "[''word'']" "''word:cat''"] by blast
qed

end
