(* ===== verification/Cell.thy ===== *)
theory Cell
  imports Merge ScanPredicate "HOL-Library.Product_Lexorder"
begin

section \<open>Cells (src/cc/kdi/sdstore\_cell.h, sdstore\_cell.cc, sdstore\_dynamic\_cell.cc)\<close>

text \<open>
  A cell is a handle that dispatches to the interpreter of its data. The two dynamic kinds are
  modelled with their memory layout: the row, the column and, for a value cell, the value are
  stored in one buffer, and pointers into it (offsets here) separate them. Reference counts
  are not modelled. The order of cells is by row, by column, and then by descending timestamp.
\<close>

subsection \<open>Dynamic cells\<close>

record DynamicCell =
  dc_buf :: string
  dc_col :: nat
  dc_val :: nat
  dc_end :: nat
  dc_timestamp :: int

record DynamicCellErasure =
  de_buf :: string
  de_col :: nat
  de_end :: nat
  de_timestamp :: int

datatype Cell = ValueCell DynamicCell | ErasureCell DynamicCellErasure

text \<open>The range between two offsets of a buffer.\<close>

definition slice :: "string \<Rightarrow> nat \<Rightarrow> nat \<Rightarrow> string" where
  "slice buf a b = take (b - a) (drop a buf)"

definition makeCell :: "string \<Rightarrow> string \<Rightarrow> int \<Rightarrow> string \<Rightarrow> Cell" where
  "makeCell row column timestamp val =
     (let col = length row; v = col + length column; e = v + length val
      in ValueCell \<lparr>dc_buf = row @ column @ val, dc_col = col, dc_val = v, dc_end = e, dc_timestamp = timestamp\<rparr>)"

definition makeCellErasure :: "string \<Rightarrow> string \<Rightarrow> int \<Rightarrow> Cell" where
  "makeCellErasure row column timestamp =
     (let col = length row; e = col + length column
      in ErasureCell \<lparr>de_buf = row @ column, de_col = col, de_end = e, de_timestamp = timestamp\<rparr>)"

primrec getRow :: "Cell \<Rightarrow> string" where
  "getRow (ValueCell c) = slice (dc_buf c) 0 (dc_col c)"
| "getRow (ErasureCell c) = slice (de_buf c) 0 (de_col c)"

primrec getColumn :: "Cell \<Rightarrow> string" where
  "getColumn (ValueCell c) = slice (dc_buf c) (dc_col c) (dc_val c)"
| "getColumn (ErasureCell c) = slice (de_buf c) (de_col c) (de_end c)"

primrec getValue :: "Cell \<Rightarrow> string" where
  "getValue (ValueCell c) = slice (dc_buf c) (dc_val c) (dc_end c)"
| "getValue (ErasureCell c) = []"

primrec getTimestamp :: "Cell \<Rightarrow> int" where
  "getTimestamp (ValueCell c) = dc_timestamp c"
| "getTimestamp (ErasureCell c) = de_timestamp c"

primrec isErasure :: "Cell \<Rightarrow> bool" where
  "isErasure (ValueCell c) = False"
| "isErasure (ErasureCell c) = True"

definition cellColumnFamily :: "Cell \<Rightarrow> string" where
  "cellColumnFamily c =
     (let col = getColumn c; sep = find_char col CHR '':''
      in if sep \<noteq> length col then take sep col else [])"

text \<open>\<open>find_after\<close> returns the position after the character, or the end.\<close>

definition cellColumnQualifier :: "Cell \<Rightarrow> string" where
  "cellColumnQualifier c =
     (let col = getColumn c; sep = find_char col CHR '':''
      in drop (if sep \<noteq> length col then sep + 1 else length col) col)"

text \<open>Equality, the interpreters' order, and the order of handles, which avoids the dispatch when
  both cells have the same interpreter.\<close>

definition cellEq :: "Cell \<Rightarrow> Cell \<Rightarrow> bool" where
  "cellEq a b \<longleftrightarrow> string_equals (getRow a) (getRow b) \<and> string_equals (getColumn a) (getColumn b) \<and>
     getTimestamp a = getTimestamp b"

definition interpIsLess :: "Cell \<Rightarrow> Cell \<Rightarrow> bool" where
  "interpIsLess a b =
     (let cmp = string_compare (getRow a) (getRow b)
      in if cmp \<noteq> 0 then cmp < 0
         else let cmp = string_compare (getColumn a) (getColumn b)
              in if cmp \<noteq> 0 then cmp < 0 else getTimestamp b < getTimestamp a)"

definition cellLt :: "Cell \<Rightarrow> Cell \<Rightarrow> bool" where
  "cellLt a b =
     (if isErasure a = isErasure b then interpIsLess a b
      else
        let cmp = string_compare (getRow a) (getRow b)
        in if cmp \<noteq> 0 then cmp < 0
           else let cmp = string_compare (getColumn a) (getColumn b)
                in if cmp \<noteq> 0 then cmp < 0 else getTimestamp b < getTimestamp a)"

definition showCell :: "(int \<Rightarrow> string) \<Rightarrow> Cell option \<Rightarrow> string" where
  "showCell showTimestamp cell =
     (case cell of
        None \<Rightarrow> ''(NULL)''
      | Some c \<Rightarrow>
          [CHR ''('', CHR 0x22] @ reprEscape (getRow c) @ [CHR 0x22, CHR '','', CHR 0x22] @
          reprEscape (getColumn c) @ [CHR 0x22, CHR '',''] @
          (if - 10000 < getTimestamp c \<and> getTimestamp c < 10000
           then CHR ''@'' # showInt (getTimestamp c) else showTimestamp (getTimestamp c)) @
          [CHR '','', CHR 0x22] @ (if isErasure c then ''ERASED'' else reprEscape (getValue c)) @
          [CHR 0x22, CHR '')''])"

subsection \<open>Keys\<close>

definition cellKey :: "Cell \<Rightarrow> string \<times> string \<times> int" where
  "cellKey c = (getRow c, getColumn c, - getTimestamp c)"

text \<open>Names below 2 GB, for which the three-way comparison has the right sign.\<close>

definition cellOk :: "Cell \<Rightarrow> bool" where
  "cellOk c \<longleftrightarrow> length (getRow c) < 2 ^ 31 \<and> length (getColumn c) < 2 ^ 31"

lemma slice_parts:
  "slice (a @ r) 0 (length a) = a"
  "slice (a @ b @ r) (length a) (length a + length b) = b"
  "slice (a @ b @ c) (length a + length b) (length a + length b + length c) = c"
  by (simp_all add: slice_def)

lemma makeCell_fields [simp]:
  "getRow (makeCell r c t v) = r" "getColumn (makeCell r c t v) = c"
  "getTimestamp (makeCell r c t v) = t" "getValue (makeCell r c t v) = v"
  "\<not> isErasure (makeCell r c t v)"
  using slice_parts(1) [of r "c @ v"] slice_parts(2) [of r c v] slice_parts(3) [of r c v]
  by (simp_all add: makeCell_def Let_def)

lemma makeCellErasure_fields [simp]:
  "getRow (makeCellErasure r c t) = r" "getColumn (makeCellErasure r c t) = c"
  "getTimestamp (makeCellErasure r c t) = t" "getValue (makeCellErasure r c t) = []"
  "isErasure (makeCellErasure r c t)"
  using slice_parts(1) [of r c] slice_parts(2) [of r c "[]"]
  by (simp_all add: makeCellErasure_def Let_def)

lemma cellEq_key: "cellEq a b \<longleftrightarrow> cellKey a = cellKey b"
  by (auto simp: cellEq_def cellKey_def string_equals_eq)

lemma interpIsLess_key:
  assumes "cellOk a" "cellOk b"
  shows "interpIsLess a b \<longleftrightarrow> cellKey a < cellKey b"
proof -
  have l: "length (getRow a) < 2 ^ 31" "length (getRow b) < 2 ^ 31"
    "length (getColumn a) < 2 ^ 31" "length (getColumn b) < 2 ^ 31"
    using assms by (simp_all add: cellOk_def)
  have rows: "string_compare (getRow a) (getRow b) < 0 \<longleftrightarrow> getRow a < getRow b"
    "string_compare (getRow a) (getRow b) = 0 \<longleftrightarrow> getRow a = getRow b"
    using string_compare_sign [OF l(1,2)] by blast+
  have cols: "string_compare (getColumn a) (getColumn b) < 0 \<longleftrightarrow> getColumn a < getColumn b"
    "string_compare (getColumn a) (getColumn b) = 0 \<longleftrightarrow> getColumn a = getColumn b"
    using string_compare_sign [OF l(3,4)] by blast+
  have irr: "\<not> getRow b < getRow b" "\<not> getColumn b < getColumn b" by simp_all
  show ?thesis
    unfolding interpIsLess_def Let_def rows cols cellKey_def less_prod_def' fst_conv snd_conv
    using irr by auto
qed

lemma cellLt_interp: "cellLt a b = interpIsLess a b"
  by (simp add: cellLt_def interpIsLess_def)

interpretation cell_values: keyed_values cellLt cellKey cellOk
  by unfold_locales (simp add: cellLt_interp interpIsLess_key)

subsection \<open>Properties\<close>

text \<open>
  The fields of a made cell are those it was made from, and cells with names below 2 GB are
  ordered by row, then by column, then by descending timestamp, with equality of keys as the
  equality of cells.
\<close>
theorem cell_order_by_key:
  assumes "cellOk a" "cellOk b"
  shows "(cellLt a b \<longleftrightarrow> getRow a < getRow b \<or> getRow a = getRow b \<and>
           (getColumn a < getColumn b \<or> getColumn a = getColumn b \<and> getTimestamp b < getTimestamp a)) \<and>
    (cellEq a b \<longleftrightarrow> \<not> cellLt a b \<and> \<not> cellLt b a) \<and>
    (cellLt a b \<longrightarrow> \<not> cellLt b a)"
proof -
  have lt: "cellLt x y \<longleftrightarrow> cellKey x < cellKey y" if "cellOk x" "cellOk y" for x y
    using that by (simp add: cellLt_interp interpIsLess_key)
  have key: "cellKey a < cellKey b \<longleftrightarrow> getRow a < getRow b \<or> getRow a = getRow b \<and>
      (getColumn a < getColumn b \<or> getColumn a = getColumn b \<and> getTimestamp b < getTimestamp a)"
    unfolding cellKey_def less_prod_def' fst_conv snd_conv neg_less_iff_less ..
  have "cellKey a = cellKey b \<longleftrightarrow> \<not> cellKey a < cellKey b \<and> \<not> cellKey b < cellKey a"
    using less_irrefl less_linear [of "cellKey a" "cellKey b"] by metis
  moreover have "cellKey a < cellKey b \<longrightarrow> \<not> cellKey b < cellKey a"
    using less_asym by blast
  ultimately show ?thesis
    unfolding lt [OF assms] lt [OF assms(2,1)] cellEq_key key [symmetric] by blast
qed

theorem cell_order_by_key_witness:
  "cellLt (makeCell ''r'' ''c'' 7 ''new'') (makeCellErasure ''r'' ''c'' 5)"
proof -
  have "cellOk (makeCell ''r'' ''c'' 7 ''new'')" "cellOk (makeCellErasure ''r'' ''c'' 5)"
    by (simp_all add: cellOk_def)
  then show ?thesis
    using cell_order_by_key [of "makeCell ''r'' ''c'' 7 ''new''" "makeCellErasure ''r'' ''c'' 5"]
    by simp
qed

end
