(* ===== verification/CellFilter.thy ===== *)
theory CellFilter
  imports Cell
begin

section \<open>Cell streams: filters and merges (src/cc/kdi/cell\_filter.cc, cell\_merge.h)\<close>

text \<open>
  A stream of cells is the list of the cells it delivers; a filter maps its input stream to its
  output stream. \<open>HistoryFilter\<close> counts in \<open>size_t\<close>, here a 64-bit word, and relies on its
  wrap-around for negative histories. The last theorems are about the merge of tables, which
  shadows a cell by any cell with the same key in an earlier input.
\<close>

subsection \<open>Filters\<close>

definition rowFilter :: "string IntervalSet \<Rightarrow> Cell list \<Rightarrow> Cell list" where
  "rowFilter keep cs = filter (\<lambda>x. isetContains (<) keep (getRow x)) cs"

definition columnFilter :: "string IntervalSet \<Rightarrow> Cell list \<Rightarrow> Cell list" where
  "columnFilter keep cs = filter (\<lambda>x. isetContains (<) keep (getColumn x)) cs"

definition timestampFilter :: "int IntervalSet \<Rightarrow> Cell list \<Rightarrow> Cell list" where
  "timestampFilter keep cs = filter (\<lambda>x. isetContains (<) keep (getTimestamp x)) cs"

definition erasureFilter :: "Cell list \<Rightarrow> Cell list" where
  "erasureFilter cs = filter (\<lambda>x. \<not> isErasure x) cs"

text \<open>The initial and the maximal history length that the constructor of \<open>HistoryFilter\<close> sets.\<close>

definition historyLimits :: "int \<Rightarrow> 64 word \<times> 64 word" where
  "historyLimits k =
     (if k > 0 then (0, word_of_int k) else (word_of_int k - 1, word_of_int k - 1))"

definition newHistory :: "Cell option \<Rightarrow> Cell \<Rightarrow> bool" where
  "newHistory prev x =
     (case prev of None \<Rightarrow> True | Some l \<Rightarrow> getRow l \<noteq> getRow x \<or> getColumn l \<noteq> getColumn x)"

fun historyLoop :: "64 word \<times> 64 word \<Rightarrow> Cell option \<Rightarrow> 64 word \<Rightarrow> Cell list \<Rightarrow> Cell list" where
  "historyLoop lim prev current [] = []"
| "historyLoop lim prev current (x # xs) =
     (let current' = (if newHistory prev x then fst lim else current) + 1
      in (if current' \<le> snd lim then [x] else []) @ historyLoop lim (Some x) current' xs)"

definition historyFilter :: "int \<Rightarrow> Cell list \<Rightarrow> Cell list" where
  "historyFilter k cs = historyLoop (historyLimits k) None 0 cs"

definition applyPredicateFilter :: "ScanPredicate \<Rightarrow> Cell list \<Rightarrow> Cell list" where
  "applyPredicateFilter pred input =
     (let s1 = (case rows pred of None \<Rightarrow> input | Some keep \<Rightarrow> rowFilter keep input);
          s2 = (case columns pred of None \<Rightarrow> s1 | Some keep \<Rightarrow> columnFilter keep s1);
          s3 = (case timestamps pred of None \<Rightarrow> s2 | Some keep \<Rightarrow> timestampFilter keep s2)
      in if maxHistory pred \<noteq> 0 then historyFilter (maxHistory pred) s3 else s3)"

subsection \<open>Merging\<close>

text \<open>\<open>z\<close> stands for the null cell that an exhausted input holds, which is never looked at.\<close>

definition cellMerge :: "Cell \<Rightarrow> bool \<Rightarrow> Cell list list \<Rightarrow> Cell list" where
  "cellMerge z filterErasures ss =
     (if filterErasures then filter (\<lambda>x. \<not> isErasure x) (mergeStreams z cellLt True ss)
      else mergeStreams z cellLt True ss)"

subsection \<open>The history filter\<close>

text \<open>The position of every cell in its run of cells with the same row and column.\<close>

fun ranked :: "(Cell \<times> nat) option \<Rightarrow> Cell list \<Rightarrow> (Cell \<times> nat) list" where
  "ranked prev [] = []"
| "ranked prev (x # xs) =
     (let n = (case prev of None \<Rightarrow> 1
               | Some (l, k) \<Rightarrow> if newHistory (Some l) x then 1 else k + 1)
      in (x, n) # ranked (Some (x, n)) xs)"

definition inHistory :: "int \<Rightarrow> nat \<Rightarrow> bool" where
  "inHistory k n \<longleftrightarrow> (if k > 0 then int n \<le> k else - k < int n)"

lemma unat_neg:
  assumes "0 < i" "i < 2 ^ 64"
  shows "unat (- of_nat i :: 64 word) = 2 ^ 64 - i"
proof -
  have "of_nat (2 ^ 64 - i) + of_nat i = (of_nat (2 ^ 64) :: 64 word)"
    using assms(2) by (simp flip: of_nat_add)
  also have "\<dots> = 0" by simp
  finally have "- of_nat i = (of_nat (2 ^ 64 - i) :: 64 word)"
    by (metis add_eq_0_iff2)
  then have "unat (- of_nat i :: 64 word) = (2 ^ 64 - i) mod 2 ^ 64"
    by (simp only: unat_of_nat) simp
  then show ?thesis
    using assms by simp
qed

lemma history_window:
  assumes "\<bar>k\<bar> < 2 ^ 31" "0 < n" "n < 2 ^ 63"
  shows "fst (historyLimits k) + of_nat n \<le> snd (historyLimits k) \<longleftrightarrow> inHistory k n"
proof (cases "k > 0")
  case True
  define m where "m = nat k"
  have m: "k = int m" "m < 2 ^ 31" using True assms(1) by (simp_all add: m_def)
  have "unat (of_nat n :: 64 word) = n" "unat (of_nat m :: 64 word) = m"
    using assms(3) m(2) by (simp_all add: unat_of_nat)
  then show ?thesis
    using True by (simp add: historyLimits_def inHistory_def m(1) word_le_nat_alt)
next
  case False
  define j where "j = nat (- k)"
  have j: "k = - int j" "j < 2 ^ 31" using False assms(1) by (simp_all add: j_def)
  have "(word_of_int k - 1 :: 64 word) = - of_nat (Suc j)"
    by (simp add: j(1))
  then have lim: "fst (historyLimits k) = - of_nat (Suc j)" "snd (historyLimits k) = - of_nat (Suc j)"
    using False by (simp_all only: historyLimits_def if_False fst_conv snd_conv)
  have max: "unat (- of_nat (Suc j) :: 64 word) = 2 ^ 64 - Suc j"
    using j(2) by (intro unat_neg) simp_all
  show ?thesis
  proof (cases "n \<le> j")
    case True
    then have sum: "- of_nat (Suc j) + of_nat n = (- of_nat (Suc (j - n)) :: 64 word)"
      by (simp add: of_nat_diff)
    have u: "unat (- of_nat (Suc (j - n)) :: 64 word) = 2 ^ 64 - Suc (j - n)"
      using j(2) by (intro unat_neg) simp_all
    show ?thesis
      unfolding lim sum word_le_nat_alt u max
      using True False assms(2) j by (simp add: inHistory_def)
  next
    case nj: False
    then have sum: "- of_nat (Suc j) + of_nat n = (of_nat (n - Suc j) :: 64 word)"
      by (simp add: of_nat_diff)
    have u: "unat (of_nat (n - Suc j) :: 64 word) = n - Suc j"
      using assms(3) by (simp add: unat_of_nat)
    show ?thesis
      unfolding lim sum word_le_nat_alt u max
      using nj False assms(3) j by (simp add: inHistory_def)
  qed
qed

lemma historyLoop_ranked:
  assumes "\<bar>k\<bar> < 2 ^ 31" "(case prev of None \<Rightarrow> 0 | Some (l, n) \<Rightarrow> n) + length cs < 2 ^ 63"
    and "case prev of None \<Rightarrow> True | Some (l, n) \<Rightarrow> current = fst (historyLimits k) + of_nat n"
  shows "historyLoop (historyLimits k) (map_option fst prev) current cs =
     map fst (filter (\<lambda>(c, n). inHistory k n) (ranked prev cs))"
  using assms(2,3)
proof (induction cs arbitrary: prev current)
  case (Cons x xs)
  let ?n = "case prev of None \<Rightarrow> 1 | Some (l, k) \<Rightarrow> if newHistory (Some l) x then 1 else k + 1"
  let ?c = "(if newHistory (map_option fst prev) x then fst (historyLimits k) else current) + 1"
  have c: "?c = fst (historyLimits k) + of_nat ?n"
    using Cons.prems(2) by (auto simp: newHistory_def split: option.splits prod.splits)
  have n: "0 < ?n" "?n + length xs < 2 ^ 63"
    using Cons.prems(1) by (auto split: option.splits prod.splits)
  have w: "?c \<le> snd (historyLimits k) \<longleftrightarrow> inHistory k ?n"
    unfolding c using n by (intro history_window [OF assms(1)]) simp_all
  have "historyLoop (historyLimits k) (Some x) ?c xs =
      map fst (filter (\<lambda>(c, n). inHistory k n) (ranked (Some (x, ?n)) xs))"
    using Cons.IH [of "Some (x, ?n)" ?c] n(2) c by simp
  then show ?case
    using w by (simp add: Let_def)
qed simp

lemma historyFilter_ranked:
  assumes "\<bar>k\<bar> < 2 ^ 31" "length cs < 2 ^ 63"
  shows "historyFilter k cs = map fst (filter (\<lambda>(c, n). inHistory k n) (ranked None cs))"
  using historyLoop_ranked [of k None cs 0] assms by (simp add: historyFilter_def)

lemma map_fst_ranked [simp]: "map fst (ranked prev cs) = cs"
  by (induction cs arbitrary: prev) (simp_all add: Let_def)

text \<open>In a sorted stream the position of a cell in its run is its revision number: the number of
  cells with its row and column that are at least as new.\<close>

definition sameName :: "Cell \<Rightarrow> Cell \<Rightarrow> bool" where
  "sameName x y \<longleftrightarrow> getRow y = getRow x \<and> getColumn y = getColumn x"

definition revision :: "Cell list \<Rightarrow> Cell \<Rightarrow> nat" where
  "revision cs x = length (filter (\<lambda>y. sameName x y \<and> getTimestamp x \<le> getTimestamp y) cs)"

definition cellsSorted :: "Cell list \<Rightarrow> bool" where
  [wf_simps]: "cellsSorted cs \<longleftrightarrow> sorted_wrt (\<lambda>a b. cellKey a < cellKey b) cs"

lemma key_sandwich:
  assumes "cellKey a \<le> cellKey b" "cellKey b \<le> cellKey c" "sameName a c"
  shows "sameName a b"
proof -
  have r: "getRow a \<le> getRow b" "getRow b \<le> getRow c"
    using assms(1,2) unfolding cellKey_def less_eq_prod_def fst_conv snd_conv by auto
  with assms(3) have rows: "getRow b = getRow a" by (simp add: sameName_def)
  have "getColumn a \<le> getColumn b" "getColumn b \<le> getColumn c"
    using assms rows unfolding cellKey_def less_eq_prod_def fst_conv snd_conv sameName_def by auto
  with assms(3) rows show ?thesis by (simp add: sameName_def)
qed

lemma key_newer:
  "cellKey a < cellKey b \<Longrightarrow> sameName a b \<Longrightarrow> getTimestamp b < getTimestamp a"
  unfolding cellKey_def less_prod_def' fst_conv snd_conv sameName_def by auto

lemma sameName_sym: "sameName a b \<longleftrightarrow> sameName b a"
  by (auto simp: sameName_def)

lemma newHistory_same: "newHistory (Some l) x \<longleftrightarrow> \<not> sameName l x"
  by (auto simp: newHistory_def sameName_def)

lemma ranked_revision_from:
  assumes "cellsSorted (pre @ xs)"
    and "prev = (if pre = [] then None else Some (last pre, length (filter (sameName (last pre)) pre)))"
  shows "ranked prev xs = map (\<lambda>x. (x, revision (pre @ xs) x)) xs"
  using assms
proof (induction xs arbitrary: pre prev)
  case (Cons x xs)
  have before: "cellKey y < cellKey x" if "y \<in> set pre" for y
    using Cons.prems(1) that by (simp add: cellsSorted_def sorted_wrt_append)
  have after: "cellKey x < cellKey y" if "y \<in> set xs" for y
    using Cons.prems(1) that by (simp add: cellsSorted_def sorted_wrt_append)
  let ?n = "length (filter (sameName x) (pre @ [x]))"
  have pre: "filter (\<lambda>y. sameName x y \<and> getTimestamp x \<le> getTimestamp y) pre = filter (sameName x) pre"
    using before key_newer sameName_sym by (intro filter_cong refl) (metis less_imp_le)
  have post: "filter (\<lambda>y. sameName x y \<and> getTimestamp x \<le> getTimestamp y) xs = []"
    using after key_newer by (auto simp: filter_empty_conv not_le)
  have rev: "revision (pre @ x # xs) x = ?n"
  proof -
    have "sameName x x" by (simp add: sameName_def)
    then show ?thesis by (simp add: revision_def pre post)
  qed
  have n: "(case prev of None \<Rightarrow> 1 | Some (l, k) \<Rightarrow> if newHistory (Some l) x then 1 else k + 1) = ?n"
  proof (cases "pre = []")
    case True
    then show ?thesis using Cons.prems(2) by (simp add: sameName_def)
  next
    case False
    let ?l = "last pre"
    show ?thesis
    proof (cases "sameName ?l x")
      case True
      then have "sameName ?l = sameName x" by (auto simp: sameName_def fun_eq_iff)
      then show ?thesis
        using Cons.prems(2) False True by (simp add: newHistory_same)
    next
      case nl: False
      have "\<not> sameName x y" if y: "y \<in> set pre" for y
      proof
        assume "sameName x y"
        then have "sameName y x" by (simp add: sameName_sym)
        have "cellKey y \<le> cellKey ?l"
        proof (cases "y = ?l")
          case False
          have eq: "pre = butlast pre @ [?l]" using \<open>pre \<noteq> []\<close> by simp
          have "y \<in> set (butlast pre)" using y False eq by (metis in_set_butlast_appendI insert_iff list.set(2) rotate1.simps(2) set_rotate1)
          moreover have "cellsSorted (butlast pre @ [?l])"
            using Cons.prems(1) \<open>pre \<noteq> []\<close> by (simp add: cellsSorted_def sorted_wrt_append)
          ultimately show ?thesis by (simp add: cellsSorted_def sorted_wrt_append less_imp_le)
        qed simp
        then have "sameName y ?l"
          using key_sandwich [OF _ _ \<open>sameName y x\<close>] before [of ?l] \<open>pre \<noteq> []\<close> by (simp add: less_imp_le)
        with \<open>sameName y x\<close> nl show False by (auto simp: sameName_def)
      qed
      then have "filter (sameName x) pre = []" by (simp add: filter_empty_conv)
      then show ?thesis
        using Cons.prems(2) False nl by (simp add: newHistory_same) (simp add: sameName_def)
    qed
  qed
  have "ranked (Some (x, ?n)) xs = map (\<lambda>y. (y, revision ((pre @ [x]) @ xs) y)) xs"
    using Cons.prems(1) by (intro Cons.IH) simp_all
  then show ?case
    using n rev by (simp add: Let_def)
qed simp

lemma ranked_revision:
  "cellsSorted cs \<Longrightarrow> ranked None cs = map (\<lambda>x. (x, revision cs x)) cs"
  using ranked_revision_from [of "[]" cs None] by simp

lemma historyFilter_revisions:
  assumes "cellsSorted cs" "\<bar>k\<bar> < 2 ^ 31" "length cs < 2 ^ 63"
  shows "historyFilter k cs = filter (\<lambda>x. inHistory k (revision cs x)) cs"
proof -
  have "map fst (filter (\<lambda>(c, n). inHistory k n) (map (\<lambda>x. (x, f x)) xs)) = filter (\<lambda>x. inHistory k (f x)) xs"
    for f and xs :: "Cell list"
    by (induction xs) auto
  then show ?thesis
    using historyFilter_ranked [OF assms(2,3)] by (simp add: ranked_revision [OF assms(1)])
qed

subsection \<open>Predicates\<close>

definition cellAllowed :: "ScanPredicate \<Rightarrow> Cell \<Rightarrow> bool" where
  "cellAllowed p c \<longleftrightarrow> rowAllowed p (getRow c) \<and> columnAllowed p (getColumn c) \<and> timeAllowed p (getTimestamp c)"

lemma filter_sorted: "cellsSorted cs \<Longrightarrow> cellsSorted (filter P cs)"
  by (simp add: cellsSorted_def sorted_wrt_filter)

lemma allowed_filter:
  "(let s1 = (case rows p of None \<Rightarrow> cs | Some keep \<Rightarrow> rowFilter keep cs);
        s2 = (case columns p of None \<Rightarrow> s1 | Some keep \<Rightarrow> columnFilter keep s1)
    in (case timestamps p of None \<Rightarrow> s2 | Some keep \<Rightarrow> timestampFilter keep s2)) = filter (cellAllowed p) cs"
  by (cases "rows p"; cases "columns p"; cases "timestamps p")
    (simp_all add: Let_def rowFilter_def columnFilter_def timestampFilter_def cellAllowed_def [abs_def] rowAllowed_def
      columnAllowed_def timeAllowed_def conj_ac)

lemma applyPredicateFilter_correct:
  assumes "cellsSorted cs" "\<bar>maxHistory p\<bar> < 2 ^ 31" "length cs < 2 ^ 63"
  shows "applyPredicateFilter p cs =
    filter (\<lambda>x. maxHistory p = 0 \<or> inHistory (maxHistory p) (revision (filter (cellAllowed p) cs) x)) (filter (cellAllowed p) cs)"
proof -
  have len: "length (filter (cellAllowed p) cs) < 2 ^ 63"
    using assms(3) length_filter_le [of "cellAllowed p" cs] by linarith
  show ?thesis
    using historyFilter_revisions [OF filter_sorted [OF assms(1)] assms(2) len]
      allowed_filter [of cs p] by (simp add: applyPredicateFilter_def Let_def)
qed

subsection \<open>Merges\<close>

lemma first_with_key:
  "(\<exists>ys zs. xs = ys @ x # zs \<and> (\<forall>y\<in>set ys. f y \<noteq> f x)) \<longleftrightarrow> (\<exists>t. filter (\<lambda>y. f y = f x) xs = x # t)"
proof
  assume "\<exists>ys zs. xs = ys @ x # zs \<and> (\<forall>y\<in>set ys. f y \<noteq> f x)"
  then obtain ys zs where "xs = ys @ x # zs" "\<forall>y\<in>set ys. f y \<noteq> f x" by blast
  then show "\<exists>t. filter (\<lambda>y. f y = f x) xs = x # t" by simp
next
  assume "\<exists>t. filter (\<lambda>y. f y = f x) xs = x # t"
  then obtain t where "filter (\<lambda>y. f y = f x) xs = x # t" ..
  then show "\<exists>ys zs. xs = ys @ x # zs \<and> (\<forall>y\<in>set ys. f y \<noteq> f x)"
    by (auto simp: filter_eq_Cons_iff)
qed

text \<open>The first cell with its key, in the order of the inputs.\<close>

definition shadowing :: "Cell list list \<Rightarrow> Cell \<Rightarrow> bool" where
  "shadowing ss c \<longleftrightarrow> (\<exists>ys zs. concat ss = ys @ c # zs \<and> (\<forall>y\<in>set ys. cellKey y \<noteq> cellKey c))"

lemma mergeCells_correct:
  assumes "\<forall>s\<in>set ss. cellsSorted s \<and> list_all cellOk s"
  shows "cellsSorted (mergeStreams z cellLt True ss)"
    and "c \<in> set (mergeStreams z cellLt True ss) \<longleftrightarrow> shadowing ss c"
proof -
  have "\<forall>s\<in>set ss. sorted (map cellKey s) \<and> list_all cellOk s"
  proof
    fix s assume "s \<in> set ss"
    then have "cellsSorted s" "list_all cellOk s" using assms by blast+
    then show "sorted (map cellKey s) \<and> list_all cellOk s"
      by (auto simp: cellsSorted_def sorted_map elim: sorted_wrt_mono_rel [rotated] intro: less_imp_le)
  qed
  from cell_values.mergeStreams_correct [OF this, of z True]
  have eq: "mergeStreams z cellLt True ss = firstOfRuns cellKey (sort_key cellKey (concat ss))" by simp
  have sorted: "sorted (map cellKey (sort_key cellKey (concat ss)))" by (rule sorted_sort_key)
  show "cellsSorted (mergeStreams z cellLt True ss)"
    unfolding eq cellsSorted_def by (rule cell_values.firstOfRuns_sorted(1) [OF sorted])
  have stable: "filter (\<lambda>y. cellKey y = cellKey c) (sort_key cellKey (concat ss)) =
      filter (\<lambda>y. cellKey y = cellKey c) (concat ss)"
    by (rule sort_key_stable)
  show "c \<in> set (mergeStreams z cellLt True ss) \<longleftrightarrow> shadowing ss c"
    unfolding eq cell_values.firstOfRuns_sorted(2) [OF sorted] mem_Collect_eq first_with_key stable
      shadowing_def ..
qed

subsection \<open>Properties\<close>

text \<open>
  C24. On a stream sorted by key, a positive history keeps exactly the latest \<open>k\<close> revisions of
  every row and column, and a negative one all but the latest \<open>-k\<close>; the wrap-around of the
  64-bit counter that implements the negative case is exact for every 32-bit argument.
\<close>
theorem historyFilter_keeps_revisions:
  assumes "cellsSorted cs" "\<bar>k\<bar> < 2 ^ 31" "length cs < 2 ^ 63"
  shows "historyFilter k cs = filter (\<lambda>x. if k > 0 then int (revision cs x) \<le> k else - k < int (revision cs x)) cs"
  using historyFilter_revisions [OF assms] by (simp add: inHistory_def cong: if_cong)

theorem historyFilter_keeps_revisions_witness:
  "historyFilter (-1) [makeCell ''r'' ''c'' 9 ''new'', makeCell ''r'' ''c'' 5 ''old''] =
     [makeCell ''r'' ''c'' 5 ''old'']"
proof -
  let ?cs = "[makeCell ''r'' ''c'' 9 ''new'', makeCell ''r'' ''c'' 5 ''old'']"
  have "cellsSorted ?cs"
    by (simp add: cellsSorted_def cellKey_def less_prod_def')
  moreover have "revision ?cs (makeCell ''r'' ''c'' 9 ''new'') = 1" "revision ?cs (makeCell ''r'' ''c'' 5 ''old'') = 2"
    by (simp_all add: revision_def sameName_def)
  ultimately show ?thesis
    using historyFilter_keeps_revisions [of ?cs "-1"] by simp
qed

text \<open>
  C22. The filter of a scan predicate delivers, in order, the cells whose row, column and
  timestamp the predicate allows, and of these the revisions that its history asks for: the
  history is counted after the other restrictions.
\<close>
theorem applyPredicateFilter_semantics:
  assumes "cellsSorted cs" "\<bar>maxHistory p\<bar> < 2 ^ 31" "length cs < 2 ^ 63"
  shows "applyPredicateFilter p cs =
    filter (\<lambda>x. maxHistory p = 0 \<or> inHistory (maxHistory p) (revision (filter (cellAllowed p) cs) x))
      (filter (cellAllowed p) cs)"
  by (rule applyPredicateFilter_correct [OF assms])

theorem applyPredicateFilter_semantics_witness:
  "applyPredicateFilter (setRowPredicate (isetAdd (<) (setPoint ''b'' (Interval0 [])) IntervalSet0) ScanPredicate0)
     [makeCell ''a'' ''c'' 1 ''x'', makeCell ''b'' ''c'' 1 ''y''] = [makeCell ''b'' ''c'' 1 ''y'']"
proof -
  let ?p = "setRowPredicate (isetAdd (<) (setPoint ''b'' (Interval0 [])) IntervalSet0) ScanPredicate0"
  let ?cs = "[makeCell ''a'' ''c'' 1 ''x'', makeCell ''b'' ''c'' 1 ''y'']"
  have "cellsSorted ?cs"
    by (simp add: cellsSorted_def cellKey_def less_prod_def' less_char_def)
  moreover have "\<not> cellAllowed ?p (makeCell ''a'' ''c'' 1 ''x'')" "cellAllowed ?p (makeCell ''b'' ''c'' 1 ''y'')"
      "maxHistory ?p = 0"
    by code_simp+
  ultimately show ?thesis
    using applyPredicateFilter_semantics [of ?cs ?p] by simp
qed

text \<open>
  C21. The merge of sorted inputs is sorted by key with no key twice; it delivers exactly the
  cells that come first with their key in the order of the inputs, so that an earlier input
  shadows a later one, an erasure included, and erasures are left out if asked.
\<close>
theorem cellMerge_shadows:
  assumes "\<forall>s\<in>set ss. cellsSorted s \<and> list_all cellOk s"
  shows "cellsSorted (cellMerge z f ss) \<and>
    (\<forall>c. c \<in> set (cellMerge z f ss) \<longleftrightarrow> shadowing ss c \<and> \<not> (f \<and> isErasure c))"
  using mergeCells_correct [OF assms, where z = z] by (auto simp: cellMerge_def filter_sorted)

theorem cellMerge_shadows_witness:
  "cellMerge (makeCell [] [] 0 []) True [[makeCellErasure ''r'' ''c'' 5], [makeCell ''r'' ''c'' 5 ''x'']] = []"
proof -
  let ?ss = "[[makeCellErasure ''r'' ''c'' 5], [makeCell ''r'' ''c'' 5 ''x'']]"
  have "\<forall>s\<in>set ?ss. cellsSorted s \<and> list_all cellOk s"
    by (simp add: cellsSorted_def cellOk_def)
  from cellMerge_shadows [OF this, of "makeCell [] [] 0 []" True]
  have c: "c \<in> set (cellMerge (makeCell [] [] 0 []) True ?ss) \<longleftrightarrow> shadowing ?ss c \<and> \<not> isErasure c" for c
    by simp
  have "isErasure c" if "shadowing ?ss c" for c
    using that by (auto simp: shadowing_def Cons_eq_append_conv cellKey_def)
  with c show ?thesis by (metis list.set_intros(1) list.exhaust)
qed

end
