(* ===== verification/MemoryTable.thy ===== *)
theory MemoryTable
  imports CellFilter
begin

section \<open>Memory tables (src/cc/kdi/memory\_table.h, memory\_table.cc)\<close>

text \<open>
  The table keeps an ordered set of items whose cells may be exchanged for cells with the same
  key. The standard set is the list of its cells in order; the constant \<open>CELL_OVERHEAD\<close>
  depends on the platform's object sizes and is the argument \<open>overhead\<close>. \<open>memUsage\<close> is a
  \<open>size_t\<close>. The table refines a map from keys to the last write.
\<close>

subsection \<open>Operations\<close>

record MemoryTable =
  cells :: "Cell list"
  memUsage :: "64 word"
  filterErasures :: bool

definition MemoryTable0 :: "bool \<Rightarrow> MemoryTable" where
  "MemoryTable0 fe = \<lparr>cells = [], memUsage = 0, filterErasures = fe\<rparr>"

text \<open>\<open>set::insert\<close>: the position of an equivalent item if there is one, and otherwise the
  position at which the new item is put.\<close>

definition setPosition :: "Cell \<Rightarrow> Cell list \<Rightarrow> nat" where
  "setPosition cell cs = length (takeWhile (\<lambda>c. cellLt c cell) cs)"

definition setHas :: "Cell \<Rightarrow> Cell list \<Rightarrow> bool" where
  "setHas cell cs = (let i = setPosition cell cs in i < length cs \<and> \<not> cellLt cell (cs ! i))"

definition tableInsert :: "64 word \<Rightarrow> Cell \<Rightarrow> MemoryTable \<Rightarrow> MemoryTable" where
  "tableInsert overhead cell t =
     (let i = setPosition cell (cells t)
      in if setHas cell (cells t)
         then t\<lparr>memUsage := memUsage t - of_nat (length (getValue (cells t ! i))) + of_nat (length (getValue cell)),
                cells := (cells t)[i := cell]\<rparr>
         else t\<lparr>cells := vec_insert i cell (cells t),
                memUsage := memUsage t + (overhead + of_nat (length (getRow cell)) +
                  of_nat (length (getColumn cell)) + of_nat (length (getValue cell)))\<rparr>)"

definition tableSet :: "64 word \<Rightarrow> string \<Rightarrow> string \<Rightarrow> int \<Rightarrow> string \<Rightarrow> MemoryTable \<Rightarrow> MemoryTable" where
  "tableSet overhead row column timestamp val t = tableInsert overhead (makeCell row column timestamp val) t"

definition tableErase :: "64 word \<Rightarrow> string \<Rightarrow> string \<Rightarrow> int \<Rightarrow> MemoryTable \<Rightarrow> MemoryTable" where
  "tableErase overhead row column timestamp t = tableInsert overhead (makeCellErasure row column timestamp) t"

definition scanWithErasures :: "MemoryTable \<Rightarrow> Cell list" where
  "scanWithErasures t = cells t"

definition tableScan :: "ScanPredicate \<Rightarrow> MemoryTable \<Rightarrow> Cell list result" where
  "tableScan pred t =
     (if filterErasures t then Inr (applyPredicateFilter pred (erasureFilter (scanWithErasures t)))
      else if maxHistory pred \<noteq> 0
      then Inl (ValueError ''cannot have history predicate with erasures'')
      else Inr (applyPredicateFilter pred (scanWithErasures t)))"

definition getMemoryUsage :: "MemoryTable \<Rightarrow> 64 word" where
  "getMemoryUsage t = memUsage t"

definition getCellCount :: "MemoryTable \<Rightarrow> nat" where
  "getCellCount t = length (cells t)"

subsection \<open>The invariant\<close>

definition cellSize :: "64 word \<Rightarrow> Cell \<Rightarrow> 64 word" where
  "cellSize overhead c = overhead + of_nat (length (getRow c)) + of_nat (length (getColumn c)) +
     of_nat (length (getValue c))"

definition table_inv :: "64 word \<Rightarrow> MemoryTable \<Rightarrow> bool" where
  [wf_simps]: "table_inv overhead t \<longleftrightarrow> cellsSorted (cells t) \<and> list_all cellOk (cells t) \<and>
     memUsage t = sum_list (map (cellSize overhead) (cells t))"

text \<open>The parts of an ordered set around a cell.\<close>

lemma set_split:
  assumes "cellsSorted cs" "list_all cellOk cs" "cellOk c"
  obtains A B where "cs = A @ B" "setPosition c cs = length A" "\<forall>a\<in>set A. cellKey a < cellKey c"
    and "\<forall>b\<in>set B. cellKey c \<le> cellKey b" "setHas c cs \<longleftrightarrow> B \<noteq> [] \<and> cellKey (hd B) = cellKey c"
proof -
  let ?P = "\<lambda>a. cellLt a c"
  let ?A = "takeWhile ?P cs" and ?B = "dropWhile ?P cs"
  have lt: "?P a \<longleftrightarrow> cellKey a < cellKey c" if "a \<in> set cs" for a
    using that assms(2,3) cell_values.lt_key [of a c] by (simp add: list_all_iff)
  have cs: "cs = ?A @ ?B" by simp
  have A: "\<forall>a\<in>set ?A. cellKey a < cellKey c"
    using lt set_takeWhileD [of _ ?P cs] by blast
  have B: "\<forall>b\<in>set ?B. cellKey c \<le> cellKey b"
  proof (cases ?B)
    case (Cons b bs)
    have "b \<in> set cs" using Cons cs by (metis in_set_conv_decomp)
    moreover have "\<not> ?P b" using Cons by (simp add: dropWhile_eq_Cons_conv)
    ultimately have b: "cellKey c \<le> cellKey b" using lt by simp
    have "cellsSorted (?A @ ?B)" using assms(1) by simp
    then have "\<forall>x\<in>set bs. cellKey b < cellKey x"
      unfolding Cons cellsSorted_def sorted_wrt_append by simp
    with b show ?thesis unfolding Cons by (auto intro: order_trans less_imp_le)
  next
    case Nil
    show ?thesis unfolding Nil by simp
  qed
  have has: "setHas c cs \<longleftrightarrow> ?B \<noteq> [] \<and> cellKey (hd ?B) = cellKey c"
  proof (cases ?B)
    case Nil
    then have "length ?A = length cs" using cs by (metis append_Nil2)
    then show ?thesis unfolding Nil by (simp add: setHas_def setPosition_def)
  next
    case (Cons b bs)
    have at: "cs ! length ?A = b" "length ?A < length cs"
      using cs unfolding Cons by (metis nth_append_length, metis length_append less_add_same_cancel1 length_greater_0_conv list.distinct(1))
    have "b \<in> set cs" using cs Cons by (metis in_set_conv_decomp)
    then have "cellOk b" using assms(2) by (simp add: list_all_iff)
    then have "cellLt c b \<longleftrightarrow> cellKey c < cellKey b"
      using cell_values.lt_key [OF assms(3)] by blast
    moreover have "cellKey c \<le> cellKey b" using B unfolding Cons by simp
    ultimately show ?thesis
      unfolding Cons by (auto simp: setHas_def setPosition_def at)
  qed
  show ?thesis
    by (rule that [OF cs _ A B has]) (simp add: setPosition_def)
qed

text \<open>The contents of a set as a map from keys.\<close>

definition cellMap :: "Cell list \<Rightarrow> string \<times> string \<times> int \<rightharpoonup> Cell" where
  "cellMap cs = map_of (map (\<lambda>c. (cellKey c, c)) cs)"

lemma cellMap_mem:
  assumes "cellsSorted cs"
  shows "cellMap cs k = Some c \<longleftrightarrow> c \<in> set cs \<and> cellKey c = k"
proof -
  have "distinct (map fst (map (\<lambda>c. (cellKey c, c)) cs))"
    using assms by (induction cs) (auto simp: cellsSorted_def)
  from map_of_eq_Some_iff [OF this] show ?thesis
    by (auto simp: cellMap_def)
qed

lemma cellMap_append: "cellMap (xs @ ys) = cellMap ys ++ cellMap xs"
  by (simp add: cellMap_def map_add_def fun_eq_iff map_of_append)

lemma cellMap_Cons: "cellMap (c # cs) = (cellMap cs)(cellKey c \<mapsto> c)"
  by (simp add: cellMap_def)

lemma cellMap_None: "\<forall>c\<in>set cs. cellKey c \<noteq> k \<Longrightarrow> cellMap cs k = None"
  by (auto simp: cellMap_def map_of_eq_None_iff)

lemma tableInsert_correct:
  assumes inv: "table_inv overhead t" and ok: "cellOk c"
  shows "table_inv overhead (tableInsert overhead c t)"
    and "cellMap (cells (tableInsert overhead c t)) = (cellMap (cells t))(cellKey c \<mapsto> c)"
    and "filterErasures (tableInsert overhead c t) = filterErasures t"
proof -
  have srt: "cellsSorted (cells t)" and oks: "list_all cellOk (cells t)"
    and mem: "memUsage t = sum_list (map (cellSize overhead) (cells t))"
    using inv by (simp_all add: table_inv_def)
  from set_split [OF srt oks ok] obtain A B where ab: "cells t = A @ B" "setPosition c (cells t) = length A"
    "\<forall>a\<in>set A. cellKey a < cellKey c" "\<forall>b\<in>set B. cellKey c \<le> cellKey b"
    "setHas c (cells t) \<longleftrightarrow> B \<noteq> [] \<and> cellKey (hd B) = cellKey c" .
  have sAB: "cellsSorted (A @ B)" "list_all cellOk (A @ B)" using srt oks ab(1) by simp_all
  have noA: "cellMap A (cellKey c) = None"
    using ab(3) by (intro cellMap_None) auto
  show "filterErasures (tableInsert overhead c t) = filterErasures t"
    by (simp add: tableInsert_def Let_def)
  have "table_inv overhead (tableInsert overhead c t) \<and>
    cellMap (cells (tableInsert overhead c t)) = (cellMap (cells t))(cellKey c \<mapsto> c)"
  proof (cases "setHas c (cells t)")
    case True
    then obtain b bs where B: "B = b # bs" "cellKey b = cellKey c"
      using ab(5) by (cases B) auto
    have t': "cells (tableInsert overhead c t) = A @ c # bs"
      "memUsage (tableInsert overhead c t) = memUsage t - of_nat (length (getValue b)) + of_nat (length (getValue c))"
      using True ab(1,2) B(1) by (simp_all add: tableInsert_def Let_def)
    have "cellsSorted (A @ c # bs)"
      using sAB(1) B by (simp add: cellsSorted_def sorted_wrt_append)
    moreover have "cellSize overhead b - of_nat (length (getValue b)) = cellSize overhead c - of_nat (length (getValue c))"
      using B(2) by (simp add: cellSize_def cellKey_def)
    ultimately have "table_inv overhead (tableInsert overhead c t)"
      unfolding table_inv_def t'(1) t'(2) mem ab(1) B(1)
      using sAB(2) ok B(1) by (simp add: algebra_simps)
    moreover have "cellMap (A @ c # bs) = (cellMap (A @ b # bs))(cellKey c \<mapsto> c)"
      using noA B(2) by (auto simp: cellMap_append cellMap_Cons map_add_def fun_eq_iff split: option.split)
    ultimately show ?thesis using t'(1) ab(1) B(1) by simp
  next
    case False
    have gt: "\<forall>b\<in>set B. cellKey c < cellKey b"
    proof (cases B)
      case (Cons b bs)
      then have "cellKey c < cellKey b" using False ab(4,5) by (auto simp: less_le)
      moreover have "\<forall>x\<in>set bs. cellKey b < cellKey x"
        using sAB(1) Cons by (simp add: cellsSorted_def sorted_wrt_append)
      ultimately show ?thesis using Cons by (auto intro: less_trans)
    qed simp
    have t': "cells (tableInsert overhead c t) = A @ c # B"
      "memUsage (tableInsert overhead c t) = memUsage t + cellSize overhead c"
      using False ab(1,2) by (simp_all add: tableInsert_def Let_def cellSize_def)
    have "cellsSorted (A @ c # B)"
      using sAB(1) gt ab(3) by (auto simp: cellsSorted_def sorted_wrt_append)
    then have "table_inv overhead (tableInsert overhead c t)"
      unfolding table_inv_def t'(1) t'(2) mem ab(1)
      using sAB(2) ok by (simp add: algebra_simps)
    moreover have "cellMap (A @ c # B) = (cellMap (A @ B))(cellKey c \<mapsto> c)"
      using noA by (auto simp: cellMap_append cellMap_Cons map_add_def fun_eq_iff split: option.split)
    ultimately show ?thesis using t'(1) ab(1) by simp
  qed
  then show "table_inv overhead (tableInsert overhead c t)"
    "cellMap (cells (tableInsert overhead c t)) = (cellMap (cells t))(cellKey c \<mapsto> c)" by blast+
qed

subsection \<open>Sequences of writes\<close>

datatype TableOp =
    OpSet string string int string
  | OpErase string string int

primrec applyOp :: "64 word \<Rightarrow> TableOp \<Rightarrow> MemoryTable \<Rightarrow> MemoryTable" where
  "applyOp overhead (OpSet r c ts v) t = tableSet overhead r c ts v t"
| "applyOp overhead (OpErase r c ts) t = tableErase overhead r c ts t"

primrec opCell :: "TableOp \<Rightarrow> Cell" where
  "opCell (OpSet r c ts v) = makeCell r c ts v"
| "opCell (OpErase r c ts) = makeCellErasure r c ts"

text \<open>The abstract table: every key with the last cell or erasure written to it.\<close>

definition lastWrite :: "TableOp list \<Rightarrow> string \<times> string \<times> int \<rightharpoonup> Cell" where
  "lastWrite ops = fold (\<lambda>op m. m(cellKey (opCell op) \<mapsto> opCell op)) ops Map.empty"

lemma applyOp_insert: "applyOp overhead op t = tableInsert overhead (opCell op) t"
  by (cases op) (simp_all add: tableSet_def tableErase_def)

lemma writes_correct:
  assumes "list_all (\<lambda>op. cellOk (opCell op)) ops" "table_inv overhead t"
  shows "table_inv overhead (fold (applyOp overhead) ops t) \<and>
    cellMap (cells (fold (applyOp overhead) ops t)) =
      fold (\<lambda>op m. m(cellKey (opCell op) \<mapsto> opCell op)) ops (cellMap (cells t)) \<and>
    filterErasures (fold (applyOp overhead) ops t) = filterErasures t"
  using assms
proof (induction ops arbitrary: t)
  case (Cons op ops)
  then have ok: "cellOk (opCell op)" by simp
  note ins = tableInsert_correct [OF Cons.prems(2) ok]
  show ?case
    using Cons.IH [OF _ ins(1)] Cons.prems(1) ins(2,3) by (simp add: applyOp_insert)
qed simp

lemma table_inv_0: "table_inv overhead (MemoryTable0 fe)"
  by (simp add: table_inv_def MemoryTable0_def cellsSorted_def)

lemma table_after:
  assumes "list_all (\<lambda>op. cellOk (opCell op)) ops" "t = fold (applyOp overhead) ops (MemoryTable0 fe)"
  shows "table_inv overhead t" "cellMap (cells t) = lastWrite ops" "filterErasures t = fe"
  using writes_correct [OF assms(1) table_inv_0 [of overhead fe]] assms(2)
  by (simp_all add: lastWrite_def MemoryTable0_def cellMap_def)

subsection \<open>Properties\<close>

text \<open>
  C9. After any sequence of writes, a scan of a table that filters erasures delivers, in the
  order of the keys, exactly the cells whose key was last written by a \<open>set\<close>, with the last
  value written, that the predicate allows, when it does not ask for a history.
\<close>
theorem memory_table_scan:
  assumes "list_all (\<lambda>op. cellOk (opCell op)) ops" "maxHistory pred = 0"
  shows "\<exists>out. tableScan pred (fold (applyOp overhead) ops (MemoryTable0 True)) = Inr out \<and> cellsSorted out \<and>
    (\<forall>c. c \<in> set out \<longleftrightarrow> lastWrite ops (cellKey c) = Some c \<and> \<not> isErasure c \<and> cellAllowed pred c)"
proof -
  define t where "t = fold (applyOp overhead) ops (MemoryTable0 True)"
  note after = table_after [OF assms(1) t_def]
  have srt: "cellsSorted (cells t)" using after(1) by (simp add: table_inv_def)
  have "tableScan pred t = Inr (filter (cellAllowed pred) (filter (\<lambda>x. \<not> isErasure x) (cells t)))"
    using after(3) assms(2) allowed_filter [of "filter (\<lambda>x. \<not> isErasure x) (cells t)" pred]
    by (simp add: tableScan_def applyPredicateFilter_def erasureFilter_def scanWithErasures_def Let_def)
  moreover have "c \<in> set (cells t) \<longleftrightarrow> lastWrite ops (cellKey c) = Some c" for c
    using cellMap_mem [OF srt, of "cellKey c" c] after(2) by simp
  ultimately show ?thesis
    unfolding t_def [symmetric] using filter_sorted [OF filter_sorted [OF srt]] by auto
qed

theorem memory_table_scan_witness:
  "tableScan ScanPredicate0 (fold (applyOp 100)
     [OpSet ''r'' ''c'' 1 ''old'', OpSet ''r'' ''c'' 1 ''new''] (MemoryTable0 True)) =
   Inr [makeCell ''r'' ''c'' 1 ''new'']"
proof -
  let ?ops = "[OpSet ''r'' ''c'' 1 ''old'', OpSet ''r'' ''c'' 1 ''new'']"
  have ok: "list_all (\<lambda>op. cellOk (opCell op)) ?ops"
    by (simp add: cellOk_def)
  have "maxHistory ScanPredicate0 = 0" by (simp add: ScanPredicate0_def)
  from memory_table_scan [OF ok this, of 100] obtain out where
    out: "tableScan ScanPredicate0 (fold (applyOp 100) ?ops (MemoryTable0 True)) = Inr out" "cellsSorted out"
      "\<And>c. c \<in> set out \<longleftrightarrow> lastWrite ?ops (cellKey c) = Some c \<and> \<not> isErasure c \<and> cellAllowed ScanPredicate0 c"
    by blast
  have all: "cellAllowed ScanPredicate0 c" for c
    by (simp add: cellAllowed_def rowAllowed_def columnAllowed_def timeAllowed_def ScanPredicate0_def)
  have "set out = {makeCell ''r'' ''c'' 1 ''new''}"
    using out(3) all by (auto simp: lastWrite_def cellKey_def split: if_splits)
  moreover have "distinct out"
    using out(2) by (auto simp: cellsSorted_def distinct_conv_nth sorted_wrt_iff_nth_less dest: less_imp_neq)
      (metis less_irrefl linorder_neqE_nat)
  ultimately have "out = [makeCell ''r'' ''c'' 1 ''new'']"
    by (metis distinct.simps(2) insert_eq_iff list.set_intros(1) list.exhaust list.simps(15) set_empty singletonD empty_iff)
  then show ?thesis using out(1) by simp
qed

text \<open>
  The table's count and memory usage are exact: one item for every key ever written, and
  the sum, in 64-bit arithmetic, of the overhead and the name and value sizes of the cells.
\<close>
theorem memory_table_accounting:
  assumes "list_all (\<lambda>op. cellOk (opCell op)) ops"
  shows "getCellCount (fold (applyOp overhead) ops (MemoryTable0 fe)) = card (dom (lastWrite ops)) \<and>
    getMemoryUsage (fold (applyOp overhead) ops (MemoryTable0 fe)) =
      sum_list (map (cellSize overhead) (scanWithErasures (fold (applyOp overhead) ops (MemoryTable0 fe))))"
proof -
  define t where "t = fold (applyOp overhead) ops (MemoryTable0 fe)"
  note after = table_after [OF assms t_def]
  have srt: "cellsSorted (cells t)" using after(1) by (simp add: table_inv_def)
  have "distinct (map cellKey (cells t))"
    using srt strict_sorted_iff [of "map cellKey (cells t)"] by (simp add: cellsSorted_def sorted_wrt_map)
  moreover have "dom (lastWrite ops) = set (map cellKey (cells t))"
    unfolding after(2) [symmetric] cellMap_def by (force simp: dom_map_of_conv_image_fst)
  ultimately have "card (dom (lastWrite ops)) = length (cells t)"
    by (metis distinct_card length_map)
  then show ?thesis
    unfolding t_def [symmetric] using after(1)
    by (simp add: getCellCount_def getMemoryUsage_def scanWithErasures_def table_inv_def)
qed

theorem memory_table_accounting_witness:
  "getCellCount (fold (applyOp 100) [OpSet ''r'' ''c'' 1 ''v'', OpErase ''r'' ''c'' 1] (MemoryTable0 True)) = 1"
proof -
  have ok: "list_all (\<lambda>op. cellOk (opCell op)) [OpSet ''r'' ''c'' 1 ''v'', OpErase ''r'' ''c'' 1]"
    by (simp add: cellOk_def)
  have "dom (lastWrite [OpSet ''r'' ''c'' 1 ''v'', OpErase ''r'' ''c'' 1]) = {(''r'', ''c'', - 1)}"
    by (auto simp: lastWrite_def cellKey_def)
  then show ?thesis
    using memory_table_accounting [OF ok, of 100 True] by simp
qed

end
