(* ===== verification/OrdMap.thy ===== *)
theory OrdMap
  imports Prelude
begin

section \<open>Ordered maps\<close>

text \<open>
  The standard \<open>map\<close>: the list of its entries in the order of the keys. Iterating over a map
  is going through the list. Sets of pointers are finite sets, iterated over in the order of
  the addresses with \<open>sorted_list_of_set\<close>.
\<close>

type_synonym ('k, 'v) omap = "('k \<times> 'v) list"

fun mapPut :: "'k::linorder \<Rightarrow> 'v \<Rightarrow> ('k, 'v) omap \<Rightarrow> ('k, 'v) omap" where
  "mapPut k v [] = [(k, v)]"
| "mapPut k v ((k', v') # m) =
     (if k < k' then (k, v) # (k', v') # m
      else if k = k' then (k, v) # m
      else (k', v') # mapPut k v m)"

definition mapErase :: "'k \<Rightarrow> ('k \<times> 'v) list \<Rightarrow> ('k \<times> 'v) list" where
  "mapErase k m = filter (\<lambda>e. fst e \<noteq> k) m"

definition mapFind :: "'k \<Rightarrow> ('k \<times> 'v) list \<Rightarrow> 'v option" where
  "mapFind k m = map_of m k"

text \<open>\<open>operator[]\<close> puts the default value \<open>d\<close> at a key that is not in the map.\<close>

definition mapAt :: "'v \<Rightarrow> 'k \<Rightarrow> ('k \<times> 'v) list \<Rightarrow> 'v" where
  "mapAt d k m = (case mapFind k m of None \<Rightarrow> d | Some v \<Rightarrow> v)"

definition omap_wf :: "('k::linorder \<times> 'v) list \<Rightarrow> bool" where
  [wf_simps]: "omap_wf m \<longleftrightarrow> sorted_wrt (<) (map fst m)"

lemma find_Nil [simp]: "mapFind k [] = None"
  by (simp add: mapFind_def)

lemma find_put [simp]: "mapFind k' (mapPut k v m) = (if k' = k then Some v else mapFind k' m)"
  by (induction k v m rule: mapPut.induct) (auto simp: mapFind_def)

lemma find_erase [simp]: "mapFind k' (mapErase k m) = (if k' = k then None else mapFind k' m)"
  by (induction m) (auto simp: mapErase_def mapFind_def)

lemma at_put [simp]: "mapAt d k' (mapPut k v m) = (if k' = k then v else mapAt d k' m)"
  by (simp add: mapAt_def)

lemma at_erase [simp]: "mapAt d k' (mapErase k m) = (if k' = k then d else mapAt d k' m)"
  by (simp add: mapAt_def)

lemma keys_put: "set (map fst (mapPut k v m)) = insert k (set (map fst m))"
  by (induction k v m rule: mapPut.induct) auto

lemma put_wf [simp]: "omap_wf m \<Longrightarrow> omap_wf (mapPut k v m)"
proof (induction k v m rule: mapPut.induct)
  case (2 k v k' v' m)
  then show ?case
    using keys_put [of k v m] by (auto simp: omap_wf_def)
qed (simp add: omap_wf_def)

lemma erase_wf [simp]: "omap_wf m \<Longrightarrow> omap_wf (mapErase k m)"
  by (induction m) (auto simp: omap_wf_def mapErase_def)

lemma find_mem: "omap_wf m \<Longrightarrow> mapFind k m = Some v \<longleftrightarrow> (k, v) \<in> set m"
  by (simp add: mapFind_def omap_wf_def strict_sorted_iff map_of_eq_Some_iff)

lemma find_None: "mapFind k m = None \<longleftrightarrow> k \<notin> set (map fst m)"
  by (auto simp: mapFind_def map_of_eq_None_iff)

end
