(* ===== verification/FileTracker.thy ===== *)
theory FileTracker
  imports OrdMap
begin

section \<open>Reference counts of files (src/cc/kdi/tablet/FileTracker.cc)\<close>

text \<open>
  The tracker counts the references to files that are deleted automatically. The state is the
  map of counts and, as the effect on the file system, the list of the files removed so far;
  a file system error is not modelled.
\<close>

record FileTracker =
  files :: "(string, 64 word) omap"
  fsRemoved :: "string list"

definition FileTracker0 :: FileTracker where
  "FileTracker0 = \<lparr>files = [], fsRemoved = []\<rparr>"

text \<open>\<open>track\<close> raises after \<open>operator[]\<close> has found the count.\<close>

definition track :: "string \<Rightarrow> FileTracker \<Rightarrow> FileTracker result" where
  "track filename t =
     (if mapAt 0 filename (files t) \<noteq> 0
      then Inl (RuntimeError (''already tracking: '' @ filename))
      else Inr (t\<lparr>files := mapPut filename 1 (files t)\<rparr>))"

definition untrack :: "string \<Rightarrow> FileTracker \<Rightarrow> FileTracker" where
  "untrack filename t = t\<lparr>files := mapErase filename (files t)\<rparr>"

definition addReference :: "string \<Rightarrow> FileTracker \<Rightarrow> FileTracker" where
  "addReference filename t =
     (case mapFind filename (files t) of
        None \<Rightarrow> t
      | Some n \<Rightarrow> t\<lparr>files := mapPut filename (n + 1) (files t)\<rparr>)"

definition release :: "string \<Rightarrow> FileTracker \<Rightarrow> FileTracker" where
  "release filename t =
     (case mapFind filename (files t) of
        None \<Rightarrow> t
      | Some n \<Rightarrow>
          (if n - 1 \<noteq> 0 then t\<lparr>files := mapPut filename (n - 1) (files t)\<rparr>
           else t\<lparr>fsRemoved := fsRemoved t @ [filename], files := mapErase filename (files t)\<rparr>))"

subsection \<open>Histories of references\<close>

datatype RefOp = AddRef string | Release string

primrec applyRef :: "RefOp \<Rightarrow> FileTracker \<Rightarrow> FileTracker" where
  "applyRef (AddRef f) t = addReference f t"
| "applyRef (Release f) t = release f t"

text \<open>The references to \<open>f\<close> after a history that starts with \<open>n\<close> of them, until none is left.\<close>

fun references :: "string \<Rightarrow> nat \<Rightarrow> RefOp list \<Rightarrow> nat" where
  "references f n [] = n"
| "references f n (AddRef g # ops) = references f (if f = g \<and> 0 < n then n + 1 else n) ops"
| "references f n (Release g # ops) = references f (if f = g then n - 1 else n) ops"

definition counted :: "string \<Rightarrow> nat \<Rightarrow> FileTracker \<Rightarrow> bool" where
  "counted f n t \<longleftrightarrow>
     mapFind f (files t) = (if n = 0 then None else Some (of_nat n)) \<and>
     count_list (fsRemoved t) f = (if n = 0 then 1 else 0)"

lemma of_nat_pred: "0 < n \<Longrightarrow> of_nat (n - 1) = (of_nat n - 1 :: 64 word)"
  by (cases n) simp_all

lemma pred_zero:
  assumes "0 < n" "n < 2 ^ 64"
  shows "of_nat n - 1 = (0 :: 64 word) \<longleftrightarrow> n = 1"
proof -
  have "of_nat n - 1 = (0 :: 64 word) \<longleftrightarrow> of_nat n = (of_nat 1 :: 64 word)" by simp
  also have "\<dots> \<longleftrightarrow> n = 1"
    unfolding word_of_nat_eq_iff using assms by (simp add: take_bit_eq_mod)
  finally show ?thesis .
qed

lemma applyRef_counted:
  assumes "counted f n t" "n + 1 < 2 ^ 64"
  shows "counted f (references f n [op]) (applyRef op t)"
proof (cases op)
  case (AddRef g)
  show ?thesis
  proof (cases "f = g")
    case True
    with assms show ?thesis
      by (auto simp: AddRef counted_def addReference_def)
  next
    case False
    with assms(1) show ?thesis
      by (auto simp: AddRef counted_def addReference_def split: option.split)
  qed
next
  case (Release g)
  show ?thesis
  proof (cases "f = g \<and> 0 < n")
    case True
    then have f: "mapFind f (files t) = Some (of_nat n)" "count_list (fsRemoved t) f = 0"
      using assms(1) by (simp_all add: counted_def)
    have z: "of_nat n - 1 = (0 :: 64 word) \<longleftrightarrow> n = 1"
      using True assms(2) by (intro pred_zero) simp_all
    show ?thesis
      using True f z of_nat_pred [of n]
      by (cases "n = 1") (auto simp: Release counted_def release_def)
  next
    case False
    with assms(1) show ?thesis
      by (auto simp: Release counted_def release_def split: option.split)
  qed
qed

lemma references_Cons: "references f n (op # ops) = references f (references f n [op]) ops"
  by (cases op) simp_all

lemma references_bound: "references f n [op] \<le> n + 1"
  by (cases op) auto

lemma history_counted:
  assumes "counted f n t" "n + length ops < 2 ^ 64"
  shows "counted f (references f n ops) (fold applyRef ops t)"
  using assms
proof (induction ops arbitrary: n t)
  case (Cons op ops)
  have "counted f (references f n [op]) (applyRef op t)"
    using Cons.prems by (intro applyRef_counted) simp_all
  moreover have "references f n [op] + length ops < 2 ^ 64"
    using Cons.prems(2) references_bound [of f n op] by simp
  ultimately show ?case
    using Cons.IH references_Cons [of f n op ops] by (simp del: references.simps)
qed simp

subsection \<open>Properties\<close>

text \<open>
  C25. A file that is tracked is removed exactly when the last reference to it is released,
  whatever is done in between with it and with other files, and it is removed once: as long as
  references are left the file exists and its count is their number.
\<close>
theorem file_removed_with_last_reference:
  assumes "track f t = Inr t0" "f \<notin> set (fsRemoved t)" "length ops < 2 ^ 63"
  shows "count_list (fsRemoved (fold applyRef ops t0)) f = (if references f 1 ops = 0 then 1 else 0) \<and>
    mapFind f (files (fold applyRef ops t0)) =
      (if references f 1 ops = 0 then None else Some (of_nat (references f 1 ops)))"
proof -
  have "counted f 1 t0"
    using assms(1,2) by (auto simp: track_def counted_def split: if_splits)
  moreover have "1 + length ops < 2 ^ 64"
    using assms(3) by simp
  ultimately have "counted f (references f 1 ops) (fold applyRef ops t0)"
    by (rule history_counted)
  then show ?thesis by (simp add: counted_def)
qed

theorem file_removed_with_last_reference_witness:
  "fsRemoved (fold applyRef [AddRef ''a'', Release ''b'', Release ''a'', Release ''a'', Release ''a'']
     \<lparr>files = [(''a'', 1)], fsRemoved = []\<rparr>) = [''a'']"
proof -
  let ?ops = "[AddRef ''a'', Release ''b'', Release ''a'', Release ''a'', Release ''a'']"
  let ?t0 = "\<lparr>files = [(''a'', 1)], fsRemoved = []\<rparr> :: FileTracker"
  have "track ''a'' FileTracker0 = Inr ?t0"
    by (simp add: track_def FileTracker0_def mapAt_def)
  from file_removed_with_last_reference [OF this, of ?ops]
  have "count_list (fsRemoved (fold applyRef ?ops ?t0)) ''a'' = 1"
    by (simp add: FileTracker0_def)
  moreover have "set (fsRemoved (fold applyRef ?ops ?t0)) \<subseteq> {''a''} \<and> length (fsRemoved (fold applyRef ?ops ?t0)) = 1"
    by code_simp
  ultimately show ?thesis
    by (cases "fsRemoved (fold applyRef ?ops ?t0)") auto
qed

end
