(* ===== verification/Tablet.thy ===== *)
theory Tablet
  imports MemoryTable FileTracker
begin

section \<open>Tablets (src/cc/kdi/tablet/Tablet.cc, Scanner.cc, Fragment.cc)\<close>

text \<open>
  A tablet serves a range of rows from a chain of fragments, oldest first. A fragment pointer is
  its address; the virtual methods of \<open>Fragment\<close> are the argument \<open>env\<close>. The operations pass
  the tablet and the world it acts on: the file tracker, and the configurations handed to the
  configuration manager. What other threads do while the code has given up the tablet's lock is
  an explicit list of state changes, one for each time that the lock is given up.
\<close>

subsection \<open>Fragments\<close>

record Fragments =
  isImmutable :: "nat \<Rightarrow> bool"
  getFragmentUri :: "nat \<Rightarrow> string"
  getDiskUri :: "nat \<Rightarrow> string"
  getDiskSize :: "nat \<Rightarrow> string Interval \<Rightarrow> 64 word"
  fragmentScan :: "nat \<Rightarrow> ScanPredicate \<Rightarrow> Cell list result"
  scanIndex :: "nat \<Rightarrow> string Interval \<Rightarrow> (string \<times> 64 word) list"

text \<open>The default sizes of an interval set and of the whole fragment.\<close>

fun sizeOfPoints ::
  "Fragments \<Rightarrow> nat \<Rightarrow> string IntervalPoint list \<Rightarrow> 64 word \<Rightarrow> 64 word result" where
  "sizeOfPoints env f [] sz = Inr sz"
| "sizeOfPoints env f [lo] sz = Inl (Undefined ''end of the interval set read'')"
| "sizeOfPoints env f (lo # hi # ps) sz =
     bind_res (Interval2 lo hi) (\<lambda>i. sizeOfPoints env f ps (sz + getDiskSize env f i))"

definition getDiskSizeSet :: "Fragments \<Rightarrow> nat \<Rightarrow> string IntervalSet \<Rightarrow> 64 word result" where
  "getDiskSizeSet env f s = sizeOfPoints env f (points s) 0"

definition getDiskSizeAll :: "Fragments \<Rightarrow> nat \<Rightarrow> 64 word result" where
  "getDiskSizeAll env f = bind_res (makeUnboundedInterval []) (\<lambda>i. Inr (getDiskSize env f i))"

subsection \<open>State\<close>

record TabletConfig =
  tabletRows :: "string Interval"
  tableUris :: "string list"

record World =
  tracker :: FileTracker
  configs :: "(string \<times> TabletConfig) list"

record Tablet =
  tableName :: string
  prettyName :: string
  minRow :: "string IntervalPoint"
  maxRow :: "string IntervalPoint"
  fragments :: "nat list"
  deadFiles :: "string list"
  mutationsPending :: bool
  configChanged :: bool
  splitPending :: bool
  clonedLogs :: "(nat, nat) omap"
  duplicatedLogs :: "nat set"
  hasSuperTablet :: bool

type_synonym tstate = "Tablet \<times> World"

definition makePrettyName :: "string \<Rightarrow> string IntervalPoint \<Rightarrow> string" where
  "makePrettyName tbl lastRow =
     tbl @ ''('' @ (if pointIsFinite lastRow then reprString (pvalue lastRow) True else ''END'') @ '')''"

definition getRows :: "Tablet \<Rightarrow> string Interval result" where
  "getRows t = bind_res (setUpperBoundPoint (maxRow t) (Interval0 [])) (setLowerBoundPoint (minRow t))"

definition updateTracker :: "(FileTracker \<Rightarrow> FileTracker) \<Rightarrow> World \<Rightarrow> World" where
  "updateTracker f w = w\<lparr>tracker := f (tracker w)\<rparr>"

definition trackAll :: "(string \<Rightarrow> FileTracker \<Rightarrow> FileTracker) \<Rightarrow> string list \<Rightarrow> World \<Rightarrow> World" where
  "trackAll op uris w = updateTracker (fold op uris) w"

subsection \<open>Validation and mutations\<close>

definition validateRow :: "string \<Rightarrow> Tablet \<Rightarrow> unit result" where
  "validateRow row t =
     bind_res (getRows t) (\<lambda>r.
       if \<not> intervalContains (<) r row then Inl (RowNotInTabletError row) else Inr ())"

definition validateRows :: "ScanPredicate \<Rightarrow> Tablet \<Rightarrow> unit result" where
  "validateRows pred t =
     bind_res (getRows t) (\<lambda>r.
       case rows pred of
         Some s \<Rightarrow>
           bind_res (getHull [] s) (\<lambda>hull.
             if \<not> intervalContainsInterval (<) r hull
             then Inl (RowNotInTabletError (showIntervalSet (\<lambda>x. x) s)) else Inr ())
       | None \<Rightarrow>
           if \<not> intervalIsInfinite r then Inl (RowNotInTabletError ''<< >>'') else Inr ())"

text \<open>\<open>set\<close> and \<open>erase\<close> hand a cell to the shared logger and return.\<close>

definition tabletSet :: "string \<Rightarrow> string \<Rightarrow> int \<Rightarrow> string \<Rightarrow> Tablet \<Rightarrow> (Tablet \<times> Cell) result" where
  "tabletSet row column timestamp val t =
     bind_res (validateRow row t) (\<lambda>_.
       Inr (t\<lparr>mutationsPending := True\<rparr>, makeCell row column timestamp val))"

definition tabletErase :: "string \<Rightarrow> string \<Rightarrow> int \<Rightarrow> Tablet \<Rightarrow> (Tablet \<times> Cell) result" where
  "tabletErase row column timestamp t =
     bind_res (validateRow row t) (\<lambda>_.
       Inr (t\<lparr>mutationsPending := True\<rparr>, makeCellErasure row column timestamp))"

subsection \<open>The configuration\<close>

definition postConfigChange :: "Tablet \<Rightarrow> Tablet" where
  "postConfigChange t = t\<lparr>configChanged := True\<rparr>"

definition getFragmentUris :: "Fragments \<Rightarrow> Tablet \<Rightarrow> string list" where
  "getFragmentUris env t = map (getFragmentUri env) (fragments t)"

text \<open>One round of the loop, up to where the lock is given up.\<close>

definition saveRound :: "Fragments \<Rightarrow> tstate \<Rightarrow> tstate result" where
  "saveRound env s =
     (let t = (fst s)\<lparr>configChanged := False\<rparr>
      in bind_res (Interval2 (minRow t) (maxRow t)) (\<lambda>r.
           Inr (t, (snd s)\<lparr>configs := configs (snd s) @
             [(tableName t, \<lparr>tabletRows = r, tableUris = getFragmentUris env t\<rparr>)]\<rparr>)))"

fun saveLoop :: "Fragments \<Rightarrow> (tstate \<Rightarrow> tstate) list \<Rightarrow> tstate \<Rightarrow> tstate result" where
  "saveLoop env [] s = saveRound env s"
| "saveLoop env (f # fs) s =
     bind_res (saveRound env s) (\<lambda>s1.
       let s2 = f s1 in if configChanged (fst s2) then saveLoop env fs s2 else Inr s2)"

definition saveConfig :: "Fragments \<Rightarrow> (tstate \<Rightarrow> tstate) list \<Rightarrow> tstate \<Rightarrow> tstate result" where
  "saveConfig env fs s =
     (if \<not> configChanged (fst s) then Inr s
      else bind_res (saveLoop env fs s) (\<lambda>(t, w).
             Inr (t\<lparr>deadFiles := []\<rparr>, trackAll release (deadFiles t) w)))"

text \<open>The loop of \<open>sync\<close>; each element is what happens during a sync of the logger.\<close>

fun syncLoop :: "(tstate \<Rightarrow> tstate) list \<Rightarrow> tstate \<Rightarrow> tstate" where
  "syncLoop [] (t, w) = (t\<lparr>mutationsPending := False\<rparr>, w)"
| "syncLoop (f # fs) (t, w) =
     (if mutationsPending t then syncLoop fs (f (t\<lparr>mutationsPending := False\<rparr>, w)) else (t, w))"

definition tabletSync ::
  "Fragments \<Rightarrow> (tstate \<Rightarrow> tstate) list \<Rightarrow> (tstate \<Rightarrow> tstate) list \<Rightarrow> tstate \<Rightarrow> tstate result" where
  "tabletSync env flushes fs s = saveConfig env fs (syncLoop flushes s)"

subsection \<open>The fragment chain\<close>

text \<open>\<open>addFragment\<close> looks for the fragment among the mutable ones at the end of the chain.\<close>

fun isDuplicateLog :: "Fragments \<Rightarrow> nat \<Rightarrow> nat list \<Rightarrow> bool" where
  "isDuplicateLog env f [] = False"
| "isDuplicateLog env f (g # gs) =
     (if isImmutable env g then False else if g = f then True else isDuplicateLog env f gs)"

definition addFragment :: "Fragments \<Rightarrow> nat \<Rightarrow> tstate \<Rightarrow> tstate" where
  "addFragment env f = (\<lambda>(t, w).
     if isDuplicateLog env f (rev (fragments t))
     then (t\<lparr>duplicatedLogs := insert f (duplicatedLogs t)\<rparr>, w)
     else (postConfigChange (t\<lparr>fragments := fragments t @ [f]\<rparr>),
           updateTracker (addReference (getDiskUri env f)) w))"

definition notInChain :: "Fragments \<Rightarrow> nat \<Rightarrow> Tablet \<Rightarrow> kdi_error" where
  "notInChain env f t =
     ValueError (''fragment not in tablet chain: tablet='' @ prettyName t @ '', fragment='' @ getFragmentUri env f)"

definition chainFind :: "nat \<Rightarrow> nat list \<Rightarrow> nat" where
  "chainFind f fs = length (takeWhile (\<lambda>g. g \<noteq> f) fs)"

definition getFragmentParent :: "Fragments \<Rightarrow> nat \<Rightarrow> Tablet \<Rightarrow> nat option result" where
  "getFragmentParent env f t =
     (let i = chainFind f (fragments t)
      in if i = length (fragments t) then Inl (notInChain env f t)
         else if i = 0 then Inr None
         else Inr (Some (fragments t ! (i - 1))))"

definition getFragmentChild :: "Fragments \<Rightarrow> nat \<Rightarrow> Tablet \<Rightarrow> nat option result" where
  "getFragmentChild env f t =
     (let i = chainFind f (fragments t)
      in if i = length (fragments t) then Inl (notInChain env f t)
         else if i + 1 = length (fragments t) then Inr None
         else Inr (Some (fragments t ! (i + 1))))"

text \<open>\<open>getMaxAdjacentChain\<close>: the iterators are positions; \<open>mx\<close> is the longest run so far.\<close>

definition runStart :: "nat set \<Rightarrow> nat list \<Rightarrow> nat \<Rightarrow> nat" where
  "runStart S fs start = start + length (takeWhile (\<lambda>f. f \<notin> S) (drop start fs))"

definition runEnd :: "nat set \<Rightarrow> nat list \<Rightarrow> nat \<Rightarrow> nat" where
  "runEnd S fs start = start + 1 + length (takeWhile (\<lambda>f. f \<in> S) (drop (start + 1) fs))"

function maxAdjacentLoop :: "nat set \<Rightarrow> nat list \<Rightarrow> nat \<Rightarrow> nat \<times> nat \<Rightarrow> nat \<times> nat" where
  "maxAdjacentLoop S fs start mx =
     (let s = runStart S fs start
      in if length fs \<le> s then mx
         else let e = runEnd S fs s
              in maxAdjacentLoop S fs e (if snd mx - fst mx < e - s then (s, e) else mx))"
  by pat_completeness auto
termination
  by (relation "measure (\<lambda>(S, fs, start, mx). length fs - start)")
    (auto simp: runStart_def runEnd_def)

definition getMaxAdjacentChain :: "nat set \<Rightarrow> Tablet \<Rightarrow> nat list" where
  "getMaxAdjacentChain withinSet t =
     (let (s, e) = maxAdjacentLoop withinSet (fragments t) 0 (0, 0)
      in take (e - s) (drop s (fragments t)))"

text \<open>\<open>std::search\<close>, which returns the end of the list when there is no match.\<close>

fun stdSearch :: "'a list \<Rightarrow> 'a list \<Rightarrow> nat" where
  "stdSearch [] ys = 0"
| "stdSearch (x # xs) ys = (if take (length ys) (x # xs) = ys then 0 else Suc (stdSearch xs ys))"

definition replaceFragmentsInternal ::
  "Fragments \<Rightarrow> nat list \<Rightarrow> nat option \<Rightarrow> tstate \<Rightarrow> tstate result" where
  "replaceFragmentsInternal env oldFragments newFragment = (\<lambda>(t, w).
     let i = stdSearch (fragments t) oldFragments; e = i + length oldFragments
     in if i \<noteq> length (fragments t) then
          let (fs, w') =
            (case newFragment of
               Some f \<Rightarrow> (vec_erase (i + 1) e ((fragments t)[i := f]),
                          updateTracker (addReference (getDiskUri env f)) w)
             | None \<Rightarrow> (vec_erase i e (fragments t), w))
          in Inr (postConfigChange (t\<lparr>fragments := fs,
                    deadFiles := deadFiles t @ map (getDiskUri env) oldFragments\<rparr>), w')
        else Inl (RuntimeError ''replaceFragments with unknown fragment sequence''))"

definition removeFragments :: "Fragments \<Rightarrow> nat list \<Rightarrow> tstate \<Rightarrow> tstate result" where
  "removeFragments env oldFragments s = replaceFragmentsInternal env oldFragments None s"

subsection \<open>Sizes and splitting\<close>

definition tabletDiskSize :: "Fragments \<Rightarrow> Tablet \<Rightarrow> 64 word result" where
  "tabletDiskSize env t =
     bind_res (Interval2 (minRow t) (maxRow t)) (\<lambda>r.
       Inr (foldl (\<lambda>sum f. sum + getDiskSize env f r) 0 (fragments t)))"

fun splitLoop :: "64 word \<Rightarrow> 64 word \<Rightarrow> string \<times> 64 word \<Rightarrow> (string \<times> 64 word) list \<Rightarrow> string \<times> 64 word" where
  "splitLoop middle cumulativeSize x [] = x"
| "splitLoop middle cumulativeSize x (y # ys) =
     (if cumulativeSize < middle then splitLoop middle (cumulativeSize + snd y) y ys else x)"

definition chooseSplitRow :: "Fragments \<Rightarrow> Tablet \<Rightarrow> string result" where
  "chooseSplitRow env t =
     bind_res (Interval2 (minRow t) (maxRow t)) (\<lambda>r.
       bind_res (tabletDiskSize env t) (\<lambda>totalSize.
         let z = ([], 0);
             merge = mergeStreams z (<) False (map (\<lambda>f. scanIndex env f r) (fragments t))
         in Inr (fst (splitLoop (totalSize div 2) 0 z merge))))"

text \<open>The constructor for splitting.\<close>

definition cloneTablet :: "Fragments \<Rightarrow> string Interval \<Rightarrow> tstate \<Rightarrow> tstate" where
  "cloneTablet env r = (\<lambda>(t, w).
     (\<lparr>tableName = tableName t,
       prettyName = makePrettyName (tableName t) (upperBound r),
       minRow = lowerBound r, maxRow = upperBound r,
       fragments = fragments t, deadFiles = [],
       mutationsPending = False, configChanged = False, splitPending = False,
       clonedLogs = clonedLogs t, duplicatedLogs = {}, hasSuperTablet = hasSuperTablet t\<rparr>,
      trackAll addReference (map (getDiskUri env) (fragments t)) w))"

fun cloneLogs :: "Fragments \<Rightarrow> nat \<Rightarrow> nat list \<Rightarrow> (nat, nat) omap \<Rightarrow> (nat, nat) omap" where
  "cloneLogs env lowId [] m = m"
| "cloneLogs env lowId (g # gs) m =
     (if isImmutable env g then m else cloneLogs env lowId gs (mapPut g lowId m))"

text \<open>\<open>splitTablet\<close> after its call of \<open>sync\<close>; \<open>lowId\<close> is the address of the new tablet.\<close>

definition splitSynced :: "Fragments \<Rightarrow> nat \<Rightarrow> tstate \<Rightarrow> (tstate \<times> Tablet option) result" where
  "splitSynced env lowId = (\<lambda>(t, w).
     bind_res (chooseSplitRow env t) (\<lambda>splitRow.
       bind_res (Interval2 (minRow t) (maxRow t)) (\<lambda>r.
         let low = setUpperBound splitRow BT_INCLUSIVE r;
             high = setLowerBound splitRow BT_EXCLUSIVE r
         in if intervalIsEmpty (<) low \<or> intervalIsEmpty (<) high then Inr ((t, w), None)
            else
              let (lowTablet, w1) = cloneTablet env low (t, w);
                  t1 = postConfigChange (t\<lparr>minRow := lowerBound high\<rparr>);
                  lowTablet1 = postConfigChange lowTablet;
                  t2 = t1\<lparr>clonedLogs := cloneLogs env lowId (rev (fragments t1)) (clonedLogs t1),
                         splitPending := False\<rparr>
              in Inr ((t2, w1), Some lowTablet1))))"

definition splitTablet ::
  "Fragments \<Rightarrow> (tstate \<Rightarrow> tstate) list \<Rightarrow> (tstate \<Rightarrow> tstate) list \<Rightarrow> nat \<Rightarrow> tstate \<Rightarrow>
     (tstate \<times> Tablet option) result" where
  "splitTablet env flushes fs lowId s = bind_res (tabletSync env flushes fs s) (splitSynced env lowId)"

subsection \<open>Loading and unloading\<close>

fun loadFragments ::
  "Fragments \<Rightarrow> (string \<Rightarrow> nat result) \<Rightarrow> string list \<Rightarrow> tstate \<times> bool \<Rightarrow> (tstate \<times> bool) result" where
  "loadFragments env loader [] s = Inr s"
| "loadFragments env loader (uri # uris) ((t, w), uriChanged) =
     bind_res (loader uri) (\<lambda>frag.
       loadFragments env loader uris
         ((t\<lparr>fragments := fragments t @ [frag]\<rparr>, updateTracker (addReference (getDiskUri env frag)) w),
          uriChanged \<or> getFragmentUri env frag \<noteq> uri))"

definition makeTablet ::
  "Fragments \<Rightarrow> (string \<Rightarrow> nat result) \<Rightarrow> (tstate \<Rightarrow> tstate) list \<Rightarrow> string \<Rightarrow> TabletConfig \<Rightarrow> bool \<Rightarrow>
     World \<Rightarrow> tstate result" where
  "makeTablet env loader fs name cfg super w =
     (let r = tabletRows cfg;
          t = \<lparr>tableName = name, prettyName = makePrettyName name (upperBound r),
               minRow = lowerBound r, maxRow = upperBound r, fragments = [], deadFiles = [],
               mutationsPending = False, configChanged = False, splitPending = False,
               clonedLogs = [], duplicatedLogs = {}, hasSuperTablet = super\<rparr>
      in bind_res (loadFragments env loader (tableUris cfg) ((t, w), False)) (\<lambda>((t1, w1), uriChanged).
           if uriChanged then saveConfig env fs (t1\<lparr>configChanged := True\<rparr>, w1) else Inr (t1, w1)))"

definition destroyTablet :: "Fragments \<Rightarrow> tstate \<Rightarrow> World" where
  "destroyTablet env = (\<lambda>(t, w). trackAll untrack (map (getDiskUri env) (fragments t)) w)"

subsection \<open>Reading\<close>

definition getMergedScan :: "Fragments \<Rightarrow> ScanPredicate \<Rightarrow> Tablet \<Rightarrow> Cell list result" where
  "getMergedScan env pred t =
     bind_res (validateRows pred t) (\<lambda>_.
       if maxHistory pred \<noteq> 0 then Inl (ValueError ''unsupported history predicate'')
       else if length (fragments t) = 1 then
         (if isImmutable env (hd (fragments t)) then fragmentScan env (hd (fragments t)) pred
          else bind_res (fragmentScan env (hd (fragments t)) pred) (\<lambda>cs. Inr (erasureFilter cs)))
       else bind_res (map_res (\<lambda>f. fragmentScan env f pred) (rev (fragments t))) (\<lambda>ss.
              Inr (cellMerge (makeCell [] [] 0 []) True ss)))"

text \<open>A scanner reopens its merged scan after the tablet's chain or range has changed.\<close>

record Scanner =
  sc_pred :: ScanPredicate
  sc_lastCell :: "Cell option"
  sc_cells :: "Cell list option"

definition makeScanner :: "ScanPredicate \<Rightarrow> Scanner result" where
  "makeScanner pred =
     (if maxHistory pred \<noteq> 0 then Inl (ValueError ''unsupported history predicate'')
      else Inr \<lparr>sc_pred = pred, sc_lastCell = None, sc_cells = None\<rparr>)"

definition scannerReopen :: "Scanner \<Rightarrow> Scanner" where
  "scannerReopen sc = sc\<lparr>sc_cells := None\<rparr>"

text \<open>The fast-forward loop and the normal step.\<close>

fun fastForward :: "Cell \<Rightarrow> Cell list \<Rightarrow> (Cell \<times> Cell list) option" where
  "fastForward lastCell [] = None"
| "fastForward lastCell (x # xs) = (if cellLt lastCell x then Some (x, xs) else fastForward lastCell xs)"

definition scannerNext :: "Scanner \<Rightarrow> Cell list \<Rightarrow> Scanner \<times> Cell option" where
  "scannerNext sc cs =
     (case cs of
        [] \<Rightarrow> (sc\<lparr>sc_cells := Some []\<rparr>, None)
      | x # xs \<Rightarrow> (sc\<lparr>sc_cells := Some xs, sc_lastCell := Some x\<rparr>, Some x))"

definition scannerGet :: "Fragments \<Rightarrow> Tablet \<Rightarrow> Scanner \<Rightarrow> (Scanner \<times> Cell option) result" where
  "scannerGet env t sc =
     (case sc_cells sc of
        Some cs \<Rightarrow> Inr (scannerNext sc cs)
      | None \<Rightarrow>
          (case sc_lastCell sc of
             Some lastCell \<Rightarrow>
               bind_res (getRows t) (\<lambda>r.
                 if \<not> intervalContains (<) r (getRow lastCell) then Inr (sc, None)
                 else bind_res (makeLowerBound [] (getRow lastCell) True) (\<lambda>span.
                   bind_res (getMergedScan env (clipRows span (sc_pred sc)) t) (\<lambda>cs.
                     case fastForward lastCell cs of
                       None \<Rightarrow> Inr (sc\<lparr>sc_cells := Some []\<rparr>, None)
                     | Some (x, xs) \<Rightarrow> Inr (sc\<lparr>sc_cells := Some xs, sc_lastCell := Some x\<rparr>, Some x))))
           | None \<Rightarrow>
               bind_res (getMergedScan env (sc_pred sc) t) (\<lambda>cs. Inr (scannerNext sc cs))))"

text \<open>\<open>scan\<close>: the scanner over the predicate without its history, which is filtered last.
  The result is the scanner and the history to filter with.\<close>

definition tabletScanner :: "ScanPredicate \<Rightarrow> Tablet \<Rightarrow> (Scanner \<times> int) result" where
  "tabletScanner pred t =
     bind_res (validateRows pred t) (\<lambda>_.
       bind_res (makeScanner (setMaxHistory 0 pred)) (\<lambda>sc. Inr (sc, maxHistory pred)))"

subsection \<open>Runs of a chain\<close>

declare maxAdjacentLoop.simps [simp del]

text \<open>The positions from \<open>i\<close> to \<open>j\<close> hold fragments of \<open>S\<close> only.\<close>

definition runIn :: "nat set \<Rightarrow> nat list \<Rightarrow> nat \<Rightarrow> nat \<Rightarrow> bool" where
  "runIn S fs i j \<longleftrightarrow> i \<le> j \<and> j \<le> length fs \<and> (\<forall>k. i \<le> k \<and> k < j \<longrightarrow> fs ! k \<in> S)"

lemma takeWhile_drop:
  fixes a b :: nat and fs :: "'a list" and P :: "'a \<Rightarrow> bool"
  defines "b \<equiv> a + length (takeWhile P (drop a fs))"
  shows "\<And>k. a \<le> k \<Longrightarrow> k < b \<Longrightarrow> P (fs ! k)"
    and "b < length fs \<Longrightarrow> \<not> P (fs ! b)"
    and "a \<le> length fs \<Longrightarrow> b \<le> length fs"
proof -
  have le: "length (takeWhile P (drop a fs)) \<le> length fs - a"
    using length_takeWhile_le [of P "drop a fs"] by simp
  show "P (fs ! k)" if "a \<le> k" "k < b" for k
  proof -
    have "k - a < length (takeWhile P (drop a fs))" using that by (simp add: b_def)
    then have "takeWhile P (drop a fs) ! (k - a) \<in> set (takeWhile P (drop a fs))" by simp
    then have "P (takeWhile P (drop a fs) ! (k - a))" by (rule set_takeWhileD [THEN conjunct2])
    moreover have "takeWhile P (drop a fs) ! (k - a) = drop a fs ! (k - a)"
      using that by (intro takeWhile_nth) (simp add: b_def)
    moreover have "a \<le> length fs" using that le by (simp add: b_def)
    ultimately show ?thesis using that by simp
  qed
  show "\<not> P (fs ! b)" if "b < length fs"
  proof -
    have "length (takeWhile P (drop a fs)) < length (drop a fs)" using that by (simp add: b_def)
    then have "\<not> P (drop a fs ! length (takeWhile P (drop a fs)))" by (rule nth_length_takeWhile)
    then show ?thesis using that by (simp add: b_def)
  qed
  show "b \<le> length fs" if "a \<le> length fs"
    using that le by (simp add: b_def)
qed

text \<open>What the loop has found before \<open>start\<close>: the longest run, and a chain that no run crosses.\<close>

definition longestBefore :: "nat set \<Rightarrow> nat list \<Rightarrow> nat \<Rightarrow> nat \<times> nat \<Rightarrow> bool" where
  "longestBefore S fs start mx \<longleftrightarrow>
     (start = 0 \<or> length fs \<le> start \<or> fs ! start \<notin> S) \<and> runIn S fs (fst mx) (snd mx) \<and>
     (\<forall>i j. runIn S fs i j \<and> j \<le> start \<longrightarrow> j - i \<le> snd mx - fst mx)"

lemma longestBefore_step:
  assumes inv: "longestBefore S fs start mx" and s: "s = runStart S fs start" "s < length fs"
    and e: "e = runEnd S fs s"
  shows "longestBefore S fs e (if snd mx - fst mx < e - s then (s, e) else mx)"
proof -
  have gap: "fs ! k \<notin> S" if "start \<le> k" "k < s" for k
    using takeWhile_drop(1) [of start k "\<lambda>f. f \<notin> S" fs] that by (simp add: s(1) runStart_def)
  have at_s: "fs ! s \<in> S"
    using takeWhile_drop(2) [of start "\<lambda>f. f \<notin> S" fs] s by (simp add: runStart_def)
  have sle: "start \<le> s" by (simp add: s(1) runStart_def)
  have ele: "s < e" "e \<le> length fs"
    using takeWhile_drop(3) [of "s + 1" fs "\<lambda>f. f \<in> S"] s(2) by (simp_all add: e runEnd_def)
  have at_e: "length fs \<le> e \<or> fs ! e \<notin> S"
    using takeWhile_drop(2) [of "s + 1" "\<lambda>f. f \<in> S" fs] by (cases "e < length fs") (simp_all add: e runEnd_def)
  have run: "runIn S fs s e"
  proof -
    have "fs ! k \<in> S" if "s \<le> k" "k < e" for k
      using takeWhile_drop(1) [of "s + 1" k "\<lambda>f. f \<in> S" fs] that at_s
      by (cases "k = s") (simp_all add: e runEnd_def)
    then show ?thesis using ele by (simp add: runIn_def)
  qed
  have "j - i \<le> max (snd mx - fst mx) (e - s)" if ij: "runIn S fs i j" "j \<le> e" for i j
  proof (cases "j \<le> start \<or> j \<le> i")
    case True
    then show ?thesis using inv ij unfolding longestBefore_def by (metis diff_is_0_eq' le_max_iff_disj zero_le)
  next
    case False
    then have j: "start \<le> j - 1" "i \<le> j - 1" "j - 1 < j" by linarith+
    then have "fs ! (j - 1) \<in> S" using ij(1) by (simp add: runIn_def)
    then have "s \<le> j - 1" using gap [OF j(1)] by (meson not_le)
    moreover have "s \<le> i"
    proof (rule ccontr)
      assume "\<not> s \<le> i"
      then have i: "i < s" by simp
      show False
      proof (cases "s = start")
        case True
        then show ?thesis using inv at_s s(2) i unfolding longestBefore_def by auto
      next
        case False
        then have "start \<le> s - 1" "s - 1 < s" using sle by simp_all
        then have "fs ! (s - 1) \<notin> S" by (rule gap)
        moreover have "i \<le> s - 1" "s - 1 < j" using i \<open>s \<le> j - 1\<close> j(3) by linarith+
        then have "fs ! (s - 1) \<in> S" using ij(1) by (simp add: runIn_def)
        ultimately show ?thesis by blast
      qed
    qed
    ultimately show ?thesis using ij(2) by simp
  qed
  then show ?thesis
    using run inv at_e unfolding longestBefore_def by (auto simp: max_def)
qed

lemma maxAdjacentLoop_longest:
  "longestBefore S fs start mx \<Longrightarrow>
   (case maxAdjacentLoop S fs start mx of (s, e) \<Rightarrow>
      runIn S fs s e \<and> (\<forall>i j. runIn S fs i j \<longrightarrow> j - i \<le> e - s))"
proof (induction S fs start mx rule: maxAdjacentLoop.induct)
  case (1 S fs start mx)
  let ?s = "runStart S fs start"
  show ?case
  proof (cases "length fs \<le> ?s")
    case True
    have none: "fs ! k \<notin> S" if "start \<le> k" "k < length fs" for k
      using takeWhile_drop(1) [of start k "\<lambda>f. f \<notin> S" fs] that True by (simp add: runStart_def)
    have "j - i \<le> snd mx - fst mx" if ij: "runIn S fs i j" for i j
    proof (cases "j \<le> start \<or> j \<le> i")
      case True
      then show ?thesis using 1(2) ij unfolding longestBefore_def by (metis diff_is_0_eq' zero_le)
    next
      case False
      then have j: "start \<le> j - 1" "i \<le> j - 1" "j - 1 < j" by linarith+
      then have "fs ! (j - 1) \<in> S" using ij by (simp add: runIn_def)
      moreover have "j - 1 < length fs" using j(3) ij unfolding runIn_def by linarith
      moreover note j(1)
      ultimately show ?thesis using none by blast
    qed
    then show ?thesis
      using True 1(2) by (subst maxAdjacentLoop.simps) (auto simp: longestBefore_def Let_def)
  next
    case False
    then have "longestBefore S fs (runEnd S fs ?s)
        (if snd mx - fst mx < runEnd S fs ?s - ?s then (?s, runEnd S fs ?s) else mx)"
      using 1(2) by (intro longestBefore_step) simp_all
    from 1(1) [OF refl False refl this] show ?thesis
      using False by (subst maxAdjacentLoop.simps) (simp add: Let_def)
  qed
qed

lemma runIn_segment:
  assumes "fs = pre @ seg @ post" "set seg \<subseteq> S"
  shows "runIn S fs (length pre) (length pre + length seg)"
proof -
  have "fs ! k \<in> S" if "length pre \<le> k" "k < length pre + length seg" for k
  proof -
    have k: "k - length pre < length seg" using that by linarith
    have "fs ! k = seg ! (k - length pre)"
      using that(1) k unfolding assms(1) nth_append by simp
    moreover have "seg ! (k - length pre) \<in> set seg" using k by (rule nth_mem)
    ultimately show ?thesis using assms(2) by auto
  qed
  then show ?thesis using assms(1) by (simp add: runIn_def)
qed

lemma maxAdjacent_correct:
  fixes S t
  defines "c \<equiv> getMaxAdjacentChain S t"
  shows "\<exists>pre post. fragments t = pre @ c @ post" and "set c \<subseteq> S"
    and "\<And>pre seg post. fragments t = pre @ seg @ post \<Longrightarrow> set seg \<subseteq> S \<Longrightarrow> length seg \<le> length c"
proof -
  let ?fs = "fragments t"
  obtain s e where se: "maxAdjacentLoop S ?fs 0 (0, 0) = (s, e)" by fastforce
  have "longestBefore S ?fs 0 (0, 0)" by (simp add: longestBefore_def runIn_def)
  from maxAdjacentLoop_longest [OF this] have run: "runIn S ?fs s e"
    and longest: "\<And>i j. runIn S ?fs i j \<Longrightarrow> j - i \<le> e - s"
    unfolding se by auto
  have c: "c = take (e - s) (drop s ?fs)" by (simp add: c_def getMaxAdjacentChain_def se)
  have len: "length c = e - s" using run by (auto simp: c runIn_def)
  have "?fs = take s ?fs @ c @ drop e ?fs"
  proof -
    have "drop e ?fs = drop (e - s) (drop s ?fs)" using run by (simp add: runIn_def)
    then show ?thesis unfolding c by (metis append_take_drop_id)
  qed
  then show "\<exists>pre post. ?fs = pre @ c @ post" by blast
  show "set c \<subseteq> S"
  proof
    fix x assume "x \<in> set c"
    then obtain k where "k < e - s" "x = ?fs ! (s + k)"
      using run len unfolding in_set_conv_nth c by (auto simp: runIn_def)
    then show "x \<in> S" using run by (simp add: runIn_def)
  qed
  show "length seg \<le> length c" if "?fs = pre @ seg @ post" "set seg \<subseteq> S" for pre seg post
    using longest [OF runIn_segment [OF that]] len by simp
qed

subsection \<open>Replacement\<close>

lemma stdSearch_found:
  assumes "stdSearch xs ys \<noteq> length xs"
  shows "xs = take (stdSearch xs ys) xs @ ys @ drop (stdSearch xs ys + length ys) xs"
    and "stdSearch xs ys < length xs"
  using assms
proof (induction xs ys rule: stdSearch.induct)
  case (2 x xs ys)
  { case 1
    show ?case
    proof (cases "take (length ys) (x # xs) = ys")
      case True
      then show ?thesis by (metis append_take_drop_id append_Nil stdSearch.simps(2) take0 add_0)
    next
      case False
      with 1 2(1) show ?thesis by simp
    qed
  next
    case 2
    then show ?case using "2.IH"(2) by auto
  }
qed simp_all

lemma stdSearch_first:
  assumes "xs = pre @ ys @ post" "ys \<noteq> []"
  shows "stdSearch xs ys \<le> length pre"
  using assms
proof (induction pre arbitrary: xs)
  case Nil
  then show ?case by (cases ys) auto
next
  case (Cons p pre)
  then show ?case by simp
qed

lemma stdSearch_none:
  assumes "stdSearch xs ys = length xs" "ys \<noteq> []"
  shows "xs \<noteq> pre @ ys @ post"
  using stdSearch_first [of xs pre ys post] assms by auto

definition optList :: "'a option \<Rightarrow> 'a list" where
  "optList x = (case x of None \<Rightarrow> [] | Some y \<Rightarrow> [y])"

text \<open>The effect of a replacement at a known place.\<close>

definition spliced ::
  "Fragments \<Rightarrow> nat list \<Rightarrow> nat option \<Rightarrow> nat list \<Rightarrow> nat list \<Rightarrow> tstate \<Rightarrow> tstate" where
  "spliced env old new pre post = (\<lambda>(t, w).
     (postConfigChange (t\<lparr>fragments := pre @ optList new @ post,
                          deadFiles := deadFiles t @ map (getDiskUri env) old\<rparr>),
      trackAll addReference (map (getDiskUri env) (optList new)) w))"

lemma replaceInternal_cases:
  assumes "old \<noteq> []"
  obtains (found) pre post where "fragments t = pre @ old @ post"
      "\<And>pre' post'. fragments t = pre' @ old @ post' \<Longrightarrow> length pre \<le> length pre'"
      "replaceFragmentsInternal env old new (t, w) = Inr (spliced env old new pre post (t, w))"
    | (unknown) "\<And>pre post. fragments t \<noteq> pre @ old @ post"
      "replaceFragmentsInternal env old new (t, w) =
         Inl (RuntimeError ''replaceFragments with unknown fragment sequence'')"
proof (cases "stdSearch (fragments t) old = length (fragments t)")
  case True
  then show ?thesis
    using stdSearch_none [OF True assms] by (intro unknown) (simp_all add: replaceFragmentsInternal_def)
next
  case False
  define i where "i = stdSearch (fragments t) old"
  define pre post where "pre = take i (fragments t)" and "post = drop (i + length old) (fragments t)"
  note f = stdSearch_found [OF False, folded i_def, folded pre_def post_def]
  have li: "length pre = i" using f(2) by (simp add: pre_def)
  have erase: "vec_erase i (i + length old) (fragments t) = pre @ post"
    unfolding vec_erase_def pre_def post_def ..
  have put: "vec_erase (i + 1) (i + length old) ((fragments t)[i := g]) = pre @ [g] @ post" for g
  proof -
    obtain o' os where old: "old = o' # os" using assms by (cases old) auto
    have "(fragments t)[i := g] = (pre @ [g]) @ os @ post"
      unfolding f(1) old using li by (simp add: list_update_append)
    then show ?thesis
      using li old by (intro vec_erase_split [where xs = "pre @ [g]" and ys = os and zs = post, simplified append_assoc]) simp_all
  qed
  have "replaceFragmentsInternal env old new (t, w) = Inr (spliced env old new pre post (t, w))"
    using False erase put
    by (cases new) (simp_all add: replaceFragmentsInternal_def spliced_def Let_def optList_def
      trackAll_def updateTracker_def flip: i_def)
  moreover have "length pre \<le> length pre'" if "fragments t = pre' @ old @ post'" for pre' post'
    using stdSearch_first [OF that assms] li by (simp add: i_def)
  ultimately show ?thesis using found [OF f(1)] by blast
qed

subsection \<open>Properties\<close>

text \<open>
  The chain that is offered for compaction within a set of fragments is a contiguous part of
  the tablet's chain, lies in the set, and is as long as any such part.
\<close>
theorem getMaxAdjacentChain_longest:
  "(\<exists>pre post. fragments t = pre @ getMaxAdjacentChain S t @ post) \<and>
   set (getMaxAdjacentChain S t) \<subseteq> S \<and>
   (\<forall>pre seg post. fragments t = pre @ seg @ post \<and> set seg \<subseteq> S \<longrightarrow>
      length seg \<le> length (getMaxAdjacentChain S t))"
  using maxAdjacent_correct [where S = S and t = t] by blast

definition tablet0 :: "nat list \<Rightarrow> Tablet" where
  "tablet0 fs = \<lparr>tableName = ''t'', prettyName = ''t(END)'',
     minRow = mk_point [] PT_INFINITE_LOWER_BOUND, maxRow = mk_point [] PT_INFINITE_UPPER_BOUND,
     fragments = fs, deadFiles = [], mutationsPending = False, configChanged = False,
     splitPending = False, clonedLogs = [], duplicatedLogs = {}, hasSuperTablet = False\<rparr>"

definition world0 :: World where
  "world0 = \<lparr>tracker = FileTracker0, configs = []\<rparr>"

theorem getMaxAdjacentChain_longest_witness:
  "2 \<le> length (getMaxAdjacentChain {1, 3, 4} (tablet0 [1, 2, 3, 4]))"
proof -
  have f: "fragments (tablet0 [1, 2, 3, 4]) = [1, 2] @ [3, 4] @ []" "set [3, 4] \<subseteq> {1, 3, 4 :: nat}"
    by (simp_all add: tablet0_def)
  with getMaxAdjacentChain_longest [of "tablet0 [1, 2, 3, 4]" "{1, 3, 4}"]
  have "length [3, 4 :: nat] \<le> length (getMaxAdjacentChain {1, 3, 4} (tablet0 [1, 2, 3, 4]))" by blast
  then show ?thesis by simp
qed

text \<open>
  C35. Replacing a sequence of fragments puts the new fragment, or nothing, at the place of the
  first occurrence of the sequence, refers to the new file, keeps the old files until the
  configuration is saved, and asks for that; a sequence that does not occur is an error.
\<close>
theorem replaceFragmentsInternal_splices:
  assumes "old \<noteq> []"
  shows "case replaceFragmentsInternal env old new (t, w) of
      Inl e \<Rightarrow> e = RuntimeError ''replaceFragments with unknown fragment sequence'' \<and>
        (\<nexists>pre post. fragments t = pre @ old @ post)
    | Inr (t', w') \<Rightarrow> \<exists>pre post. fragments t = pre @ old @ post \<and>
        (\<forall>pre' post'. fragments t = pre' @ old @ post' \<longrightarrow> length pre \<le> length pre') \<and>
        fragments t' = pre @ optList new @ post \<and>
        deadFiles t' = deadFiles t @ map (getDiskUri env) old \<and> configChanged t' \<and>
        tracker w' = fold addReference (map (getDiskUri env) (optList new)) (tracker w)"
proof (rule replaceInternal_cases [OF assms, of t env new w], goal_cases)
  case (1 pre post)
  let ?s = "spliced env old new pre post (t, w)"
  have s: "?s = (fst ?s, snd ?s)" by simp
  have "fragments t = pre @ old @ post \<and>
        (\<forall>pre' post'. fragments t = pre' @ old @ post' \<longrightarrow> length pre \<le> length pre') \<and>
        fragments (fst ?s) = pre @ optList new @ post \<and>
        deadFiles (fst ?s) = deadFiles t @ map (getDiskUri env) old \<and> configChanged (fst ?s) \<and>
        tracker (snd ?s) = fold addReference (map (getDiskUri env) (optList new)) (tracker w)"
    using 1(1,2) by (simp add: spliced_def postConfigChange_def trackAll_def updateTracker_def)
  then show ?case
    unfolding 1(3) by (subst s, simp only: sum.case prod.case) blast
next
  case 2
  then show ?case by auto
qed

definition fragments0 :: Fragments where
  "fragments0 = \<lparr>isImmutable = (\<lambda>f. f < 10), getFragmentUri = (\<lambda>f. ''disk:f''), getDiskUri = (\<lambda>f. ''f''),
     getDiskSize = (\<lambda>f r. 100), fragmentScan = (\<lambda>f p. Inr []), scanIndex = (\<lambda>f r. [(''m'', 100)])\<rparr>"

theorem replaceFragmentsInternal_splices_witness:
  "\<exists>t' w'. replaceFragmentsInternal fragments0 [2, 3] (Some 9) (tablet0 [1, 2, 3, 4], world0) = Inr (t', w') \<and>
     fragments t' = [1, 9, 4] \<and> deadFiles t' = [''f'', ''f'']"
proof -
  let ?r = "replaceFragmentsInternal fragments0 [2, 3] (Some 9) (tablet0 [1, 2, 3, 4], world0)"
  have occurs: "fragments (tablet0 [1, 2, 3, 4]) = [1] @ [2, 3] @ [4]" by (simp add: tablet0_def)
  have p: "case ?r of
      Inl e \<Rightarrow> e = RuntimeError ''replaceFragments with unknown fragment sequence'' \<and>
        (\<nexists>pre post. fragments (tablet0 [1, 2, 3, 4]) = pre @ [2, 3] @ post)
    | Inr (t', w') \<Rightarrow> \<exists>pre post. fragments (tablet0 [1, 2, 3, 4]) = pre @ [2, 3] @ post \<and>
        (\<forall>pre' post'. fragments (tablet0 [1, 2, 3, 4]) = pre' @ [2, 3] @ post' \<longrightarrow> length pre \<le> length pre') \<and>
        fragments t' = pre @ optList (Some 9) @ post \<and>
        deadFiles t' = deadFiles (tablet0 [1, 2, 3, 4]) @ map (getDiskUri fragments0) [2, 3] \<and> configChanged t' \<and>
        tracker w' = fold addReference (map (getDiskUri fragments0) (optList (Some 9))) (tracker world0)"
    by (rule replaceFragmentsInternal_splices) simp
  then obtain t' w' where r: "?r = Inr (t', w')"
    using occurs by (cases ?r; simp only: sum.case prod.case split: prod.splits) blast+
  with p obtain pre post where "fragments (tablet0 [1, 2, 3, 4]) = pre @ [2, 3] @ post"
    and t': "fragments t' = pre @ [9] @ post" "deadFiles t' = [''f'', ''f'']"
    by (auto simp: tablet0_def fragments0_def optList_def)
  then have "pre = [1] \<and> post = [4]"
    by (auto simp: tablet0_def Cons_eq_append_conv)
  then show ?thesis using r t' by simp
qed

end
