(* ===== verification/FragDag.thy ===== *)
theory FragDag
  imports Tablet "HOL-Library.Sublist" "HOL-Library.Multiset"
begin

section \<open>The fragment graph (src/cc/kdi/tablet/FragDag.h, FragDag.cc)\<close>

text \<open>
  The graph relates fragments and the tablets that use them, in both directions, and caches
  statistics of fragments. Tablets and fragments are addresses; \<open>tab\<close> dereferences a tablet.
  Going through a set of pointers is in the order of the addresses. Reading an entry that a map
  does not have through \<open>find\<close> is undefined behaviour, and an error here. Sizes are 64-bit words.
  The product of a weight and the quotient of two sizes, which the code computes in double
  precision, is the argument \<open>wasted\<close>; the order in which the standard sort leaves tablets with
  chains of equal length is the argument \<open>sorter\<close>.
\<close>

subsection \<open>State\<close>

record FragStats =
  diskSize :: "64 word"
  activeDiskSize :: "64 word"
  nStartingTablets :: "64 word"

record FragDag =
  activeTablets :: "(nat, nat set) omap"
  activeFragments :: "(nat, nat set) omap"
  activeFragStats :: "(nat, FragStats) omap"

record CompactionList =
  cl_tablet :: nat
  cl_fragments :: "nat list"

definition FragDag0 :: FragDag where
  "FragDag0 = \<lparr>activeTablets = [], activeFragments = [], activeFragStats = []\<rparr>"

definition tabletsOf :: "FragDag \<Rightarrow> nat \<Rightarrow> nat set" where
  "tabletsOf d f = mapAt {} f (activeTablets d)"

definition fragmentsOf :: "FragDag \<Rightarrow> nat \<Rightarrow> nat set" where
  "fragmentsOf d t = mapAt {} t (activeFragments d)"

text \<open>The elements of a set of pointers in the order of a loop over it.\<close>

definition elems :: "nat set \<Rightarrow> nat list" where
  "elems S = sorted_list_of_set S"

definition notInGraph :: "Fragments \<Rightarrow> nat \<Rightarrow> kdi_error" where
  "notInGraph env f = RuntimeError (''fragment not in graph: '' @ getFragmentUri env f)"

definition findTablets :: "Fragments \<Rightarrow> nat \<Rightarrow> FragDag \<Rightarrow> nat set result" where
  "findTablets env f d =
     (case mapFind f (activeTablets d) of None \<Rightarrow> Inl (notInGraph env f) | Some ts \<Rightarrow> Inr ts)"

subsection \<open>Edges\<close>

definition dagAddFragment :: "nat \<Rightarrow> nat \<Rightarrow> FragDag \<Rightarrow> FragDag" where
  "dagAddFragment t f d =
     d\<lparr>activeTablets := mapPut f (insert t (tabletsOf d f)) (activeTablets d),
       activeFragments := mapPut t (insert f (fragmentsOf d t)) (activeFragments d)\<rparr>"

definition removeInactiveFragment :: "nat \<Rightarrow> FragDag \<Rightarrow> FragDag" where
  "removeInactiveFragment f d =
     d\<lparr>activeTablets := mapErase f (activeTablets d), activeFragStats := mapErase f (activeFragStats d)\<rparr>"

text \<open>One round of the loop of \<open>removeTablet\<close>.\<close>

definition detachFragment :: "nat \<Rightarrow> nat \<Rightarrow> FragDag \<Rightarrow> FragDag" where
  "detachFragment t f d =
     (let ts = tabletsOf d f - {t};
          d1 = d\<lparr>activeTablets := mapPut f ts (activeTablets d)\<rparr>
      in if ts = {} then removeInactiveFragment f d1 else d1)"

definition removeTablet :: "nat \<Rightarrow> FragDag \<Rightarrow> FragDag" where
  "removeTablet t d =
     (case mapFind t (activeFragments d) of
        None \<Rightarrow> d
      | Some fs \<Rightarrow>
          (let d1 = fold (detachFragment t) (elems fs) d
           in d1\<lparr>activeFragments := mapErase t (activeFragments d1)\<rparr>))"

definition sweepGraph :: "FragDag \<Rightarrow> FragDag" where
  "sweepGraph d =
     (let d1 = fold removeTablet (map fst (filter (\<lambda>e. snd e = {}) (activeFragments d))) d
      in fold removeInactiveFragment (map fst (filter (\<lambda>e. snd e = {}) (activeTablets d1))) d1)"

subsection \<open>Ranges, sizes and weights\<close>

fun addRanges :: "(nat \<Rightarrow> Tablet) \<Rightarrow> nat list \<Rightarrow> string IntervalSet \<Rightarrow> string IntervalSet result" where
  "addRanges tab [] rs = Inr rs"
| "addRanges tab (t # ts) rs =
     bind_res (getRows (tab t)) (\<lambda>r. addRanges tab ts (isetAdd (<) r rs))"

definition getActiveRanges ::
  "Fragments \<Rightarrow> (nat \<Rightarrow> Tablet) \<Rightarrow> nat \<Rightarrow> FragDag \<Rightarrow> string IntervalSet result" where
  "getActiveRanges env tab f d =
     bind_res (findTablets env f d) (\<lambda>ts. addRanges tab (elems ts) IntervalSet0)"

definition getActiveSize :: "Fragments \<Rightarrow> (nat \<Rightarrow> Tablet) \<Rightarrow> nat \<Rightarrow> FragDag \<Rightarrow> 64 word result" where
  "getActiveSize env tab f d =
     bind_res (getActiveRanges env tab f d) (\<lambda>rs. getDiskSizeSet env f rs)"

definition getFragmentStats ::
  "Fragments \<Rightarrow> (nat \<Rightarrow> Tablet) \<Rightarrow> nat \<Rightarrow> FragDag \<Rightarrow> (FragDag \<times> FragStats) result" where
  "getFragmentStats env tab f d =
     (case mapFind f (activeFragStats d) of
        Some s \<Rightarrow> Inr (d, s)
      | None \<Rightarrow>
          bind_res (getDiskSizeAll env f) (\<lambda>sz.
          bind_res (getActiveSize env tab f d) (\<lambda>active.
          bind_res (findTablets env f d) (\<lambda>ts.
            let s = \<lparr>diskSize = sz, activeDiskSize = active, nStartingTablets = of_nat (card ts)\<rparr>
            in Inr (d\<lparr>activeFragStats := mapPut f s (activeFragStats d)\<rparr>, s)))))"

definition getInactiveSize ::
  "Fragments \<Rightarrow> (nat \<Rightarrow> Tablet) \<Rightarrow> nat \<Rightarrow> FragDag \<Rightarrow> (FragDag \<times> 64 word) result" where
  "getInactiveSize env tab f d =
     bind_res (getFragmentStats env tab f d) (\<lambda>(d1, s). Inr (d1, diskSize s - activeDiskSize s))"

fun sumChains :: "nat list \<Rightarrow> FragDag \<Rightarrow> 64 word \<Rightarrow> 64 word result" where
  "sumChains [] d weight = Inr weight"
| "sumChains (t # ts) d weight =
     (case mapFind t (activeFragments d) of
        None \<Rightarrow> Inl (Undefined ''tablet not in graph'')
      | Some fs \<Rightarrow> sumChains ts d (weight + (of_nat (card fs) - 1)))"

definition getFragmentWeight ::
  "Fragments \<Rightarrow> (64 word \<Rightarrow> 64 word \<Rightarrow> 64 word \<Rightarrow> 64 word) \<Rightarrow> (nat \<Rightarrow> Tablet) \<Rightarrow> nat \<Rightarrow> FragDag \<Rightarrow>
     (FragDag \<times> 64 word) result" where
  "getFragmentWeight env wasted tab f d =
     bind_res (findTablets env f d) (\<lambda>ts.
     bind_res (getFragmentStats env tab f d) (\<lambda>(d1, s).
     bind_res (sumChains (elems ts) d1 0) (\<lambda>weight.
       Inr (d1, if activeDiskSize s > 0 then wasted weight (diskSize s) (activeDiskSize s) else weight))))"

fun maxWeightLoop ::
  "Fragments \<Rightarrow> (64 word \<Rightarrow> 64 word \<Rightarrow> 64 word \<Rightarrow> 64 word) \<Rightarrow> (nat \<Rightarrow> Tablet) \<Rightarrow> nat list \<Rightarrow>
     64 word \<times> nat option \<Rightarrow> FragDag \<Rightarrow> (FragDag \<times> nat option) result" where
  "maxWeightLoop env wasted tab [] mx d = Inr (d, snd mx)"
| "maxWeightLoop env wasted tab (f # fs) mx d =
     bind_res (getFragmentWeight env wasted tab f d) (\<lambda>(d1, weight).
       maxWeightLoop env wasted tab fs (if weight > fst mx then (weight, Some f) else mx) d1)"

definition getMaxWeightFragment ::
  "Fragments \<Rightarrow> (64 word \<Rightarrow> 64 word \<Rightarrow> 64 word \<Rightarrow> 64 word) \<Rightarrow> (nat \<Rightarrow> Tablet) \<Rightarrow> 64 word \<Rightarrow> FragDag \<Rightarrow>
     (FragDag \<times> nat option) result" where
  "getMaxWeightFragment env wasted tab minWeight d =
     maxWeightLoop env wasted tab (map fst (activeTablets d)) (minWeight, None) d"

subsection \<open>Neighbours and active tablets\<close>

definition getParent :: "Fragments \<Rightarrow> nat \<Rightarrow> Tablet \<Rightarrow> nat option result" where
  "getParent env f t = getFragmentParent env f t"

definition getChild :: "Fragments \<Rightarrow> nat \<Rightarrow> Tablet \<Rightarrow> FragDag \<Rightarrow> nat option result" where
  "getChild env f t d =
     bind_res (getFragmentChild env f t) (\<lambda>c.
       Inr (case c of None \<Rightarrow> None | Some g \<Rightarrow> if mapFind g (activeTablets d) = None then None else Some g))"

definition addOutside :: "nat set \<Rightarrow> nat option \<Rightarrow> nat set \<Rightarrow> nat set" where
  "addOutside frags x S = (case x of None \<Rightarrow> S | Some g \<Rightarrow> if g \<notin> frags then insert g S else S)"

fun adjacentTablets ::
  "Fragments \<Rightarrow> (nat \<Rightarrow> Tablet) \<Rightarrow> FragDag \<Rightarrow> nat set \<Rightarrow> nat \<Rightarrow> nat list \<Rightarrow> nat set \<Rightarrow> nat set result" where
  "adjacentTablets env tab d frags f [] S = Inr S"
| "adjacentTablets env tab d frags f (t # ts) S =
     bind_res (getParent env f (tab t)) (\<lambda>p.
     bind_res (getChild env f (tab t) d) (\<lambda>c.
       adjacentTablets env tab d frags f ts (addOutside frags c (addOutside frags p S))))"

text \<open>This operation raises a \<open>ValueError\<close> for a fragment that is not in the graph.\<close>

fun adjacentLoop ::
  "Fragments \<Rightarrow> (nat \<Rightarrow> Tablet) \<Rightarrow> FragDag \<Rightarrow> nat set \<Rightarrow> nat list \<Rightarrow> nat set \<Rightarrow> nat set result" where
  "adjacentLoop env tab d frags [] S = Inr S"
| "adjacentLoop env tab d frags (f # fs) S =
     (case mapFind f (activeTablets d) of
        None \<Rightarrow> Inl (ValueError (''fragment not in graph: '' @ getFragmentUri env f))
      | Some ts \<Rightarrow>
          bind_res (adjacentTablets env tab d frags f (elems ts) S) (adjacentLoop env tab d frags fs))"

definition getAdjacentSet :: "Fragments \<Rightarrow> (nat \<Rightarrow> Tablet) \<Rightarrow> nat set \<Rightarrow> FragDag \<Rightarrow> nat set result" where
  "getAdjacentSet env tab frags d = adjacentLoop env tab d frags (elems frags) {}"

fun filterTabletFragments :: "Fragments \<Rightarrow> nat list \<Rightarrow> nat \<Rightarrow> FragDag \<Rightarrow> nat list result" where
  "filterTabletFragments env [] t d = Inr []"
| "filterTabletFragments env (f # fs) t d =
     bind_res (findTablets env f d) (\<lambda>ts.
     bind_res (filterTabletFragments env fs t d) (\<lambda>rest.
       Inr (if t \<in> ts then f # rest else rest)))"

fun activeTabletsLoop :: "Fragments \<Rightarrow> nat list \<Rightarrow> FragDag \<Rightarrow> nat set \<Rightarrow> nat set result" where
  "activeTabletsLoop env [] d active = Inr active"
| "activeTabletsLoop env (f # fs) d active =
     bind_res (findTablets env f d) (\<lambda>ts. activeTabletsLoop env fs d (active \<union> ts))"

definition getActiveTablets :: "Fragments \<Rightarrow> nat set \<Rightarrow> FragDag \<Rightarrow> nat set result" where
  "getActiveTablets env frags d = activeTabletsLoop env (elems frags) d {}"

fun intersectTablets :: "nat list \<Rightarrow> FragDag \<Rightarrow> nat set \<Rightarrow> nat set" where
  "intersectTablets [] d active = active"
| "intersectTablets (f # fs) d active =
     (case mapFind f (activeTablets d) of
        None \<Rightarrow> {}
      | Some ts \<Rightarrow> intersectTablets fs d {t \<in> active. t \<in> ts})"

definition getActiveTabletIntersection :: "nat list \<Rightarrow> FragDag \<Rightarrow> nat set" where
  "getActiveTabletIntersection fs d =
     (case fs of
        [] \<Rightarrow> {}
      | f # fs' \<Rightarrow> (case mapFind f (activeTablets d) of None \<Rightarrow> {} | Some ts \<Rightarrow> intersectTablets fs' d ts))"

subsection \<open>The most wasted fragments\<close>

fun sumWaste :: "Fragments \<Rightarrow> (nat \<Rightarrow> Tablet) \<Rightarrow> nat list \<Rightarrow> 64 word \<Rightarrow> FragDag \<Rightarrow> (FragDag \<times> 64 word) result" where
  "sumWaste env tab [] waste d = Inr (d, waste)"
| "sumWaste env tab (f # fs) waste d =
     bind_res (getInactiveSize env tab f d) (\<lambda>(d1, w). sumWaste env tab fs (waste + w) d1)"

text \<open>The fragments of a chain from position \<open>i\<close> to where fewer than \<open>maxSize\<close> follow.\<close>

definition wastedPart :: "nat \<Rightarrow> nat list \<Rightarrow> nat \<Rightarrow> nat list" where
  "wastedPart maxSize frags i = take (length frags - maxSize - i) (drop i frags)"

fun wastedStarts ::
  "Fragments \<Rightarrow> (nat \<Rightarrow> Tablet) \<Rightarrow> nat \<Rightarrow> nat list \<Rightarrow> nat list \<Rightarrow> 64 word \<times> nat set \<Rightarrow> FragDag \<Rightarrow>
     (FragDag \<times> 64 word \<times> nat set) result" where
  "wastedStarts env tab maxSize frags [] best d = Inr (d, best)"
| "wastedStarts env tab maxSize frags (i # is') best d =
     bind_res (sumWaste env tab (wastedPart maxSize frags i) 0 d) (\<lambda>(d1, waste).
       wastedStarts env tab maxSize frags is'
         (if waste > fst best then (waste, set (wastedPart maxSize frags i)) else best) d1)"

fun wastedTablets ::
  "Fragments \<Rightarrow> (nat \<Rightarrow> Tablet) \<Rightarrow> nat \<Rightarrow> (nat \<times> nat set) list \<Rightarrow> 64 word \<times> nat set \<Rightarrow> FragDag \<Rightarrow>
     (FragDag \<times> 64 word \<times> nat set) result" where
  "wastedTablets env tab maxSize [] best d = Inr (d, best)"
| "wastedTablets env tab maxSize ((t, fs) # es) best d =
     (let frags = getMaxAdjacentChain fs (tab t)
      in bind_res (wastedStarts env tab maxSize frags [0..<length frags] best d) (\<lambda>(d1, best1).
           wastedTablets env tab maxSize es best1 d1))"

definition getMostWastedSet ::
  "Fragments \<Rightarrow> (nat \<Rightarrow> Tablet) \<Rightarrow> nat \<Rightarrow> FragDag \<Rightarrow> (FragDag \<times> nat set) result" where
  "getMostWastedSet env tab maxSize d =
     bind_res (wastedTablets env tab maxSize (activeFragments d) (0, {}) d) (\<lambda>(d1, best). Inr (d1, snd best))"

subsection \<open>The choice of a compaction\<close>

text \<open>The loops that extend a list by children and parents, with room for \<open>n\<close> more.\<close>

fun addChildren ::
  "Fragments \<Rightarrow> Tablet \<Rightarrow> FragDag \<Rightarrow> nat \<Rightarrow> nat \<Rightarrow> nat list \<Rightarrow> nat list result" where
  "addChildren env t d 0 f fs = Inr fs"
| "addChildren env t d (Suc n) f fs =
     bind_res (getChild env f t d) (\<lambda>c.
       case c of None \<Rightarrow> Inr fs | Some g \<Rightarrow> addChildren env t d n g (fs @ [g]))"

fun addParents :: "Fragments \<Rightarrow> Tablet \<Rightarrow> nat \<Rightarrow> nat \<Rightarrow> nat list \<Rightarrow> nat list result" where
  "addParents env t 0 f fs = Inr fs"
| "addParents env t (Suc n) f fs =
     bind_res (getParent env f t) (\<lambda>p.
       case p of None \<Rightarrow> Inr fs | Some g \<Rightarrow> addParents env t n g (g # fs))"

definition seedList ::
  "Fragments \<Rightarrow> Tablet \<Rightarrow> FragDag \<Rightarrow> nat \<Rightarrow> nat \<Rightarrow> nat list result" where
  "seedList env t d maxWidth frag =
     bind_res (addChildren env t d (maxWidth - 1) frag [frag]) (\<lambda>fs.
       addParents env t (maxWidth - length fs) frag fs)"

text \<open>The first loop over the tablets, which hands over the tablets that are left when it stops.\<close>

record Choice =
  ch_compactions :: "CompactionList list"
  ch_all :: "nat set"
  ch_smallest :: nat

fun seedLoop ::
  "Fragments \<Rightarrow> (nat \<Rightarrow> Tablet) \<Rightarrow> FragDag \<Rightarrow> nat \<Rightarrow> nat \<Rightarrow> nat list \<Rightarrow> Choice \<Rightarrow> (Choice \<times> nat list) result" where
  "seedLoop env tab d maxWidth frag [] ch = Inr (ch, [])"
| "seedLoop env tab d maxWidth frag (t # ts) ch =
     bind_res (seedList env (tab t) d maxWidth frag) (\<lambda>fs.
       if length fs > 1 then
         let ch1 = \<lparr>ch_compactions = ch_compactions ch @ [\<lparr>cl_tablet = t, cl_fragments = fs\<rparr>],
                    ch_all = ch_all ch \<union> set fs,
                    ch_smallest = (if length fs < ch_smallest ch then length fs else ch_smallest ch)\<rparr>
         in if card (ch_all ch1) \<ge> 32 then Inr (ch1, ts)
            else seedLoop env tab d maxWidth frag ts ch1
       else seedLoop env tab d maxWidth frag ts ch)"

fun restLoop :: "(nat \<Rightarrow> Tablet) \<Rightarrow> nat list \<Rightarrow> Choice \<Rightarrow> CompactionList list" where
  "restLoop tab [] ch = ch_compactions ch"
| "restLoop tab (t # ts) ch =
     (let adjChain = getMaxAdjacentChain (ch_all ch) (tab t)
      in if length adjChain > ch_smallest ch div 2 then
           restLoop tab ts (ch\<lparr>ch_compactions := ch_compactions ch @ [\<lparr>cl_tablet = t, cl_fragments = adjChain\<rparr>]\<rparr>)
         else restLoop tab ts ch)"

definition chainLengthGt :: "FragDag \<Rightarrow> nat \<Rightarrow> nat \<Rightarrow> bool" where
  "chainLengthGt d a b = (card (fragmentsOf d a) > card (fragmentsOf d b))"

definition chooseCompactionSet ::
  "Fragments \<Rightarrow> (64 word \<Rightarrow> 64 word \<Rightarrow> 64 word \<Rightarrow> 64 word) \<Rightarrow>
     ((nat \<Rightarrow> nat \<Rightarrow> bool) \<Rightarrow> nat list \<Rightarrow> nat list) \<Rightarrow> nat \<Rightarrow> (nat \<Rightarrow> Tablet) \<Rightarrow> FragDag \<Rightarrow>
     (FragDag \<times> CompactionList list) result" where
  "chooseCompactionSet env wasted sorter maxWidth tab d =
     bind_res (getMaxWeightFragment env wasted tab 0 d) (\<lambda>(d1, mx).
       case mx of
         None \<Rightarrow> Inr (d1, [])
       | Some frag \<Rightarrow>
           bind_res (findTablets env frag d1) (\<lambda>ts.
           bind_res (seedLoop env tab d1 maxWidth frag (sorter (chainLengthGt d1) (elems ts))
                       \<lparr>ch_compactions = [], ch_all = {}, ch_smallest = maxWidth\<rparr>) (\<lambda>(ch, rest).
             Inr (d1, restLoop tab rest ch))))"

subsection \<open>The two directions of the graph\<close>

text \<open>Both maps hold the same edges, over finite sets.\<close>

definition dag_inv :: "FragDag \<Rightarrow> bool" where
  [wf_simps]: "dag_inv d \<longleftrightarrow>
     (\<forall>t f. t \<in> tabletsOf d f \<longleftrightarrow> f \<in> fragmentsOf d t) \<and>
     (\<forall>f. finite (tabletsOf d f)) \<and> (\<forall>t. finite (fragmentsOf d t)) \<and>
     omap_wf (activeTablets d) \<and> omap_wf (activeFragments d)"

definition edges :: "FragDag \<Rightarrow> (nat \<times> nat) set" where
  "edges d = {(t, f). t \<in> tabletsOf d f}"

lemma dag_inv_edges: "dag_inv d \<Longrightarrow> (t, f) \<in> edges d \<longleftrightarrow> f \<in> fragmentsOf d t"
  by (simp add: dag_inv_def edges_def)

lemma dag_inv_0: "dag_inv FragDag0" "edges FragDag0 = {}"
  by (simp_all add: dag_inv_def FragDag0_def tabletsOf_def fragmentsOf_def mapAt_def omap_wf_def edges_def)

lemma addFragment_edges:
  assumes "dag_inv d"
  shows "dag_inv (dagAddFragment t f d)" "edges (dagAddFragment t f d) = insert (t, f) (edges d)"
  using assms
  by (auto simp: dag_inv_def dagAddFragment_def tabletsOf_def fragmentsOf_def edges_def)

lemma at_tablets_simps [simp]:
  "tabletsOf (d\<lparr>activeFragments := m\<rparr>) f = tabletsOf d f"
  "tabletsOf (d\<lparr>activeFragStats := s\<rparr>) f = tabletsOf d f"
  "fragmentsOf (d\<lparr>activeTablets := n\<rparr>) t = fragmentsOf d t"
  "fragmentsOf (d\<lparr>activeFragStats := s\<rparr>) t = fragmentsOf d t"
  by (simp_all add: tabletsOf_def fragmentsOf_def)

lemma tablets_detach: "tabletsOf (detachFragment t f d) g = (if g = f then tabletsOf d f - {t} else tabletsOf d g)"
  by (simp add: detachFragment_def removeInactiveFragment_def tabletsOf_def Let_def)

lemma detach_simps:
  "activeFragments (detachFragment t f d) = activeFragments d"
  "omap_wf (activeTablets d) \<Longrightarrow> omap_wf (activeTablets (detachFragment t f d))"
  by (simp_all add: detachFragment_def removeInactiveFragment_def Let_def)

lemma fold_detach:
  "tabletsOf (fold (detachFragment t) fs d) g = (if g \<in> set fs then tabletsOf d g - {t} else tabletsOf d g)"
  "activeFragments (fold (detachFragment t) fs d) = activeFragments d"
  "omap_wf (activeTablets d) \<Longrightarrow> omap_wf (activeTablets (fold (detachFragment t) fs d))"
  by (induction fs arbitrary: d) (auto simp: tablets_detach detach_simps)

lemma removeTablet_edges:
  assumes "dag_inv d"
  shows "dag_inv (removeTablet t d)" "edges (removeTablet t d) = {(u, f) \<in> edges d. u \<noteq> t}"
proof -
  have "dag_inv (removeTablet t d) \<and> edges (removeTablet t d) = {(u, f) \<in> edges d. u \<noteq> t}"
  proof (cases "mapFind t (activeFragments d)")
    case None
    then have "fragmentsOf d t = {}" by (simp add: fragmentsOf_def mapAt_def)
    then have "\<forall>f. t \<notin> tabletsOf d f" using assms by (simp add: dag_inv_def)
    then show ?thesis using assms None by (auto simp: removeTablet_def edges_def)
  next
    case (Some fs)
    let ?d1 = "fold (detachFragment t) (elems fs) d"
    have fs: "fs = fragmentsOf d t" using Some by (simp add: fragmentsOf_def mapAt_def)
    have mem: "set (elems fs) = fs" using assms unfolding fs by (simp add: elems_def dag_inv_def)
    have r: "removeTablet t d = ?d1\<lparr>activeFragments := mapErase t (activeFragments d)\<rparr>"
      by (simp add: removeTablet_def Some Let_def fold_detach)
    have T: "tabletsOf (removeTablet t d) g = tabletsOf d g - {t}" for g
      using assms unfolding r by (auto simp: fold_detach mem [unfolded fs] fs dag_inv_def)
    have F: "fragmentsOf (removeTablet t d) u = (if u = t then {} else fragmentsOf d u)" for u
      unfolding r by (simp add: fragmentsOf_def)
    have "omap_wf (activeTablets (removeTablet t d))" "omap_wf (activeFragments (removeTablet t d))"
      using assms unfolding r by (simp_all add: fold_detach dag_inv_def)
    then show ?thesis
      using assms by (auto simp: dag_inv_def T F edges_def)
  qed
  then show "dag_inv (removeTablet t d)" "edges (removeTablet t d) = {(u, f) \<in> edges d. u \<noteq> t}" by blast+
qed

lemma removeInactive_edges:
  assumes "dag_inv d" "tabletsOf d f = {}"
  shows "dag_inv (removeInactiveFragment f d)" "edges (removeInactiveFragment f d) = edges d"
proof -
  have T: "tabletsOf (removeInactiveFragment f d) g = tabletsOf d g" for g
    using assms(2) by (auto simp: removeInactiveFragment_def tabletsOf_def)
  have F: "fragmentsOf (removeInactiveFragment f d) u = fragmentsOf d u" for u
    by (simp add: removeInactiveFragment_def fragmentsOf_def)
  show "dag_inv (removeInactiveFragment f d)" "edges (removeInactiveFragment f d) = edges d"
    using assms(1) unfolding dag_inv_def T F edges_def by (simp_all add: removeInactiveFragment_def)
qed

lemma fold_remove_edges:
  assumes "dag_inv d" "\<forall>t\<in>set ts. fragmentsOf d t = {}"
  shows "dag_inv (fold removeTablet ts d) \<and> edges (fold removeTablet ts d) = edges d"
  using assms
proof (induction ts arbitrary: d)
  case (Cons t ts)
  have "\<forall>f. t \<notin> tabletsOf d f" using Cons.prems by (simp add: dag_inv_def)
  then have e: "edges (removeTablet t d) = edges d"
    using removeTablet_edges(2) [OF Cons.prems(1), of t] by (auto simp: edges_def)
  have inv: "dag_inv (removeTablet t d)" by (rule removeTablet_edges(1) [OF Cons.prems(1)])
  have "fragmentsOf (removeTablet t d) u = fragmentsOf d u" for u
    using dag_inv_edges [OF inv] dag_inv_edges [OF Cons.prems(1)] e by blast
  then show ?case using Cons.IH [OF inv] Cons.prems(2) e by simp
qed simp

lemma fold_inactive_edges:
  assumes "dag_inv d" "\<forall>f\<in>set fs. tabletsOf d f = {}"
  shows "dag_inv (fold removeInactiveFragment fs d) \<and> edges (fold removeInactiveFragment fs d) = edges d"
  using assms
proof (induction fs arbitrary: d)
  case (Cons f fs)
  note r = removeInactive_edges [OF Cons.prems(1), of f]
  have e: "edges (removeInactiveFragment f d) = edges d" and inv: "dag_inv (removeInactiveFragment f d)"
    using r Cons.prems(2) by simp_all
  have "tabletsOf (removeInactiveFragment f d) g = tabletsOf d g" for g
    using e by (auto simp: edges_def)
  then show ?case using Cons.IH [OF inv] Cons.prems(2) e by simp
qed simp

lemma entry_at: "omap_wf m \<Longrightarrow> (k, v) \<in> set m \<Longrightarrow> mapAt d k m = v"
  using find_mem [of m k v] by (simp add: mapAt_def)

lemma sweepGraph_edges:
  assumes "dag_inv d"
  shows "dag_inv (sweepGraph d)" "edges (sweepGraph d) = edges d"
proof -
  let ?ts = "map fst (filter (\<lambda>e. snd e = {}) (activeFragments d))"
  let ?d1 = "fold removeTablet ?ts d"
  let ?fs = "map fst (filter (\<lambda>e. snd e = {}) (activeTablets ?d1))"
  have "\<forall>t\<in>set ?ts. fragmentsOf d t = {}"
    using assms by (auto simp: fragmentsOf_def dag_inv_def entry_at)
  from fold_remove_edges [OF assms this] have d1: "dag_inv ?d1" "edges ?d1 = edges d" by blast+
  have "\<forall>f\<in>set ?fs. tabletsOf ?d1 f = {}"
    using d1(1) by (auto simp: tabletsOf_def dag_inv_def entry_at)
  from fold_inactive_edges [OF d1(1) this] d1(2)
  show "dag_inv (sweepGraph d)" "edges (sweepGraph d) = edges d"
    by (simp_all add: sweepGraph_def Let_def)
qed

subsection \<open>Statistics do not change the graph\<close>

definition sameGraph :: "FragDag \<Rightarrow> FragDag \<Rightarrow> bool" where
  "sameGraph d d1 \<longleftrightarrow> activeTablets d1 = activeTablets d \<and> activeFragments d1 = activeFragments d"

lemma sameGraph_edges: "sameGraph d d1 \<Longrightarrow> edges d1 = edges d \<and> (dag_inv d1 \<longleftrightarrow> dag_inv d)"
  by (simp add: sameGraph_def edges_def dag_inv_def tabletsOf_def fragmentsOf_def)

lemma getFragmentStats_graph: "getFragmentStats env tab f d = Inr (d1, s) \<Longrightarrow> sameGraph d d1"
  by (auto simp: getFragmentStats_def sameGraph_def bind_res_eq_Inr Let_def split: option.splits)

lemma getFragmentWeight_graph: "getFragmentWeight env wasted tab f d = Inr (d1, w) \<Longrightarrow> sameGraph d d1"
  using getFragmentStats_graph by (fastforce simp: getFragmentWeight_def bind_res_eq_Inr)

lemma maxWeightLoop_graph:
  "maxWeightLoop env wasted tab fs mx d = Inr (d1, r) \<Longrightarrow>
   sameGraph d d1 \<and> (\<forall>f. r = Some f \<longrightarrow> f \<in> set fs \<or> snd mx = Some f)"
proof (induction env wasted tab fs mx d rule: maxWeightLoop.induct)
  case (2 env wasted tab f fs mx d)
  then obtain d' w where w: "getFragmentWeight env wasted tab f d = Inr (d', w)"
    "maxWeightLoop env wasted tab fs (if w > fst mx then (w, Some f) else mx) d' = Inr (d1, r)"
    by (auto simp: bind_res_eq_Inr)
  have "sameGraph d d'" by (rule getFragmentWeight_graph [OF w(1)])
  moreover have "sameGraph d' d1 \<and> (\<forall>g. r = Some g \<longrightarrow> g \<in> set fs \<or> snd (if w > fst mx then (w, Some f) else mx) = Some g)"
    using 2(1) w(2) by blast
  ultimately show ?case by (auto simp: sameGraph_def split: if_splits)
qed (simp add: sameGraph_def)

lemma getMaxWeightFragment_graph:
  assumes "getMaxWeightFragment env wasted tab n d = Inr (d1, Some f)"
  shows "sameGraph d d1" "\<exists>ts. mapFind f (activeTablets d) = Some ts"
  using maxWeightLoop_graph [OF assms [unfolded getMaxWeightFragment_def]]
    find_None [of f "activeTablets d"] by auto

subsection \<open>Neighbours in a chain\<close>

lemma chainFind_at: "f \<notin> set A \<Longrightarrow> chainFind f (A @ f # B) = length A"
  by (induction A) (auto simp: chainFind_def)

lemma child_at:
  assumes "fragments t = A @ f # B" "f \<notin> set A"
  shows "getFragmentChild env f t = Inr (case B of [] \<Rightarrow> None | b # bs \<Rightarrow> Some b)"
  using assms by (cases B) (simp_all add: getFragmentChild_def chainFind_at nth_append)

lemma parent_at:
  assumes "fragments t = A @ f # B" "f \<notin> set A"
  shows "getFragmentParent env f t = Inr (if A = [] then None else Some (last A))"
  using assms chainFind_at [OF assms(2), of B]
  by (cases A rule: rev_cases) (auto simp: getFragmentParent_def nth_append Let_def)

text \<open>A sequence is a part of a chain.\<close>

definition segment :: "nat list \<Rightarrow> nat list \<Rightarrow> bool" where
  "segment seg fs \<longleftrightarrow> (\<exists>pre post. fs = pre @ seg @ post)"

lemma addChildren_segment:
  assumes "segment (fs @ [f]) (fragments t)" "distinct (fragments t)"
  shows "\<exists>cs. addChildren env t d n f (fs @ [f]) = Inr (fs @ [f] @ cs) \<and> length cs \<le> n \<and>
    segment (fs @ [f] @ cs) (fragments t)"
  using assms
proof (induction n arbitrary: f fs)
  case (Suc n)
  from Suc.prems(1) obtain pre post where fr: "fragments t = pre @ (fs @ [f]) @ post"
    unfolding segment_def by blast
  then have at: "fragments t = (pre @ fs) @ f # post" "f \<notin> set (pre @ fs)" using Suc.prems(2) by auto
  note c = child_at [OF at, of env]
  show ?case
  proof (cases "getChild env f t d")
    case (Inr r)
    show ?thesis
    proof (cases r)
      case None
      then show ?thesis using Inr Suc.prems(1) by (intro exI [of _ "[]"]) simp
    next
      case (Some g)
      then obtain post' where "post = g # post'"
        using Inr c by (auto simp: getChild_def bind_res_eq_Inr split: list.splits option.splits if_splits)
      then have "segment ((fs @ [f]) @ [g]) (fragments t)" using fr unfolding segment_def by auto
      from Suc.IH [OF this Suc.prems(2)] obtain cs where
        "addChildren env t d n g ((fs @ [f]) @ [g]) = Inr ((fs @ [f]) @ [g] @ cs)" "length cs \<le> n"
        "segment ((fs @ [f]) @ [g] @ cs) (fragments t)" by blast
      then show ?thesis using Inr Some by (intro exI [of _ "g # cs"]) simp
    qed
  qed (use c in \<open>simp add: getChild_def\<close>)
qed auto

lemma addParents_segment:
  assumes "segment (f # fs) (fragments t)" "distinct (fragments t)"
  shows "\<exists>ps. addParents env t n f (f # fs) = Inr (ps @ f # fs) \<and> length ps \<le> n \<and>
    segment (ps @ f # fs) (fragments t)"
  using assms
proof (induction n arbitrary: f fs)
  case (Suc n)
  from Suc.prems(1) obtain pre post where fr: "fragments t = pre @ (f # fs) @ post"
    unfolding segment_def by blast
  then have at: "fragments t = pre @ f # (fs @ post)" "f \<notin> set pre" using Suc.prems(2) by auto
  note p = parent_at [OF at, of env]
  show ?case
  proof (cases pre rule: rev_cases)
    case Nil
    then show ?thesis using p Suc.prems(1) by (intro exI [of _ "[]"]) (simp add: getParent_def)
  next
    case (snoc pre' g)
    then have "segment (g # f # fs) (fragments t)" using fr unfolding segment_def by auto
    from Suc.IH [OF this Suc.prems(2)] obtain ps where
      "addParents env t n g (g # f # fs) = Inr (ps @ g # f # fs)" "length ps \<le> n"
      "segment (ps @ g # f # fs) (fragments t)" by blast
    then show ?thesis using p snoc by (intro exI [of _ "ps @ [g]"]) (simp add: getParent_def)
  qed
qed auto

lemma seedList_segment:
  assumes "frag \<in> set (fragments t)" "distinct (fragments t)"
  shows "\<exists>fs. seedList env t d maxWidth frag = Inr fs \<and> frag \<in> set fs \<and> segment fs (fragments t) \<and>
    length fs \<le> max 1 maxWidth"
proof -
  obtain pre post where "fragments t = pre @ frag # post" using assms(1) by (meson split_list)
  then have "segment ([] @ [frag]) (fragments t)" unfolding segment_def by auto
  from addChildren_segment [OF this assms(2), of env d "maxWidth - 1"] obtain cs where
    cs: "addChildren env t d (maxWidth - 1) frag [frag] = Inr (frag # cs)" "length cs \<le> maxWidth - 1"
      "segment (frag # cs) (fragments t)" by auto
  from addParents_segment [OF cs(3) assms(2), of env "maxWidth - length (frag # cs)"] obtain ps where
    "addParents env t (maxWidth - length (frag # cs)) frag (frag # cs) = Inr (ps @ frag # cs)"
    "length ps \<le> maxWidth - length (frag # cs)" "segment (ps @ frag # cs) (fragments t)" by blast
  then show ?thesis using cs by (auto simp: seedList_def)
qed

subsection \<open>The chosen compactions\<close>

text \<open>What the first loop has chosen: sequences of two or more fragments around the seed.\<close>

definition seedOk :: "(nat \<Rightarrow> Tablet) \<Rightarrow> nat \<Rightarrow> nat \<Rightarrow> CompactionList \<Rightarrow> bool" where
  "seedOk tab maxWidth frag c \<longleftrightarrow> frag \<in> set (cl_fragments c) \<and> 2 \<le> length (cl_fragments c) \<and>
     length (cl_fragments c) \<le> maxWidth \<and> segment (cl_fragments c) (fragments (tab (cl_tablet c)))"

definition choiceOk :: "(nat \<Rightarrow> Tablet) \<Rightarrow> nat \<Rightarrow> nat \<Rightarrow> Choice \<Rightarrow> bool" where
  "choiceOk tab maxWidth frag ch \<longleftrightarrow> (\<forall>c\<in>set (ch_compactions ch). seedOk tab maxWidth frag c) \<and>
     ch_all ch = (\<Union>c\<in>set (ch_compactions ch). set (cl_fragments c)) \<and>
     (ch_compactions ch \<noteq> [] \<longrightarrow> 2 \<le> ch_smallest ch)"

definition chosenTablets :: "CompactionList list \<Rightarrow> nat list" where
  "chosenTablets cs = map cl_tablet cs"

lemma choice_add:
  assumes "choiceOk tab maxWidth frag ch" "seedOk tab maxWidth frag c"
    and "ch' = \<lparr>ch_compactions = ch_compactions ch @ [c], ch_all = ch_all ch \<union> set (cl_fragments c),
      ch_smallest = (if length (cl_fragments c) < ch_smallest ch then length (cl_fragments c) else ch_smallest ch)\<rparr>"
    and "2 \<le> maxWidth \<Longrightarrow> ch_compactions ch = [] \<Longrightarrow> ch_smallest ch = maxWidth"
  shows "choiceOk tab maxWidth frag ch'"
proof -
  have "2 \<le> maxWidth" "2 \<le> length (cl_fragments c)" using assms(2) by (auto simp: seedOk_def)
  then show ?thesis using assms by (auto simp: choiceOk_def)
qed

lemma seedLoop_ok:
  assumes "\<forall>t\<in>set ts. frag \<in> set (fragments (tab t)) \<and> distinct (fragments (tab t))"
    and "choiceOk tab maxWidth frag ch" "ch_compactions ch = [] \<Longrightarrow> ch_smallest ch = maxWidth"
  shows "\<exists>ch' rest sts. seedLoop env tab d maxWidth frag ts ch = Inr (ch', rest) \<and>
    choiceOk tab maxWidth frag ch' \<and> (rest \<noteq> [] \<longrightarrow> ch_compactions ch' \<noteq> []) \<and>
    chosenTablets (ch_compactions ch') = chosenTablets (ch_compactions ch) @ sts \<and>
    subseq (sts @ rest) ts"
  using assms
proof (induction ts arbitrary: ch)
  case Nil
  then show ?case by auto
next
  case (Cons t ts)
  obtain fs where fs: "seedList env (tab t) d maxWidth frag = Inr fs" "frag \<in> set fs"
    "segment fs (fragments (tab t))" "length fs \<le> max 1 maxWidth"
    using seedList_segment [of frag "tab t" env d maxWidth] Cons.prems(1) by auto
  have tsok: "\<forall>t\<in>set ts. frag \<in> set (fragments (tab t)) \<and> distinct (fragments (tab t))"
    using Cons.prems(1) by simp
  show ?case
  proof (cases "length fs > 1")
    case False
    from Cons.IH [OF tsok Cons.prems(2,3)] obtain ch' rest sts where
      "seedLoop env tab d maxWidth frag ts ch = Inr (ch', rest)" "choiceOk tab maxWidth frag ch'"
      "rest \<noteq> [] \<longrightarrow> ch_compactions ch' \<noteq> []"
      "chosenTablets (ch_compactions ch') = chosenTablets (ch_compactions ch) @ sts" "subseq (sts @ rest) ts"
      by blast
    moreover from this have "subseq (sts @ rest) (t # ts)" by (rule_tac list_emb_Cons)
    ultimately show ?thesis using fs(1) False by fastforce
  next
    case True
    let ?c = "\<lparr>cl_tablet = t, cl_fragments = fs\<rparr>"
    let ?ch1 = "\<lparr>ch_compactions = ch_compactions ch @ [?c], ch_all = ch_all ch \<union> set fs,
      ch_smallest = (if length fs < ch_smallest ch then length fs else ch_smallest ch)\<rparr>"
    have "seedOk tab maxWidth frag ?c" using fs True by (simp add: seedOk_def)
    from choice_add [OF Cons.prems(2) this, of ?ch1] have ok: "choiceOk tab maxWidth frag ?ch1"
      using Cons.prems(3) by (simp only: CompactionList.select_convs refl simp_thms)
    show ?thesis
    proof (cases "card (ch_all ?ch1) \<ge> 32")
      case stop: True
      have e: "seedLoop env tab d maxWidth frag (t # ts) ch = Inr (?ch1, ts)"
        using fs(1) True stop by simp
      have ne: "ts \<noteq> [] \<longrightarrow> ch_compactions ?ch1 \<noteq> []" by simp
      have c: "chosenTablets (ch_compactions ?ch1) = chosenTablets (ch_compactions ch) @ [t]"
        by (simp add: chosenTablets_def)
      have "subseq ([t] @ ts) (t # ts)" by simp
      with e ok ne c show ?thesis by blast
    next
      case go: False
      have "ch_compactions ?ch1 = [] \<Longrightarrow> ch_smallest ?ch1 = maxWidth" by simp
      from Cons.IH [OF tsok ok this] obtain ch' rest sts where
        "seedLoop env tab d maxWidth frag ts ?ch1 = Inr (ch', rest)" "choiceOk tab maxWidth frag ch'"
        "rest \<noteq> [] \<longrightarrow> ch_compactions ch' \<noteq> []"
        "chosenTablets (ch_compactions ch') = chosenTablets (ch_compactions ?ch1) @ sts" "subseq (sts @ rest) ts"
        by blast
      moreover from this have "seedLoop env tab d maxWidth frag (t # ts) ch = Inr (ch', rest)"
        using fs(1) True go by simp
      moreover have "chosenTablets (ch_compactions ch') = chosenTablets (ch_compactions ch) @ t # sts"
        using calculation(4) by (simp add: chosenTablets_def)
      moreover have "subseq ((t # sts) @ rest) (t # ts)" using calculation(5) by simp
      ultimately show ?thesis by blast
    qed
  qed
qed

lemma restLoop_ok:
  assumes "2 \<le> ch_smallest ch"
  shows "\<exists>cs. restLoop tab ts ch = ch_compactions ch @ cs \<and> subseq (chosenTablets cs) ts \<and>
    (\<forall>c\<in>set cs. 2 \<le> length (cl_fragments c) \<and> set (cl_fragments c) \<subseteq> ch_all ch \<and>
       segment (cl_fragments c) (fragments (tab (cl_tablet c))))"
  using assms
proof (induction ts arbitrary: ch)
  case Nil
  then show ?case by (simp add: chosenTablets_def)
next
  case (Cons t ts)
  let ?a = "getMaxAdjacentChain (ch_all ch) (tab t)"
  let ?c = "\<lparr>cl_tablet = t, cl_fragments = ?a\<rparr>"
  note a = maxAdjacent_correct [where S = "ch_all ch" and t = "tab t"]
  show ?case
  proof (cases "length ?a > ch_smallest ch div 2")
    case True
    let ?ch1 = "ch\<lparr>ch_compactions := ch_compactions ch @ [?c]\<rparr>"
    have "2 \<le> length ?a" using True Cons.prems by linarith
    moreover obtain cs where cs: "restLoop tab ts ?ch1 = ch_compactions ?ch1 @ cs" "subseq (chosenTablets cs) ts"
      "\<forall>c\<in>set cs. 2 \<le> length (cl_fragments c) \<and> set (cl_fragments c) \<subseteq> ch_all ?ch1 \<and>
       segment (cl_fragments c) (fragments (tab (cl_tablet c)))"
      using Cons.IH [of ?ch1] Cons.prems by auto
    ultimately show ?thesis
      using True a(1,2) by (intro exI [of _ "?c # cs"]) (auto simp: Let_def chosenTablets_def segment_def)
  next
    case False
    then show ?thesis using Cons.IH [OF Cons.prems] by (auto simp: Let_def)
  qed
qed

text \<open>Every tablet holds the fragments that the graph says it uses.\<close>

definition chains_ok :: "(nat \<Rightarrow> Tablet) \<Rightarrow> FragDag \<Rightarrow> bool" where
  [wf_simps]: "chains_ok tab d \<longleftrightarrow>
     (\<forall>(t, f)\<in>edges d. f \<in> set (fragments (tab t)) \<and> distinct (fragments (tab t)))"

lemma chooseCompactionSet_ok:
  assumes mx: "getMaxWeightFragment env wasted tab 0 d = Inr (d1, Some frag)"
    and inv: "dag_inv d" "chains_ok tab d" and perm: "\<And>lt xs. mset (sorter lt xs) = mset xs"
  shows "\<exists>seeds cs. chooseCompactionSet env wasted sorter maxWidth tab d = Inr (d1, seeds @ cs) \<and>
    (\<forall>c\<in>set seeds. seedOk tab maxWidth frag c) \<and>
    (\<forall>c\<in>set cs. 2 \<le> length (cl_fragments c) \<and>
       set (cl_fragments c) \<subseteq> (\<Union>s\<in>set seeds. set (cl_fragments s)) \<and>
       segment (cl_fragments c) (fragments (tab (cl_tablet c)))) \<and>
    distinct (map cl_tablet (seeds @ cs)) \<and> (\<forall>c\<in>set (seeds @ cs). (cl_tablet c, frag) \<in> edges d)"
proof -
  note g = getMaxWeightFragment_graph [OF mx]
  obtain S where S: "mapFind frag (activeTablets d1) = Some S"
    using g by (auto simp: sameGraph_def)
  have tabs: "S = tabletsOf d frag"
    using S g(1) by (simp add: tabletsOf_def mapAt_def sameGraph_def)
  let ?ts = "sorter (chainLengthGt d1) (elems S)"
  have "finite S" using inv(1) unfolding tabs dag_inv_def by blast
  then have el: "set (elems S) = S" "distinct (elems S)" by (simp_all add: elems_def)
  have ts: "set ?ts = S" "distinct ?ts"
    using perm [of "chainLengthGt d1" "elems S"] el mset_eq_setD mset_eq_imp_distinct_iff by blast+
  have ok: "\<forall>t\<in>set ?ts. frag \<in> set (fragments (tab t)) \<and> distinct (fragments (tab t))"
    using inv(2) ts(1) tabs by (auto simp: chains_ok_def edges_def)
  let ?ch = "\<lparr>ch_compactions = [], ch_all = {}, ch_smallest = maxWidth\<rparr>"
  have "choiceOk tab maxWidth frag ?ch" by (simp add: choiceOk_def)
  from seedLoop_ok [OF ok this, of env d1] obtain ch' rest where
    ch: "seedLoop env tab d1 maxWidth frag ?ts ?ch = Inr (ch', rest)" "choiceOk tab maxWidth frag ch'"
    "rest \<noteq> [] \<Longrightarrow> ch_compactions ch' \<noteq> []"
    "subseq (chosenTablets (ch_compactions ch') @ rest) ?ts" by (auto simp: chosenTablets_def)
  have "\<exists>cs. restLoop tab rest ch' = ch_compactions ch' @ cs \<and> subseq (chosenTablets cs) rest \<and>
    (\<forall>c\<in>set cs. 2 \<le> length (cl_fragments c) \<and> set (cl_fragments c) \<subseteq> ch_all ch' \<and>
       segment (cl_fragments c) (fragments (tab (cl_tablet c))))"
  proof (cases "rest = []")
    case True
    then show ?thesis by (simp add: chosenTablets_def)
  next
    case False
    then have "2 \<le> ch_smallest ch'" using ch(2,3) by (simp add: choiceOk_def)
    then show ?thesis by (rule restLoop_ok)
  qed
  then obtain cs where cs: "restLoop tab rest ch' = ch_compactions ch' @ cs" "subseq (chosenTablets cs) rest"
    "\<forall>c\<in>set cs. 2 \<le> length (cl_fragments c) \<and> set (cl_fragments c) \<subseteq> ch_all ch' \<and>
       segment (cl_fragments c) (fragments (tab (cl_tablet c)))" by blast
  have "subseq (chosenTablets (ch_compactions ch') @ chosenTablets cs) (chosenTablets (ch_compactions ch') @ rest)"
    by (rule list_emb_append_mono [OF subseq_order.refl cs(2)])
  then have sub: "subseq (map cl_tablet (ch_compactions ch' @ cs)) ?ts"
    using ch(4) by (simp add: chosenTablets_def subseq_order.order_trans)
  then obtain N where N: "map cl_tablet (ch_compactions ch' @ cs) = nths ?ts N"
    by (auto simp: subseq_conv_nths)
  have "distinct (map cl_tablet (ch_compactions ch' @ cs))"
    unfolding N using ts(2) by (rule distinct_nthsI)
  moreover have "set (map cl_tablet (ch_compactions ch' @ cs)) \<subseteq> S"
    unfolding N using set_nths_subset [of ?ts N] ts(1) by blast
  then have "\<forall>c\<in>set (ch_compactions ch' @ cs). cl_tablet c \<in> S" by auto
  moreover have "chooseCompactionSet env wasted sorter maxWidth tab d = Inr (d1, ch_compactions ch' @ cs)"
    by (simp add: chooseCompactionSet_def mx findTablets_def S ch(1) cs(1))
  ultimately show ?thesis
    using ch(2) cs(3) by (intro exI [of _ "ch_compactions ch'"] exI [of _ cs]) (auto simp: choiceOk_def edges_def tabs)
qed

subsection \<open>Histories of the graph\<close>

datatype DagOp = AddEdge nat nat | RemoveTablet nat | Sweep

primrec applyDag :: "DagOp \<Rightarrow> FragDag \<Rightarrow> FragDag" where
  "applyDag (AddEdge t f) d = dagAddFragment t f d"
| "applyDag (RemoveTablet t) d = removeTablet t d"
| "applyDag Sweep d = sweepGraph d"

text \<open>The abstract graph is a relation between tablets and fragments.\<close>

primrec relStep :: "DagOp \<Rightarrow> (nat \<times> nat) set \<Rightarrow> (nat \<times> nat) set" where
  "relStep (AddEdge t f) E = insert (t, f) E"
| "relStep (RemoveTablet t) E = {(u, f) \<in> E. u \<noteq> t}"
| "relStep Sweep E = E"

lemma applyDag_edges:
  assumes "dag_inv d"
  shows "dag_inv (applyDag op d) \<and> edges (applyDag op d) = relStep op (edges d)"
  using assms addFragment_edges [OF assms] removeTablet_edges [OF assms] sweepGraph_edges [OF assms]
  by (cases op) simp_all

lemma history_edges:
  "dag_inv d \<Longrightarrow> dag_inv (fold applyDag ops d) \<and> edges (fold applyDag ops d) = fold relStep ops (edges d)"
proof (induction ops arbitrary: d)
  case (Cons op ops)
  then show ?case using applyDag_edges [OF Cons.prems, of op] by simp
qed simp

subsection \<open>Properties\<close>

text \<open>
  C11. The two maps of the fragment graph stay converse to each other: after any history of
  edges added, tablets removed and sweeps, both represent the relation that the history
  describes, over finite sets.
\<close>
theorem fragment_graph_represents_relation:
  "dag_inv (fold applyDag ops FragDag0) \<and>
   {(t, f). t \<in> tabletsOf (fold applyDag ops FragDag0) f} = fold relStep ops {} \<and>
   {(t, f). f \<in> fragmentsOf (fold applyDag ops FragDag0) t} = fold relStep ops {}"
proof -
  have h: "dag_inv (fold applyDag ops FragDag0)" "edges (fold applyDag ops FragDag0) = fold relStep ops {}"
    using history_edges [OF dag_inv_0(1), of ops] by (simp_all add: dag_inv_0)
  then show ?thesis
    by (simp add: edges_def dag_inv_def)
qed

text \<open>
  C15. Once a fragment of maximal weight is found, a compaction is chosen: the first sequences
  surround this fragment and are at most the maximal width long, the later ones are made of
  fragments of the first; every sequence has at least two fragments and is a contiguous part of
  the chain of its tablet, and no tablet is chosen twice.
\<close>
theorem chooseCompactionSet_segments:
  assumes "getMaxWeightFragment env wasted tab 0 d = Inr (d1, Some frag)"
    and "dag_inv d" "chains_ok tab d" "\<And>lt xs. mset (sorter lt xs) = mset xs"
  shows "\<exists>seeds cs. chooseCompactionSet env wasted sorter maxWidth tab d = Inr (d1, seeds @ cs) \<and>
    (\<forall>c\<in>set seeds. frag \<in> set (cl_fragments c) \<and> length (cl_fragments c) \<le> maxWidth) \<and>
    (\<forall>c\<in>set cs. set (cl_fragments c) \<subseteq> (\<Union>s\<in>set seeds. set (cl_fragments s))) \<and>
    (\<forall>c\<in>set (seeds @ cs). 2 \<le> length (cl_fragments c) \<and>
       segment (cl_fragments c) (fragments (tab (cl_tablet c))) \<and> (cl_tablet c, frag) \<in> edges d) \<and>
    distinct (map cl_tablet (seeds @ cs))"
proof -
  obtain seeds cs where r: "chooseCompactionSet env wasted sorter maxWidth tab d = Inr (d1, seeds @ cs)"
    "\<forall>c\<in>set seeds. seedOk tab maxWidth frag c"
    "\<forall>c\<in>set cs. 2 \<le> length (cl_fragments c) \<and>
       set (cl_fragments c) \<subseteq> (\<Union>s\<in>set seeds. set (cl_fragments s)) \<and>
       segment (cl_fragments c) (fragments (tab (cl_tablet c)))"
    "distinct (map cl_tablet (seeds @ cs))" "\<forall>c\<in>set (seeds @ cs). (cl_tablet c, frag) \<in> edges d"
    using chooseCompactionSet_ok [where sorter = sorter and maxWidth = maxWidth, OF assms] by blast
  show ?thesis
    by (rule exI [of _ seeds], rule exI [of _ cs]) (use r in \<open>auto simp: seedOk_def\<close>)
qed

definition dag0 :: FragDag where
  "dag0 = fold (\<lambda>f. dagAddFragment 7 f) [1, 2, 3] FragDag0"

theorem chooseCompactionSet_segments_witness:
  "\<exists>d1 cls. chooseCompactionSet fragments0 (\<lambda>w a b. w) (\<lambda>lt xs. xs) 16 (\<lambda>t. tablet0 [1, 2, 3]) dag0 = Inr (d1, cls) \<and>
     (\<forall>c\<in>set cls. segment (cl_fragments c) [1, 2, 3])"
proof -
  let ?g = "getMaxWeightFragment fragments0 (\<lambda>w a b. w) (\<lambda>t. tablet0 [1, 2, 3]) 0 dag0"
  have "case ?g of Inr (d1, Some f) \<Rightarrow> f = 1 | _ \<Rightarrow> False" by code_simp
  then obtain d1 where g: "?g = Inr (d1, Some 1)"
    by (auto split: sum.splits option.splits)
  have ops: "dag0 = fold applyDag [AddEdge 7 1, AddEdge 7 2, AddEdge 7 3] FragDag0"
    by (simp add: dag0_def)
  have inv: "dag_inv dag0" and e: "edges dag0 = {(7, 1), (7, 2), (7, 3)}"
    unfolding ops using history_edges [OF dag_inv_0(1), of "[AddEdge 7 1, AddEdge 7 2, AddEdge 7 3]"]
    by (auto simp: dag_inv_0)
  have ok: "chains_ok (\<lambda>t. tablet0 [1, 2, 3]) dag0"
    unfolding chains_ok_def e by (simp add: tablet0_def)
  have f: "fragments (tablet0 [1, 2, 3]) = [1, 2, 3]" by (simp add: tablet0_def)
  obtain seeds cs where
    "chooseCompactionSet fragments0 (\<lambda>w a b. w) (\<lambda>lt xs. xs) 16 (\<lambda>t. tablet0 [1, 2, 3]) dag0 = Inr (d1, seeds @ cs)"
    "\<forall>c\<in>set (seeds @ cs). segment (cl_fragments c) (fragments (tablet0 [1, 2, 3]))"
    using chooseCompactionSet_segments [where sorter = "\<lambda>lt xs. xs" and maxWidth = 16, OF g inv ok] by auto
  then show ?thesis unfolding f by blast
qed

end
