(* ===== verification/TabletScan.thy ===== *)
theory TabletScan
  imports Tablet
begin

section \<open>What a tablet delivers (src/cc/kdi/tablet/Tablet.cc, Scanner.cc, LogFragment.cc)\<close>

text \<open>
  The contract that the readers of a fragment rely on is the locale \<open>fragment_contract\<close>: a scan
  delivers the allowed cells of the fragment's content, sorted by key. Log fragments provide it,
  being buffers of memory tables that keep erasures. Under the contract a tablet's merged scan
  delivers the newest version of every key, a compaction does not change it, and a scanner that
  is reopened goes on where it stopped.
\<close>

subsection \<open>The first cell with a key\<close>

definition firstKey :: "string \<times> string \<times> int \<Rightarrow> Cell list \<Rightarrow> Cell option" where
  "firstKey k cs = find (\<lambda>c. cellKey c = k) cs"

lemma firstKey_Nil [simp]: "firstKey k [] = None"
  by (simp add: firstKey_def)

lemma firstKey_Cons [simp]: "firstKey k (c # cs) = (if cellKey c = k then Some c else firstKey k cs)"
  by (simp add: firstKey_def)

lemma firstKey_append:
  "firstKey k (xs @ ys) = (case firstKey k xs of None \<Rightarrow> firstKey k ys | Some c \<Rightarrow> Some c)"
  by (induction xs) auto

lemma firstKey_Some: "firstKey k xs = Some c \<Longrightarrow> cellKey c = k \<and> c \<in> set xs"
  by (induction xs) (auto split: if_splits)

lemma firstKey_None: "firstKey k xs = None \<longleftrightarrow> (\<forall>c\<in>set xs. cellKey c \<noteq> k)"
  by (induction xs) auto

lemma shadowing_firstKey: "shadowing ss c \<longleftrightarrow> firstKey (cellKey c) (concat ss) = Some c"
proof -
  have "firstKey (cellKey c) xs = Some c \<longleftrightarrow>
      (\<exists>t. filter (\<lambda>y. cellKey y = cellKey c) xs = c # t)" for xs
    by (induction xs) auto
  then show ?thesis unfolding shadowing_def first_with_key by blast
qed

lemma firstKey_sorted: "cellsSorted s \<Longrightarrow> firstKey k s = Some c \<longleftrightarrow> c \<in> set s \<and> cellKey c = k"
  by (induction s) (auto simp: cellsSorted_def)

lemma firstKey_set:
  assumes "cellsSorted s" "\<And>c. c \<in> set s \<longleftrightarrow> g (cellKey c) = Some c" "\<And>k c. g k = Some c \<Longrightarrow> cellKey c = k"
  shows "firstKey k s = g k"
proof (cases "g k")
  case None
  have "cellKey c \<noteq> k" if "c \<in> set s" for c
    using assms(2) [of c] None that by auto
  then show ?thesis using None by (simp add: firstKey_None)
next
  case (Some c)
  then have "c \<in> set s \<and> cellKey c = k" using assms(2) [of c] assms(3) [of k c] by simp
  then show ?thesis using firstKey_sorted [OF assms(1)] Some by simp
qed

text \<open>Sorted streams that agree on every key are equal.\<close>

lemma cellsSorted_ext:
  assumes "cellsSorted xs" "cellsSorted ys" "\<And>k. firstKey k xs = firstKey k ys"
  shows "xs = ys"
proof -
  have mem: "c \<in> set xs \<longleftrightarrow> c \<in> set ys" for c
    using firstKey_sorted [OF assms(1), of "cellKey c" c] firstKey_sorted [OF assms(2), of "cellKey c" c]
      assms(3) by simp
  have "sorted_wrt (<) (map cellKey xs)" "sorted_wrt (<) (map cellKey ys)"
    using assms(1,2) by (simp_all add: cellsSorted_def sorted_wrt_map)
  then have s: "sorted (map cellKey xs)" "distinct (map cellKey xs)" "sorted (map cellKey ys)" "distinct (map cellKey ys)"
    by (simp_all add: strict_sorted_iff)
  have "set xs = set ys" using mem by blast
  moreover from this have "inj_on cellKey (set xs \<union> set ys)"
    using s(2) by (simp add: distinct_map)
  ultimately show ?thesis
    using map_sorted_distinct_set_unique [of cellKey xs ys] s by blast
qed

lemma firstKey_filter:
  assumes "\<And>a b. cellKey a = cellKey b \<Longrightarrow> Q a = Q b"
  shows "firstKey k (filter Q xs) =
    (case firstKey k xs of None \<Rightarrow> None | Some c \<Rightarrow> if Q c then Some c else None)"
proof (induction xs)
  case (Cons x xs)
  have "firstKey k (filter Q xs) = None" if "cellKey x = k" "\<not> Q x"
    unfolding firstKey_None set_filter using that assms by blast
  with Cons.IH show ?case by (cases "cellKey x = k"; cases "Q x") simp_all
qed simp

definition unerased :: "Cell option \<Rightarrow> Cell option" where
  "unerased r = (case r of None \<Rightarrow> None | Some c \<Rightarrow> if isErasure c then None else Some c)"

lemma firstKey_merge:
  assumes "\<forall>s\<in>set ss. cellsSorted s \<and> list_all cellOk s"
  shows "cellsSorted (cellMerge z f ss)"
    and "firstKey k (cellMerge z f ss) =
      (if f then unerased (firstKey k (concat ss)) else firstKey k (concat ss))"
proof -
  note m = mergeCells_correct [OF assms, where z = z]
  show srt: "cellsSorted (cellMerge z f ss)"
    using m(1) by (simp add: cellMerge_def filter_sorted)
  show "firstKey k (cellMerge z f ss) =
      (if f then unerased (firstKey k (concat ss)) else firstKey k (concat ss))"
  proof (rule firstKey_set [OF srt])
    show "c \<in> set (cellMerge z f ss) \<longleftrightarrow>
        (if f then unerased (firstKey (cellKey c) (concat ss)) else firstKey (cellKey c) (concat ss)) = Some c" for c
      using m(2) [of c] firstKey_Some [of "cellKey c" "concat ss"]
      by (auto simp: cellMerge_def shadowing_firstKey unerased_def split: option.splits if_splits)
    show "cellKey c = k" if "(if f then unerased (firstKey k (concat ss)) else firstKey k (concat ss)) = Some c" for k c
      using that firstKey_Some [of k "concat ss" c] by (auto simp: unerased_def split: option.splits if_splits)
  qed
qed

lemma cellMerge_mem:
  assumes "\<forall>s\<in>set ss. cellsSorted s \<and> list_all cellOk s" "c \<in> set (cellMerge z f ss)"
  shows "\<exists>s\<in>set ss. c \<in> set s"
proof -
  have "firstKey (cellKey c) (cellMerge z f ss) = Some c"
    using assms firstKey_sorted [OF firstKey_merge(1) [OF assms(1)]] by blast
  then have "firstKey (cellKey c) (concat ss) = Some c"
    unfolding firstKey_merge(2) [OF assms(1)] by (auto simp: unerased_def split: option.splits if_splits)
  then show ?thesis using firstKey_Some by fastforce
qed

lemma erasureFilter_firstKey:
  assumes "cellsSorted s"
  shows "firstKey k (erasureFilter s) = unerased (firstKey k s)"
proof (rule firstKey_set)
  show "cellsSorted (erasureFilter s)"
    using assms by (simp add: erasureFilter_def filter_sorted)
  show "c \<in> set (erasureFilter s) \<longleftrightarrow> unerased (firstKey (cellKey c) s) = Some c" for c
  proof -
    have "unerased (firstKey (cellKey c) s) = Some c \<longleftrightarrow> firstKey (cellKey c) s = Some c \<and> \<not> isErasure c"
      by (auto simp: unerased_def split: option.splits)
    then show ?thesis
      using firstKey_sorted [OF assms, of "cellKey c" c] by (auto simp: erasureFilter_def)
  qed
  show "cellKey c = k" if "unerased (firstKey k s) = Some c" for k c
    using that firstKey_Some [of k s c] by (auto simp: unerased_def split: option.splits if_splits)
qed

subsection \<open>The contract of fragments\<close>

locale fragment_contract =
  fixes env :: Fragments and content :: "nat \<Rightarrow> Cell list"
  assumes scan_allowed: "scan_predicate_inv p \<Longrightarrow> maxHistory p = 0 \<Longrightarrow> fragmentScan env f p = Inr (filter (cellAllowed p) (content f))"
    and content_sorted: "cellsSorted (content f)"
    and content_ok: "list_all cellOk (content f)"

text \<open>The newest version of a key in a chain, and the row range of a tablet.\<close>

definition newest :: "(nat \<Rightarrow> Cell list) \<Rightarrow> nat list \<Rightarrow> string \<times> string \<times> int \<Rightarrow> Cell option" where
  "newest content fs k = firstKey k (concat (map content (rev fs)))"

definition tabletRange :: "Tablet \<Rightarrow> string Interval" where
  "tabletRange t = \<lparr>lowerBound = minRow t, upperBound = maxRow t\<rparr>"

definition tablet_wf :: "Tablet \<Rightarrow> bool" where
  [wf_simps]: "tablet_wf t \<longleftrightarrow> interval_wf (tabletRange t)"

definition soleImmutable :: "Fragments \<Rightarrow> nat list \<Rightarrow> bool" where
  "soleImmutable env fs \<longleftrightarrow> (\<exists>f. fs = [f] \<and> isImmutable env f)"

lemma cellAllowed_key: "cellKey a = cellKey b \<Longrightarrow> cellAllowed p a = cellAllowed p b"
  by (simp add: cellAllowed_def cellKey_def)

lemma newest_filter:
  "newest (\<lambda>f. filter (cellAllowed p) (content f)) fs k =
    (case newest content fs k of None \<Rightarrow> None | Some c \<Rightarrow> if cellAllowed p c then Some c else None)"
proof -
  have "concat (map (\<lambda>f. filter (cellAllowed p) (content f)) (rev fs)) =
      filter (cellAllowed p) (concat (map content (rev fs)))"
    by (simp add: filter_concat comp_def)
  then show ?thesis
    unfolding newest_def by (simp only: firstKey_filter [OF cellAllowed_key])
qed

lemma newest_append:
  "newest content (pre @ old @ post) k =
    (case newest content post k of Some c \<Rightarrow> Some c | None \<Rightarrow>
     case newest content old k of Some c \<Rightarrow> Some c | None \<Rightarrow> newest content pre k)"
  by (auto simp: newest_def firstKey_append split: option.split)

lemma newest_key: "newest content fs k = Some c \<Longrightarrow> cellKey c = k"
  unfolding newest_def using firstKey_Some by blast

lemma getRows_wf: "tablet_wf t \<Longrightarrow> getRows t = Inr (tabletRange t)"
  by (simp add: getRows_def setUpperBoundPoint_def setLowerBoundPoint_def wf_simps tabletRange_def
      Interval0_def)

lemma interval2_wf: "tablet_wf t \<Longrightarrow> Interval2 (minRow t) (maxRow t) = Inr (tabletRange t)"
  by (simp add: Interval2_def wf_simps tabletRange_def)

text \<open>A valid predicate selects rows of the tablet only.\<close>

lemma validateRows_sound:
  assumes "validateRows pred t = Inr ()" "tablet_wf t" "scan_predicate_inv pred" "rowAllowed pred r"
  shows "intervalContains (<) (tabletRange t) r"
proof (cases "rows pred")
  case None
  then have "intervalIsInfinite (tabletRange t)"
    using assms(1) by (simp add: validateRows_def getRows_wf [OF assms(2)] split: if_splits)
  then show ?thesis
    using assms(2) by (intro infinite_interval_contains) (simp_all add: tablet_wf_def)
next
  case (Some s)
  then have "iset_inv (<) s" "isetContains (<) s r"
    using assms(3,4) by (simp_all add: scan_predicate_inv_def rowAllowed_def)
  then obtain h where h: "getHull [] s = Inr h" "intervalContains (<) h r"
    using std_less.hull_correct [of s "[]"] by blast
  then have "intervalContainsInterval (<) (tabletRange t) h"
    using assms(1) Some by (simp add: validateRows_def getRows_wf [OF assms(2)] split: if_splits)
  then show ?thesis using std_less.containsInterval_sound h(2) by blast
qed

context fragment_contract
begin

lemma filtered_ok:
  "\<forall>s\<in>set (map (\<lambda>f. filter (cellAllowed p) (content f)) fs). cellsSorted s \<and> list_all cellOk s"
  using content_sorted content_ok by (auto simp: filter_sorted list_all_iff)

lemma map_scan:
  assumes "scan_predicate_inv p" "maxHistory p = 0"
  shows "map_res (\<lambda>f. fragmentScan env f p) fs = Inr (map (\<lambda>f. filter (cellAllowed p) (content f)) fs)"
  by (induction fs) (simp_all add: scan_allowed [OF assms])

lemma merged_scan_firstKey:
  assumes "validateRows pred t = Inr ()" "scan_predicate_inv pred" "maxHistory pred = 0"
  obtains out where "getMergedScan env pred t = Inr out" "cellsSorted out"
    "\<And>k. firstKey k out =
       (let r = newest (\<lambda>f. filter (cellAllowed pred) (content f)) (fragments t) k
        in if soleImmutable env (fragments t) then r else unerased r)"
proof -
  let ?c = "\<lambda>f. filter (cellAllowed pred) (content f)"
  have c: "cellsSorted (?c f)" for f by (simp add: content_sorted filter_sorted)
  have start: "getMergedScan env pred t =
      (if length (fragments t) = 1 then
         (if isImmutable env (hd (fragments t)) then Inr (?c (hd (fragments t)))
          else Inr (erasureFilter (?c (hd (fragments t)))))
       else Inr (cellMerge (makeCell [] [] 0 []) True (map ?c (rev (fragments t)))))"
    unfolding getMergedScan_def map_scan [OF assms(2,3)] using assms by (simp add: scan_allowed)
  show ?thesis
  proof (cases "length (fragments t) = 1")
    case True
    then obtain f where f: "fragments t = [f]" by (auto simp: length_Suc_conv)
    show ?thesis
    proof (cases "isImmutable env f")
      case True
      show ?thesis
        by (rule that [of "?c f"]) (use True c in \<open>simp_all add: start f newest_def soleImmutable_def\<close>)
    next
      case False
      show ?thesis
        by (rule that [of "erasureFilter (?c f)"])
          (use False c in \<open>simp_all add: start f newest_def soleImmutable_def erasureFilter_firstKey,
            simp add: erasureFilter_def content_sorted filter_sorted\<close>)
    qed
  next
    case False
    have ok: "\<forall>s\<in>set (map ?c (rev (fragments t))). cellsSorted s \<and> list_all cellOk s"
      by (rule filtered_ok)
    have "\<not> soleImmutable env (fragments t)" using False by (auto simp: soleImmutable_def)
    then show ?thesis
      using False firstKey_merge [OF ok, where z = "makeCell [] [] 0 []" and f = True]
      by (intro that) (simp_all add: start newest_def)
  qed
qed

lemma merged_scan_member:
  assumes "validateRows pred t = Inr ()" "scan_predicate_inv pred" "maxHistory pred = 0"
  shows "\<exists>out. getMergedScan env pred t = Inr out \<and> cellsSorted out \<and>
    (\<forall>c. c \<in> set out \<longleftrightarrow> newest content (fragments t) (cellKey c) = Some c \<and> cellAllowed pred c \<and>
       (isErasure c \<longrightarrow> soleImmutable env (fragments t)))"
proof -
  obtain out where out: "getMergedScan env pred t = Inr out" "cellsSorted out"
    "\<And>k. firstKey k out =
       (let r = newest (\<lambda>f. filter (cellAllowed pred) (content f)) (fragments t) k
        in if soleImmutable env (fragments t) then r else unerased r)"
    using merged_scan_firstKey [OF assms] by blast
  have "c \<in> set out \<longleftrightarrow> firstKey (cellKey c) out = Some c" for c
    using firstKey_sorted [OF out(2)] by simp
  then have "c \<in> set out \<longleftrightarrow> newest content (fragments t) (cellKey c) = Some c \<and> cellAllowed pred c \<and>
       (isErasure c \<longrightarrow> soleImmutable env (fragments t))" for c
    unfolding out(3) newest_filter by (auto simp: Let_def unerased_def split: option.splits if_splits)
  then show ?thesis using out(1,2) by blast
qed

end

subsection \<open>Log fragments\<close>

text \<open>
  A log fragment is a buffer of cells, erasures kept, with a URI from which that of the file is
  derived (\<open>diskUri\<close>); it takes no space on disk.
\<close>

definition logFragments :: "(nat \<Rightarrow> MemoryTable) \<Rightarrow> (nat \<Rightarrow> string) \<Rightarrow> (string \<Rightarrow> string) \<Rightarrow> Fragments" where
  "logFragments tables uri diskUri =
     \<lparr>isImmutable = (\<lambda>f. False), getFragmentUri = uri, getDiskUri = (\<lambda>f. diskUri (uri f)),
      getDiskSize = (\<lambda>f r. 0), fragmentScan = (\<lambda>f pred. tableScan pred (tables f)),
      scanIndex = (\<lambda>f r. [])\<rparr>"

text \<open>The table of a log fragment after writes with names that are not too long.\<close>

definition logTable :: "64 word \<Rightarrow> TableOp list \<Rightarrow> MemoryTable" where
  "logTable overhead ops =
     fold (applyOp overhead) (filter (\<lambda>op. cellOk (opCell op)) ops) (MemoryTable0 False)"

lemma logTable_inv: "table_inv overhead (logTable overhead ops)" "filterErasures (logTable overhead ops) = False"
proof -
  have ok: "list_all (\<lambda>op. cellOk (opCell op)) (filter (\<lambda>op. cellOk (opCell op)) ops)"
    by (simp add: list_all_iff)
  note a = table_after [OF ok logTable_def]
  show "table_inv overhead (logTable overhead ops)" "filterErasures (logTable overhead ops) = False"
    using a(1,3) by simp_all
qed

interpretation log_fragments: fragment_contract
  "logFragments (\<lambda>f. logTable overhead (ops f)) uri diskUri" "\<lambda>f. cells (logTable overhead (ops f))"
proof
  fix p :: ScanPredicate and f
  assume p: "maxHistory p = 0"
  show "fragmentScan (logFragments (\<lambda>f. logTable overhead (ops f)) uri diskUri) f p =
      Inr (filter (cellAllowed p) (cells (logTable overhead (ops f))))"
    using p logTable_inv(2) [of overhead "ops f"] allowed_filter [of "cells (logTable overhead (ops f))" p]
    by (simp add: logFragments_def tableScan_def scanWithErasures_def applyPredicateFilter_def Let_def)
next
  show "cellsSorted (cells (logTable overhead (ops f)))" "list_all cellOk (cells (logTable overhead (ops f)))" for f
    using logTable_inv(1) [of overhead "ops f"] by (simp_all add: table_inv_def)
qed

subsection \<open>Compaction\<close>

text \<open>
  What a compaction makes of a sequence of adjacent fragments, for the rows of a tablet: the new
  fragment holds the merge of the old ones, later fragments first, without erasures if the
  sequence starts the chain; when there is nothing to write, the sequence is removed.
\<close>

definition rowsOf :: "Tablet \<Rightarrow> Cell list \<Rightarrow> Cell list" where
  "rowsOf t cs = filter (\<lambda>c. intervalContains (<) (tabletRange t) (getRow c)) cs"

definition compactedCells :: "(nat \<Rightarrow> Cell list) \<Rightarrow> Tablet \<Rightarrow> nat list \<Rightarrow> Cell list" where
  "compactedCells content t old =
     cellMerge (makeCell [] [] 0 []) (hd (fragments t) = hd old) (map (\<lambda>f. rowsOf t (content f)) (rev old))"

definition compactionOf ::
  "Fragments \<Rightarrow> (nat \<Rightarrow> Cell list) \<Rightarrow> Tablet \<Rightarrow> nat list \<Rightarrow> nat option \<Rightarrow> bool" where
  "compactionOf env content t old new \<longleftrightarrow>
     (case new of
        Some f \<Rightarrow> f \<notin> set (fragments t) \<and> rowsOf t (content f) = compactedCells content t old
      | None \<Rightarrow> compactedCells content t old = [])"

definition allowedOnly :: "ScanPredicate \<Rightarrow> Cell option \<Rightarrow> Cell option" where
  "allowedOnly p r = (case r of None \<Rightarrow> None | Some c \<Rightarrow> if cellAllowed p c then Some c else None)"

lemma newest_allowed:
  "newest (\<lambda>f. filter (cellAllowed p) (content f)) fs k = allowedOnly p (newest content fs k)"
  by (simp add: newest_filter allowedOnly_def)

lemma unerased_allowed: "unerased (allowedOnly p r) = allowedOnly p (unerased r)"
  by (cases r) (simp_all add: unerased_def allowedOnly_def)

lemma unerased_Some: "unerased r = Some c \<Longrightarrow> r = Some c"
  by (simp add: unerased_def split: option.splits if_splits)

lemma firstKey_rowsOf:
  "firstKey k (rowsOf t cs) =
    (case firstKey k cs of None \<Rightarrow> None
     | Some c \<Rightarrow> if intervalContains (<) (tabletRange t) (getRow c) then Some c else None)"
  unfolding rowsOf_def by (rule firstKey_filter) (simp add: cellKey_def)

context fragment_contract
begin

lemma firstKey_compacted:
  "firstKey k (compactedCells content t old) =
    (let r = firstKey k (concat (map (\<lambda>f. rowsOf t (content f)) (rev old)))
     in if hd (fragments t) = hd old then unerased r else r)"
proof -
  have "\<forall>s\<in>set (map (\<lambda>f. rowsOf t (content f)) (rev old)). cellsSorted s \<and> list_all cellOk s"
    using content_sorted content_ok by (auto simp: rowsOf_def filter_sorted list_all_iff)
  from firstKey_merge(2) [OF this] show ?thesis
    by (simp add: compactedCells_def Let_def)
qed

text \<open>Keys of rows in the tablet's range.\<close>

lemma newest_rowsOf:
  assumes "intervalContains (<) (tabletRange t) (fst k)"
  shows "firstKey k (concat (map (\<lambda>f. rowsOf t (content f)) (rev fs))) = newest content fs k"
proof -
  have eq: "concat (map (\<lambda>f. rowsOf t (content f)) (rev fs)) = rowsOf t (concat (map content (rev fs)))"
    by (simp add: rowsOf_def filter_concat comp_def)
  show ?thesis
    unfolding eq firstKey_rowsOf newest_def
    using assms firstKey_Some [of k "concat (map content (rev fs))"]
    by (auto simp: cellKey_def split: option.split)
qed

lemma newest_compacted:
  assumes chain: "fragments t = pre @ old @ post" "old \<noteq> []" "distinct (fragments t)"
    and comp: "compactionOf env content t old new"
    and range: "intervalContains (<) (tabletRange t) (fst k)"
  shows "unerased (newest content (pre @ optList new @ post) k) = unerased (newest content (fragments t) k)"
proof -
  have root: "hd (fragments t) = hd old \<longleftrightarrow> pre = []"
    using chain by (cases pre; cases old) auto
  let ?old = "if pre = [] then unerased (newest content old k) else newest content old k"
  have c: "firstKey k (compactedCells content t old) = ?old"
    unfolding firstKey_compacted newest_rowsOf [OF range] root by (simp add: Let_def)
  have new: "newest content (optList new) k = ?old"
  proof (cases new)
    case None
    then show ?thesis using comp c by (simp add: compactionOf_def optList_def newest_def)
  next
    case (Some f)
    have "newest content [f] k = firstKey k (rowsOf t (content f))"
      using newest_rowsOf [OF range, of "[f]"] by simp
    then show ?thesis using Some comp c by (simp add: compactionOf_def optList_def)
  qed
  show ?thesis
    unfolding newest_append chain(1) new
    by (cases "pre = []")
      (auto simp: newest_def [of content "[]"] unerased_def split: option.splits if_splits)
qed

text \<open>
  After a compaction the tablet delivers what it did, but for erasures that show when the chain is
  reduced to a single immutable fragment by a removal.
\<close>

lemma compaction_scan_erasures:
  assumes inv: "tablet_wf t" "scan_predicate_inv pred" "maxHistory pred = 0" "distinct (fragments t)"
    and len: "2 \<le> length old"
    and comp: "compactionOf env content t old new"
    and repl: "replaceFragmentsInternal env old new (t, w) = Inr (t', w')"
  shows "getMergedScan env pred t = bind_res (getMergedScan env pred t') (\<lambda>cs. Inr (erasureFilter cs)) \<and>
    ((new = None \<longrightarrow> \<not> soleImmutable env (fragments t')) \<longrightarrow> getMergedScan env pred t' = getMergedScan env pred t)"
proof (cases "validateRows pred t")
  case (Inl e)
  have "minRow t' = minRow t" "maxRow t' = maxRow t"
    using repl by (auto simp: replaceFragmentsInternal_def postConfigChange_def Let_def split: if_splits option.splits)
  then have "validateRows pred t' = validateRows pred t"
    by (simp add: validateRows_def getRows_def)
  then show ?thesis using Inl by (simp add: getMergedScan_def)
next
  case (Inr u)
  then have valid: "validateRows pred t = Inr ()" by simp
  have "old \<noteq> []" using len by auto
  then obtain pre post where chain: "fragments t = pre @ old @ post"
    and t': "t' = fst (spliced env old new pre post (t, w))"
    using replaceInternal_cases [of old t env new w] repl by (metis fst_conv Inl_Inr_False sum.inject(2))
  have frs: "fragments t' = pre @ optList new @ post" "minRow t' = minRow t" "maxRow t' = maxRow t"
    unfolding t' by (simp_all add: spliced_def postConfigChange_def)
  have valid': "validateRows pred t' = Inr ()"
    using valid by (simp add: validateRows_def getRows_def frs)
  obtain out where out: "getMergedScan env pred t = Inr out" "cellsSorted out"
    "\<And>k. firstKey k out =
       (let r = newest (\<lambda>f. filter (cellAllowed pred) (content f)) (fragments t) k
        in if soleImmutable env (fragments t) then r else unerased r)"
    using merged_scan_firstKey [OF valid inv(2,3)] by blast
  obtain out' where out': "getMergedScan env pred t' = Inr out'" "cellsSorted out'"
    "\<And>k. firstKey k out' =
       (let r = newest (\<lambda>f. filter (cellAllowed pred) (content f)) (fragments t') k
        in if soleImmutable env (fragments t') then r else unerased r)"
    using merged_scan_firstKey [OF valid' inv(2,3)] by blast
  have many: "\<not> soleImmutable env (fragments t)"
    using len chain by (auto simp: soleImmutable_def append_eq_Cons_conv)
  have keys: "unerased (firstKey k out') = firstKey k out \<and>
      ((new = None \<longrightarrow> \<not> soleImmutable env (fragments t')) \<longrightarrow> firstKey k out' = firstKey k out)" for k
  proof -
    let ?a = "newest content (fragments t') k" and ?b = "newest content (fragments t) k"
    have t: "firstKey k out = allowedOnly pred (unerased ?b)"
      unfolding out(3) newest_allowed using many by (simp add: unerased_allowed)
    have t'': "firstKey k out' = allowedOnly pred (if soleImmutable env (fragments t') then ?a else unerased ?a)"
      unfolding out'(3) newest_allowed by (simp add: unerased_allowed)
    show ?thesis
    proof (cases "intervalContains (<) (tabletRange t) (fst k)")
      case True
      have same: "unerased ?a = unerased ?b"
        unfolding frs(1) using newest_compacted [OF chain \<open>old \<noteq> []\<close> inv(4) comp True] .
      have "unerased ?a = ?a" if s: "soleImmutable env (fragments t')" and sole: "new = None \<longrightarrow> \<not> soleImmutable env (fragments t')"
      proof -
        obtain f where f: "new = Some f" using s sole by (cases new) auto
        then have e: "pre = []" "post = []" "fragments t' = [f]"
          using s unfolding frs(1) by (auto simp: soleImmutable_def optList_def append_eq_Cons_conv)
        have "?a = firstKey k (compactedCells content t old)"
          using comp newest_rowsOf [OF True, of "[f]"] unfolding e(3) by (simp add: compactionOf_def f)
        then have "?a = unerased (firstKey k (concat (map (\<lambda>f. rowsOf t (content f)) (rev old))))"
          unfolding firstKey_compacted chain e(1,2) by (simp add: Let_def)
        then show ?thesis by (simp add: unerased_def split: option.split)
      qed
      moreover have "unerased (unerased r) = unerased r" for r by (simp add: unerased_def split: option.split)
      ultimately show ?thesis unfolding t t'' using same by (auto simp: unerased_allowed)
    next
      case False
      have "allowedOnly pred r = None" if r: "\<And>c. r = Some c \<Longrightarrow> cellKey c = k" for r
      proof (cases r)
        case (Some c)
        have "\<not> cellAllowed pred c"
          using False validateRows_sound [OF valid inv(1,2), of "getRow c"] r [OF Some]
          by (auto simp: cellAllowed_def cellKey_def)
        then show ?thesis by (simp add: Some allowedOnly_def)
      qed (simp add: allowedOnly_def)
      moreover have "cellKey c = k" if "unerased ?a = Some c \<or> ?a = Some c \<or> unerased ?b = Some c" for c
        using that newest_key unerased_Some by blast
      ultimately show ?thesis unfolding t t'' by (simp add: unerased_def split: if_splits)
    qed
  qed
  have "cellsSorted (erasureFilter out')" using out'(2) by (simp add: erasureFilter_def filter_sorted)
  then have "erasureFilter out' = out"
    using cellsSorted_ext [OF _ out(2)] keys by (simp add: erasureFilter_firstKey [OF out'(2)])
  then show ?thesis using out(1) out'(1) cellsSorted_ext [OF out'(2) out(2)] keys by auto
qed

lemmas compaction_scan = compaction_scan_erasures [THEN conjunct2, THEN mp]


end

subsection \<open>Reopened scanners\<close>

lemma fastForward_filter:
  assumes "\<forall>y\<in>set ys. \<not> cellLt l y" "\<not> cellLt l l" "\<forall>z\<in>set zs. cellLt l z \<and> R z"
  shows "fastForward l (filter R (ys @ l # zs)) = (case zs of [] \<Rightarrow> None | z # zs' \<Rightarrow> Some (z, zs'))"
proof -
  have "fastForward l (filter R ys @ ws) = fastForward l ws" for ws
    using assms(1) by (induction ys) auto
  moreover have "filter R zs = zs"
    using assms(3) by (simp add: filter_id_conv)
  ultimately show ?thesis
    using assms(2,3) by (cases zs) simp_all
qed

lemma sorted_around:
  assumes "cellsSorted (ys @ l # zs)"
  shows "\<forall>y\<in>set ys. cellKey y < cellKey l" "\<forall>z\<in>set zs. cellKey l < cellKey z"
  using assms by (simp_all add: cellsSorted_def sorted_wrt_append)

text \<open>The predicate that a scanner reopens with.\<close>

definition fromRow :: "string \<Rightarrow> string Interval" where
  "fromRow r = \<lparr>lowerBound = mk_point r PT_INCLUSIVE_LOWER_BOUND, upperBound = mk_point [] PT_INFINITE_UPPER_BOUND\<rparr>"

lemma fromRow_simps:
  "makeLowerBound [] r True = Inr (fromRow r)" "interval_wf (fromRow r)"
  "intervalContains (<) (fromRow r) x \<longleftrightarrow> r \<le> x"
  by (auto simp: fromRow_def makeLowerBound_def Interval2_def wf_simps point_pred_defs point_type_defs
      intervalContains_def pointValueLt_def valuePointLt_def isLess_def less_PointType_def)

context fragment_contract
begin

lemma merged_scan_ok:
  assumes "validateRows pred t = Inr ()" "scan_predicate_inv pred" "maxHistory pred = 0" "getMergedScan env pred t = Inr out"
  shows "cellsSorted out" "list_all cellOk out"
    "c \<in> set out \<longleftrightarrow> newest content (fragments t) (cellKey c) = Some c \<and> cellAllowed pred c \<and>
       (isErasure c \<longrightarrow> soleImmutable env (fragments t))"
proof -
  note m = merged_scan_member [OF assms(1-3)]
  then show "cellsSorted out" and mem: "c \<in> set out \<longleftrightarrow> newest content (fragments t) (cellKey c) = Some c \<and> cellAllowed pred c \<and>
       (isErasure c \<longrightarrow> soleImmutable env (fragments t))" for c
    using assms(4) by auto
  show "list_all cellOk out"
    unfolding list_all_iff
  proof
    fix c assume "c \<in> set out"
    then have "c \<in> set (concat (map content (rev (fragments t))))"
      using mem [of c] firstKey_Some unfolding newest_def by blast
    then show "cellOk c" using content_ok by (auto simp: list_all_iff)
  qed
qed

lemma reopened_scan:
  assumes "tablet_wf t" "scan_predicate_inv pred" "maxHistory pred = 0"
    and valid: "validateRows pred t = Inr ()"
    and full: "getMergedScan env pred t = Inr out"
    and clip: "validateRows (clipRows (fromRow r) pred) t = Inr ()"
  shows "getMergedScan env (clipRows (fromRow r) pred) t = Inr (filter (\<lambda>c. r \<le> getRow c) out)"
proof -
  let ?p = "clipRows (fromRow r) pred"
  note c = clipRows_correct [OF assms(2) fromRow_simps(2) [of r]]
  have h: "maxHistory ?p = 0" using c(3) assms(3) by simp
  have allow: "cellAllowed ?p x \<longleftrightarrow> cellAllowed pred x \<and> r \<le> getRow x" for x
    using c(2,3) by (auto simp: cellAllowed_def columnAllowed_def timeAllowed_def fromRow_simps)
  obtain out' where out': "getMergedScan env ?p t = Inr out'"
    using merged_scan_member [OF clip c(1) h] by blast
  note m = merged_scan_ok [OF valid assms(2,3) full] and m' = merged_scan_ok [OF clip c(1) h out']
  have s: "cellsSorted (filter (\<lambda>c. r \<le> getRow c) out)" using m(1) by (rule filter_sorted)
  have "firstKey k out' = firstKey k (filter (\<lambda>c. r \<le> getRow c) out)" for k
  proof -
    have "firstKey k out' = Some x \<longleftrightarrow> firstKey k (filter (\<lambda>c. r \<le> getRow c) out) = Some x" for x
      unfolding firstKey_sorted [OF m'(1)] firstKey_sorted [OF s] using m(3) m'(3) allow by auto
    then show ?thesis by (metis option.exhaust)
  qed
  then have "out' = filter (\<lambda>c. r \<le> getRow c) out" by (rule cellsSorted_ext [OF m'(1) s])
  then show ?thesis using out' by simp
qed

lemma scanner_continues:
  assumes inv: "tablet_wf t" "scan_predicate_inv pred" "maxHistory pred = 0"
    and valid: "validateRows pred t = Inr ()"
    and full: "getMergedScan env pred t = Inr (ys @ l # zs)"
    and sc: "sc_pred sc = pred" "sc_lastCell sc = Some l" "sc_cells sc = None"
  shows "scannerGet env t sc =
    bind_res (validateRows (clipRows (fromRow (getRow l)) pred) t) (\<lambda>_. Inr (case zs of
      [] \<Rightarrow> (sc\<lparr>sc_cells := Some []\<rparr>, None)
    | z # zs' \<Rightarrow> (sc\<lparr>sc_cells := Some zs', sc_lastCell := Some z\<rparr>, Some z)))"
proof -
  note m = merged_scan_ok [OF valid inv(2,3) full]
  have "rowAllowed pred (getRow l)" using m(3) [of l] by (simp add: cellAllowed_def)
  then have here: "intervalContains (<) (tabletRange t) (getRow l)"
    using validateRows_sound [OF valid inv(1,2)] by blast
  show ?thesis
  proof (cases "validateRows (clipRows (fromRow (getRow l)) pred) t")
    case (Inl e)
    then show ?thesis
      using here sc by (simp add: scannerGet_def getRows_wf [OF inv(1)] fromRow_simps getMergedScan_def)
  next
    case (Inr u)
    then have clip: "validateRows (clipRows (fromRow (getRow l)) pred) t = Inr ()" by simp
    note r = reopened_scan [OF inv valid full clip]
    have ok: "cellOk l" "\<forall>y\<in>set ys. cellOk y" "\<forall>z\<in>set zs. cellOk z"
      using m(2) by (simp_all add: list_all_iff)
    have lt: "cellLt l x \<longleftrightarrow> cellKey l < cellKey x" if "cellOk x" for x
      using cell_values.lt_key [OF ok(1) that] .
    note around = sorted_around [OF m(1)]
    have ys: "\<forall>y\<in>set ys. \<not> cellLt l y"
      using around(1) ok(2) lt by (meson less_asym)
    have zs: "\<forall>z\<in>set zs. cellLt l z \<and> getRow l \<le> getRow z"
    proof
      fix z assume z: "z \<in> set zs"
      then have "cellKey l < cellKey z" using around(2) by blast
      then have "getRow l \<le> getRow z"
        unfolding cellKey_def less_prod_def' fst_conv snd_conv by auto
      with z \<open>cellKey l < cellKey z\<close> show "cellLt l z \<and> getRow l \<le> getRow z" using lt ok(3) by blast
    qed
    have "\<not> cellLt l l" using lt [OF ok(1)] by simp
    note ff = fastForward_filter [OF ys this zs]
    show ?thesis
      using here sc ff by (cases zs) (simp_all add: scannerGet_def getRows_wf [OF inv(1)] fromRow_simps r clip)
  qed
qed

end

subsection \<open>Configuration and splitting\<close>

text \<open>The configuration that describes a tablet.\<close>

definition configOf :: "Fragments \<Rightarrow> Tablet \<Rightarrow> string \<times> TabletConfig" where
  "configOf env t = (tableName t, \<lparr>tabletRows = tabletRange t, tableUris = getFragmentUris env t\<rparr>)"

text \<open>Other threads set the flag when they change what the configuration says. (Threads that save at
  the same time are in \<open>TabletSave\<close>.)\<close>

definition flagsChanges :: "Fragments \<Rightarrow> (tstate \<Rightarrow> tstate) \<Rightarrow> bool" where
  "flagsChanges env f \<longleftrightarrow> (\<forall>t w. tablet_wf t \<longrightarrow> tablet_wf (fst (f (t, w))) \<and>
     (configChanged (fst (f (t, w))) \<or>
      configOf env (fst (f (t, w))) = configOf env t \<and> configs (snd (f (t, w))) = configs w))"

lemma saveRound_wf:
  assumes "tablet_wf t"
  shows "saveRound env (t, w) =
    Inr (t\<lparr>configChanged := False\<rparr>, w\<lparr>configs := configs w @ [configOf env t]\<rparr>)"
  using interval2_wf [OF assms]
  by (simp add: saveRound_def configOf_def tabletRange_def getFragmentUris_def)

lemma saveLoop_correct:
  assumes "\<forall>f\<in>set fs. flagsChanges env f" "tablet_wf t"
  shows "\<exists>t' w'. saveLoop env fs (t, w) = Inr (t', w') \<and> tablet_wf t' \<and> \<not> configChanged t' \<and>
    configs w' \<noteq> [] \<and> last (configs w') = configOf env t'"
  using assms
proof (induction fs arbitrary: t w)
  case Nil
  show ?case
    using saveRound_wf [OF Nil(2), of env w] Nil(2)
    by (simp add: configOf_def wf_simps tabletRange_def getFragmentUris_def)
next
  case (Cons f fs)
  let ?s = "(t\<lparr>configChanged := False\<rparr>, w\<lparr>configs := configs w @ [configOf env t]\<rparr>)"
  obtain t2 w2 where f: "f ?s = (t2, w2)" by fastforce
  have wf: "tablet_wf (fst ?s)" using Cons.prems(2) by (simp add: wf_simps tabletRange_def)
  with Cons.prems(1) f have wf2: "tablet_wf t2"
    and keep: "configChanged t2 \<or> configOf env t2 = configOf env (fst ?s) \<and> configs w2 = configs (snd ?s)"
    unfolding flagsChanges_def by (metis (no_types, lifting) fst_conv list.set_intros(1) snd_conv)+
  show ?case
  proof (cases "configChanged t2")
    case True
    then show ?thesis
      using saveRound_wf [OF Cons.prems(2), of env w] f Cons.IH [OF _ wf2, of w2] Cons.prems(1) by simp
  next
    case False
    then show ?thesis
      using saveRound_wf [OF Cons.prems(2), of env w] f keep wf2
      by (simp add: configOf_def tabletRange_def getFragmentUris_def)
  qed
qed

lemma saveConfig_correct:
  assumes "\<forall>f\<in>set fs. flagsChanges env f" "tablet_wf t" "configChanged t"
  shows "\<exists>t' w'. saveConfig env fs (t, w) = Inr (t', w') \<and> tablet_wf t' \<and> \<not> configChanged t' \<and>
    deadFiles t' = [] \<and> last (configs w') = configOf env t'"
proof -
  obtain t' w' where s: "saveLoop env fs (t, w) = Inr (t', w')" "tablet_wf t'" "\<not> configChanged t'"
    "last (configs w') = configOf env t'"
    using saveLoop_correct [OF assms(1,2), of w] by blast
  then show ?thesis
    using assms(3)
    by (simp add: saveConfig_def configOf_def wf_simps tabletRange_def getFragmentUris_def trackAll_def
        updateTracker_def)
qed

text \<open>The two halves of a range.\<close>

lemma halves:
  fixes r :: "string Interval"
  assumes "interval_wf r"
  shows "intervalContains (<) r x \<longleftrightarrow>
      (intervalContains (<) (setUpperBound s BT_INCLUSIVE r) x \<and> intervalContains (<) r x) \<or>
      (intervalContains (<) (setLowerBound s BT_EXCLUSIVE r) x \<and> intervalContains (<) r x)"
    and "\<not> (intervalContains (<) (setUpperBound s BT_INCLUSIVE r) x \<and> intervalContains (<) (setLowerBound s BT_EXCLUSIVE r) x)"
  by (cases "x \<le> s"; auto simp: intervalContains_def setUpperBound_def setLowerBound_def)+

text \<open>If neither half is empty, the halves lie in the range.\<close>

lemma low_half:
  fixes r :: "string Interval"
  assumes "\<not> intervalIsEmpty (<) (setLowerBound s BT_EXCLUSIVE r)" "interval_wf r"
    and "intervalContains (<) (setUpperBound s BT_INCLUSIVE r) x"
  shows "intervalContains (<) r x"
proof -
  have u: "\<not> pointLt (<) (upperBound r) (mk_point s PT_EXCLUSIVE_LOWER_BOUND)"
    using assms(1) by (simp add: intervalIsEmpty_def setLowerBound_def)
  have x: "pointLt (<) (lowerBound r) (mk_point x PT_POINT)" "pointLt (<) (mk_point x PT_POINT) (mk_point s PT_INCLUSIVE_UPPER_BOUND)"
    using assms(3) by (simp_all add: intervalContains_points setUpperBound_def)
  have "pointLt (<) (mk_point s PT_INCLUSIVE_UPPER_BOUND) (mk_point s PT_EXCLUSIVE_LOWER_BOUND)"
    by (simp add: pointLt_def isLess_def point_type_defs less_PointType_def)
  from std_less.pointLt_le_trans [OF std_less.pointLt_trans [OF x(2) this] u]
  have "pointLt (<) (mk_point x PT_POINT) (upperBound r)" .
  then show ?thesis using x(1) by (simp add: intervalContains_points)
qed

lemma high_half:
  fixes r :: "string Interval"
  assumes "\<not> intervalIsEmpty (<) (setUpperBound s BT_INCLUSIVE r)" "interval_wf r"
    and "intervalContains (<) (setLowerBound s BT_EXCLUSIVE r) x"
  shows "intervalContains (<) r x"
proof -
  have l: "\<not> pointLt (<) (mk_point s PT_INCLUSIVE_UPPER_BOUND) (lowerBound r)"
    using assms(1) by (simp add: intervalIsEmpty_def setUpperBound_def)
  have x: "pointLt (<) (mk_point s PT_EXCLUSIVE_LOWER_BOUND) (mk_point x PT_POINT)" "pointLt (<) (mk_point x PT_POINT) (upperBound r)"
    using assms(3) by (simp_all add: intervalContains_points setLowerBound_def)
  have "pointLt (<) (mk_point s PT_INCLUSIVE_UPPER_BOUND) (mk_point s PT_EXCLUSIVE_LOWER_BOUND)"
    by (simp add: pointLt_def isLess_def point_type_defs less_PointType_def)
  from std_less.pointLe_lt_trans [OF l std_less.pointLt_trans [OF this x(1)]]
  have "pointLt (<) (lowerBound r) (mk_point x PT_POINT)" .
  then show ?thesis using x(2) by (simp add: intervalContains_points)
qed

lemma half_wf:
  assumes "interval_wf r"
  shows "interval_wf (setUpperBound s BT_INCLUSIVE r)" "interval_wf (setLowerBound s BT_EXCLUSIVE r)"
  using assms by (simp_all add: wf_simps setUpperBound_def setLowerBound_def point_pred_defs point_type_defs)

lemma splitSynced_cases:
  assumes "tablet_wf t"
  obtains (none) "splitSynced env lowId (t, w) = Inr ((t, w), None)"
    | (split) row t' low w' where "splitSynced env lowId (t, w) = Inr ((t', w'), Some low)"
      "tabletRange low = setUpperBound row BT_INCLUSIVE (tabletRange t)"
      "tabletRange t' = setLowerBound row BT_EXCLUSIVE (tabletRange t)"
      "\<not> intervalIsEmpty (<) (tabletRange low)" "\<not> intervalIsEmpty (<) (tabletRange t')"
      "fragments low = fragments t" "fragments t' = fragments t" "configChanged low" "configChanged t'"
      "w' = trackAll addReference (map (getDiskUri env) (fragments t)) w" "\<not> splitPending t'"
proof -
  obtain row where row: "chooseSplitRow env t = Inr row"
    using interval2_wf [OF assms] by (auto simp: chooseSplitRow_def tabletDiskSize_def Let_def)
  let ?low = "setUpperBound row BT_INCLUSIVE (tabletRange t)"
  let ?high = "setLowerBound row BT_EXCLUSIVE (tabletRange t)"
  show ?thesis
  proof (cases "intervalIsEmpty (<) ?low \<or> intervalIsEmpty (<) ?high")
    case True
    then show ?thesis
      using row interval2_wf [OF assms] by (intro none) (auto simp: splitSynced_def)
  next
    case False
    obtain low w1 where clone: "cloneTablet env ?low (t, w) = (low, w1)" by fastforce
    then have low: "tabletRange low = ?low" "fragments low = fragments t"
      "w1 = trackAll addReference (map (getDiskUri env) (fragments t)) w"
      by (auto simp: cloneTablet_def tabletRange_def)
    let ?t1 = "postConfigChange (t\<lparr>minRow := lowerBound ?high\<rparr>)"
    let ?t2 = "?t1\<lparr>clonedLogs := cloneLogs env lowId (rev (fragments ?t1)) (clonedLogs ?t1), splitPending := False\<rparr>"
    have "tabletRange ?t2 = ?high" by (simp add: tabletRange_def postConfigChange_def setLowerBound_def)
    then show ?thesis
      using row interval2_wf [OF assms] False clone low
      by (intro split [of ?t2 w1 "postConfigChange low" row])
        (simp_all add: splitSynced_def Let_def, simp_all add: tabletRange_def postConfigChange_def)
  qed
qed

subsection \<open>Properties\<close>

text \<open>The fragments of the examples: fragment 1 holds an older value than fragment 2, and
  fragment 3 what a compaction of the two writes; fragment 5 holds three rows.\<close>

definition exampleContent :: "nat \<Rightarrow> Cell list" where
  "exampleContent f =
     (if f = 1 then [makeCell ''r'' ''c'' 1 ''old'']
      else if f = 2 \<or> f = 3 then [makeCell ''r'' ''c'' 1 ''new'']
      else [makeCell ''q'' ''c'' 1 ''first'', makeCell ''r'' ''c'' 1 ''second'', makeCell ''s'' ''c'' 1 ''third''])"

definition exampleEnv :: Fragments where
  "exampleEnv = fragments0\<lparr>isImmutable := (\<lambda>f. True),
     fragmentScan := (\<lambda>f p. Inr (filter (cellAllowed p) (exampleContent f)))\<rparr>"

lemma example_facts:
  "validateRows ScanPredicate0 (tablet0 fs) = Inr ()" "tablet_wf (tablet0 fs)"
  "scan_predicate_inv ScanPredicate0" "maxHistory ScanPredicate0 = 0"
  "fragment_contract exampleEnv exampleContent"
proof -
  show "tablet_wf (tablet0 fs)"
    by (simp add: wf_simps tabletRange_def tablet0_def point_pred_defs point_type_defs)
  then show "validateRows ScanPredicate0 (tablet0 fs) = Inr ()"
    by (simp add: validateRows_def getRows_wf ScanPredicate0_def intervalIsInfinite_def tabletRange_def tablet0_def
        point_pred_defs point_type_defs)
  show "scan_predicate_inv ScanPredicate0" "maxHistory ScanPredicate0 = 0"
    by (simp_all add: scan_predicate_inv_def ScanPredicate0_def)
  show "fragment_contract exampleEnv exampleContent"
    by unfold_locales (simp_all add: exampleEnv_def exampleContent_def cellsSorted_def cellKey_def less_prod_def'
      less_char_def cellOk_def)
qed

text \<open>
  C10. A tablet's scan delivers, in the order of the keys, the newest version of every key that
  the predicate allows, and no erasure - unless the chain is a single immutable fragment, whose
  erasures the code takes to have been compacted away and does not filter.
\<close>
theorem getMergedScan_newest:
  assumes "fragment_contract env content" "validateRows pred t = Inr ()" "scan_predicate_inv pred" "maxHistory pred = 0"
  shows "\<exists>out. getMergedScan env pred t = Inr out \<and> cellsSorted out \<and>
    (\<forall>c. c \<in> set out \<longleftrightarrow> newest content (fragments t) (cellKey c) = Some c \<and> cellAllowed pred c \<and>
       (isErasure c \<longrightarrow> soleImmutable env (fragments t)))"
  by (rule fragment_contract.merged_scan_member [OF assms])

theorem getMergedScan_newest_witness:
  "\<exists>out. getMergedScan exampleEnv ScanPredicate0 (tablet0 [1, 2]) = Inr out \<and>
     makeCell ''r'' ''c'' 1 ''new'' \<in> set out \<and> makeCell ''r'' ''c'' 1 ''old'' \<notin> set out"
proof -
  note h = getMergedScan_newest [OF example_facts(5,1,3,4), of "[1, 2]"]
  have "newest exampleContent [1, 2] (''r'', ''c'', - 1) = Some (makeCell ''r'' ''c'' 1 ''new'')"
    "makeCell ''r'' ''c'' 1 ''new'' \<noteq> makeCell ''r'' ''c'' 1 ''old''"
    by code_simp+
  moreover have "cellAllowed ScanPredicate0 c" for c
    by (simp add: cellAllowed_def rowAllowed_def columnAllowed_def timeAllowed_def ScanPredicate0_def)
  moreover have "fragments (tablet0 [1, 2]) = [1, 2]" by (simp add: tablet0_def)
  ultimately show ?thesis using h by (force simp: cellKey_def)
qed

text \<open>
  C7. A compaction of adjacent fragments does not change what the tablet delivers: the sequence
  is replaced by a fragment that holds the merge of its cells in the tablet's rows, or is
  removed when there are none. The exception is a removal that leaves a single immutable
  fragment, since such a chain is read without a filter for erasures.
\<close>
theorem compaction_preserves_scan:
  assumes "fragment_contract env content" "tablet_wf t" "scan_predicate_inv pred" "maxHistory pred = 0"
    and "distinct (fragments t)" "2 \<le> length old" "compactionOf env content t old new"
    and "replaceFragmentsInternal env old new (t, w) = Inr (t', w')"
    and "new = None \<Longrightarrow> \<not> soleImmutable env (fragments t')"
  shows "getMergedScan env pred t' = getMergedScan env pred t"
  using fragment_contract.compaction_scan [OF assms(1-8)] assms(9) by blast

theorem compaction_preserves_scan_witness:
  "getMergedScan exampleEnv ScanPredicate0 (fst (spliced exampleEnv [1, 2] (Some 3) [] [] (tablet0 [1, 2], world0))) =
   getMergedScan exampleEnv ScanPredicate0 (tablet0 [1, 2])"
proof -
  let ?t = "tablet0 [1, 2]" and ?s = "spliced exampleEnv [1, 2] (Some 3) [] [] (tablet0 [1, 2], world0)"
  have "rowsOf ?t (exampleContent 3) = compactedCells exampleContent ?t [1, 2]"
    by code_simp
  then have c: "compactionOf exampleEnv exampleContent ?t [1, 2] (Some 3)"
    by (simp add: compactionOf_def tablet0_def)
  have r: "replaceFragmentsInternal exampleEnv [1, 2] (Some 3) (?t, world0) = Inr (fst ?s, snd ?s)"
    by (simp add: replaceFragmentsInternal_def spliced_def tablet0_def optList_def vec_erase_def trackAll_def)
  have d: "distinct (fragments ?t)" "2 \<le> length [1, 2 :: nat]" by (simp_all add: tablet0_def)
  show ?thesis
    by (rule compaction_preserves_scan [OF example_facts(5,2,3,4) d c r]) simp
qed



text \<open>
  C19. A split leaves every row of the tablet in exactly one of the two parts, neither of which
  has an empty range, with the same fragments in both and one more reference to each of their
  files; if there is no such split nothing changes (so that the pending-split flag stays set).
\<close>
theorem split_partitions_rows:
  assumes "tablet_wf t"
  shows "\<exists>t' w' res. splitSynced env lowId (t, w) = Inr ((t', w'), res) \<and>
    (case res of
       None \<Rightarrow> t' = t \<and> w' = w
     | Some low \<Rightarrow>
         (\<forall>row. intervalContains (<) (tabletRange t) row \<longleftrightarrow>
            intervalContains (<) (tabletRange low) row \<or> intervalContains (<) (tabletRange t') row) \<and>
         (\<forall>row. \<not> (intervalContains (<) (tabletRange low) row \<and> intervalContains (<) (tabletRange t') row)) \<and>
         tablet_wf low \<and> tablet_wf t' \<and>
         \<not> intervalIsEmpty (<) (tabletRange low) \<and> \<not> intervalIsEmpty (<) (tabletRange t') \<and>
         fragments low = fragments t \<and> fragments t' = fragments t \<and> \<not> splitPending t' \<and>
         tracker w' = fold addReference (map (getDiskUri env) (fragments t)) (tracker w))"
proof (rule splitSynced_cases [OF assms, of env lowId w], goal_cases)
  case 1
  then show ?case by simp
next
  case (2 row t' low w')
  have wf: "interval_wf (tabletRange t)" using assms by (simp add: tablet_wf_def)
  note lo = low_half [OF 2(5) [unfolded 2(3)] wf] and hi = high_half [OF 2(4) [unfolded 2(2)] wf]
  have "intervalContains (<) (tabletRange t) r \<longleftrightarrow>
      intervalContains (<) (tabletRange low) r \<or> intervalContains (<) (tabletRange t') r" for r
    unfolding 2(2,3) using halves(1) [OF wf, of r row] lo [of r] hi [of r] by blast
  moreover have "\<not> (intervalContains (<) (tabletRange low) r \<and> intervalContains (<) (tabletRange t') r)" for r
    unfolding 2(2,3) by (rule halves(2) [OF wf])
  moreover have "tablet_wf low" "tablet_wf t'"
    unfolding tablet_wf_def 2(2,3) using half_wf [OF wf] by blast+
  ultimately show ?case
    using 2 by (simp add: trackAll_def updateTracker_def)
qed

theorem split_partitions_rows_witness:
  "\<exists>t' w' low. splitSynced fragments0 42 (tablet0 [1, 2], world0) = Inr ((t', w'), Some low) \<and>
     intervalContains (<) (tabletRange low) ''m'' \<and> \<not> intervalContains (<) (tabletRange t') ''m''"
proof -
  have c: "chooseSplitRow fragments0 (tablet0 [1, 2]) = Inr ''m''" by code_simp
  let ?r = "splitSynced fragments0 42 (tablet0 [1, 2], world0)"
  have some: "case ?r of Inr (_, Some low) \<Rightarrow> intervalContains (<) (tabletRange low) ''m'' | _ \<Rightarrow> False"
    by code_simp
  from split_partitions_rows [OF example_facts(2), of fragments0 42 "[1, 2]" world0]
  show ?thesis using some by (auto split: option.splits)
qed

end
