(* ===== verification/TabletServer.thy ===== *)
theory TabletServer
  imports FragDag TabletScan
begin

section \<open>Tablets and the fragment graph together (src/cc/kdi/tablet/Tablet.cc, FragDag.cc)\<close>

text \<open>
  The operations that change both a tablet and the graph. The tablets of a server are a map from
  addresses; dereferencing an address that it does not have is undefined behaviour. The list of
  split requests is what \<open>SuperTablet::requestSplit\<close> is called with.
\<close>

record Server =
  tablets :: "(nat, Tablet) omap"
  world :: World
  dag :: FragDag
  splitRequests :: "nat list"

definition derefTablet :: "nat \<Rightarrow> Server \<Rightarrow> Tablet result" where
  "derefTablet t s =
     (case mapFind t (tablets s) of None \<Rightarrow> Inl (Undefined ''no tablet at this address'') | Some x \<Rightarrow> Inr x)"

definition tabletAt :: "Server \<Rightarrow> nat \<Rightarrow> Tablet" where
  "tabletAt s t = mapAt (tablet0 []) t (tablets s)"

text \<open>Run an operation of one tablet, and change a tablet.\<close>

definition onTablet :: "nat \<Rightarrow> (tstate \<Rightarrow> tstate result) \<Rightarrow> Server \<Rightarrow> Server result" where
  "onTablet t f s =
     bind_res (derefTablet t s) (\<lambda>x.
     bind_res (f (x, world s)) (\<lambda>(x', w').
       Inr (s\<lparr>tablets := mapPut t x' (tablets s), world := w'\<rparr>)))"

definition setTablet :: "nat \<Rightarrow> Tablet \<Rightarrow> Server \<Rightarrow> Server" where
  "setTablet t x s = s\<lparr>tablets := mapPut t x (tablets s)\<rparr>"

definition SPLIT_THRESHOLD :: "64 word" where
  "SPLIT_THRESHOLD = push_bit 20 400"

subsection \<open>Replacing fragments in tablets\<close>

definition isLogReplacement :: "Fragments \<Rightarrow> nat list \<Rightarrow> bool" where
  "isLogReplacement env old \<longleftrightarrow> length old = 1 \<and> \<not> isImmutable env (old ! 0)"

definition requestSplit :: "Fragments \<Rightarrow> nat \<Rightarrow> Server \<Rightarrow> Server result" where
  "requestSplit env this s =
     bind_res (derefTablet this s) (\<lambda>t.
       if \<not> hasSuperTablet t then Inr s
       else if splitPending t then Inr s
       else bind_res (tabletDiskSize env t) (\<lambda>sz.
         if sz \<ge> SPLIT_THRESHOLD
         then Inr (setTablet this (t\<lparr>splitPending := True\<rparr>) s\<lparr>splitRequests := splitRequests s @ [this]\<rparr>)
         else Inr s))"

text \<open>What follows the forwarding of a log replacement.\<close>

definition finishReplace :: "Fragments \<Rightarrow> nat list \<Rightarrow> nat \<Rightarrow> nat \<Rightarrow> Server \<Rightarrow> Server result" where
  "finishReplace env old new this s =
     requestSplit env this
       (if isLogReplacement env old then s\<lparr>dag := dagAddFragment this new (dag s)\<rparr> else s)"

lemma bind_res_cong [fundef_cong]:
  "r = r' \<Longrightarrow> (\<And>x. r' = Inr x \<Longrightarrow> f x = g x) \<Longrightarrow> bind_res r f = bind_res r' g"
  by (cases r') simp_all

text \<open>The number of clones that are still to be forwarded to.\<close>

definition pendingClones :: "Server \<Rightarrow> nat" where
  "pendingClones s = (\<Sum>t\<in>set (map fst (tablets s)). length (clonedLogs (tabletAt s t)))"

definition dropClone :: "nat \<Rightarrow> nat \<Rightarrow> Server \<Rightarrow> Server" where
  "dropClone this lg s =
     (let t = tabletAt s this in setTablet this (t\<lparr>clonedLogs := mapErase lg (clonedLogs t)\<rparr>) s)"

lemma at_set [simp]: "tabletAt (setTablet t x s) u = (if u = t then x else tabletAt s u)"
  by (simp add: tabletAt_def setTablet_def)

lemma find_at: "mapFind t (tablets s) = Some x \<Longrightarrow> tabletAt s t = x"
  by (simp add: tabletAt_def mapAt_def)

lemma keys_set: "set (map fst (tablets (setTablet t x s))) = insert t (set (map fst (tablets s)))"
  by (simp add: setTablet_def keys_put [simplified])

lemma erase_shorter: "mapFind k m = Some v \<Longrightarrow> length (mapErase k m) < length m"
  unfolding mapErase_def mapFind_def
  by (rule length_filter_less [where x = "(k, v)"]) (auto dest: map_of_SomeD)

lemma pending_drop:
  assumes "mapFind this (tablets s) = Some t" "mapFind lg (clonedLogs t) = Some c"
  shows "pendingClones (dropClone this lg s) < pendingClones s"
proof -
  let ?K = "set (map fst (tablets s))"
  have mem: "this \<in> ?K" using assms(1) find_None [of this "tablets s"] by auto
  have at: "tabletAt s this = t" using assms(1) by (rule find_at)
  have keys: "set (map fst (tablets (dropClone this lg s))) = ?K"
    using mem unfolding dropClone_def Let_def keys_set by blast
  have "(\<Sum>u\<in>?K. length (clonedLogs (tabletAt (dropClone this lg s) u))) < (\<Sum>u\<in>?K. length (clonedLogs (tabletAt s u)))"
  proof (rule sum_strict_mono_ex1)
    show "\<forall>u\<in>?K. length (clonedLogs (tabletAt (dropClone this lg s) u)) \<le> length (clonedLogs (tabletAt s u))"
      by (simp add: dropClone_def Let_def mapErase_def)
    show "\<exists>u\<in>?K. length (clonedLogs (tabletAt (dropClone this lg s) u)) < length (clonedLogs (tabletAt s u))"
      using mem erase_shorter [OF assms(2)] by (intro bexI [of _ this]) (simp_all add: dropClone_def Let_def at)
  qed simp
  then show ?thesis unfolding pendingClones_def keys .
qed

lemma replaceInternal_keeps:
  assumes "replaceFragmentsInternal env old new (t, w) = Inr (t', w')"
  shows "clonedLogs t' = clonedLogs t" "duplicatedLogs t' = duplicatedLogs t" "minRow t' = minRow t"
    "maxRow t' = maxRow t" "hasSuperTablet t' = hasSuperTablet t" "splitPending t' = splitPending t"
  using assms
  by (auto simp: replaceFragmentsInternal_def postConfigChange_def Let_def split: if_splits option.splits)

lemma onTablet_Inr:
  "onTablet this f s = Inr s1 \<longleftrightarrow> (\<exists>t t' w'. mapFind this (tablets s) = Some t \<and> f (t, world s) = Inr (t', w') \<and>
     s1 = s\<lparr>tablets := mapPut this t' (tablets s), world := w'\<rparr>)"
  by (auto simp: onTablet_def derefTablet_def bind_res_eq_Inr split: option.splits)

lemma pending_onTablet:
  assumes "onTablet this (replaceFragmentsInternal env old new) s = Inr s1"
  shows "pendingClones s1 = pendingClones s" "\<exists>t. mapFind this (tablets s1) = Some t"
proof -
  obtain t t' w' where t: "mapFind this (tablets s) = Some t"
    "replaceFragmentsInternal env old new (t, world s) = Inr (t', w')"
    "s1 = s\<lparr>tablets := mapPut this t' (tablets s), world := w'\<rparr>"
    using assms unfolding onTablet_Inr by blast
  have "this \<in> set (map fst (tablets s))" using t(1) find_None [of this "tablets s"] by auto
  then have keys: "set (map fst (tablets s1)) = set (map fst (tablets s))"
    unfolding t(3) by (simp add: keys_put [simplified] insert_absorb)
  have "length (clonedLogs (tabletAt s1 u)) = length (clonedLogs (tabletAt s u))" for u
    using find_at [OF t(1)] replaceInternal_keeps(1) [OF t(2)] unfolding t(3) by (simp add: tabletAt_def)
  then show "pendingClones s1 = pendingClones s" unfolding pendingClones_def keys by simp
  show "\<exists>t. mapFind this (tablets s1) = Some t" unfolding t(3) by simp
qed

function tabletReplaceFragments ::
  "Fragments \<Rightarrow> nat list \<Rightarrow> nat \<Rightarrow> nat \<Rightarrow> Server \<Rightarrow> Server result" where
  "tabletReplaceFragments env old new this s =
     (if old = [] then Inl (ValueError ''replaceFragments with empty fragment sequence'')
      else bind_res (derefTablet this s) (\<lambda>t.
        if isLogReplacement env old \<and> stdSearch (fragments t) old = length (fragments t) then
          (if old ! 0 \<in> duplicatedLogs t
           then Inr (setTablet this (t\<lparr>duplicatedLogs := duplicatedLogs t - {old ! 0}\<rparr>) s)
           else Inl (RuntimeError ''replaceFragments with unknown fragment sequence''))
        else bind_res (onTablet this (replaceFragmentsInternal env old (Some new)) s) (\<lambda>s1.
          case (if isLogReplacement env old then mapFind (old ! 0) (clonedLogs (tabletAt s1 this)) else None) of
            None \<Rightarrow> finishReplace env old new this s1
          | Some clonedTablet \<Rightarrow>
              bind_res (tabletReplaceFragments env old new clonedTablet (dropClone this (old ! 0) s1))
                (finishReplace env old new this))))"
  by pat_completeness auto
termination
proof (relation "measure (\<lambda>(env, old, new, this, s). pendingClones s)", goal_cases)
  case (2 env old new this s t s1 c)
  obtain t1 where "mapFind this (tablets s1) = Some t1" using pending_onTablet(2) [OF 2(4)] by blast
  then show ?case
    using pending_drop [of this s1 t1 "old ! 0" c] find_at [of this s1 t1] pending_onTablet(1) [OF 2(4)] 2(5)
    by (auto split: if_splits)
qed simp

declare tabletReplaceFragments.simps [simp del]

subsection \<open>Replacing fragments in the graph\<close>

text \<open>One round of the loop that takes the fragments and the tablet from each other's sets.\<close>

definition detachActive ::
  "Fragments \<Rightarrow> (nat \<Rightarrow> Tablet) \<Rightarrow> nat \<Rightarrow> nat \<Rightarrow> FragDag \<Rightarrow> FragDag result" where
  "detachActive env tab t f d =
     (let d1 = d\<lparr>activeTablets := mapPut f (tabletsOf d f - {t}) (activeTablets d),
                activeFragments := mapPut t (fragmentsOf d t - {f}) (activeFragments d)\<rparr>
      in case mapFind f (activeFragStats d1) of
           None \<Rightarrow> Inl (Undefined ''no statistics of the fragment'')
         | Some stats \<Rightarrow>
             bind_res (getActiveSize env tab f d1) (\<lambda>sz.
               Inr (d1\<lparr>activeFragStats := mapPut f (stats\<lparr>activeDiskSize := sz\<rparr>) (activeFragStats d1)\<rparr>)))"

fun detachAll :: "Fragments \<Rightarrow> (nat \<Rightarrow> Tablet) \<Rightarrow> nat \<Rightarrow> nat list \<Rightarrow> FragDag \<Rightarrow> FragDag result" where
  "detachAll env tab t [] d = Inr d"
| "detachAll env tab t (f # fs) d = bind_res (detachActive env tab t f d) (detachAll env tab t fs)"

definition replaceInternal ::
  "Fragments \<Rightarrow> nat \<Rightarrow> nat list \<Rightarrow> nat option \<Rightarrow> Server \<Rightarrow> Server result" where
  "replaceInternal env t adjFragments newFragment s =
     bind_res (detachAll env (tabletAt s) t adjFragments (dag s)) (\<lambda>d.
       case newFragment of
         Some f \<Rightarrow> tabletReplaceFragments env adjFragments f t (s\<lparr>dag := dagAddFragment t f d\<rparr>)
       | None \<Rightarrow> onTablet t (removeFragments env adjFragments) (s\<lparr>dag := d\<rparr>))"

fun replaceLoop ::
  "Fragments \<Rightarrow> string Interval \<Rightarrow> nat list \<Rightarrow> nat option \<Rightarrow> nat list \<Rightarrow> Server \<Rightarrow> Server result" where
  "replaceLoop env r adj new [] s = Inr s"
| "replaceLoop env r adj new (t # ts) s =
     bind_res (derefTablet t s) (\<lambda>x.
     bind_res (getRows x) (\<lambda>rs.
       if \<not> intervalContainsInterval (<) r rs then replaceLoop env r adj new ts s
       else bind_res (replaceInternal env t adj new s) (replaceLoop env r adj new ts)))"

text \<open>\<open>replaceFragments\<close> and, without a new fragment, \<open>removeFragments\<close> of the graph.\<close>

definition dagReplaceFragments ::
  "Fragments \<Rightarrow> string Interval \<Rightarrow> nat list \<Rightarrow> nat \<Rightarrow> Server \<Rightarrow> Server result" where
  "dagReplaceFragments env r adj new s =
     (if adj = [] then Inl (ValueError ''empty replacement set'')
      else replaceLoop env r adj (Some new) (elems (getActiveTabletIntersection adj (dag s))) s)"

definition dagRemoveFragments ::
  "Fragments \<Rightarrow> string Interval \<Rightarrow> nat list \<Rightarrow> Server \<Rightarrow> Server result" where
  "dagRemoveFragments env r adj s =
     (if adj = [] then Inl (ValueError ''empty replacement set'')
      else replaceLoop env r adj None (elems (getActiveTabletIntersection adj (dag s))) s)"

subsection \<open>Loading, splitting and unloading tablets\<close>

definition serverSplit ::
  "Fragments \<Rightarrow> (tstate \<Rightarrow> tstate) list \<Rightarrow> (tstate \<Rightarrow> tstate) list \<Rightarrow> nat \<Rightarrow> nat \<Rightarrow> Server \<Rightarrow>
     (Server \<times> nat option) result" where
  "serverSplit env flushes fs lowId this s =
     bind_res (derefTablet this s) (\<lambda>x.
     bind_res (splitTablet env flushes fs lowId (x, world s)) (\<lambda>((t', w'), low).
       let s1 = setTablet this t' (s\<lparr>world := w'\<rparr>)
       in case low of
            None \<Rightarrow> Inr (s1, None)
          | Some l \<Rightarrow>
              Inr (setTablet lowId l
                     (s1\<lparr>dag := fold (dagAddFragment lowId) (filter (isImmutable env) (fragments l)) (dag s1)\<rparr>),
                   Some lowId)))"

definition serverLoad ::
  "Fragments \<Rightarrow> (string \<Rightarrow> nat result) \<Rightarrow> (tstate \<Rightarrow> tstate) list \<Rightarrow> string \<Rightarrow> TabletConfig \<Rightarrow> bool \<Rightarrow> nat \<Rightarrow>
     Server \<Rightarrow> Server result" where
  "serverLoad env loader fs name cfg super this s =
     bind_res (makeTablet env loader fs name cfg super (world s)) (\<lambda>(t, w).
       Inr (setTablet this t
              (s\<lparr>world := w, dag := fold (dagAddFragment this) (fragments t) (dag s)\<rparr>)))"

definition serverUnload :: "Fragments \<Rightarrow> nat \<Rightarrow> Server \<Rightarrow> Server result" where
  "serverUnload env this s =
     bind_res (derefTablet this s) (\<lambda>t.
       Inr (s\<lparr>dag := removeTablet this (dag s), world := destroyTablet env (t, world s),
              tablets := mapErase this (tablets s)\<rparr>))"

subsection \<open>Taking fragments from a tablet\<close>

text \<open>The active size of a fragment can be computed over any of its tablets.\<close>

definition sizesOk :: "Fragments \<Rightarrow> (nat \<Rightarrow> Tablet) \<Rightarrow> FragDag \<Rightarrow> nat \<Rightarrow> bool" where
  "sizesOk env tab d f \<longleftrightarrow> (\<forall>ts \<subseteq> tabletsOf d f.
     \<exists>sz. bind_res (addRanges tab (elems ts) IntervalSet0) (getDiskSizeSet env f) = Inr sz)"

definition hasStats :: "FragDag \<Rightarrow> nat \<Rightarrow> bool" where
  "hasStats d f \<longleftrightarrow> mapFind f (activeFragStats d) \<noteq> None"

lemma detachActive_ok:
  assumes "hasStats d f" "sizesOk env tab d f"
  shows "\<exists>d'. detachActive env tab t f d = Inr d' \<and>
    (\<forall>g. tabletsOf d' g = (if g = f then tabletsOf d f - {t} else tabletsOf d g)) \<and>
    (\<forall>u. fragmentsOf d' u = (if u = t then fragmentsOf d t - {f} else fragmentsOf d u)) \<and>
    (\<forall>g. hasStats d' g = hasStats d g) \<and>
    (omap_wf (activeTablets d) \<longrightarrow> omap_wf (activeTablets d')) \<and>
    (omap_wf (activeFragments d) \<longrightarrow> omap_wf (activeFragments d'))"
proof -
  let ?d1 = "d\<lparr>activeTablets := mapPut f (tabletsOf d f - {t}) (activeTablets d),
               activeFragments := mapPut t (fragmentsOf d t - {f}) (activeFragments d)\<rparr>"
  obtain st where st: "mapFind f (activeFragStats d) = Some st" using assms(1) by (auto simp: hasStats_def)
  obtain sz where sz: "bind_res (addRanges tab (elems (tabletsOf d f - {t})) IntervalSet0) (getDiskSizeSet env f) = Inr sz"
    using assms(2) unfolding sizesOk_def by blast
  have size: "getActiveSize env tab f ?d1 = Inr sz"
    using sz by (simp add: getActiveSize_def getActiveRanges_def findTablets_def)
  show ?thesis
    by (simp add: detachActive_def Let_def st size) (simp add: tabletsOf_def fragmentsOf_def hasStats_def st)
qed

lemma detachAll_ok:
  assumes "\<forall>f\<in>set fs. hasStats d f \<and> sizesOk env tab d f"
  shows "\<exists>d'. detachAll env tab t fs d = Inr d' \<and>
    (\<forall>g. tabletsOf d' g = (if g \<in> set fs then tabletsOf d g - {t} else tabletsOf d g)) \<and>
    (\<forall>u. fragmentsOf d' u = (if u = t then fragmentsOf d t - set fs else fragmentsOf d u)) \<and>
    (\<forall>g. hasStats d' g = hasStats d g) \<and>
    (omap_wf (activeTablets d) \<longrightarrow> omap_wf (activeTablets d')) \<and>
    (omap_wf (activeFragments d) \<longrightarrow> omap_wf (activeFragments d'))"
  using assms
proof (induction fs arbitrary: d)
  case (Cons f fs)
  then obtain d1 where d1: "detachActive env tab t f d = Inr d1"
    "\<forall>g. tabletsOf d1 g = (if g = f then tabletsOf d f - {t} else tabletsOf d g)"
    "\<forall>u. fragmentsOf d1 u = (if u = t then fragmentsOf d t - {f} else fragmentsOf d u)"
    "\<forall>g. hasStats d1 g = hasStats d g"
    "omap_wf (activeTablets d) \<longrightarrow> omap_wf (activeTablets d1)"
    "omap_wf (activeFragments d) \<longrightarrow> omap_wf (activeFragments d1)"
    using detachActive_ok [of d f env tab t] by auto
  have "sizesOk env tab d1 g" if "sizesOk env tab d g" for g
    using that d1(2) unfolding sizesOk_def by (metis Diff_subset subset_trans)
  then have "\<forall>g\<in>set fs. hasStats d1 g \<and> sizesOk env tab d1 g"
    using Cons.prems d1(4) by simp
  from Cons.IH [OF this] obtain d' where d': "detachAll env tab t fs d1 = Inr d'"
    "\<forall>g. tabletsOf d' g = (if g \<in> set fs then tabletsOf d1 g - {t} else tabletsOf d1 g)"
    "\<forall>u. fragmentsOf d' u = (if u = t then fragmentsOf d1 t - set fs else fragmentsOf d1 u)"
    "\<forall>g. hasStats d' g = hasStats d1 g"
    "omap_wf (activeTablets d1) \<longrightarrow> omap_wf (activeTablets d')"
    "omap_wf (activeFragments d1) \<longrightarrow> omap_wf (activeFragments d')" by blast
  show ?case
    by (rule exI [of _ d']) (use d1 d' in \<open>auto split: if_splits\<close>)
qed simp

lemma detachAll_edges:
  assumes "\<forall>f\<in>set fs. hasStats d f \<and> sizesOk env tab d f" "dag_inv d"
  shows "\<exists>d'. detachAll env tab t fs d = Inr d' \<and> dag_inv d' \<and> edges d' = edges d - {t} \<times> set fs \<and>
    (\<forall>g. hasStats d' g = hasStats d g) \<and> (\<forall>g. tabletsOf d' g \<subseteq> tabletsOf d g)"
proof -
  obtain d' where d': "detachAll env tab t fs d = Inr d'"
    and T: "\<And>g. tabletsOf d' g = (if g \<in> set fs then tabletsOf d g - {t} else tabletsOf d g)"
    and F: "\<And>u. fragmentsOf d' u = (if u = t then fragmentsOf d t - set fs else fragmentsOf d u)"
    and S: "\<forall>g. hasStats d' g = hasStats d g"
    and wf: "omap_wf (activeTablets d')" "omap_wf (activeFragments d')"
    using detachAll_ok [OF assms(1), of t] assms(2) unfolding dag_inv_def by blast
  have "dag_inv d'"
    using assms(2) wf unfolding dag_inv_def T F by auto
  moreover have "edges d' = edges d - {t} \<times> set fs" by (auto simp: edges_def T split: if_splits)
  moreover have "tabletsOf d' g \<subseteq> tabletsOf d g" for g unfolding T by auto
  ultimately show ?thesis using d' S by blast
qed

subsection \<open>Replacing in one tablet\<close>

lemma requestSplit_ok:
  assumes "mapFind t (tablets s) = Some x" "tablet_wf x"
  shows "\<exists>s' b. requestSplit env t s = Inr s' \<and> tabletAt s' = (tabletAt s)(t := x\<lparr>splitPending := b\<rparr>) \<and>
    dag s' = dag s \<and> world s' = world s \<and>
    (\<forall>u. (mapFind u (tablets s') = None) = (mapFind u (tablets s) = None))"
proof -
  have at: "tabletAt s t = x" by (rule find_at [OF assms(1)])
  have id: "tabletAt s = (tabletAt s)(t := x\<lparr>splitPending := splitPending x\<rparr>)" using at by auto
  show ?thesis
  proof (cases "\<not> hasSuperTablet x \<or> splitPending x")
    case True
    then have "requestSplit env t s = Inr s"
      using assms by (auto simp: requestSplit_def derefTablet_def)
    then show ?thesis using id by blast
  next
    case False
    obtain sz where sz: "tabletDiskSize env x = Inr sz"
      using interval2_wf [OF assms(2)] by (simp add: tabletDiskSize_def)
    show ?thesis
    proof (cases "sz \<ge> SPLIT_THRESHOLD")
      case True
      let ?s = "setTablet t (x\<lparr>splitPending := True\<rparr>) s\<lparr>splitRequests := splitRequests s @ [t]\<rparr>"
      have "requestSplit env t s = Inr ?s"
        using assms(1) False sz True by (simp add: requestSplit_def derefTablet_def)
      moreover have "tabletAt ?s = (tabletAt s)(t := x\<lparr>splitPending := True\<rparr>)"
        by (auto simp: tabletAt_def setTablet_def)
      moreover have "dag ?s = dag s" "world ?s = world s"
        "\<forall>u. (mapFind u (tablets ?s) = None) = (mapFind u (tablets s) = None)"
        using assms(1) by (simp_all add: setTablet_def)
      ultimately show ?thesis by blast
    next
      case small: False
      then have "requestSplit env t s = Inr s"
        using assms False sz by (simp add: requestSplit_def derefTablet_def)
      then show ?thesis using id by blast
    qed
  qed
qed

text \<open>The tablet after its chain was spliced.\<close>

definition splicedTablet :: "Fragments \<Rightarrow> nat list \<Rightarrow> nat option \<Rightarrow> nat list \<Rightarrow> nat list \<Rightarrow> Tablet \<Rightarrow> Tablet" where
  "splicedTablet env old new pre post t = postConfigChange (t\<lparr>fragments := pre @ optList new @ post,
     deadFiles := deadFiles t @ map (getDiskUri env) old\<rparr>)"

lemma spliced_tablet:
  "spliced env old new pre post (t, w) =
    (splicedTablet env old new pre post t, trackAll addReference (map (getDiskUri env) (optList new)) w)"
  by (simp add: spliced_def splicedTablet_def)

lemma splicedTablet_simps [simp]:
  "minRow (splicedTablet env old new pre post t) = minRow t" "maxRow (splicedTablet env old new pre post t) = maxRow t"
  "fragments (splicedTablet env old new pre post t) = pre @ optList new @ post"
  "clonedLogs (splicedTablet env old new pre post t) = clonedLogs t"
  "duplicatedLogs (splicedTablet env old new pre post t) = duplicatedLogs t"
  "tablet_wf (splicedTablet env old new pre post t) = tablet_wf t"
  "tabletRange (splicedTablet env old new pre post t) = tabletRange t"
  by (simp_all add: splicedTablet_def postConfigChange_def tablet_wf_def tabletRange_def)

lemma distinct_split_unique:
  assumes "distinct xs" "xs = pre @ ys @ post" "xs = pre' @ ys @ post'" "ys \<noteq> []"
  shows "pre' = pre \<and> post' = post"
proof -
  obtain y ys' where ys: "ys = y # ys'" using assms(4) by (cases ys) auto
  have "pre @ y # (ys' @ post) = pre' @ y # (ys' @ post')" using assms(2,3) ys by simp
  moreover have "y \<notin> set pre" "y \<notin> set (ys' @ post)" using assms(1,2) ys by auto
  moreover have "y \<notin> set pre'" "y \<notin> set (ys' @ post')" using assms(1,3) ys by auto
  ultimately have "pre = pre' \<and> ys' @ post = ys' @ post'" by (simp add: append_Cons_eq_iff)
  then show ?thesis by simp
qed

lemma onTablet_splice:
  assumes "mapFind t (tablets s) = Some x" "fragments x = pre @ old @ post" "distinct (fragments x)" "old \<noteq> []"
  shows "onTablet t (replaceFragmentsInternal env old new) s =
    Inr (s\<lparr>tablets := mapPut t (splicedTablet env old new pre post x) (tablets s),
           world := trackAll addReference (map (getDiskUri env) (optList new)) (world s)\<rparr>)"
proof -
  have "replaceFragmentsInternal env old new (x, world s) = Inr (spliced env old new pre post (x, world s))"
  proof (rule replaceInternal_cases [OF assms(4), of x env new "world s"], goal_cases)
    case (1 pre' post')
    then show ?case using distinct_split_unique [OF assms(3,2) 1(1) assms(4)] by simp
  next
    case 2
    then show ?case using assms(2) by blast
  qed
  then show ?thesis using assms(1) by (simp add: onTablet_def derefTablet_def spliced_tablet)
qed

definition sameTablets :: "Server \<Rightarrow> Server \<Rightarrow> bool" where
  "sameTablets s s' \<longleftrightarrow> (\<forall>u. (mapFind u (tablets s') = None) = (mapFind u (tablets s) = None))"

text \<open>A tablet whose chain was spliced, up to the pending-split flag.\<close>

definition splicedAt :: "Fragments \<Rightarrow> nat list \<Rightarrow> nat option \<Rightarrow> Tablet \<Rightarrow> Tablet \<Rightarrow> bool" where
  "splicedAt env old new x y \<longleftrightarrow> (\<exists>pre post b. fragments x = pre @ old @ post \<and>
     y = (splicedTablet env old new pre post x)\<lparr>splitPending := b\<rparr>)"

lemma splicedTablet_pending: "(splicedTablet env old new pre post x)\<lparr>splitPending := splitPending x\<rparr> = splicedTablet env old new pre post x"
  by (simp add: splicedTablet_def postConfigChange_def)

lemma splicedAt_range: "splicedAt env old new x y \<Longrightarrow> minRow y = minRow x \<and> maxRow y = maxRow x"
  by (auto simp: splicedAt_def)

lemma disk_replace:
  assumes "mapFind t (tablets s) = Some x" "tablet_wf x" "segment old (fragments x)" "distinct (fragments x)"
    and "old \<noteq> []" "\<forall>f\<in>set old. isImmutable env f"
  shows "\<exists>s' y. tabletReplaceFragments env old new t s = Inr s' \<and> splicedAt env old (Some new) x y \<and>
    tabletAt s' = (tabletAt s)(t := y) \<and> dag s' = dag s \<and> sameTablets s s'"
proof -
  obtain pre post where fr: "fragments x = pre @ old @ post" using assms(3) unfolding segment_def by blast
  let ?x = "splicedTablet env old (Some new) pre post x"
  let ?s1 = "s\<lparr>tablets := mapPut t ?x (tablets s),
             world := trackAll addReference (map (getDiskUri env) (optList (Some new))) (world s)\<rparr>"
  note on = onTablet_splice [OF assms(1) fr assms(4,5), of env "Some new"]
  have nl: "\<not> isLogReplacement env old"
    using assms(5,6) by (cases old) (auto simp: isLogReplacement_def)
  have f1: "mapFind t (tablets ?s1) = Some ?x" by simp
  have "tablet_wf ?x" using assms(2) by simp
  from requestSplit_ok [OF f1 this] obtain s' b where rs: "requestSplit env t ?s1 = Inr s'"
    "tabletAt s' = (tabletAt ?s1)(t := ?x\<lparr>splitPending := b\<rparr>)" "dag s' = dag ?s1"
    "\<forall>u. (mapFind u (tablets s') = None) = (mapFind u (tablets ?s1) = None)" by blast
  have "tabletReplaceFragments env old new t s = Inr s'"
    using assms(1,5) nl on rs(1)
    by (simp add: tabletReplaceFragments.simps derefTablet_def finishReplace_def)
  moreover have "tabletAt s' = (tabletAt s)(t := ?x\<lparr>splitPending := b\<rparr>)"
    unfolding rs(2) by (auto simp: tabletAt_def)
  moreover have "sameTablets s s'" using rs(4) assms(1) by (simp add: sameTablets_def)
  ultimately show ?thesis using fr rs(3) by (auto simp: splicedAt_def)
qed

lemma tablet_remove:
  assumes "mapFind t (tablets s) = Some x" "segment old (fragments x)" "distinct (fragments x)" "old \<noteq> []"
  shows "\<exists>s' y. onTablet t (removeFragments env old) s = Inr s' \<and> splicedAt env old None x y \<and>
    tabletAt s' = (tabletAt s)(t := y) \<and> dag s' = dag s \<and> sameTablets s s'"
proof -
  obtain pre post where fr: "fragments x = pre @ old @ post" using assms(2) unfolding segment_def by blast
  let ?x = "splicedTablet env old None pre post x"
  have "removeFragments env old = replaceFragmentsInternal env old None"
    by (simp add: removeFragments_def fun_eq_iff)
  then have on: "onTablet t (removeFragments env old) s = Inr (s\<lparr>tablets := mapPut t ?x (tablets s),
           world := trackAll addReference (map (getDiskUri env) (optList None)) (world s)\<rparr>)"
    using onTablet_splice [OF assms(1) fr assms(3,4), of env None] by simp
  have "splicedAt env old None x ?x" using fr splicedTablet_pending unfolding splicedAt_def by metis
  moreover have "sameTablets s (s\<lparr>tablets := mapPut t ?x (tablets s), world := w\<rparr>)" for w
    using assms(1) by (simp add: sameTablets_def)
  moreover have "tabletAt (s\<lparr>tablets := mapPut t ?x (tablets s), world := w\<rparr>) = (tabletAt s)(t := ?x)" for w
    by (auto simp: tabletAt_def)
  moreover have "dag (s\<lparr>tablets := mapPut t ?x (tablets s), world := w\<rparr>) = dag s" for w by simp
  ultimately show ?thesis using on by blast
qed

text \<open>The edges after a replacement in a tablet.\<close>

definition movedEdges :: "nat list \<Rightarrow> nat option \<Rightarrow> nat set \<Rightarrow> (nat \<times> nat) set \<Rightarrow> (nat \<times> nat) set" where
  "movedEdges adj new T E = (E - T \<times> set adj) \<union> T \<times> set (optList new)"

definition replaceable :: "Fragments \<Rightarrow> nat list \<Rightarrow> Server \<Rightarrow> nat \<Rightarrow> bool" where
  "replaceable env adj s t \<longleftrightarrow> (\<exists>x. mapFind t (tablets s) = Some x \<and> tablet_wf x \<and>
     segment adj (fragments x) \<and> distinct (fragments x))"

definition graphReady :: "Fragments \<Rightarrow> nat list \<Rightarrow> Server \<Rightarrow> bool" where
  "graphReady env adj s \<longleftrightarrow> dag_inv (dag s) \<and> adj \<noteq> [] \<and>
     (\<forall>f\<in>set adj. isImmutable env f \<and> hasStats (dag s) f \<and> sizesOk env (tabletAt s) (dag s) f)"

lemma addRanges_cong:
  assumes "\<And>t. minRow (tab' t) = minRow (tab t) \<and> maxRow (tab' t) = maxRow (tab t)"
  shows "addRanges tab' ts rs = addRanges tab ts rs"
proof (induction ts arbitrary: rs)
  case (Cons t ts)
  have "getRows (tab' t) = getRows (tab t)" using assms by (simp add: getRows_def)
  then show ?case using Cons by (cases "getRows (tab t)") simp_all
qed simp

lemma replaceInternal_ok:
  assumes all: "graphReady env F s" "set adj \<subseteq> set F" "adj \<noteq> []" and t: "replaceable env adj s t"
    and new: "\<forall>f\<in>set (optList new). f \<notin> set F"
  shows "\<exists>s' y. replaceInternal env t adj new s = Inr s' \<and> splicedAt env adj new (tabletAt s t) y \<and>
    tabletAt s' = (tabletAt s)(t := y) \<and> edges (dag s') = movedEdges adj new {t} (edges (dag s)) \<and>
    graphReady env F s' \<and> sameTablets s s'"
proof -
  obtain x where x: "mapFind t (tablets s) = Some x" "tablet_wf x" "segment adj (fragments x)" "distinct (fragments x)"
    using t unfolding replaceable_def by blast
  have at: "tabletAt s t = x" by (rule find_at [OF x(1)])
  have ready: "\<forall>f\<in>set F. isImmutable env f \<and> hasStats (dag s) f \<and> sizesOk env (tabletAt s) (dag s) f"
    using all(1) unfolding graphReady_def by blast
  have r: "dag_inv (dag s)" "adj \<noteq> []" "\<forall>f\<in>set adj. isImmutable env f"
    "\<forall>f\<in>set adj. hasStats (dag s) f \<and> sizesOk env (tabletAt s) (dag s) f"
    using all unfolding graphReady_def by blast+
  obtain d where d: "detachAll env (tabletAt s) t adj (dag s) = Inr d" "dag_inv d"
    "edges d = edges (dag s) - {t} \<times> set adj" "\<forall>g. hasStats d g = hasStats (dag s) g"
    "\<forall>g. tabletsOf d g \<subseteq> tabletsOf (dag s) g"
    using detachAll_edges [OF r(4,1)] by blast
  define d' where "d' = (case new of None \<Rightarrow> d | Some f \<Rightarrow> dagAddFragment t f d)"
  have d': "dag_inv d'" "edges d' = movedEdges adj new {t} (edges (dag s))"
    using addFragment_edges [OF d(2), of t] d(2,3)
    by (cases new; simp add: d'_def movedEdges_def optList_def)+
  have stats: "hasStats d' g = hasStats (dag s) g" for g
    using d(4) by (cases new) (simp_all add: d'_def hasStats_def dagAddFragment_def)
  have tabs: "tabletsOf d' g \<subseteq> tabletsOf (dag s) g" if "g \<in> set F" for g
    using d(5) new that by (cases new) (auto simp: d'_def dagAddFragment_def tabletsOf_def optList_def)
  let ?s = "s\<lparr>dag := d'\<rparr>"
  have fx: "mapFind t (tablets ?s) = Some x" using x(1) by simp
  obtain s' y where s': "replaceInternal env t adj new s = Inr s'" "splicedAt env adj new x y"
    "tabletAt s' = (tabletAt ?s)(t := y)" "dag s' = d'" "sameTablets ?s s'"
  proof (cases new)
    case None
    then show ?thesis
      using tablet_remove [OF fx x(3,4) r(2), of env] that d(1) by (auto simp: replaceInternal_def d'_def)
  next
    case (Some f)
    then show ?thesis
      using disk_replace [OF fx x(2,3,4) r(2,3), of f] that d(1) by (auto simp: replaceInternal_def d'_def)
  qed
  have tab: "tabletAt s' = (tabletAt s)(t := y)" unfolding s'(3) by (auto simp: tabletAt_def)
  have rng: "minRow (tabletAt s' u) = minRow (tabletAt s u) \<and> maxRow (tabletAt s' u) = maxRow (tabletAt s u)" for u
    using splicedAt_range [OF s'(2)] at unfolding tab by simp
  have "sizesOk env (tabletAt s') (dag s') f" if "f \<in> set F" for f
    using ready that tabs [OF that] unfolding sizesOk_def s'(4) addRanges_cong [of "tabletAt s'" "tabletAt s", OF rng]
    by (metis subset_trans)
  then have "graphReady env F s'"
    using all(1) ready stats d'(1) unfolding graphReady_def s'(4) by blast
  then show ?thesis
    using s'(1,2,4,5) tab d'(2) at by (auto simp: sameTablets_def)
qed

subsection \<open>Replacing in all tablets of a range\<close>

text \<open>Only the tablets in the range have to hold the sequence.\<close>

definition replaceableIn :: "Fragments \<Rightarrow> string Interval \<Rightarrow> nat list \<Rightarrow> Server \<Rightarrow> nat \<Rightarrow> bool" where
  "replaceableIn env r adj s t \<longleftrightarrow> (\<exists>x. mapFind t (tablets s) = Some x \<and> tablet_wf x \<and>
     (intervalContainsInterval (<) r (tabletRange x) \<longrightarrow> replaceable env adj s t))"

lemma replaceLoop_ok:
  assumes "set adj \<subseteq> set F" "adj \<noteq> []" "\<forall>f\<in>set (optList new). f \<notin> set F"
    and "graphReady env F s" "\<forall>t\<in>set ts. replaceableIn env r adj s t" "distinct ts"
  shows "\<exists>s'. replaceLoop env r adj new ts s = Inr s' \<and> graphReady env F s' \<and> sameTablets s s' \<and>
    (let T = {t \<in> set ts. intervalContainsInterval (<) r (tabletRange (tabletAt s t))} in
     edges (dag s') = movedEdges adj new T (edges (dag s)) \<and>
     (\<forall>t. if t \<in> T then splicedAt env adj new (tabletAt s t) (tabletAt s' t) else tabletAt s' t = tabletAt s t))"
  using assms(4-)
proof (induction ts arbitrary: s)
  case Nil
  then show ?case by (simp add: movedEdges_def sameTablets_def)
next
  case (Cons t ts)
  obtain x where x: "mapFind t (tablets s) = Some x" "tablet_wf x"
    using Cons.prems(2) unfolding replaceableIn_def by auto
  have at: "tabletAt s t = x" by (rule find_at [OF x(1)])
  let ?in = "intervalContainsInterval (<) r (tabletRange x)"
  let ?T = "\<lambda>ts s. {t \<in> set ts. intervalContainsInterval (<) r (tabletRange (tabletAt s t))}"
  show ?case
  proof (cases ?in)
    case False
    then have loop: "replaceLoop env r adj new (t # ts) s = replaceLoop env r adj new ts s"
      by (simp add: derefTablet_def x getRows_wf)
    have "?T (t # ts) s = ?T ts s" using False at by auto
    then show ?thesis
      unfolding loop using Cons.IH [OF Cons.prems(1)] Cons.prems(2,3) by simp
  next
    case True
    obtain s1 y where s1: "replaceInternal env t adj new s = Inr s1" "splicedAt env adj new (tabletAt s t) y"
      "tabletAt s1 = (tabletAt s)(t := y)" "edges (dag s1) = movedEdges adj new {t} (edges (dag s))"
      "graphReady env F s1" "sameTablets s s1"
      using replaceInternal_ok [OF Cons.prems(1) assms(1,2) _ assms(3), of t] Cons.prems(2) True x(1)
      unfolding replaceableIn_def by auto
    have rep: "\<forall>u\<in>set ts. replaceableIn env r adj s1 u"
    proof
      fix u assume u: "u \<in> set ts"
      then have "u \<noteq> t" using Cons.prems(3) by auto
      obtain z where z: "mapFind u (tablets s) = Some z" "tablet_wf z"
        "intervalContainsInterval (<) r (tabletRange z) \<longrightarrow> segment adj (fragments z) \<and> distinct (fragments z)"
        using Cons.prems(2) u unfolding replaceableIn_def replaceable_def by auto
      have "tabletAt s1 u = z" using s1(3) find_at [OF z(1)] \<open>u \<noteq> t\<close> by simp
      moreover obtain z' where "mapFind u (tablets s1) = Some z'"
        using s1(6) z(1) unfolding sameTablets_def by (metis not_None_eq option.distinct(1))
      ultimately show "replaceableIn env r adj s1 u"
        using z find_at [of u s1 z'] unfolding replaceableIn_def replaceable_def by auto
    qed
    have loop: "replaceLoop env r adj new (t # ts) s = replaceLoop env r adj new ts s1"
      using True s1(1) by (simp add: derefTablet_def x getRows_wf)
    have T: "?T (t # ts) s = insert t (?T ts s1)"
      using True at s1(3) Cons.prems(3) by auto
    obtain s' where s': "replaceLoop env r adj new ts s1 = Inr s'" "graphReady env F s'" "sameTablets s1 s'"
      "edges (dag s') = movedEdges adj new (?T ts s1) (edges (dag s1))"
      "\<forall>u. if u \<in> ?T ts s1 then splicedAt env adj new (tabletAt s1 u) (tabletAt s' u) else tabletAt s' u = tabletAt s1 u"
      using Cons.IH [OF s1(5) rep] Cons.prems(3) by (auto simp: Let_def)
    have nt: "t \<notin> ?T ts s1" using Cons.prems(3) by simp
    have e: "edges (dag s') = movedEdges adj new (insert t (?T ts s1)) (edges (dag s))"
      unfolding s'(4) s1(4) using assms(1,3) by (auto simp: movedEdges_def)
    have "if u \<in> insert t (?T ts s1) then splicedAt env adj new (tabletAt s u) (tabletAt s' u) else tabletAt s' u = tabletAt s u" for u
      using s'(5) [rule_format, of u] s1(2,3) nt by (cases "u = t") auto
    then show ?thesis
      unfolding loop Let_def T using s'(1-3) s1(6) e unfolding sameTablets_def by blast
  qed
qed

lemma intersectTablets_mem:
  "t \<in> intersectTablets fs d A \<longleftrightarrow> t \<in> A \<and> (\<forall>f\<in>set fs. t \<in> tabletsOf d f)"
  by (induction fs arbitrary: A) (auto simp: tabletsOf_def mapAt_def split: option.splits)

lemma activeIntersection:
  "fs \<noteq> [] \<Longrightarrow> getActiveTabletIntersection fs d = {t. \<forall>f\<in>set fs. (t, f) \<in> edges d}"
  by (cases fs) (auto simp: getActiveTabletIntersection_def intersectTablets_mem edges_def tabletsOf_def mapAt_def
      split: option.splits)

subsection \<open>Forwarding log replacements to clones\<close>

text \<open>Following the clones of a log from a tablet goes through these tablets.\<close>

fun cloneChain :: "nat \<Rightarrow> Server \<Rightarrow> nat list \<Rightarrow> bool" where
  "cloneChain lg s [] = False"
| "cloneChain lg s [t] = (mapFind lg (clonedLogs (tabletAt s t)) = None)"
| "cloneChain lg s (t # u # ts) = (mapFind lg (clonedLogs (tabletAt s t)) = Some u \<and> cloneChain lg s (u # ts))"

definition holdsLog :: "nat \<Rightarrow> Server \<Rightarrow> nat \<Rightarrow> bool" where
  "holdsLog lg s t \<longleftrightarrow> (\<exists>x. mapFind t (tablets s) = Some x \<and> tablet_wf x \<and>
     lg \<in> set (fragments x) \<and> distinct (fragments x))"

definition logReplaced :: "nat \<Rightarrow> nat \<Rightarrow> Tablet \<Rightarrow> Tablet \<Rightarrow> bool" where
  "logReplaced lg new x y \<longleftrightarrow> (\<exists>pre post. fragments x = pre @ [lg] @ post \<and> fragments y = pre @ [new] @ post) \<and>
     clonedLogs y = mapErase lg (clonedLogs x) \<and> duplicatedLogs y = duplicatedLogs x"

lemma erase_absent: "mapFind k m = None \<Longrightarrow> mapErase k m = m"
  unfolding mapErase_def find_None by (rule filter_True) force

lemma finishReplace_log:
  assumes "mapFind t (tablets s) = Some x" "tablet_wf x" "\<not> isImmutable env lg" "dag_inv (dag s)"
  shows "\<exists>s' b. finishReplace env [lg] new t s = Inr s' \<and> tabletAt s' = (tabletAt s)(t := x\<lparr>splitPending := b\<rparr>) \<and>
    dag_inv (dag s') \<and> edges (dag s') = insert (t, new) (edges (dag s)) \<and> sameTablets s s'"
proof -
  let ?s = "s\<lparr>dag := dagAddFragment t new (dag s)\<rparr>"
  have f: "mapFind t (tablets ?s) = Some x" using assms(1) by simp
  obtain s' b where s': "requestSplit env t ?s = Inr s'" "tabletAt s' = (tabletAt ?s)(t := x\<lparr>splitPending := b\<rparr>)"
    "dag s' = dag ?s" "\<forall>u. (mapFind u (tablets s') = None) = (mapFind u (tablets ?s) = None)"
    using requestSplit_ok [OF f assms(2)] by blast
  have "finishReplace env [lg] new t s = Inr s'"
    using s'(1) assms(3) by (simp add: finishReplace_def isLogReplacement_def)
  moreover have "tabletAt s' = (tabletAt s)(t := x\<lparr>splitPending := b\<rparr>)"
    unfolding s'(2) by (auto simp: tabletAt_def)
  moreover have "sameTablets s s'" using s'(4) by (simp add: sameTablets_def)
  moreover have "dag_inv (dag s')" "edges (dag s') = insert (t, new) (edges (dag s))"
    using addFragment_edges [OF assms(4)] s'(3) by simp_all
  ultimately show ?thesis by blast
qed

text \<open>The first part of a replacement of a log in one tablet.\<close>

lemma log_unfold:
  assumes "holdsLog lg s t" "\<not> isImmutable env lg"
  obtains x pre post where "mapFind t (tablets s) = Some x" "tablet_wf x" "fragments x = pre @ [lg] @ post"
    "distinct (fragments x)"
    "\<And>s1. s1 = s\<lparr>tablets := mapPut t (splicedTablet env [lg] (Some new) pre post x) (tablets s),
           world := trackAll addReference (map (getDiskUri env) (optList (Some new))) (world s)\<rparr> \<Longrightarrow>
     tabletReplaceFragments env [lg] new t s =
      (case mapFind lg (clonedLogs x) of
         None \<Rightarrow> finishReplace env [lg] new t s1
       | Some c \<Rightarrow> bind_res (tabletReplaceFragments env [lg] new c (dropClone t lg s1)) (finishReplace env [lg] new t))"
proof -
  obtain x where x: "mapFind t (tablets s) = Some x" "tablet_wf x" "lg \<in> set (fragments x)" "distinct (fragments x)"
    using assms(1) unfolding holdsLog_def by blast
  obtain pre post where fr: "fragments x = pre @ [lg] @ post" using split_list [OF x(3)] by auto
  have found: "stdSearch (fragments x) [lg] \<noteq> length (fragments x)"
    using stdSearch_none [of "fragments x" "[lg]" pre post] fr by auto
  note on = onTablet_splice [OF x(1) fr x(4), of env "Some new"]
  show ?thesis
  proof (rule that [OF x(1,2) fr x(4)])
    fix s1 assume s1: "s1 = s\<lparr>tablets := mapPut t (splicedTablet env [lg] (Some new) pre post x) (tablets s),
           world := trackAll addReference (map (getDiskUri env) (optList (Some new))) (world s)\<rparr>"
    have "clonedLogs (tabletAt s1 t) = clonedLogs x" unfolding s1 by (simp add: tabletAt_def)
    then show "tabletReplaceFragments env [lg] new t s =
      (case mapFind lg (clonedLogs x) of
         None \<Rightarrow> finishReplace env [lg] new t s1
       | Some c \<Rightarrow> bind_res (tabletReplaceFragments env [lg] new c (dropClone t lg s1)) (finishReplace env [lg] new t))"
      using x(1) found assms(2) on unfolding s1
      by (subst tabletReplaceFragments.simps) (simp add: derefTablet_def isLogReplacement_def split: option.split)
  qed
qed

lemma holdsLog_mono:
  assumes "holdsLog lg s u" "tabletAt s' u = tabletAt s u" "sameTablets s s'"
  shows "holdsLog lg s' u"
proof -
  obtain x where x: "mapFind u (tablets s) = Some x" "tablet_wf x" "lg \<in> set (fragments x)" "distinct (fragments x)"
    using assms(1) unfolding holdsLog_def by blast
  obtain y where y: "mapFind u (tablets s') = Some y"
    using assms(3) x(1) unfolding sameTablets_def by (metis not_None_eq option.distinct(1))
  have "y = x" using find_at [OF x(1)] find_at [OF y] assms(2) by simp
  then show ?thesis using x y unfolding holdsLog_def by blast
qed

lemma cloneChain_cong:
  assumes "\<forall>t\<in>set ids. tabletAt s' t = tabletAt s t"
  shows "cloneChain lg s' ids = cloneChain lg s ids"
  using assms by (induction lg s ids rule: cloneChain.induct) auto

lemma sameTablets_trans: "sameTablets a b \<Longrightarrow> sameTablets b c \<Longrightarrow> sameTablets a c"
  by (simp add: sameTablets_def)

lemma forward_ok:
  assumes "cloneChain lg s ids" "distinct ids" "\<forall>t\<in>set ids. holdsLog lg s t" "\<not> isImmutable env lg" "dag_inv (dag s)"
  shows "\<exists>s'. tabletReplaceFragments env [lg] new (hd ids) s = Inr s' \<and> sameTablets s s' \<and> dag_inv (dag s') \<and>
    edges (dag s') = edges (dag s) \<union> set ids \<times> {new} \<and>
    (\<forall>t. if t \<in> set ids then logReplaced lg new (tabletAt s t) (tabletAt s' t) else tabletAt s' t = tabletAt s t)"
  using assms
proof (induction ids arbitrary: s)
  case (Cons t ids)
  have hl: "holdsLog lg s t" using Cons.prems(3) by simp
  obtain x pre post where x: "mapFind t (tablets s) = Some x" "tablet_wf x" "fragments x = pre @ [lg] @ post"
    and rec: "\<And>s1. s1 = s\<lparr>tablets := mapPut t (splicedTablet env [lg] (Some new) pre post x) (tablets s),
           world := trackAll addReference (map (getDiskUri env) (optList (Some new))) (world s)\<rparr> \<Longrightarrow>
     tabletReplaceFragments env [lg] new t s =
      (case mapFind lg (clonedLogs x) of
         None \<Rightarrow> finishReplace env [lg] new t s1
       | Some c \<Rightarrow> bind_res (tabletReplaceFragments env [lg] new c (dropClone t lg s1)) (finishReplace env [lg] new t))"
    using log_unfold [OF hl Cons.prems(4)] by metis
  let ?x = "splicedTablet env [lg] (Some new) pre post x"
  define s1 where "s1 = s\<lparr>tablets := mapPut t ?x (tablets s),
           world := trackAll addReference (map (getDiskUri env) (optList (Some new))) (world s)\<rparr>"
  note rec = rec [OF s1_def]
  have at: "tabletAt s t = x" by (rule find_at [OF x(1)])
  have s1: "mapFind t (tablets s1) = Some ?x" "tabletAt s1 = (tabletAt s)(t := ?x)" "dag s1 = dag s" "sameTablets s s1"
    using x(1) unfolding s1_def by (auto simp: tabletAt_def sameTablets_def)
  have wf: "tablet_wf ?x" using x(2) by simp
  show ?case
  proof (cases ids)
    case Nil
    then have none: "mapFind lg (clonedLogs x) = None" using Cons.prems(1) at by simp
    have inv: "dag_inv (dag s1)" using Cons.prems(5) s1(3) by simp
    obtain s' b where s': "finishReplace env [lg] new t s1 = Inr s'"
      "tabletAt s' = (tabletAt s1)(t := ?x\<lparr>splitPending := b\<rparr>)" "dag_inv (dag s')"
      "edges (dag s') = insert (t, new) (edges (dag s1))" "sameTablets s1 s'"
      using finishReplace_log [OF s1(1) wf Cons.prems(4) inv] by blast
    have "logReplaced lg new x (?x\<lparr>splitPending := b\<rparr>)"
      using x(3) erase_absent [OF none] by (auto simp: logReplaced_def optList_def)
    then show ?thesis
      using rec s' s1 none at Nil sameTablets_trans [OF s1(4) s'(5)] by auto
  next
    case (Cons u us)
    have some: "mapFind lg (clonedLogs x) = Some u" using Cons.prems(1) at Cons by simp
    let ?s2 = "dropClone t lg s1"
    have drop: "?s2 = setTablet t (?x\<lparr>clonedLogs := mapErase lg (clonedLogs x)\<rparr>) s1"
      by (simp add: dropClone_def Let_def s1(2))
    have s2: "tabletAt ?s2 = (tabletAt s)(t := ?x\<lparr>clonedLogs := mapErase lg (clonedLogs x)\<rparr>)"
      "mapFind t (tablets ?s2) = Some (?x\<lparr>clonedLogs := mapErase lg (clonedLogs x)\<rparr>)"
      "dag ?s2 = dag s" "sameTablets s ?s2"
      unfolding drop using s1 x(1)
      by (simp add: fun_eq_iff, simp add: setTablet_def, simp add: setTablet_def, simp add: sameTablets_def setTablet_def)
    have same: "\<forall>v\<in>set ids. tabletAt ?s2 v = tabletAt s v" using Cons.prems(2) s2(1) by auto
    have chain: "cloneChain lg ?s2 ids"
      using Cons.prems(1) cloneChain_cong [OF same] Cons by simp
    have holds: "\<forall>v\<in>set ids. holdsLog lg ?s2 v"
      using holdsLog_mono [OF _ _ s2(4)] same Cons.prems(3) by simp
    have inv: "dag_inv (dag ?s2)" using Cons.prems(5) s2(3) by simp
    have d: "distinct ids" using Cons.prems(2) by simp
    obtain s3 where s3: "tabletReplaceFragments env [lg] new (hd ids) ?s2 = Inr s3" "sameTablets ?s2 s3" "dag_inv (dag s3)"
      "edges (dag s3) = edges (dag ?s2) \<union> set ids \<times> {new}"
      "\<forall>v. if v \<in> set ids then logReplaced lg new (tabletAt ?s2 v) (tabletAt s3 v) else tabletAt s3 v = tabletAt ?s2 v"
      using Cons.IH [OF chain d holds Cons.prems(4) inv] by blast
    have t3: "tabletAt s3 t = ?x\<lparr>clonedLogs := mapErase lg (clonedLogs x)\<rparr>"
      using s3(5) [rule_format, of t] Cons.prems(2) s2(1) by simp
    obtain y where y: "mapFind t (tablets s3) = Some y"
      using s3(2) s2(2) unfolding sameTablets_def by (metis not_None_eq option.distinct(1))
    have yx: "y = ?x\<lparr>clonedLogs := mapErase lg (clonedLogs x)\<rparr>" using find_at [OF y] t3 by simp
    then have wfy: "tablet_wf y" using wf by (simp add: tablet_wf_def tabletRange_def)
    obtain s' b where s': "finishReplace env [lg] new t s3 = Inr s'"
      "tabletAt s' = (tabletAt s3)(t := y\<lparr>splitPending := b\<rparr>)" "dag_inv (dag s')"
      "edges (dag s') = insert (t, new) (edges (dag s3))" "sameTablets s3 s'"
      using finishReplace_log [OF y wfy Cons.prems(4) s3(3)] by blast
    have run: "tabletReplaceFragments env [lg] new (hd (t # ids)) s = Inr s'"
      using rec some s3(1) s'(1) Cons by simp
    have e: "edges (dag s') = edges (dag s) \<union> set (t # ids) \<times> {new}"
      unfolding s'(4) s3(4) s2(3) by auto
    have "logReplaced lg new x (y\<lparr>splitPending := b\<rparr>)"
      using x(3) unfolding yx by (auto simp: logReplaced_def optList_def)
    then have all: "if v \<in> set (t # ids) then logReplaced lg new (tabletAt s v) (tabletAt s' v) else tabletAt s' v = tabletAt s v" for v
      using s3(5) [rule_format, of v] Cons.prems(2) unfolding s'(2) by (cases "v = t") (auto simp: s2(1) at)
    show ?thesis
      using run e all s'(3) sameTablets_trans [OF sameTablets_trans [OF s2(4) s3(2)] s'(5)] by blast
  qed
qed simp

text \<open>A second notification of a tablet that has seen the replacement of a log through a clone.\<close>

lemma duplicate_ignored:
  assumes "mapFind t (tablets s) = Some x" "lg \<notin> set (fragments x)" "\<not> isImmutable env lg" "lg \<in> duplicatedLogs x"
  shows "tabletReplaceFragments env [lg] new t s =
    Inr (setTablet t (x\<lparr>duplicatedLogs := duplicatedLogs x - {lg}\<rparr>) s)"
proof -
  have "stdSearch (fragments x) [lg] = length (fragments x)"
  proof (rule ccontr)
    assume "stdSearch (fragments x) [lg] \<noteq> length (fragments x)"
    from stdSearch_found(1) [OF this] have "lg \<in> set (fragments x)" by (metis in_set_conv_decomp append_Cons append_Nil)
    with assms(2) show False by simp
  qed
  then show ?thesis
    using assms by (subst tabletReplaceFragments.simps) (simp add: derefTablet_def isLogReplacement_def)
qed

subsection \<open>Properties\<close>

text \<open>
  C12. Replacing an adjacent sequence in the graph, over tablets that hold it, replaces it in
  exactly those active tablets whose rows lie in the range: their chains are spliced and their
  edges moved to the new fragment, in both directions of the graph, and no other tablet or edge
  changes. This relies on cached statistics of the replaced fragments, which the code reads
  without a check.
\<close>
theorem dagReplaceFragments_splices:
  assumes "graphReady env adj s" "new \<notin> set adj"
    and "\<forall>t\<in>getActiveTabletIntersection adj (dag s). replaceable env adj s t"
  shows "\<exists>s'. dagReplaceFragments env r adj new s = Inr s' \<and> dag_inv (dag s') \<and>
    (let T = {t. (\<forall>f\<in>set adj. (t, f) \<in> edges (dag s)) \<and> intervalContainsInterval (<) r (tabletRange (tabletAt s t))} in
     edges (dag s') = (edges (dag s) - T \<times> set adj) \<union> T \<times> {new} \<and>
     (\<forall>t. if t \<in> T
          then \<exists>pre post. fragments (tabletAt s t) = pre @ adj @ post \<and> fragments (tabletAt s' t) = pre @ [new] @ post
          else tabletAt s' t = tabletAt s t))"
proof -
  have adj: "adj \<noteq> []" and inv: "dag_inv (dag s)" using assms(1) unfolding graphReady_def by blast+
  let ?A = "getActiveTabletIntersection adj (dag s)"
  have A: "?A = {t. \<forall>f\<in>set adj. (t, f) \<in> edges (dag s)}" by (rule activeIntersection [OF adj])
  obtain f where "f \<in> set adj" using adj by (cases adj) auto
  then have "?A \<subseteq> tabletsOf (dag s) f" unfolding A by (auto simp: edges_def)
  then have "finite ?A" using inv finite_subset unfolding dag_inv_def by blast
  then have el: "set (elems ?A) = ?A" "distinct (elems ?A)" by (simp_all add: elems_def)
  have rep: "\<forall>t\<in>set (elems ?A). replaceableIn env r adj s t"
    using assms(3) el(1) unfolding replaceableIn_def replaceable_def by auto
  have new: "\<forall>f\<in>set (optList (Some new)). f \<notin> set adj" using assms(2) by (simp add: optList_def)
  obtain s' where s': "replaceLoop env r adj (Some new) (elems ?A) s = Inr s'" "graphReady env adj s'"
    "edges (dag s') = movedEdges adj (Some new) {t \<in> ?A. intervalContainsInterval (<) r (tabletRange (tabletAt s t))} (edges (dag s))"
    "\<forall>t. if t \<in> {t \<in> ?A. intervalContainsInterval (<) r (tabletRange (tabletAt s t))}
      then splicedAt env adj (Some new) (tabletAt s t) (tabletAt s' t) else tabletAt s' t = tabletAt s t"
    using replaceLoop_ok [OF subset_refl adj new assms(1) rep el(2)] unfolding Let_def el(1) by blast
  have "dagReplaceFragments env r adj new s = Inr s'" using adj s'(1) by (simp add: dagReplaceFragments_def)
  moreover have "\<exists>pre post. fragments x = pre @ adj @ post \<and> fragments y = pre @ [new] @ post"
    if "splicedAt env adj (Some new) x y" for x y
  proof -
    obtain pre post b where "fragments x = pre @ adj @ post"
      "y = (splicedTablet env adj (Some new) pre post x)\<lparr>splitPending := b\<rparr>"
      using \<open>splicedAt env adj (Some new) x y\<close> unfolding splicedAt_def by blast
    then have "fragments x = pre @ adj @ post" "fragments y = pre @ [new] @ post"
      by (simp_all add: optList_def)
    then show ?thesis by blast
  qed
  ultimately show ?thesis
    using s'(2-4) unfolding A movedEdges_def Let_def optList_def graphReady_def by (intro exI [of _ s']) (auto split: if_splits)
qed

definition server0 :: Server where
  "server0 = \<lparr>tablets = [(7, tablet0 [1, 2, 3])], world = world0,
     dag = dag0\<lparr>activeFragStats :=
       [(1, \<lparr>diskSize = 100, activeDiskSize = 100, nStartingTablets = 1\<rparr>),
        (2, \<lparr>diskSize = 100, activeDiskSize = 100, nStartingTablets = 1\<rparr>)]\<rparr>,
     splitRequests = []\<rparr>"

lemma dag0_edges: "dag_inv dag0" "edges dag0 = {(7, 1), (7, 2), (7, 3)}"
proof -
  have ops: "dag0 = fold applyDag [AddEdge 7 1, AddEdge 7 2, AddEdge 7 3] FragDag0"
    by (simp add: dag0_def)
  show "dag_inv dag0" "edges dag0 = {(7, 1), (7, 2), (7, 3)}"
    unfolding ops using history_edges [OF dag_inv_0(1), of "[AddEdge 7 1, AddEdge 7 2, AddEdge 7 3]"]
    by (auto simp: dag_inv_0)
qed

lemma server0_facts:
  "dag_inv (dag server0)" "edges (dag server0) = {(7, 1), (7, 2), (7, 3)}"
  "tabletAt server0 = (\<lambda>t. if t = 7 then tablet0 [1, 2, 3] else tablet0 [])"
proof -
  have "sameGraph dag0 (dag server0)" by (simp add: sameGraph_def server0_def)
  from sameGraph_edges [OF this] show "dag_inv (dag server0)" "edges (dag server0) = {(7, 1), (7, 2), (7, 3)}"
    using dag0_edges by simp_all
  show "tabletAt server0 = (\<lambda>t. if t = 7 then tablet0 [1, 2, 3] else tablet0 [])"
    by (auto simp: tabletAt_def mapAt_def mapFind_def server0_def)
qed

lemma server0_ready: "graphReady fragments0 [1, 2] server0"
proof -
  have sz: "\<exists>sz. bind_res (addRanges (\<lambda>t. if t = 7 then tablet0 [1, 2, 3] else tablet0 []) (elems ts) IntervalSet0)
      (getDiskSizeSet fragments0 f) = Inr sz" if "ts \<subseteq> {7}" for ts f
  proof -
    have size: "getDiskSize fragments0 g i = 100" for g i by (simp add: fragments0_def)
    have "ts = {} \<or> ts = {7}" using that by blast
    moreover have "addRanges (\<lambda>t. if t = 7 then tablet0 [1, 2, 3] else tablet0 []) (elems {}) IntervalSet0 = Inr \<lparr>points = []\<rparr>"
      "addRanges (\<lambda>t. if t = 7 then tablet0 [1, 2, 3] else tablet0 []) (elems {7}) IntervalSet0 =
        Inr \<lparr>points = [mk_point [] PT_INFINITE_LOWER_BOUND, mk_point [] PT_INFINITE_UPPER_BOUND]\<rparr>"
      by code_simp+
    ultimately show ?thesis
      by (auto simp: getDiskSizeSet_def Interval2_def point_pred_defs point_type_defs)
  qed
  have sub: "tabletsOf (dag server0) f \<subseteq> {7}" for f
    using server0_facts(2) by (auto simp: edges_def)
  have "sizesOk fragments0 (tabletAt server0) (dag server0) f" for f
    unfolding sizesOk_def server0_facts(3) using sz sub by (meson subset_trans)
  moreover have "\<forall>f\<in>set [1, 2]. isImmutable fragments0 f \<and> hasStats (dag server0) f"
    by (simp add: fragments0_def hasStats_def server0_def mapFind_def)
  ultimately show ?thesis
    using server0_facts(1) unfolding graphReady_def by blast
qed

theorem dagReplaceFragments_splices_witness:
  "\<exists>s'. dagReplaceFragments fragments0 (setInfinite [] (Interval0 [])) [1, 2] 9 server0 = Inr s' \<and>
     fragments (tabletAt s' 7) = [9, 3] \<and> edges (dag s') = {(7, 3), (7, 9)}"
proof -
  let ?r = "setInfinite [] (Interval0 []) :: string Interval"
  have rep: "replaceable fragments0 [1, 2] server0 7"
  proof -
    have "segment [1, 2] (fragments (tablet0 [1, 2, 3]))"
      unfolding segment_def by (rule exI [of _ "[]"], rule exI [of _ "[3]"]) (simp add: tablet0_def)
    moreover have "mapFind 7 (tablets server0) = Some (tablet0 [1, 2, 3])" "distinct (fragments (tablet0 [1, 2, 3]))"
      by (simp_all add: server0_def mapFind_def tablet0_def)
    ultimately show ?thesis using example_facts(2) [of "[1, 2, 3]"] unfolding replaceable_def by blast
  qed
  have active: "\<forall>t\<in>getActiveTabletIntersection [1, 2] (dag server0). replaceable fragments0 [1, 2] server0 t"
    using rep by (simp add: activeIntersection server0_facts(2))
  have inside: "intervalContainsInterval (<) ?r (tabletRange (tablet0 [1, 2, 3]))"
    by code_simp
  have T: "{t. (\<forall>f\<in>set [1, 2]. (t, f) \<in> edges (dag server0)) \<and>
      intervalContainsInterval (<) ?r (tabletRange (tabletAt server0 t))} = {7}"
    unfolding server0_facts(2,3) using inside by auto
  have nm: "(9::nat) \<notin> set [1, 2]" by simp
  obtain s' where s': "dagReplaceFragments fragments0 ?r [1, 2] 9 server0 = Inr s'"
    "edges (dag s') = (edges (dag server0) - {7} \<times> set [1, 2]) \<union> {7} \<times> {9}"
    "\<exists>pre post. fragments (tabletAt server0 7) = pre @ [1, 2] @ post \<and> fragments (tabletAt s' 7) = pre @ [9] @ post"
  proof -
    from dagReplaceFragments_splices [OF server0_ready nm active, of ?r] obtain s' where
      "dagReplaceFragments fragments0 ?r [1, 2] 9 server0 = Inr s'"
      "edges (dag s') = (edges (dag server0) - {7} \<times> set [1, 2]) \<union> {7} \<times> {9}"
      "\<forall>t. if t \<in> {7}
        then \<exists>pre post. fragments (tabletAt server0 t) = pre @ [1, 2] @ post \<and> fragments (tabletAt s' t) = pre @ [9] @ post
        else tabletAt s' t = tabletAt server0 t" unfolding T Let_def by blast
    moreover from this(3) have "\<exists>pre post. fragments (tabletAt server0 7) = pre @ [1, 2] @ post \<and> fragments (tabletAt s' 7) = pre @ [9] @ post"
      by (metis singletonI)
    ultimately show ?thesis using that by blast
  qed
  have "fragments (tabletAt s' 7) = [9, 3]"
    using s'(3) by (auto simp: server0_facts(3) tablet0_def Cons_eq_append_conv)
  moreover have "edges (dag s') = {(7, 3), (7, 9)}"
    unfolding s'(2) server0_facts(2) by auto
  ultimately show ?thesis using s'(1) by blast
qed

text \<open>
  C13. When a log is replaced by its serialized fragment in a tablet, the replacement reaches
  every tablet that was split off while it held the log, through the chain of clones; each gets
  the fragment in the log's place, is made known to the graph, and forgets its clone. A later
  notification of a tablet that expects to be told twice is ignored.
\<close>
theorem log_replacement_reaches_clones:
  assumes "cloneChain lg s ids" "distinct ids" "\<forall>t\<in>set ids. holdsLog lg s t" "\<not> isImmutable env lg"
    and "dag_inv (dag s)" "new \<noteq> lg"
  shows "\<exists>s'. tabletReplaceFragments env [lg] new (hd ids) s = Inr s' \<and> dag_inv (dag s') \<and>
    edges (dag s') = edges (dag s) \<union> set ids \<times> {new} \<and>
    (\<forall>t. if t \<in> set ids then logReplaced lg new (tabletAt s t) (tabletAt s' t) else tabletAt s' t = tabletAt s t) \<and>
    (\<forall>t\<in>set ids. lg \<in> duplicatedLogs (tabletAt s t) \<longrightarrow>
       tabletReplaceFragments env [lg] new t s' =
         Inr (setTablet t ((tabletAt s' t)\<lparr>duplicatedLogs := duplicatedLogs (tabletAt s' t) - {lg}\<rparr>) s'))"
proof -
  obtain s' where s': "tabletReplaceFragments env [lg] new (hd ids) s = Inr s'" "sameTablets s s'" "dag_inv (dag s')"
    "edges (dag s') = edges (dag s) \<union> set ids \<times> {new}"
    "\<forall>t. if t \<in> set ids then logReplaced lg new (tabletAt s t) (tabletAt s' t) else tabletAt s' t = tabletAt s t"
    using forward_ok [OF assms(1-5)] by blast
  have "tabletReplaceFragments env [lg] new t s' =
      Inr (setTablet t ((tabletAt s' t)\<lparr>duplicatedLogs := duplicatedLogs (tabletAt s' t) - {lg}\<rparr>) s')"
    if t: "t \<in> set ids" "lg \<in> duplicatedLogs (tabletAt s t)" for t
  proof -
    obtain x where x: "mapFind t (tablets s) = Some x" "lg \<in> set (fragments x)" "distinct (fragments x)"
      using assms(3) t(1) unfolding holdsLog_def by blast
    obtain y where y: "mapFind t (tablets s') = Some y"
      using s'(2) x(1) unfolding sameTablets_def by (metis not_None_eq option.distinct(1))
    have at: "tabletAt s t = x" "tabletAt s' t = y" using find_at [OF x(1)] find_at [OF y] by simp_all
    have r: "logReplaced lg new x y" using s'(5) [rule_format, of t] t(1) at by simp
    then have "lg \<notin> set (fragments y)" "lg \<in> duplicatedLogs y"
      using x(3) assms(6) t(2) at by (auto simp: logReplaced_def)
    then show ?thesis using duplicate_ignored [OF y _ assms(4)] at by simp
  qed
  then show ?thesis using s' by blast
qed

definition serverLogs :: Server where
  "serverLogs = \<lparr>tablets = [(7, tablet0 [1, 12]\<lparr>clonedLogs := [(12, 8)]\<rparr>), (8, tablet0 [12])],
     world = world0, dag = FragDag0, splitRequests = []\<rparr>"

theorem log_replacement_reaches_clones_witness:
  "\<exists>s'. tabletReplaceFragments fragments0 [12] 5 7 serverLogs = Inr s' \<and>
     fragments (tabletAt s' 7) = [1, 5] \<and> fragments (tabletAt s' 8) = [5]"
proof -
  have at: "tabletAt serverLogs 7 = tablet0 [1, 12]\<lparr>clonedLogs := [(12, 8)]\<rparr>" "tabletAt serverLogs 8 = tablet0 [12]"
    by (simp_all add: tabletAt_def mapAt_def mapFind_def serverLogs_def)
  have chain: "cloneChain 12 serverLogs [7, 8]"
    by (simp add: at) (simp add: tablet0_def mapFind_def)
  have "tablet_wf (tablet0 [1, 12]\<lparr>clonedLogs := [(12, 8)]\<rparr>)" "tablet_wf (tablet0 [12])"
    using example_facts(2) [of "[1, 12]"] example_facts(2) [of "[12]"] by (simp_all add: tablet_wf_def tabletRange_def)
  then have holds: "\<forall>t\<in>set [7, 8]. holdsLog 12 serverLogs t"
    by (simp add: holdsLog_def serverLogs_def mapFind_def) (simp add: tablet0_def)
  have m: "\<not> isImmutable fragments0 12" "dag_inv (dag serverLogs)" "(5::nat) \<noteq> 12" "distinct [7, 8 :: nat]"
    by (simp_all add: fragments0_def serverLogs_def dag_inv_0)
  from log_replacement_reaches_clones [OF chain m(4) holds m(1-3)] obtain s' where
    s': "tabletReplaceFragments fragments0 [12] 5 7 serverLogs = Inr s'"
    "\<forall>t. if t \<in> set [7, 8] then logReplaced 12 5 (tabletAt serverLogs t) (tabletAt s' t) else tabletAt s' t = tabletAt serverLogs t"
    by auto
  have "logReplaced 12 5 (tabletAt serverLogs 7) (tabletAt s' 7)" "logReplaced 12 5 (tabletAt serverLogs 8) (tabletAt s' 8)"
    using s'(2) [rule_format, of 7] s'(2) [rule_format, of 8] by simp_all
  then have "fragments (tabletAt s' 7) = [1, 5]" "fragments (tabletAt s' 8) = [5]"
    unfolding at by (auto simp: logReplaced_def tablet0_def Cons_eq_append_conv)
  then show ?thesis using s'(1) by blast
qed

end
