(* ===== verification/SuperTablet.thy ===== *)
theory SuperTablet
  imports TabletServer
begin

section \<open>Tables of several tablets (src/cc/kdi/tablet/SuperTablet.cc, SuperScanner.cc)\<close>

text \<open>
  A super tablet routes the operations on a table to the tablets that hold its rows. Its vector
  of tablets is a list of addresses in the server. A super scanner goes through the tablets of
  its rows one by one; it is closed when a tablet splits, and continues after the last cell that
  it delivered. Super scanners are only made by \<open>SuperTablet::scan\<close>, for predicates without a
  history, so the scanner of a tablet is used without its history filter.
\<close>

record SuperScanner =
  ss_pred :: ScanPredicate
  remainingRows :: "string IntervalSet"
  currentRows :: "string Interval"
  ss_scanner :: "(nat \<times> Scanner) option"
  ss_lastCell :: "Cell option"

text \<open>The weak pointers to scanners are addresses; a scanner that is still in use is in the map.\<close>

record SuperTablet =
  superTablets :: "nat list"
  superScanners :: "nat list"
  liveScanners :: "(nat, SuperScanner) omap"

text \<open>
  The constructor loads the tablets of the table in the order of their configurations; the
  addresses of the new tablets come with the configurations.
\<close>

fun loadTablets ::
  "Fragments \<Rightarrow> (string \<Rightarrow> nat result) \<Rightarrow> string \<Rightarrow> (nat \<times> TabletConfig) list \<Rightarrow> nat list \<times> Server \<Rightarrow>
     (nat list \<times> Server) result" where
  "loadTablets env loader name [] = Inr"
| "loadTablets env loader name ((t, cfg) # cfgs) = (\<lambda>(ts, s).
     bind_res (serverLoad env loader [] name cfg True t s) (\<lambda>s1. loadTablets env loader name cfgs (ts @ [t], s1)))"

definition makeSuperTablet ::
  "Fragments \<Rightarrow> (string \<Rightarrow> nat result) \<Rightarrow> string \<Rightarrow> (nat \<times> TabletConfig) list \<Rightarrow> Server \<Rightarrow>
     (SuperTablet \<times> Server) result" where
  "makeSuperTablet env loader name cfgs s =
     (if cfgs = [] then Inl (RuntimeError (''Table has no tablets on this server: '' @ name))
      else bind_res (loadTablets env loader name cfgs ([], s)) (\<lambda>(ts, s1).
             Inr (\<lparr>superTablets = ts, superScanners = [], liveScanners = []\<rparr>, s1)))"

subsection \<open>Looking up tablets\<close>

text \<open>
  \<open>getTabletInternal\<close> for a row or a point: \<open>lastBelow\<close> compares a tablet's last row with it, and
  \<open>belowFirst\<close> compares it with a tablet's lower bound.
\<close>

definition getTabletInternal ::
  "(string IntervalPoint \<Rightarrow> bool) \<Rightarrow> (string IntervalPoint \<Rightarrow> bool) \<Rightarrow> string \<Rightarrow> Server \<Rightarrow> nat list \<Rightarrow> nat result" where
  "getTabletInternal lastBelow belowFirst row s ts =
     (let i = length (takeWhile (\<lambda>t. lastBelow (maxRow (tabletAt s t))) ts)
      in if i = length ts then Inl (ValueError (''row not on this server: '' @ row))
         else bind_res (derefTablet (ts ! i) s) (\<lambda>x.
              bind_res (getRows x) (\<lambda>r.
                if \<not> belowFirst (lowerBound r) then Inr (ts ! i)
                else Inl (ValueError (''row not on this server: '' @ row)))))"

definition getTablet :: "string \<Rightarrow> Server \<Rightarrow> nat list \<Rightarrow> nat result" where
  "getTablet row = getTabletInternal (\<lambda>p. pointValueLt (<) p row) (valuePointLt (<) row) row"

definition getTabletAt :: "string IntervalPoint \<Rightarrow> Server \<Rightarrow> nat list \<Rightarrow> nat result" where
  "getTabletAt p =
     getTabletInternal (\<lambda>q. pointLt (<) q p) (pointLt (<) p) (showPoint (\<lambda>x. x) p)"

subsection \<open>Mutations\<close>

text \<open>A mutation is validated by the tablet that holds its row and becomes a cell for the logger.\<close>

definition superSet ::
  "string \<Rightarrow> string \<Rightarrow> int \<Rightarrow> string \<Rightarrow> SuperTablet \<Rightarrow> Server \<Rightarrow> (Server \<times> nat \<times> Cell) result" where
  "superSet row column timestamp val st s =
     bind_res (getTablet row s (superTablets st)) (\<lambda>t.
     bind_res (derefTablet t s) (\<lambda>x.
     bind_res (tabletSet row column timestamp val x) (\<lambda>(x', c). Inr (setTablet t x' s, t, c))))"

definition superErase ::
  "string \<Rightarrow> string \<Rightarrow> int \<Rightarrow> SuperTablet \<Rightarrow> Server \<Rightarrow> (Server \<times> nat \<times> Cell) result" where
  "superErase row column timestamp st s =
     bind_res (getTablet row s (superTablets st)) (\<lambda>t.
     bind_res (derefTablet t s) (\<lambda>x.
     bind_res (tabletErase row column timestamp x) (\<lambda>(x', c). Inr (setTablet t x' s, t, c))))"

text \<open>\<open>Table::insert\<close> sets or erases, and the tablet's own \<open>insert\<close> is the same function.\<close>

definition superInsert :: "Cell \<Rightarrow> SuperTablet \<Rightarrow> Server \<Rightarrow> (Server \<times> nat \<times> Cell) result" where
  "superInsert c st s =
     bind_res (getTablet (getRow c) s (superTablets st)) (\<lambda>t.
     bind_res (derefTablet t s) (\<lambda>x.
     bind_res (if isErasure c then tabletErase (getRow c) (getColumn c) (getTimestamp c) x
               else tabletSet (getRow c) (getColumn c) (getTimestamp c) (getValue c) x) (\<lambda>(x', c').
       Inr (setTablet t x' s, t, c'))))"

text \<open>\<open>sync\<close>: the interference of each tablet's own \<open>sync\<close> is a function of its address.\<close>

fun superSync ::
  "Fragments \<Rightarrow> (nat \<Rightarrow> (tstate \<Rightarrow> tstate) list) \<Rightarrow> (nat \<Rightarrow> (tstate \<Rightarrow> tstate) list) \<Rightarrow> nat list \<Rightarrow> Server \<Rightarrow>
     Server result" where
  "superSync env flushes fs [] s = Inr s"
| "superSync env flushes fs (t # ts) s =
     bind_res (onTablet t (tabletSync env (flushes t) (fs t)) s) (superSync env flushes fs ts)"

subsection \<open>Scanning\<close>

definition scanFirstTablet ::
  "Server \<Rightarrow> nat list \<Rightarrow> ScanPredicate \<Rightarrow> (nat \<times> string Interval \<times> Scanner) result" where
  "scanFirstTablet s ts pred =
     (case rows pred of
        None \<Rightarrow> Inl (Undefined ''no row predicate'')
      | Some rs \<Rightarrow>
          (case points rs of
             [] \<Rightarrow> Inl (Undefined ''empty row predicate'')
           | p # ps \<Rightarrow>
               bind_res (getTabletAt p s ts) (\<lambda>t.
               bind_res (derefTablet t s) (\<lambda>x.
               bind_res (getRows x) (\<lambda>r.
               bind_res (tabletScanner (clipRows r pred) x) (\<lambda>(sc, h). Inr (t, r, sc)))))))"

definition makeSuperScanner :: "ScanPredicate \<Rightarrow> SuperScanner" where
  "makeSuperScanner pred =
     \<lparr>ss_pred = pred,
      remainingRows = (case rows pred of Some r \<Rightarrow> r
                       | None \<Rightarrow> isetAdd (<) (setInfinite [] (Interval0 [])) IntervalSet0),
      currentRows = Interval0 [], ss_scanner = None, ss_lastCell = None\<rparr>"

definition superReopen :: "SuperScanner \<Rightarrow> SuperScanner" where
  "superReopen ss = ss\<lparr>ss_scanner := None\<rparr>"

definition setMinRow :: "string IntervalPoint \<Rightarrow> SuperScanner \<Rightarrow> SuperScanner result" where
  "setMinRow p ss =
     bind_res (Interval2 p (mk_point [] PT_INFINITE_UPPER_BOUND)) (\<lambda>r.
       Inr (ss\<lparr>remainingRows := isetClip (<) r (remainingRows ss)\<rparr>))"

text \<open>Opening a scanner fails, without an error, when no rows remain.\<close>

definition openScanner :: "Server \<Rightarrow> nat list \<Rightarrow> SuperScanner \<Rightarrow> (SuperScanner \<times> bool) result" where
  "openScanner s ts ss =
     (if isetIsEmpty (remainingRows ss) then Inr (ss, False)
      else let p = setRowPredicate (remainingRows ss) (ss_pred ss)
           in bind_res (scanFirstTablet s ts p) (\<lambda>(t, r, sc).
                Inr (ss\<lparr>ss_pred := p, currentRows := r, ss_scanner := Some (t, sc)\<rparr>, True)))"

definition openNextScanner :: "Server \<Rightarrow> nat list \<Rightarrow> SuperScanner \<Rightarrow> (SuperScanner \<times> bool) result" where
  "openNextScanner s ts ss =
     (if pointIsInfinite (upperBound (currentRows ss)) then Inr (ss, False)
      else bind_res (getAdjacentComplement (upperBound (currentRows ss))) (\<lambda>p.
           bind_res (setMinRow p ss) (openScanner s ts)))"

lemma scannerGet_Some:
  assumes "scannerGet env t sc = Inr (sc', Some x)"
  shows "\<exists>ys. sc_cells sc' = Some ys \<and> (sc_cells sc = None \<or> sc_cells sc = Some (x # ys))"
  using assms
  by (fastforce simp: scannerGet_def scannerNext_def bind_res_eq_Inr neq_Nil_conv
      split: option.splits list.splits if_splits)

text \<open>Skipping what was delivered before the scanner was closed.\<close>

definition cellsLeft :: "Fragments \<Rightarrow> Tablet \<Rightarrow> Scanner \<Rightarrow> nat" where
  "cellsLeft env t sc =
     (case sc_cells sc of
        Some cs \<Rightarrow> length cs
      | None \<Rightarrow> (case scannerGet env t sc of
                  Inr (sc', _) \<Rightarrow> Suc (length (the (sc_cells sc'))) | Inl _ \<Rightarrow> 0))"

function superFastForward ::
  "Fragments \<Rightarrow> Tablet \<Rightarrow> Cell \<Rightarrow> Scanner \<Rightarrow> (Scanner \<times> Cell option) result" where
  "superFastForward env t lastCell sc =
     bind_res (scannerGet env t sc) (\<lambda>(sc', r).
       case r of
         None \<Rightarrow> Inr (sc', None)
       | Some x \<Rightarrow> if cellLt lastCell x then Inr (sc', Some x) else superFastForward env t lastCell sc')"
  by pat_completeness auto
termination
proof (relation "measure (\<lambda>(env, t, l, sc). cellsLeft env t sc)", goal_cases)
  case (2 env t l sc p sc' r x)
  then have get: "scannerGet env t sc = Inr (sc', Some x)" by simp
  show ?case using scannerGet_Some [OF get] by (auto simp: cellsLeft_def get)
qed simp

declare superFastForward.simps [simp del]

text \<open>The loop over scanners opens each tablet at most once; \<open>superGet\<close> gives it one round more than
  there are tablets.\<close>

fun superLoop ::
  "Fragments \<Rightarrow> Server \<Rightarrow> nat list \<Rightarrow> nat \<Rightarrow> SuperScanner \<Rightarrow> (SuperScanner \<times> Cell option) result" where
  "superLoop env s ts 0 ss = Inl (Undefined ''loop bound exceeded'')"
| "superLoop env s ts (Suc n) ss =
     (case ss_scanner ss of
        None \<Rightarrow> Inl (Undefined ''no scanner'')
      | Some (t, sc) \<Rightarrow>
          bind_res (derefTablet t s) (\<lambda>x.
          bind_res (scannerGet env x sc) (\<lambda>(sc', r).
            let ss1 = ss\<lparr>ss_scanner := Some (t, sc')\<rparr>
            in case r of
                 Some c \<Rightarrow> Inr (ss1\<lparr>ss_lastCell := Some c\<rparr>, Some c)
               | None \<Rightarrow>
                   bind_res (openNextScanner s ts ss1) (\<lambda>(ss2, opened).
                     if opened then superLoop env s ts n ss2 else Inr (ss2, None)))))"

definition superGet :: "Fragments \<Rightarrow> Server \<Rightarrow> nat list \<Rightarrow> SuperScanner \<Rightarrow> (SuperScanner \<times> Cell option) result" where
  "superGet env s ts ss =
     (let loop = superLoop env s ts (Suc (length ts))
      in case ss_scanner ss of
           Some _ \<Rightarrow> loop ss
         | None \<Rightarrow>
             bind_res (case ss_lastCell ss of
                         Some l \<Rightarrow> setMinRow (mk_point (getRow l) PT_INCLUSIVE_LOWER_BOUND) ss
                       | None \<Rightarrow> Inr ss) (\<lambda>ss1.
             bind_res (openScanner s ts ss1) (\<lambda>(ss2, opened).
               if \<not> opened then Inr (ss2, None)
               else case (ss_lastCell ss2, ss_scanner ss2) of
                      (Some l, Some (t, sc)) \<Rightarrow>
                        bind_res (derefTablet t s) (\<lambda>x.
                        bind_res (superFastForward env x l sc) (\<lambda>(sc', r).
                          case r of
                            Some c \<Rightarrow> Inr (ss2\<lparr>ss_scanner := Some (t, sc'), ss_lastCell := Some c\<rparr>, Some c)
                          | None \<Rightarrow> loop (ss2\<lparr>ss_scanner := Some (t, sc')\<rparr>)))
                    | _ \<Rightarrow> loop ss2)))"

text \<open>\<open>scan\<close> registers a scanner of a given address; the result is the history to filter with.\<close>

definition superScan :: "nat \<Rightarrow> ScanPredicate \<Rightarrow> SuperTablet \<Rightarrow> SuperTablet \<times> int" where
  "superScan addr pred st =
     (st\<lparr>superScanners := superScanners st @ [addr],
        liveScanners := mapPut addr (makeSuperScanner (setMaxHistory 0 pred)) (liveScanners st)\<rparr>, maxHistory pred)"

subsection \<open>Splitting\<close>

text \<open>Scanners in use are reopened, the others are taken from the list.\<close>

definition reopenLive :: "nat \<Rightarrow> (nat, SuperScanner) omap \<Rightarrow> (nat, SuperScanner) omap" where
  "reopenLive i m = (case mapFind i m of None \<Rightarrow> m | Some ss \<Rightarrow> mapPut i (superReopen ss) m)"

definition superUpdateScanners :: "SuperTablet \<Rightarrow> SuperTablet" where
  "superUpdateScanners st =
     st\<lparr>superScanners := filter (\<lambda>i. mapFind i (liveScanners st) \<noteq> None) (superScanners st),
        liveScanners := fold reopenLive (superScanners st) (liveScanners st)\<rparr>"

definition insertTablet :: "Server \<Rightarrow> nat \<Rightarrow> nat list \<Rightarrow> nat list" where
  "insertTablet s low ts =
     (let it = length (takeWhile (\<lambda>t. pointLt (<) (maxRow (tabletAt s t)) (maxRow (tabletAt s low))) ts)
      in vec_insert it low ts)"

definition performSplit ::
  "Fragments \<Rightarrow> (tstate \<Rightarrow> tstate) list \<Rightarrow> (tstate \<Rightarrow> tstate) list \<Rightarrow> nat \<Rightarrow> nat \<Rightarrow> SuperTablet \<times> Server \<Rightarrow>
     (SuperTablet \<times> Server) result" where
  "performSplit env flushes fs lowId this = (\<lambda>(st, s).
     bind_res (serverSplit env flushes fs lowId this s) (\<lambda>(s1, low).
       case low of
         None \<Rightarrow> Inr (st, s1)
       | Some l \<Rightarrow>
           Inr (superUpdateScanners (st\<lparr>superTablets := insertTablet s1 l (superTablets st)\<rparr>), s1)))"

subsection \<open>Adjacent bounds and clipped sets\<close>

context value_order
begin

lemma clip_within:
  assumes "iset_inv lt s" "interval_wf x" "p \<in> set (points (isetClip lt x s))"
  shows "\<not> pointLt lt p (lowerBound x) \<and> \<not> pointLt lt (upperBound x) p"
proof (cases "pointLt lt (lowerBound x) (upperBound x)")
  case False
  then show ?thesis using assms(3) by (simp add: isetClip_def)
next
  case True
  then obtain A C D where ps: "points s = A @ C @ D" and ok: "add_split x A C D"
    using sorted_split [OF assms(1,2)] by blast
  have "p = lowerBound x \<or> p = upperBound x \<or> p \<in> set C"
    using assms(3) clip_result [OF ok] by (auto simp flip: ps split: if_splits)
  then show ?thesis
    using within_C [OF ok, of p] True pointLt_asym by auto
qed

end

text \<open>The least lower bound above an upper bound.\<close>

lemma complement_correct:
  fixes u :: "string IntervalPoint"
  assumes "getAdjacentComplement u = Inr q" "pointIsUpperBound u"
  shows "pointIsLowerBound q" "pointLt (<) u q"
    and "pointIsLowerBound p \<or> ptype p = PT_POINT \<Longrightarrow> pointLt (<) u p \<Longrightarrow> \<not> pointLt (<) p q"
  using assms
  by (auto simp: getAdjacentComplement_def pointLt_def isLess_def point_pred_defs point_type_defs
      less_PointType_def split: PointType.splits if_splits)

lemma complement_defined:
  assumes "pointIsUpperBound u" "\<not> pointIsInfinite u"
  shows "\<exists>q. getAdjacentComplement u = Inr q"
  using assms by (cases "ptype u") (auto simp: getAdjacentComplement_def point_pred_defs point_type_defs)

lemma add_to_empty_points:
  "points (isetAdd (<) x IntervalSet0) =
    (if pointLt (<) (lowerBound x) (upperBound x) then [lowerBound x, upperBound (x :: string Interval)] else [])"
  using std_less.pointLt_asym [of "lowerBound x" "upperBound x"]
  by (simp add: isetAdd_def IntervalSet0_def lower_bound_def upper_bound_def pickLowerBound_def pickUpperBound_def
      vec_insert_def)

lemma hull_points:
  fixes s :: "string IntervalSet"
  assumes "iset_inv (<) s" "points s \<noteq> []"
  shows "getHull [] s = Inr \<lparr>lowerBound = hd (points s), upperBound = last (points s)\<rparr>"
  using std_less.hull_correct [OF assms(1), of "[]"] assms(2)
  by (auto simp: getHull_def isetIsEmpty_def Interval2_def split: if_splits)

lemma getHull_within:
  fixes s :: "string IntervalSet" and r :: "string Interval"
  assumes "iset_inv (<) s" "\<not> intervalIsEmpty (<) r"
    and "\<And>p. p \<in> set (points s) \<Longrightarrow> \<not> pointLt (<) p (lowerBound r) \<and> \<not> pointLt (<) (upperBound r) p"
  shows "\<exists>h. getHull [] s = Inr h \<and> intervalContainsInterval (<) r h"
proof (cases "points s = []")
  case True
  have "pointLt (<) (upperBound (setEmpty [] (Interval0 []))) (lowerBound (setEmpty [] (Interval0 [] :: string Interval)))"
    by code_simp
  then show ?thesis
    using assms(2) by (simp add: getHull_def isetIsEmpty_def True intervalContainsInterval_def intervalIsEmpty_def)
next
  case False
  then show ?thesis
    using assms(2) assms(3) [of "hd (points s)"] assms(3) [of "last (points s)"]
    by (simp add: hull_points [OF assms(1) False] intervalContainsInterval_def intervalIsEmpty_def)
qed

text \<open>A predicate clipped to a tablet's range is valid for the tablet.\<close>

lemma validate_clipped:
  assumes "tablet_wf x" "\<not> intervalIsEmpty (<) (tabletRange x)" "scan_predicate_inv p"
  shows "validateRows (clipRows (tabletRange x) p) x = Inr ()"
proof -
  let ?r = "tabletRange x"
  have wf: "interval_wf ?r" using assms(1) by (simp add: tablet_wf_def)
  show ?thesis
  proof (cases "rows (clipRows ?r p)")
    case None
    then have "intervalIsInfinite ?r"
      by (auto simp: clipRows_def setRowPredicate_def split: if_splits option.splits)
    then show ?thesis by (simp add: validateRows_def getRows_wf [OF assms(1)] None)
  next
    case (Some s)
    have inv: "iset_inv (<) s"
      using clipRows_correct(1) [OF assms(3) wf] Some by (simp add: scan_predicate_inv_def)
    have "\<not> pointLt (<) q (lowerBound ?r) \<and> \<not> pointLt (<) (upperBound ?r) q" if q: "q \<in> set (points s)" for q
    proof (cases "intervalIsInfinite ?r")
      case True
      then show ?thesis
        using wf by (auto simp: wf_simps intervalIsInfinite_def pointLt_def isLess_def point_pred_defs point_type_defs)
    next
      case False
      show ?thesis
      proof (cases "rows p")
        case None
        then have "s = isetAdd (<) ?r IntervalSet0" using Some False by (simp add: clipRows_def setRowPredicate_def)
        then show ?thesis
          using q std_less.pointLt_asym [of "lowerBound ?r" "upperBound ?r"]
          by (auto simp: add_to_empty_points split: if_splits)
      next
        case (Some s0)
        then have s: "s = isetClip (<) ?r s0" and "iset_inv (<) s0"
          using \<open>rows (clipRows ?r p) = Some s\<close> False assms(3)
          by (simp_all add: clipRows_def setRowPredicate_def scan_predicate_inv_def)
        then show ?thesis using std_less.clip_within [OF _ wf] q by blast
      qed
    qed
    from getHull_within [OF inv assms(2) this] show ?thesis
      by (auto simp: validateRows_def getRows_wf [OF assms(1)] Some)
  qed
qed

subsection \<open>Tablets that tile the rows\<close>

definition tiles :: "Tablet list \<Rightarrow> bool" where
  "tiles xs \<longleftrightarrow> xs \<noteq> [] \<and> (\<forall>x\<in>set xs. tablet_wf x \<and> \<not> intervalIsEmpty (<) (tabletRange x)) \<and>
     pointIsInfinite (minRow (hd xs)) \<and> pointIsInfinite (maxRow (last xs)) \<and>
     successively (\<lambda>a b. getAdjacentComplement (maxRow a) = Inr (minRow b)) xs"

lemma range_bounds:
  assumes "tablet_wf x" "\<not> intervalIsEmpty (<) (tabletRange x)"
  shows "pointIsLowerBound (minRow x)" "pointIsUpperBound (maxRow x)" "pointLt (<) (minRow x) (maxRow x)"
proof -
  show b: "pointIsLowerBound (minRow x)" "pointIsUpperBound (maxRow x)"
    using assms(1) by (simp_all add: wf_simps tabletRange_def)
  have "pointLt (<) (minRow x) (maxRow x) \<or> pointLt (<) (maxRow x) (minRow x)"
    using b by (cases "ptype (minRow x)"; cases "ptype (maxRow x)")
      (auto simp: pointLt_def isLess_def point_pred_defs point_type_defs less_PointType_def)
  then show "pointLt (<) (minRow x) (maxRow x)"
    using assms(2) by (simp add: intervalIsEmpty_def tabletRange_def)
qed

lemma tiles_sorted:
  assumes "tiles xs"
  shows "sorted_wrt (\<lambda>a b. pointLt (<) (maxRow a) (minRow b)) xs"
proof -
  let ?Q = "\<lambda>x. tablet_wf x \<and> \<not> intervalIsEmpty (<) (tabletRange x)"
  let ?R = "\<lambda>a b. ?Q a \<and> ?Q b \<and> pointLt (<) (maxRow a) (minRow b)"
  have "transp ?R"
    using range_bounds(3) std_less.pointLt_trans by (intro transpI) blast
  moreover have "successively ?R xs"
  proof (rule successively_mono [of "\<lambda>a b. getAdjacentComplement (maxRow a) = Inr (minRow b)"])
    show "successively (\<lambda>a b. getAdjacentComplement (maxRow a) = Inr (minRow b)) xs"
      using assms by (simp add: tiles_def)
    show "?R a b" if "a \<in> set xs" "b \<in> set xs" "getAdjacentComplement (maxRow a) = Inr (minRow b)" for a b
      using that assms complement_correct(2) range_bounds(2) unfolding tiles_def by blast
  qed
  ultimately have "sorted_wrt ?R xs" by (simp add: successively_conv_sorted_wrt)
  then show ?thesis by (rule sorted_wrt_mono_rel [rotated]) blast
qed

text \<open>The tablet that a lower bound or a row falls into.\<close>

lemma tiles_find:
  assumes "tiles xs" and p: "pointIsLowerBound p \<or> ptype p = PT_POINT"
  obtains pre x post where "xs = pre @ x # post" "\<forall>y\<in>set pre. pointLt (<) (maxRow y) p"
    "\<not> pointLt (<) (maxRow x) p" "\<not> pointLt (<) p (minRow x)"
    "\<And>i. i = length (takeWhile (\<lambda>y. pointLt (<) (maxRow y) p) xs) \<Longrightarrow> i = length pre"
proof -
  let ?P = "\<lambda>y. pointLt (<) (maxRow y) p"
  let ?pre = "takeWhile ?P xs"
  have "pointIsInfinite (maxRow (last xs))" "pointIsUpperBound (maxRow (last xs))"
    using assms(1) range_bounds(2) [of "last xs"] by (auto simp: tiles_def)
  then have "\<not> ?P (last xs)"
    by (auto simp: pointLt_def isLess_def point_pred_defs point_type_defs)
  moreover have "xs \<noteq> []" using assms(1) by (simp add: tiles_def)
  ultimately have "dropWhile ?P xs \<noteq> []" by (auto simp: dropWhile_eq_Nil_conv)
  then obtain x post where x: "dropWhile ?P xs = x # post" by (meson neq_Nil_conv)
  have xs: "xs = ?pre @ x # post" unfolding x [symmetric] by simp
  have nx: "\<not> ?P x" using hd_dropWhile [of ?P xs] x by simp
  have "\<not> pointLt (<) p (minRow x)"
  proof (cases "?pre" rule: rev_cases)
    case Nil
    then have "hd xs = x" using xs by (metis append_Nil list.sel(1))
    then have "pointIsInfinite (minRow x)" "pointIsLowerBound (minRow x)"
      using assms(1) range_bounds(1) [of x] xs unfolding tiles_def by auto
    then show ?thesis
      using p by (auto simp: pointLt_def isLess_def point_pred_defs point_type_defs)
  next
    case (snoc ys y)
    then have y: "y \<in> set xs" "?P y"
      using set_takeWhileD [of y ?P xs] by auto
    have "successively (\<lambda>a b. getAdjacentComplement (maxRow a) = Inr (minRow b)) (ys @ y # x # post)"
      using assms(1) xs snoc unfolding tiles_def by (metis append.assoc append_Cons append_Nil)
    then have "getAdjacentComplement (maxRow y) = Inr (minRow x)"
      by (simp add: successively_append_iff)
    then show ?thesis
      using complement_correct(3) range_bounds(2) y p assms(1) unfolding tiles_def by blast
  qed
  then show ?thesis
    using that [OF xs _ nx] set_takeWhileD [of _ ?P xs] by blast
qed

lemma in_range_points:
  "intervalContains (<) (tabletRange x) v \<longleftrightarrow>
     pointLt (<) (minRow x) (mk_point v PT_POINT) \<and> pointLt (<) (mk_point v PT_POINT) (maxRow x)"
  by (simp add: intervalContains_points tabletRange_def)

subsection \<open>The cells of a table\<close>

definition tableOk :: "Server \<Rightarrow> nat list \<Rightarrow> bool" where
  "tableOk s ts \<longleftrightarrow> (\<forall>t\<in>set ts. mapFind t (tablets s) \<noteq> None) \<and> tiles (map (tabletAt s) ts)"

definition tabletCells :: "Fragments \<Rightarrow> ScanPredicate \<Rightarrow> Tablet \<Rightarrow> Cell list" where
  "tabletCells env p x =
     (case getMergedScan env (clipRows (tabletRange x) p) x of Inr cs \<Rightarrow> cs | Inl _ \<Rightarrow> [])"

definition tableCells :: "Fragments \<Rightarrow> ScanPredicate \<Rightarrow> Server \<Rightarrow> nat list \<Rightarrow> Cell list" where
  "tableCells env p s ts = concat (map (\<lambda>t. tabletCells env p (tabletAt s t)) ts)"

lemma tableOk_deref:
  assumes "tableOk s ts" "t \<in> set ts"
  shows "derefTablet t s = Inr (tabletAt s t)" "tablet_wf (tabletAt s t)"
    "\<not> intervalIsEmpty (<) (tabletRange (tabletAt s t))"
  using assms by (auto simp: tableOk_def tiles_def derefTablet_def tabletAt_def mapAt_def)

lemma tableOk_sorted:
  assumes "tableOk s ts"
  shows "sorted_wrt (\<lambda>a b. pointLt (<) (maxRow (tabletAt s a)) (minRow (tabletAt s b))) ts"
  using tiles_sorted [of "map (tabletAt s) ts"] assms by (simp add: tableOk_def sorted_wrt_map)

lemma point_row_less: "pointLt (<) (mk_point v PT_POINT) (mk_point w PT_POINT) \<longleftrightarrow> v < (w :: string)"
  by (auto simp: pointLt_def isLess_def point_type_defs)

lemma key_of_row: "getRow a < getRow b \<Longrightarrow> cellKey a < cellKey b"
  by (simp add: cellKey_def less_prod_def')

text \<open>Rows of a tablet are below the rows of a later one.\<close>

lemma tablet_rows_less:
  assumes "pointLt (<) (maxRow x) (minRow y)"
    and "intervalContains (<) (tabletRange x) v" "intervalContains (<) (tabletRange y) w"
  shows "v < w"
  using assms std_less.pointLt_trans unfolding in_range_points by (meson point_row_less)

definition after :: "Cell option \<Rightarrow> Cell list \<Rightarrow> Cell list" where
  "after l cs = (case l of None \<Rightarrow> cs | Some c \<Rightarrow> filter (cellLt c) cs)"

lemma after_simps [simp]:
  "after None cs = cs" "after l [] = []" "after l (xs @ ys) = after l xs @ after l ys"
  by (simp_all add: after_def split: option.split)

lemma after_set: "set (after l cs) \<subseteq> set cs"
  by (auto simp: after_def split: option.splits)

lemma after_id: "after l cs = cs \<longleftrightarrow> (\<forall>k. l = Some k \<longrightarrow> (\<forall>c\<in>set cs. cellLt k c))"
  by (simp add: after_def filter_id_conv split: option.split)

text \<open>Delivering the next cell.\<close>

lemma after_pop:
  assumes "cellsSorted all" "list_all cellOk all" "\<forall>k. l = Some k \<longrightarrow> cellOk k" "after l all = c # xs"
  shows "after (Some c) all = xs"
proof -
  have lt: "cellLt a b \<longleftrightarrow> cellKey a < cellKey b" if "cellOk a" "cellOk b" for a b
    using cell_values.lt_key [OF that] .
  have "\<exists>us vs. all = us @ c # vs \<and> (\<forall>u\<in>set us. cellKey u < cellKey c) \<and> (\<forall>v\<in>set vs. cellKey c < cellKey v) \<and> after l vs = xs"
  proof (cases l)
    case None
    then show ?thesis
      using assms(1,4) by (intro exI [of _ "[]"] exI [of _ xs]) (auto simp: cellsSorted_def)
  next
    case (Some k)
    then have "filter (cellLt k) all = c # xs" using assms(4) by (simp add: after_def)
    then obtain us vs where u: "all = us @ c # vs" "xs = filter (cellLt k) vs"
      by (auto simp: filter_eq_Cons_iff)
    then show ?thesis
      using assms(1) Some by (intro exI [of _ us] exI [of _ vs]) (auto simp: cellsSorted_def sorted_wrt_append after_def)
  qed
  then obtain us vs where u: "all = us @ c # vs" "\<forall>u\<in>set us. cellKey u < cellKey c"
    "\<forall>v\<in>set vs. cellKey c < cellKey v" "after l vs = xs" by blast
  have ok: "cellOk c" "\<forall>u\<in>set us. cellOk u" "\<forall>v\<in>set vs. cellOk v"
    using assms(2) unfolding u(1) by (simp_all add: list_all_iff)
  have "\<forall>u\<in>set us. \<not> cellLt c u" "\<not> cellLt c c" and vs: "\<forall>v\<in>set vs. cellLt c v"
    using u(2,3) ok lt by (auto dest: less_asym)
  then have "after (Some c) all = vs"
    unfolding after_def u(1) by (simp add: filter_empty_conv)
  moreover have "after l vs = vs"
  proof (cases l)
    case (Some k)
    have "c \<in> set (after l all)" using assms(4) by simp
    then have "cellLt k c" using Some by (simp add: after_def)
    then have "cellKey k < cellKey c" using lt assms(3) Some ok(1) by blast
    then have "cellLt k v" if "v \<in> set vs" for v
      using that u(3) ok(3) lt assms(3) Some less_trans by blast
    then show ?thesis using Some by (simp add: after_def)
  qed simp
  ultimately show ?thesis using u(4) by simp
qed

lemma rowAllowed_set: "rowAllowed (setRowPredicate R p) v \<longleftrightarrow> isetContains (<) R v"
  by (simp add: rowAllowed_def setRowPredicate_def)

lemma allowed_set:
  "cellAllowed (setRowPredicate R p) c \<longleftrightarrow>
     isetContains (<) R (getRow c) \<and> columnAllowed p (getColumn c) \<and> timeAllowed p (getTimestamp c)"
  by (simp add: cellAllowed_def rowAllowed_def columnAllowed_def timeAllowed_def setRowPredicate_def)

context fragment_contract
begin

lemma tabletCells_correct:
  assumes "tablet_wf x" "\<not> intervalIsEmpty (<) (tabletRange x)" "scan_predicate_inv p" "maxHistory p = 0"
  shows "getMergedScan env (clipRows (tabletRange x) p) x = Inr (tabletCells env p x)"
    "cellsSorted (tabletCells env p x)" "list_all cellOk (tabletCells env p x)"
    "c \<in> set (tabletCells env p x) \<longleftrightarrow> newest content (fragments x) (cellKey c) = Some c \<and> cellAllowed p c \<and>
       intervalContains (<) (tabletRange x) (getRow c) \<and> (isErasure c \<longrightarrow> soleImmutable env (fragments x))"
proof -
  let ?p = "clipRows (tabletRange x) p"
  have wf: "interval_wf (tabletRange x)" using assms(1) by (simp add: tablet_wf_def)
  note c = clipRows_correct [OF assms(3) wf]
  have h: "maxHistory ?p = 0" using c(3) assms(4) by simp
  note v = validate_clipped [OF assms(1-3)]
  obtain out where out: "getMergedScan env ?p x = Inr out" using merged_scan_member [OF v c(1) h] by blast
  then have t: "tabletCells env p x = out" by (simp add: tabletCells_def)
  note m = merged_scan_ok [OF v c(1) h out]
  have "cellAllowed ?p d \<longleftrightarrow> cellAllowed p d \<and> intervalContains (<) (tabletRange x) (getRow d)" for d
    using c(2,3) by (auto simp: cellAllowed_def columnAllowed_def timeAllowed_def)
  then show "getMergedScan env ?p x = Inr (tabletCells env p x)"
    "cellsSorted (tabletCells env p x)" "list_all cellOk (tabletCells env p x)"
    "c \<in> set (tabletCells env p x) \<longleftrightarrow> newest content (fragments x) (cellKey c) = Some c \<and> cellAllowed p c \<and>
       intervalContains (<) (tabletRange x) (getRow c) \<and> (isErasure c \<longrightarrow> soleImmutable env (fragments x))"
    unfolding t using out m by auto
qed

lemma tableCells_sorted:
  assumes "tableOk s ts" "scan_predicate_inv p" "maxHistory p = 0"
  shows "cellsSorted (tableCells env p s ts)" "list_all cellOk (tableCells env p s ts)"
proof -
  have sub: "sorted_wrt (\<lambda>a b. pointLt (<) (maxRow (tabletAt s a)) (minRow (tabletAt s b))) us \<Longrightarrow> set us \<subseteq> set ts \<Longrightarrow>
    cellsSorted (tableCells env p s us) \<and> list_all cellOk (tableCells env p s us)" for us
  proof (induction us)
    case Nil
    then show ?case by (simp add: tableCells_def cellsSorted_def)
  next
    case (Cons t us)
    note d = tableOk_deref [OF assms(1), of t]
    have t: "t \<in> set ts" using Cons.prems by simp
    note tc = tabletCells_correct [OF d(2,3) [OF t] assms(2,3)]
    have "cellKey a < cellKey b" if ab: "a \<in> set (tabletCells env p (tabletAt s t))" "b \<in> set (tableCells env p s us)" for a b
    proof -
      obtain u where u: "u \<in> set us" "b \<in> set (tabletCells env p (tabletAt s u))"
        using ab(2) by (auto simp: tableCells_def)
      then have "u \<in> set ts" using Cons.prems by auto
      note du = tabletCells_correct(4) [OF tableOk_deref(2,3) [OF assms(1) this] assms(2,3)]
      have "getRow a < getRow b"
        using tablet_rows_less [of "tabletAt s t" "tabletAt s u"] Cons.prems(1) u du ab(1) tc(4) by auto
      then show ?thesis by (rule key_of_row)
    qed
    then show ?case
      using Cons tc(2,3) by (auto simp: tableCells_def cellsSorted_def sorted_wrt_append list_all_iff)
  qed
  show "cellsSorted (tableCells env p s ts)" "list_all cellOk (tableCells env p s ts)"
    using sub [OF tableOk_sorted [OF assms(1)]] by blast+
qed

text \<open>Restricting the rows of a predicate filters the cells of a tablet.\<close>

lemma tabletCells_restrict:
  assumes x: "tablet_wf x" "\<not> intervalIsEmpty (<) (tabletRange x)"
    and p: "scan_predicate_inv p" "maxHistory p = 0" and p': "scan_predicate_inv p'" "maxHistory p' = 0"
    and eq: "\<And>c. cellAllowed p' c \<longleftrightarrow> cellAllowed p c \<and> Q c"
  shows "tabletCells env p' x = filter Q (tabletCells env p x)"
proof -
  note a = tabletCells_correct [OF x p] and b = tabletCells_correct [OF x p']
  have s: "cellsSorted (filter Q (tabletCells env p x))" using a(2) by (rule filter_sorted)
  have "firstKey k (tabletCells env p' x) = Some c \<longleftrightarrow> firstKey k (filter Q (tabletCells env p x)) = Some c" for k c
    unfolding firstKey_sorted [OF b(2)] firstKey_sorted [OF s] using a(4) b(4) eq by auto
  then have "firstKey k (tabletCells env p' x) = firstKey k (filter Q (tabletCells env p x))" for k
    by (metis option.exhaust)
  then show ?thesis by (rule cellsSorted_ext [OF b(2) s])
qed

end

end
