(* ===== verification/SuperScan.thy ===== *)
theory SuperScan
  imports SuperTablet
begin

section \<open>Scans and splits of a whole table (src/cc/kdi/tablet/SuperScanner.cc, SuperTablet.cc)\<close>

text \<open>
  The cells that a super scanner has still to deliver are a function of the table, of the rows
  that remain and of the last cell, but not of the scanner that happens to be open. Each call of
  \<open>get\<close> takes the first of them, and a split of a tablet leaves them as they are.
\<close>

subsection \<open>What a scanner has still to deliver\<close>

definition scannerRest :: "Fragments \<Rightarrow> Tablet \<Rightarrow> Scanner \<Rightarrow> Cell list" where
  "scannerRest env x sc =
     (case sc_cells sc of
        Some cs \<Rightarrow> cs
      | None \<Rightarrow> (case getMergedScan env (sc_pred sc) x of Inr cs \<Rightarrow> cs | Inl _ \<Rightarrow> []))"

definition scannerOk :: "Fragments \<Rightarrow> Tablet \<Rightarrow> Scanner \<Rightarrow> bool" where
  "scannerOk env x sc \<longleftrightarrow>
     (sc_cells sc = None \<longrightarrow> sc_lastCell sc = None \<and> (\<exists>cs. getMergedScan env (sc_pred sc) x = Inr cs))"

lemma scannerGet_rest:
  assumes "scannerOk env x sc"
  shows "\<exists>sc'. scannerGet env x sc = Inr (sc', case scannerRest env x sc of [] \<Rightarrow> None | c # _ \<Rightarrow> Some c) \<and>
    scannerOk env x sc' \<and> scannerRest env x sc' = tl (scannerRest env x sc)"
proof (cases "sc_cells sc")
  case None
  then show ?thesis
    using assms by (cases "scannerRest env x sc")
      (auto simp: scannerOk_def scannerRest_def scannerGet_def scannerNext_def)
next
  case (Some cs)
  then show ?thesis
    by (cases cs) (simp_all add: scannerOk_def scannerRest_def scannerGet_def scannerNext_def)
qed

lemma fastForward_rest:
  assumes "scannerOk env x sc"
  shows "\<exists>sc'. scannerOk env x sc' \<and>
    (case after (Some l) (scannerRest env x sc) of
       [] \<Rightarrow> superFastForward env x l sc = Inr (sc', None) \<and> scannerRest env x sc' = []
     | c # _ \<Rightarrow> superFastForward env x l sc = Inr (sc', Some c) \<and>
         (\<exists>us. scannerRest env x sc = us @ c # scannerRest env x sc' \<and> (\<forall>u\<in>set us. \<not> cellLt l u)))"
  using assms
proof (induction "scannerRest env x sc" arbitrary: sc)
  case Nil
  obtain sc' where g: "scannerGet env x sc = Inr (sc', None)" "scannerOk env x sc'" "scannerRest env x sc' = []"
    using scannerGet_rest [OF Nil.prems] Nil.hyps by auto
  have "superFastForward env x l sc = Inr (sc', None)"
    by (subst superFastForward.simps) (simp add: g(1))
  then show ?case using g Nil.hyps by (intro exI [of _ sc']) (simp flip: Nil.hyps)
next
  case (Cons c cs)
  obtain sc' where g: "scannerGet env x sc = Inr (sc', Some c)" "scannerOk env x sc'" "scannerRest env x sc' = cs"
    using scannerGet_rest [OF Cons.prems] by (auto simp flip: Cons.hyps(2))
  show ?case
  proof (cases "cellLt l c")
    case True
    then have "superFastForward env x l sc = Inr (sc', Some c)"
      by (subst superFastForward.simps) (simp add: g(1))
    then show ?thesis
      using True g(2,3) by (intro exI [of _ sc']) (simp add: after_def flip: Cons.hyps(2))
  next
    case False
    have e: "superFastForward env x l sc = superFastForward env x l sc'"
      using False by (subst superFastForward.simps) (simp add: g(1))
    have a: "after (Some l) (c # cs) = after (Some l) cs" using False by (simp add: after_def)
    obtain sc'' where IH: "scannerOk env x sc''" "case after (Some l) cs of
       [] \<Rightarrow> superFastForward env x l sc' = Inr (sc'', None) \<and> scannerRest env x sc'' = []
     | c # _ \<Rightarrow> superFastForward env x l sc' = Inr (sc'', Some c) \<and>
         (\<exists>us. cs = us @ c # scannerRest env x sc'' \<and> (\<forall>u\<in>set us. \<not> cellLt l u))"
      using Cons.hyps(1) [of sc'] g(2,3) by auto
    show ?thesis
    proof (intro exI conjI)
      show "scannerOk env x sc''" by (rule IH(1))
      show "case after (Some l) (scannerRest env x sc) of
         [] \<Rightarrow> superFastForward env x l sc = Inr (sc'', None) \<and> scannerRest env x sc'' = []
       | d # _ \<Rightarrow> superFastForward env x l sc = Inr (sc'', Some d) \<and>
           (\<exists>us. scannerRest env x sc = us @ d # scannerRest env x sc'' \<and> (\<forall>u\<in>set us. \<not> cellLt l u))"
      proof (cases "after (Some l) cs")
        case (Cons d ds)
        then obtain us where "cs = us @ d # scannerRest env x sc''" "\<forall>u\<in>set us. \<not> cellLt l u" using IH(2) by auto
        then have "c # cs = (c # us) @ d # scannerRest env x sc''" "\<forall>u\<in>set (c # us). \<not> cellLt l u"
          using False by simp_all
        then show ?thesis
          using IH(2) unfolding Cons.hyps(2) [symmetric] a e Cons by auto
      qed (use IH(2) in \<open>simp add: a e flip: Cons.hyps(2)\<close>)
    qed
  qed
qed

text \<open>The predicate of a super scanner, its invariant, and the cells that it has still to deliver.\<close>

definition currentPred :: "SuperScanner \<Rightarrow> ScanPredicate" where
  "currentPred ss = setRowPredicate (remainingRows ss) (ss_pred ss)"

definition pendingCells :: "Fragments \<Rightarrow> Server \<Rightarrow> nat list \<Rightarrow> SuperScanner \<Rightarrow> Cell list" where
  "pendingCells env s ts ss = after (ss_lastCell ss) (tableCells env (currentPred ss) s ts)"

definition scannerAt :: "Fragments \<Rightarrow> Server \<Rightarrow> nat list \<Rightarrow> SuperScanner \<Rightarrow> nat \<Rightarrow> Scanner \<Rightarrow> nat list \<Rightarrow> bool" where
  "scannerAt env s ts ss t sc post \<longleftrightarrow>
     (\<exists>pre. ts = pre @ t # post \<and> tableCells env (currentPred ss) s pre = []) \<and>
     currentRows ss = tabletRange (tabletAt s t) \<and> scannerOk env (tabletAt s t) sc \<and>
     scannerRest env (tabletAt s t) sc = after (ss_lastCell ss) (tabletCells env (currentPred ss) (tabletAt s t)) \<and>
     after (ss_lastCell ss) (tableCells env (currentPred ss) s post) = tableCells env (currentPred ss) s post"

definition superPredOk :: "SuperScanner \<Rightarrow> bool" where
  "superPredOk ss \<longleftrightarrow> scan_predicate_inv (ss_pred ss) \<and> maxHistory (ss_pred ss) = 0 \<and>
     iset_inv (<) (remainingRows ss) \<and> (\<forall>l. ss_lastCell ss = Some l \<longrightarrow> cellOk l)"

definition super_inv :: "Fragments \<Rightarrow> Server \<Rightarrow> nat list \<Rightarrow> SuperScanner \<Rightarrow> bool" where
  "super_inv env s ts ss \<longleftrightarrow> superPredOk ss \<and>
     (\<forall>t sc. ss_scanner ss = Some (t, sc) \<longrightarrow> (\<exists>post. scannerAt env s ts ss t sc post))"

lemma currentPred_ok: "superPredOk ss \<Longrightarrow> scan_predicate_inv (currentPred ss) \<and> maxHistory (currentPred ss) = 0"
  by (simp add: superPredOk_def currentPred_def setRowPredicate_def scan_predicate_inv_def)

lemma tableCells_simps [simp]:
  "tableCells env p s [] = []"
  "tableCells env p s (t # ts) = tabletCells env p (tabletAt s t) @ tableCells env p s ts"
  "tableCells env p s (ts @ us) = tableCells env p s ts @ tableCells env p s us"
  by (simp_all add: tableCells_def)

lemma pending_at:
  "scannerAt env s ts ss t sc post \<Longrightarrow>
    pendingCells env s ts ss = scannerRest env (tabletAt s t) sc @ tableCells env (currentPred ss) s post"
  by (auto simp: scannerAt_def pendingCells_def)

context fragment_contract
begin

lemma tableCells_restrict:
  assumes "tableOk s ts" "set us \<subseteq> set ts"
    and p: "scan_predicate_inv p" "maxHistory p = 0" and p': "scan_predicate_inv p'" "maxHistory p' = 0"
    and eq: "\<And>c. cellAllowed p' c \<longleftrightarrow> cellAllowed p c \<and> Q c"
  shows "tableCells env p' s us = filter Q (tableCells env p s us)"
  using assms(2)
proof (induction us)
  case (Cons u us)
  then show ?case
    using tabletCells_restrict [OF tableOk_deref(2,3) [OF assms(1)] p p' eq, of u] by simp
qed simp

text \<open>Opening a scanner on rows that are not empty.\<close>

lemma open_correct:
  assumes tab: "tableOk s ts" and ok: "superPredOk ss" and ne: "\<not> isetIsEmpty (remainingRows ss)"
  obtains pre t post sc where "ts = pre @ t # post"
    "openScanner s ts ss =
       Inr (ss\<lparr>ss_pred := currentPred ss, currentRows := tabletRange (tabletAt s t), ss_scanner := Some (t, sc)\<rparr>, True)"
    "scannerOk env (tabletAt s t) sc"
    "scannerRest env (tabletAt s t) sc = tabletCells env (currentPred ss) (tabletAt s t)"
    "tableCells env (currentPred ss) s pre = []"
    "\<not> pointLt (<) (maxRow (tabletAt s t)) (hd (points (remainingRows ss)))"
proof -
  let ?R = "remainingRows ss" and ?P = "currentPred ss"
  have inv: "iset_inv (<) ?R" using ok by (simp add: superPredOk_def)
  obtain p ps where pts: "points ?R = p # ps" using ne by (cases "points ?R") (simp_all add: isetIsEmpty_def)
  have low: "pointIsLowerBound p" using inv unfolding iset_inv_def by (metis alternating.simps(2) pts)
  have "tiles (map (tabletAt s) ts)" using tab by (simp add: tableOk_def)
  then obtain xpre x xpost where x: "map (tabletAt s) ts = xpre @ x # xpost"
    "\<forall>y\<in>set xpre. pointLt (<) (maxRow y) p" "\<not> pointLt (<) (maxRow x) p" "\<not> pointLt (<) p (minRow x)"
    "\<And>i. i = length (takeWhile (\<lambda>y. pointLt (<) (maxRow y) p) (map (tabletAt s) ts)) \<Longrightarrow> i = length xpre"
    using tiles_find low by blast
  obtain pre t post where ts: "ts = pre @ t # post" "xpre = map (tabletAt s) pre" "x = tabletAt s t"
    using x(1) by (auto simp: map_eq_append_conv map_eq_Cons_conv)
  note d = tableOk_deref [OF tab, of t]
  have t: "t \<in> set ts" using ts(1) by simp
  note cp = currentPred_ok [OF ok]
  have i: "length (takeWhile (\<lambda>t. pointLt (<) (maxRow (tabletAt s t)) p) ts) = length pre"
    using x(5) [OF refl] unfolding takeWhile_map comp_def ts(2) by simp
  have get: "getTabletAt p s ts = Inr t"
    unfolding getTabletAt_def getTabletInternal_def Let_def i
    using ts x(4) d t by (simp add: getRows_wf tabletRange_def)
  have v: "validateRows (clipRows (tabletRange (tabletAt s t)) ?P) (tabletAt s t) = Inr ()"
    using validate_clipped d t cp by blast
  let ?sc = "\<lparr>sc_pred = setMaxHistory 0 (clipRows (tabletRange (tabletAt s t)) ?P), sc_lastCell = None, sc_cells = None\<rparr>"
  have h: "maxHistory (clipRows (tabletRange (tabletAt s t)) ?P) = 0"
    using clipRows_correct(3) cp d t by (simp add: tablet_wf_def)
  then have same: "setMaxHistory 0 (clipRows (tabletRange (tabletAt s t)) ?P) = clipRows (tabletRange (tabletAt s t)) ?P"
    by (simp add: setMaxHistory_def)
  have "rows ?P = Some ?R" by (simp add: currentPred_def setRowPredicate_def)
  then have "scanFirstTablet s ts ?P = Inr (t, tabletRange (tabletAt s t), ?sc)"
    using pts get d t v h
    by (simp add: scanFirstTablet_def getRows_wf tabletScanner_def makeScanner_def same)
  then have opens: "openScanner s ts ss =
      Inr (ss\<lparr>ss_pred := ?P, currentRows := tabletRange (tabletAt s t), ss_scanner := Some (t, ?sc)\<rparr>, True)"
    using ne by (simp add: openScanner_def Let_def currentPred_def)
  note tc = tabletCells_correct [OF d(2,3) [OF t] cp [THEN conjunct1] cp [THEN conjunct2]]
  have "tabletCells env ?P (tabletAt s u) = []" if "u \<in> set pre" for u
  proof -
    have u: "u \<in> set ts" "pointLt (<) (maxRow (tabletAt s u)) p" using that ts x(2) by simp_all
    note c = tabletCells_correct(4) [OF tableOk_deref(2,3) [OF tab u(1)] cp [THEN conjunct1] cp [THEN conjunct2]]
    have "\<not> (isetContains (<) ?R v \<and> intervalContains (<) (tabletRange (tabletAt s u)) v)" for v
    proof
      assume v: "isetContains (<) ?R v \<and> intervalContains (<) (tabletRange (tabletAt s u)) v"
      have "points ?R \<noteq> []" using pts by simp
      then have "intervalContains (<) \<lparr>lowerBound = p, upperBound = last (points ?R)\<rparr> v"
        using std_less.hull_correct [OF inv, of "[]"] hull_points [OF inv] v pts by auto
      then have "pointLt (<) p (mk_point v PT_POINT)" by (simp add: intervalContains_points)
      moreover have "pointLt (<) (mk_point v PT_POINT) (maxRow (tabletAt s u))"
        using v by (simp add: in_range_points)
      ultimately show False using u(2) std_less.pointLt_trans std_less.pointLt_irrefl by blast
    qed
    then have "c \<notin> set (tabletCells env ?P (tabletAt s u))" for c
      using c [of c] by (auto simp: currentPred_def allowed_set)
    then show ?thesis by (meson all_not_in_conv set_empty)
  qed
  then have "tableCells env ?P s pre = []" by (simp add: tableCells_def)
  then show ?thesis
    using that [OF ts(1) opens] tc(1) x(3) ts(3)
    by (simp add: scannerOk_def scannerRest_def same pts)
qed

end

context fragment_contract
begin

text \<open>The result of a call that delivers the next cell.\<close>

definition pops :: "Server \<Rightarrow> nat list \<Rightarrow> Cell list \<Rightarrow> (SuperScanner \<times> Cell option) result \<Rightarrow> bool" where
  "pops s ts cs res \<longleftrightarrow>
     (\<exists>ss'. res = Inr (ss', case cs of [] \<Rightarrow> None | c # _ \<Rightarrow> Some c) \<and> super_inv env s ts ss' \<and>
       pendingCells env s ts ss' = tl cs)"

lemma table_parts:
  assumes "tableOk s ts" "superPredOk ss"
  shows "cellsSorted (tableCells env (currentPred ss) s ts)" "list_all cellOk (tableCells env (currentPred ss) s ts)"
    "\<forall>k. ss_lastCell ss = Some k \<longrightarrow> cellOk k"
  using tableCells_sorted [OF assms(1)] currentPred_ok [OF assms(2)] assms(2) by (auto simp: superPredOk_def)

lemma sorted_parts: "cellsSorted (us @ vs @ ws) \<Longrightarrow> cellsSorted vs" "cellsSorted (us @ vs @ ws) \<Longrightarrow> cellsSorted ws"
  by (simp_all add: cellsSorted_def sorted_wrt_append)

text \<open>A delivered cell becomes the last one.\<close>

lemma deliver:
  assumes tab: "tableOk s ts" and ok: "superPredOk ss" and cur: "currentRows ss = tabletRange (tabletAt s t)"
    and ts: "ts = pre @ t # post" "tableCells env (currentPred ss) s pre = []"
    and sc: "scannerOk env (tabletAt s t) sc"
    and rest: "after (ss_lastCell ss) (tabletCells env (currentPred ss) (tabletAt s t)) = c # scannerRest env (tabletAt s t) sc"
    and post: "after (ss_lastCell ss) (tableCells env (currentPred ss) s post) = tableCells env (currentPred ss) s post"
  shows "pops s ts (pendingCells env s ts ss) (Inr (ss\<lparr>ss_scanner := Some (t, sc), ss_lastCell := Some c\<rparr>, Some c))"
proof -
  let ?ss = "ss\<lparr>ss_scanner := Some (t, sc), ss_lastCell := Some c\<rparr>"
  let ?A = "tabletCells env (currentPred ss) (tabletAt s t)" and ?B = "tableCells env (currentPred ss) s post"
  note p = table_parts [OF tab ok]
  have all: "tableCells env (currentPred ss) s ts = ?A @ ?B" using ts by simp
  have pend: "pendingCells env s ts ss = c # scannerRest env (tabletAt s t) sc @ ?B"
    unfolding pendingCells_def all after_simps rest post by simp
  have same: "currentPred ?ss = currentPred ss" by (simp add: currentPred_def)
  have "c \<in> set (?A @ ?B)" using rest after_set [of "ss_lastCell ss" ?A] by auto
  then have c: "cellOk c" using p(2) unfolding all list_all_iff by blast
  have AB: "cellsSorted ?A" "list_all cellOk ?A"
    using p(1,2) sorted_parts(1) [of "[]"] unfolding all by (simp_all add: list_all_iff)
  have popA: "after (Some c) ?A = scannerRest env (tabletAt s t) sc"
    by (rule after_pop [OF AB p(3) rest])
  have popAll: "after (Some c) (?A @ ?B) = scannerRest env (tabletAt s t) sc @ ?B"
    by (rule after_pop [OF p(1) [unfolded all] p(2) [unfolded all] p(3)]) (simp add: rest post)
  then have B: "after (Some c) ?B = ?B" using popA by simp
  have "scannerAt env s ts ?ss t sc post"
    unfolding scannerAt_def same using ts cur sc popA B by auto
  moreover have "superPredOk ?ss" using ok c by (simp add: superPredOk_def)
  ultimately have "super_inv env s ts ?ss" by (auto simp: super_inv_def)
  moreover have "pendingCells env s ts ?ss = scannerRest env (tabletAt s t) sc @ ?B"
    unfolding pendingCells_def same all using popAll by simp
  ultimately show ?thesis unfolding pops_def pend by auto
qed

text \<open>Leaving an exhausted tablet: the rows that remain are those above its last row.\<close>

lemma leave:
  assumes tab: "tableOk s ts" and ok: "superPredOk ss" and at: "scannerAt env s ts ss t sc post"
    and q: "getAdjacentComplement (maxRow (tabletAt s t)) = Inr q"
  obtains ss' where "setMinRow q ss = Inr ss'" "superPredOk ss'" "ss_scanner ss' = ss_scanner ss"
    "currentRows ss' = currentRows ss" "ss_lastCell ss' = ss_lastCell ss"
    "\<And>p. p \<in> set (points (remainingRows ss')) \<Longrightarrow> \<not> pointLt (<) p q"
    "\<And>u. u \<in> set post \<Longrightarrow> tabletCells env (currentPred ss') (tabletAt s u) = tabletCells env (currentPred ss) (tabletAt s u)"
    "\<And>u. u \<in> set ts \<Longrightarrow> u \<notin> set post \<Longrightarrow> tabletCells env (currentPred ss') (tabletAt s u) = []"
proof -
  let ?x = "tabletAt s t"
  obtain pre where ts: "ts = pre @ t # post" using at by (auto simp: scannerAt_def)
  have t: "t \<in> set ts" using ts by simp
  note d = tableOk_deref [OF tab t] and b = range_bounds [OF tableOk_deref(2,3) [OF tab t]]
  note comp = complement_correct [OF q b(2)]
  let ?r = "\<lparr>lowerBound = q, upperBound = mk_point [] PT_INFINITE_UPPER_BOUND\<rparr>"
  have r: "Interval2 q (mk_point [] PT_INFINITE_UPPER_BOUND) = Inr ?r"
    using comp(1) by (simp add: Interval2_def point_pred_defs point_type_defs)
  have wf: "interval_wf ?r" using comp(1) by (simp add: wf_simps point_pred_defs point_type_defs)
  define ss' where "ss' = ss\<lparr>remainingRows := isetClip (<) ?r (remainingRows ss)\<rparr>"
  have inv: "iset_inv (<) (remainingRows ss)" using ok by (simp add: superPredOk_def)
  note cl = std_less.clip_correct [OF inv wf]
  have ok': "superPredOk ss'" using ok cl(1) by (simp add: superPredOk_def ss'_def)
  have above: "intervalContains (<) ?r v \<longleftrightarrow> pointLt (<) q (mk_point v PT_POINT)" for v
    by (simp add: intervalContains_points) (simp add: pointLt_def isLess_def point_type_defs)
  have allow: "cellAllowed (currentPred ss') c \<longleftrightarrow> cellAllowed (currentPred ss) c \<and> pointLt (<) q (mk_point (getRow c) PT_POINT)" for c
    unfolding currentPred_def allowed_set by (auto simp: ss'_def cl(2) above)
  have restrict: "tabletCells env (currentPred ss') (tabletAt s u) =
      filter (\<lambda>c. pointLt (<) q (mk_point (getRow c) PT_POINT)) (tabletCells env (currentPred ss) (tabletAt s u))"
    if "u \<in> set ts" for u
    using tabletCells_restrict [OF tableOk_deref(2,3) [OF tab that] _ _ _ _ allow] currentPred_ok [OF ok] currentPred_ok [OF ok']
    by blast
  have cells: "intervalContains (<) (tabletRange (tabletAt s u)) (getRow c)"
    if "u \<in> set ts" "c \<in> set (tabletCells env (currentPred ss) (tabletAt s u))" for u c
    using tabletCells_correct(4) [OF tableOk_deref(2,3) [OF tab that(1)]] currentPred_ok [OF ok] that(2) by blast
  note order = tableOk_sorted [OF tab]
  show ?thesis
  proof (rule that [of ss'])
    show "setMinRow q ss = Inr ss'" by (simp add: setMinRow_def r ss'_def)
    show "superPredOk ss'" by (rule ok')
    show "\<not> pointLt (<) p q" if "p \<in> set (points (remainingRows ss'))" for p
      using std_less.clip_within [OF inv wf] that by (simp add: ss'_def)
    show "tabletCells env (currentPred ss') (tabletAt s u) = tabletCells env (currentPred ss) (tabletAt s u)" if u: "u \<in> set post" for u
    proof -
      have "u \<in> set ts" and lt: "pointLt (<) (maxRow ?x) (minRow (tabletAt s u))"
        using u order unfolding ts by (auto simp: sorted_wrt_append)
      have "pointLt (<) q (mk_point (getRow c) PT_POINT)" if c: "c \<in> set (tabletCells env (currentPred ss) (tabletAt s u))" for c
      proof -
        have "pointLt (<) (minRow (tabletAt s u)) (mk_point (getRow c) PT_POINT)"
          using cells [OF \<open>u \<in> set ts\<close> c] by (simp add: in_range_points)
        then show ?thesis
          using comp(3) [of "minRow (tabletAt s u)"] lt range_bounds(1) [OF tableOk_deref(2,3) [OF tab \<open>u \<in> set ts\<close>]]
            std_less.pointLe_lt_trans by blast
      qed
      then show ?thesis using restrict [OF \<open>u \<in> set ts\<close>] by (simp add: filter_id_conv)
    qed
    show "tabletCells env (currentPred ss') (tabletAt s u) = []" if u: "u \<in> set ts" "u \<notin> set post" for u
    proof -
      have le: "u = t \<or> pointLt (<) (maxRow (tabletAt s u)) (minRow ?x)"
        using u order unfolding ts by (auto simp: sorted_wrt_append)
      have "\<not> pointLt (<) q (mk_point (getRow c) PT_POINT)" if c: "c \<in> set (tabletCells env (currentPred ss) (tabletAt s u))" for c
      proof -
        have "pointLt (<) (mk_point (getRow c) PT_POINT) (maxRow (tabletAt s u))"
          using cells [OF u(1) c] by (simp add: in_range_points)
        then have "pointLt (<) (mk_point (getRow c) PT_POINT) (maxRow ?x)"
          using le b(3) std_less.pointLt_trans by blast
        then show ?thesis using comp(2) std_less.pointLt_trans std_less.pointLt_asym by blast
      qed
      then show ?thesis using restrict [OF u(1)] by (simp add: filter_empty_conv)
    qed
  qed (simp_all add: ss'_def)
qed

end

lemma tiles_disjoint:
  assumes "tableOk s ts" "ts = pre @ t # post" "u \<in> set pre \<or> u = t"
  shows "u \<notin> set post"
proof
  assume u: "u \<in> set post"
  have "pointLt (<) (maxRow (tabletAt s u)) (minRow (tabletAt s u))"
    using tableOk_sorted [OF assms(1)] assms(2,3) u by (auto simp: sorted_wrt_append)
  moreover have "u \<in> set ts" using assms(2) u by simp
  ultimately show False
    using range_bounds(3) [OF tableOk_deref(2,3) [OF assms(1)]] std_less.pointLt_asym by blast
qed

text \<open>A tablet whose last row is not below the remaining rows comes after those that are.\<close>

lemma later_part:
  assumes "ts = pre @ t # post" "ts = pre' @ t' # post'" "t' \<notin> set pre" "t' \<noteq> t"
  obtains mid where "post = mid @ t' # post'"
proof -
  have "length pre < length pre'"
  proof (rule ccontr)
    assume n: "\<not> ?thesis"
    have "t' = (pre @ t # post) ! length pre'" using assms(1,2) by (metis nth_append_length)
    then show False
      using n assms(3,4) by (cases "length pre' = length pre") (auto simp: nth_append)
  qed
  obtain zs where "pre' = pre @ zs \<and> zs @ t' # post' = t # post"
    using assms(1,2) \<open>length pre < length pre'\<close> by (auto simp: append_eq_append_conv2)
  moreover from this have "zs \<noteq> []" using \<open>length pre < length pre'\<close> by auto
  ultimately show ?thesis using that by (cases zs) auto
qed

context fragment_contract
begin

lemma tableCells_empty: "(\<And>u. u \<in> set us \<Longrightarrow> tabletCells env p (tabletAt s u) = []) \<Longrightarrow> tableCells env p s us = []"
  by (induction us) simp_all

lemma tableCells_cong:
  "(\<And>u. u \<in> set us \<Longrightarrow> tabletCells env p (tabletAt s u) = tabletCells env p' (tabletAt s u)) \<Longrightarrow>
    tableCells env p s us = tableCells env p' s us"
  by (induction us) simp_all

lemma no_rows_cells:
  assumes "tableOk s ts" "superPredOk ss" "isetIsEmpty (remainingRows ss)" "u \<in> set ts"
  shows "tabletCells env (currentPred ss) (tabletAt s u) = []"
proof -
  have "\<not> cellAllowed (currentPred ss) c" for c
    using assms(3) by (simp add: currentPred_def allowed_set isetIsEmpty_def isetContains_def isInRange_def)
  then have "c \<notin> set (tabletCells env (currentPred ss) (tabletAt s u))" for c
    using tabletCells_correct(4) [OF tableOk_deref(2,3) [OF assms(1,4)]] currentPred_ok [OF assms(2)] by blast
  then show ?thesis by (meson all_not_in_conv set_empty)
qed

lemma superLoop_pops:
  assumes tab: "tableOk s ts"
  shows "superPredOk ss \<Longrightarrow> ss_scanner ss = Some (t, sc) \<Longrightarrow> scannerAt env s ts ss t sc post \<Longrightarrow> length post < n \<Longrightarrow>
    pops s ts (pendingCells env s ts ss) (superLoop env s ts n ss)"
proof (induction n arbitrary: ss t sc post)
  case (Suc n)
  note ok = Suc.prems(1) and at = Suc.prems(3)
  obtain pre where ts: "ts = pre @ t # post" "tableCells env (currentPred ss) s pre = []"
    using at by (auto simp: scannerAt_def)
  have t: "t \<in> set ts" using ts by simp
  note d = tableOk_deref [OF tab t]
  let ?x = "tabletAt s t"
  have sok: "scannerOk env ?x sc" and cur: "currentRows ss = tabletRange ?x"
    and rest: "scannerRest env ?x sc = after (ss_lastCell ss) (tabletCells env (currentPred ss) ?x)"
    and post: "after (ss_lastCell ss) (tableCells env (currentPred ss) s post) = tableCells env (currentPred ss) s post"
    using at by (auto simp: scannerAt_def)
  obtain sc' where g: "scannerGet env ?x sc = Inr (sc', case scannerRest env ?x sc of [] \<Rightarrow> None | c # _ \<Rightarrow> Some c)"
    "scannerOk env ?x sc'" "scannerRest env ?x sc' = tl (scannerRest env ?x sc)"
    using scannerGet_rest [OF sok] by blast
  show ?case
  proof (cases "scannerRest env ?x sc")
    case (Cons c cs)
    then have "after (ss_lastCell ss) (tabletCells env (currentPred ss) ?x) = c # scannerRest env ?x sc'"
      using rest g(3) by simp
    from deliver [OF tab ok cur ts g(2) this post] show ?thesis
      using g(1) Cons d(1) Suc.prems(2) by simp
  next
    case Nil
    let ?s1 = "ss\<lparr>ss_scanner := Some (t, sc')\<rparr>"
    have ok1: "superPredOk ?s1" using ok by (simp add: superPredOk_def)
    have cp1: "currentPred ?s1 = currentPred ss" by (simp add: currentPred_def)
    have at1: "scannerAt env s ts ?s1 t sc' post"
      using at g(2,3) Nil rest unfolding scannerAt_def cp1 by simp
    have pend: "pendingCells env s ts ss = tableCells env (currentPred ss) s post"
      using pending_at [OF at] Nil by simp
    have step: "superLoop env s ts (Suc n) ss = bind_res (openNextScanner s ts ?s1)
        (\<lambda>(ss2, opened). if opened then superLoop env s ts n ss2 else Inr (ss2, None))"
      using g(1) Nil d(1) Suc.prems(2) by simp
    show ?thesis
    proof (cases "pointIsInfinite (maxRow ?x)")
      case True
      have "post = []"
      proof (rule ccontr)
        assume "post \<noteq> []"
        then obtain u where "u \<in> set post" by (meson list.set_sel(1))
        then have "pointLt (<) (maxRow ?x) (minRow (tabletAt s u))"
          using tableOk_sorted [OF tab] unfolding ts(1) by (auto simp: sorted_wrt_append)
        then show False
          using True range_bounds(2) [OF d(2,3)] by (auto simp: pointLt_def isLess_def point_pred_defs point_type_defs)
      qed
      then have "pendingCells env s ts ss = []" using pend by simp
      moreover have "openNextScanner s ts ?s1 = Inr (?s1, False)"
        using True cur by (simp add: openNextScanner_def tabletRange_def)
      moreover have "super_inv env s ts ?s1" using ok1 at1 by (auto simp: super_inv_def)
      moreover have "pendingCells env s ts ?s1 = pendingCells env s ts ss"
        by (simp add: pendingCells_def cp1)
      ultimately show ?thesis unfolding step pops_def by simp
    next
      case False
      then obtain q where q: "getAdjacentComplement (maxRow ?x) = Inr q"
        using complement_defined range_bounds(2) [OF d(2,3)] by blast
      obtain s2 where raw: "setMinRow q ?s1 = Inr s2" "superPredOk s2" "ss_scanner s2 = ss_scanner ?s1"
        "currentRows s2 = currentRows ?s1" "ss_lastCell s2 = ss_lastCell ?s1"
        "\<And>p. p \<in> set (points (remainingRows s2)) \<Longrightarrow> \<not> pointLt (<) p q"
        "\<And>u. u \<in> set post \<Longrightarrow> tabletCells env (currentPred s2) (tabletAt s u) = tabletCells env (currentPred ?s1) (tabletAt s u)"
        "\<And>u. u \<in> set ts \<Longrightarrow> u \<notin> set post \<Longrightarrow> tabletCells env (currentPred s2) (tabletAt s u) = []"
        by (rule leave [OF tab ok1 at1 q]) (rule that)
      note s2 = raw(1,2) raw(3,4,5) [simplified] raw(6) raw(7) [unfolded cp1] raw(8)
      have next_open: "openNextScanner s ts ?s1 = openScanner s ts s2"
        using False cur q s2(1) by (simp add: openNextScanner_def tabletRange_def)
      have samePost: "tableCells env (currentPred s2) s post = tableCells env (currentPred ss) s post"
        using s2(7) by (rule tableCells_cong)
      have none: "tabletCells env (currentPred s2) (tabletAt s u) = []" if "u \<in> set pre \<or> u = t" for u
        using s2(8) [of u] tiles_disjoint [OF tab ts(1)] that ts(1) by auto
      then have preNone: "tableCells env (currentPred s2) s pre = []" by (intro tableCells_empty) blast
      have pend2: "pendingCells env s ts s2 = pendingCells env s ts ss"
        using post unfolding pend unfolding pendingCells_def s2(5) ts(1)
        by (simp add: preNone none samePost)
      show ?thesis
      proof (cases "isetIsEmpty (remainingRows s2)")
        case True
        then have "tabletCells env (currentPred s2) (tabletAt s u) = []" if "u \<in> set ts" for u
          using no_rows_cells [OF tab s2(2) _ that] by blast
        then have e: "pendingCells env s ts s2 = []"
          by (simp add: pendingCells_def tableCells_empty)
        have "scannerAt env s ts s2 t sc' post"
          using at1 s2 ts preNone none samePost post rest Nil g(2,3) unfolding scannerAt_def by simp
        then have "super_inv env s ts s2" using s2(2,3) by (auto simp: super_inv_def)
        moreover have "openScanner s ts s2 = Inr (s2, False)" using True by (simp add: openScanner_def)
        ultimately show ?thesis unfolding step next_open pops_def using e pend2 by simp
      next
        case False
        obtain pre' t' post' sc2 where o: "ts = pre' @ t' # post'"
          "openScanner s ts s2 = Inr (s2\<lparr>ss_pred := currentPred s2, currentRows := tabletRange (tabletAt s t'),
              ss_scanner := Some (t', sc2)\<rparr>, True)"
          "scannerOk env (tabletAt s t') sc2"
          "scannerRest env (tabletAt s t') sc2 = tabletCells env (currentPred s2) (tabletAt s t')"
          "tableCells env (currentPred s2) s pre' = []"
          "\<not> pointLt (<) (maxRow (tabletAt s t')) (hd (points (remainingRows s2)))"
          using open_correct [OF tab s2(2) False] by blast
        have below: "pointLt (<) (maxRow (tabletAt s u)) (hd (points (remainingRows s2)))" if "u \<in> set pre \<or> u = t" for u
        proof -
          have "hd (points (remainingRows s2)) \<in> set (points (remainingRows s2))"
            using False by (simp add: isetIsEmpty_def)
          then have "pointLt (<) (maxRow ?x) (hd (points (remainingRows s2)))"
            using s2(6) complement_correct(2) [OF q range_bounds(2) [OF d(2,3)]] std_less.pointLt_le_trans by blast
          moreover have "u = t \<or> pointLt (<) (maxRow (tabletAt s u)) (maxRow ?x)"
          proof -
            have "u = t \<or> pointLt (<) (maxRow (tabletAt s u)) (minRow ?x)"
              using that tableOk_sorted [OF tab] unfolding ts(1) by (auto simp: sorted_wrt_append)
            then show ?thesis using range_bounds(3) [OF d(2,3)] std_less.pointLt_trans by blast
          qed
          ultimately show ?thesis using std_less.pointLt_trans by blast
        qed
        have "t' \<notin> set pre" "t' \<noteq> t" using o(6) below by blast+
        then obtain mid where mid: "post = mid @ t' # post'"
          using later_part [OF ts(1) o(1)] by blast
        let ?s3 = "s2\<lparr>ss_pred := currentPred s2, currentRows := tabletRange (tabletAt s t'), ss_scanner := Some (t', sc2)\<rparr>"
        have cp3: "currentPred ?s3 = currentPred s2" by (simp add: currentPred_def setRowPredicate_def)
        have ok3: "superPredOk ?s3"
          using s2(2) currentPred_ok [OF s2(2)] by (simp add: superPredOk_def)
        have all: "after (ss_lastCell ss) (tableCells env (currentPred s2) s (mid @ t' # post')) =
            tableCells env (currentPred s2) s (mid @ t' # post')"
          using post samePost unfolding mid by simp
        then have "after (ss_lastCell ss) (tabletCells env (currentPred s2) (tabletAt s t')) = tabletCells env (currentPred s2) (tabletAt s t')"
          "after (ss_lastCell ss) (tableCells env (currentPred s2) s post') = tableCells env (currentPred s2) s post'"
          unfolding after_id by simp_all
        then have at3: "scannerAt env s ts ?s3 t' sc2 post'"
          unfolding scannerAt_def cp3 using o s2(5) by auto
        have "length post' < n" using Suc.prems(4) mid by simp
        from Suc.IH [OF ok3 _ at3 this] have "pops s ts (pendingCells env s ts ?s3) (superLoop env s ts n ?s3)" by simp
        moreover have "pendingCells env s ts ?s3 = pendingCells env s ts s2"
          by (simp add: pendingCells_def cp3)
        ultimately show ?thesis unfolding step next_open using o(2) pend2 by simp
      qed
    qed
  qed
qed simp

end

lemma after_mem: "c \<in> set (after (Some l) cs) \<longleftrightarrow> c \<in> set cs \<and> cellLt l c"
  by (auto simp: after_def)

lemma after_found:
  assumes "cellsSorted (us @ c # vs)" "list_all cellOk (us @ c # vs)" "\<forall>k. Some l = Some k \<longrightarrow> cellOk k"
    and "\<forall>u\<in>set us. \<not> cellLt l u" "after (Some l) (us @ c # vs) = c # cs"
  shows "cs = vs"
proof -
  have us: "filter (cellLt l) us = []" using assms(4) by (simp add: filter_empty_conv)
  have "c \<in> set (after (Some l) (us @ c # vs))" by (simp only: assms(5) list.set_intros(1))
  then have lc: "cellLt l c" using after_mem by blast
  have "cellLt l v" if "v \<in> set vs" for v
    using that lc assms(1-3) cell_values.lt_key [of l c] cell_values.lt_key [of l v]
    by (auto simp: cellsSorted_def sorted_wrt_append list_all_iff dest: less_trans)
  then have "filter (cellLt l) vs = vs" by (simp add: filter_id_conv)
  then show ?thesis using assms(5) us lc by (simp add: after_def)
qed

context fragment_contract
begin

text \<open>Going back to the row of the last cell does not change what has still to be delivered.\<close>

lemma go_back:
  assumes tab: "tableOk s ts" and ok: "superPredOk ss" and l: "ss_lastCell ss = Some l"
  defines "b \<equiv> mk_point (getRow l) PT_INCLUSIVE_LOWER_BOUND"
  obtains ss1 where "setMinRow b ss = Inr ss1" "superPredOk ss1" "ss_scanner ss1 = ss_scanner ss"
    "ss_lastCell ss1 = Some l" "pendingCells env s ts ss1 = pendingCells env s ts ss"
    "\<And>p. p \<in> set (points (remainingRows ss1)) \<Longrightarrow> \<not> pointLt (<) p b"
proof -
  let ?r = "fromRow (getRow l)"
  have r: "Interval2 b (mk_point [] PT_INFINITE_UPPER_BOUND) = Inr ?r"
    by (simp add: b_def fromRow_def Interval2_def point_pred_defs point_type_defs)
  define ss1 where "ss1 = ss\<lparr>remainingRows := isetClip (<) ?r (remainingRows ss)\<rparr>"
  have inv: "iset_inv (<) (remainingRows ss)" and okl: "cellOk l" using ok l by (simp_all add: superPredOk_def)
  note cl = std_less.clip_correct [OF inv fromRow_simps(2) [of "getRow l"]]
  have ok1: "superPredOk ss1" using ok cl(1) by (simp add: superPredOk_def ss1_def)
  have allow: "cellAllowed (currentPred ss1) c \<longleftrightarrow> cellAllowed (currentPred ss) c \<and> getRow l \<le> getRow c" for c
    unfolding currentPred_def allowed_set by (auto simp: ss1_def cl(2) fromRow_simps)
  have "tableCells env (currentPred ss1) s ts = filter (\<lambda>c. getRow l \<le> getRow c) (tableCells env (currentPred ss) s ts)"
    using tableCells_restrict [OF tab subset_refl _ _ _ _ allow] currentPred_ok [OF ok] currentPred_ok [OF ok1] by blast
  moreover have "filter (cellLt l) (filter (\<lambda>c. getRow l \<le> getRow c) cs) = filter (cellLt l) cs" if "list_all cellOk cs" for cs
  proof -
    have "getRow l \<le> getRow c" if "c \<in> set cs" "cellLt l c" for c
    proof -
      have "cellKey l < cellKey c"
        using that \<open>list_all cellOk cs\<close> cell_values.lt_key [OF okl, of c] by (simp add: list_all_iff)
      then show ?thesis unfolding cellKey_def less_prod_def' fst_conv snd_conv by auto
    qed
    then show ?thesis by (auto intro: filter_cong)
  qed
  ultimately have "pendingCells env s ts ss1 = pendingCells env s ts ss"
    using table_parts(2) [OF tab ok] l by (simp add: pendingCells_def after_def ss1_def)
  moreover have "\<not> pointLt (<) p b" if "p \<in> set (points (remainingRows ss1))" for p
    using std_less.clip_within [OF inv fromRow_simps(2)] that by (auto simp: ss1_def b_def fromRow_def)
  ultimately show ?thesis
    using that [of ss1] ok1 l by (simp add: setMinRow_def r) (simp add: ss1_def)
qed

lemma bound_below_row:
  assumes "pointIsUpperBound u" "pointLt (<) u (mk_point (v :: string) PT_POINT)"
  shows "pointLt (<) u (mk_point v PT_INCLUSIVE_LOWER_BOUND)"
  using assms by (auto simp: pointLt_def isLess_def point_pred_defs point_type_defs less_PointType_def split: if_splits)

text \<open>The cells of later tablets come after the last cell.\<close>

lemma later_after:
  assumes tab: "tableOk s ts" and ok: "superPredOk ss" and l: "ss_lastCell ss = Some l"
    and ts: "ts = pre @ t # post"
    and top: "\<not> pointLt (<) (maxRow (tabletAt s t)) (mk_point (getRow l) PT_INCLUSIVE_LOWER_BOUND)"
  shows "after (Some l) (tableCells env (currentPred ss) s post) = tableCells env (currentPred ss) s post"
proof -
  have t: "t \<in> set ts" using ts by simp
  have "cellLt l c" if c: "c \<in> set (tableCells env (currentPred ss) s post)" for c
  proof -
    obtain u where u: "u \<in> set post" "c \<in> set (tabletCells env (currentPred ss) (tabletAt s u))"
      using c by (auto simp: tableCells_def)
    then have "u \<in> set ts" using ts by simp
    note tc = tabletCells_correct [OF tableOk_deref(2,3) [OF tab this] currentPred_ok [OF ok, THEN conjunct1]
        currentPred_ok [OF ok, THEN conjunct2]]
    have "pointLt (<) (maxRow (tabletAt s t)) (minRow (tabletAt s u))"
      using tableOk_sorted [OF tab] u(1) unfolding ts by (auto simp: sorted_wrt_append)
    moreover have "pointLt (<) (minRow (tabletAt s u)) (mk_point (getRow c) PT_POINT)"
      using tc(4) u(2) by (simp add: in_range_points)
    ultimately have lt: "pointLt (<) (maxRow (tabletAt s t)) (mk_point (getRow c) PT_POINT)"
      using std_less.pointLt_trans by blast
    have "getRow l < getRow c"
    proof (rule ccontr)
      assume "\<not> ?thesis"
      then have "pointLt (<) (maxRow (tabletAt s t)) (mk_point (getRow l) PT_POINT)"
        using lt std_less.pointLt_le_trans point_row_less by blast
      then show False
        using bound_below_row range_bounds(2) [OF tableOk_deref(2,3) [OF tab t]] top by blast
    qed
    then show ?thesis
      using cell_values.lt_key [of l c] key_of_row ok l tc(3) u(2) by (simp add: superPredOk_def list_all_iff)
  qed
  then show ?thesis by (simp add: after_id)
qed

lemma superGet_pops:
  assumes tab: "tableOk s ts" and inv: "super_inv env s ts ss"
  shows "pops s ts (pendingCells env s ts ss) (superGet env s ts ss)"
proof (cases "ss_scanner ss")
  case (Some p)
  then obtain t sc where p: "ss_scanner ss = Some (t, sc)" by (cases p) simp
  then obtain post where at: "scannerAt env s ts ss t sc post" using inv by (auto simp: super_inv_def)
  then have "length post < Suc (length ts)" by (auto simp: scannerAt_def)
  moreover have "superPredOk ss" using inv by (simp add: super_inv_def)
  ultimately have "pops s ts (pendingCells env s ts ss) (superLoop env s ts (Suc (length ts)) ss)"
    using superLoop_pops [OF tab _ p at] by blast
  then show ?thesis using p by (simp add: superGet_def Let_def)
next
  case None
  have ok: "superPredOk ss" using inv by (simp add: super_inv_def)
  obtain ss1 where s1: "(case ss_lastCell ss of
        Some l \<Rightarrow> setMinRow (mk_point (getRow l) PT_INCLUSIVE_LOWER_BOUND) ss | None \<Rightarrow> Inr ss) = Inr ss1"
      "superPredOk ss1" "ss_scanner ss1 = None" "ss_lastCell ss1 = ss_lastCell ss"
      "pendingCells env s ts ss1 = pendingCells env s ts ss"
      "\<And>l p. ss_lastCell ss = Some l \<Longrightarrow> p \<in> set (points (remainingRows ss1)) \<Longrightarrow>
         \<not> pointLt (<) p (mk_point (getRow l) PT_INCLUSIVE_LOWER_BOUND)"
  proof (cases "ss_lastCell ss")
    case (Some l)
    obtain s' where "setMinRow (mk_point (getRow l) PT_INCLUSIVE_LOWER_BOUND) ss = Inr s'" "superPredOk s'"
      "ss_scanner s' = ss_scanner ss" "ss_lastCell s' = Some l" "pendingCells env s ts s' = pendingCells env s ts ss"
      "\<And>p. p \<in> set (points (remainingRows s')) \<Longrightarrow> \<not> pointLt (<) p (mk_point (getRow l) PT_INCLUSIVE_LOWER_BOUND)"
      by (rule go_back [OF tab ok Some]) (rule that)
    then show ?thesis using None Some by (intro that [of s']) auto
  qed (use None ok that in simp)
  show ?thesis
  proof (cases "isetIsEmpty (remainingRows ss1)")
    case True
    then have "pendingCells env s ts ss1 = []"
      using no_rows_cells [OF tab s1(2) True] by (simp add: pendingCells_def tableCells_empty)
    moreover have "superGet env s ts ss = Inr (ss1, None)"
      using True None s1(1) by (simp add: superGet_def Let_def openScanner_def)
    moreover have "super_inv env s ts ss1" using s1(2,3) by (simp add: super_inv_def)
    ultimately show ?thesis unfolding pops_def using s1(5) by simp
  next
    case False
    obtain pre t post sc where o: "ts = pre @ t # post"
      "openScanner s ts ss1 = Inr (ss1\<lparr>ss_pred := currentPred ss1, currentRows := tabletRange (tabletAt s t),
          ss_scanner := Some (t, sc)\<rparr>, True)"
      "scannerOk env (tabletAt s t) sc"
      "scannerRest env (tabletAt s t) sc = tabletCells env (currentPred ss1) (tabletAt s t)"
      "tableCells env (currentPred ss1) s pre = []"
      "\<not> pointLt (<) (maxRow (tabletAt s t)) (hd (points (remainingRows ss1)))"
      using open_correct [OF tab s1(2) False] by blast
    let ?s2 = "ss1\<lparr>ss_pred := currentPred ss1, currentRows := tabletRange (tabletAt s t), ss_scanner := Some (t, sc)\<rparr>"
    have cp2: "currentPred ?s2 = currentPred ss1" by (simp add: currentPred_def setRowPredicate_def)
    have ok2: "superPredOk ?s2" using s1(2) currentPred_ok [OF s1(2)] by (simp add: superPredOk_def)
    have pend2: "pendingCells env s ts ?s2 = pendingCells env s ts ss"
      using s1(5) by (simp add: pendingCells_def cp2)
    have len: "length post < Suc (length ts)" using o(1) by simp
    have t: "t \<in> set ts" using o(1) by simp
    note d = tableOk_deref [OF tab t]
    show ?thesis
    proof (cases "ss_lastCell ss")
      case None
      have "scannerAt env s ts ?s2 t sc post"
        unfolding scannerAt_def cp2 using o s1(4) None by auto
      from superLoop_pops [OF tab ok2 _ this len]
      have "pops s ts (pendingCells env s ts ss) (superLoop env s ts (Suc (length ts)) ?s2)" unfolding pend2 by simp
      then show ?thesis
        using \<open>ss_scanner ss = None\<close> s1(1,4) o(2) None by (simp add: superGet_def Let_def del: superLoop.simps)
    next
      case (Some l)
      have top: "\<not> pointLt (<) (maxRow (tabletAt s t)) (mk_point (getRow l) PT_INCLUSIVE_LOWER_BOUND)"
      proof -
        have "hd (points (remainingRows ss1)) \<in> set (points (remainingRows ss1))" using False by (simp add: isetIsEmpty_def)
        then show ?thesis using s1(6) [OF Some] o(6) std_less.pointLt_le_trans by blast
      qed
      have post: "after (Some l) (tableCells env (currentPred ss1) s post) = tableCells env (currentPred ss1) s post"
        using later_after [OF tab s1(2) _ o(1) top] s1(4) Some by simp
      obtain sc' where ff: "scannerOk env (tabletAt s t) sc'" "case after (Some l) (scannerRest env (tabletAt s t) sc) of
         [] \<Rightarrow> superFastForward env (tabletAt s t) l sc = Inr (sc', None) \<and> scannerRest env (tabletAt s t) sc' = []
       | c # _ \<Rightarrow> superFastForward env (tabletAt s t) l sc = Inr (sc', Some c) \<and>
           (\<exists>us. scannerRest env (tabletAt s t) sc = us @ c # scannerRest env (tabletAt s t) sc' \<and>
              (\<forall>u\<in>set us. \<not> cellLt l u))"
        using fastForward_rest [OF o(3)] by blast
      have step: "superGet env s ts ss = bind_res (superFastForward env (tabletAt s t) l sc) (\<lambda>(sc', r).
          case r of
            Some c \<Rightarrow> Inr (?s2\<lparr>ss_scanner := Some (t, sc'), ss_lastCell := Some c\<rparr>, Some c)
          | None \<Rightarrow> superLoop env s ts (Suc (length ts)) (?s2\<lparr>ss_scanner := Some (t, sc')\<rparr>))"
        using \<open>ss_scanner ss = None\<close> s1(1,4) o(2) Some d(1)
        by (cases "superFastForward env (tabletAt s t) l sc")
          (auto simp: superGet_def Let_def simp del: superLoop.simps split: option.split)
      show ?thesis
      proof (cases "after (Some l) (scannerRest env (tabletAt s t) sc)")
        case Nil
        let ?s3 = "?s2\<lparr>ss_scanner := Some (t, sc')\<rparr>"
        have cp3: "currentPred ?s3 = currentPred ss1" by (simp add: currentPred_def setRowPredicate_def)
        have "scannerAt env s ts ?s3 t sc' post"
          unfolding scannerAt_def cp3 using o s1(4) Some ff Nil post by auto
        moreover have "superPredOk ?s3" using ok2 by (simp add: superPredOk_def)
        ultimately have "pops s ts (pendingCells env s ts ?s3) (superLoop env s ts (Suc (length ts)) ?s3)"
          using superLoop_pops [OF tab _ _ _ len, of ?s3 t sc'] by simp
        moreover have "pendingCells env s ts ?s3 = pendingCells env s ts ss"
          using s1(5) unfolding pendingCells_def cp3 by simp
        ultimately show ?thesis using ff(2) Nil unfolding step by (simp del: superLoop.simps)
      next
        case (Cons c cs)
        then obtain us where us: "scannerRest env (tabletAt s t) sc = us @ c # scannerRest env (tabletAt s t) sc'"
          "\<forall>u\<in>set us. \<not> cellLt l u" "superFastForward env (tabletAt s t) l sc = Inr (sc', Some c)"
          using ff(2) by auto
        have parts: "cellsSorted (tabletCells env (currentPred ss1) (tabletAt s t))"
          "list_all cellOk (tabletCells env (currentPred ss1) (tabletAt s t))" "\<forall>k. Some l = Some k \<longrightarrow> cellOk k"
          using tabletCells_correct(2,3) [OF d(2,3)] currentPred_ok [OF s1(2)] s1(2,4) Some
          by (auto simp: superPredOk_def)
        have "cs = scannerRest env (tabletAt s t) sc'"
          using after_found [OF parts [folded o(4), unfolded us(1)] us(2)] Cons unfolding us(1) by simp
        then have "after (Some l) (tabletCells env (currentPred ss1) (tabletAt s t)) = c # scannerRest env (tabletAt s t) sc'"
          using Cons o(4) by simp
        then have "pops s ts (pendingCells env s ts ?s2)
            (Inr (?s2\<lparr>ss_scanner := Some (t, sc'), ss_lastCell := Some c\<rparr>, Some c))"
          using deliver [OF tab ok2 _ o(1) _ ff(1), of c] cp2 o(5) post s1(4) Some by simp
        then show ?thesis unfolding step us(3) pend2 by simp
      qed
    qed
  qed
qed

end

subsection \<open>Reading a whole table\<close>

text \<open>\<open>n\<close> calls of \<open>get\<close>, up to the first that fails.\<close>

fun superRead ::
  "Fragments \<Rightarrow> Server \<Rightarrow> nat list \<Rightarrow> nat \<Rightarrow> SuperScanner \<Rightarrow> (SuperScanner \<times> Cell list) result" where
  "superRead env s ts 0 ss = Inr (ss, [])"
| "superRead env s ts (Suc n) ss =
     bind_res (superGet env s ts ss) (\<lambda>(ss1, r).
       case r of
         None \<Rightarrow> Inr (ss1, [])
       | Some c \<Rightarrow> bind_res (superRead env s ts n ss1) (\<lambda>(ss2, cs). Inr (ss2, c # cs)))"

lemma infinite_set:
  "iset_inv (<) (isetAdd (<) (setInfinite [] (Interval0 [])) IntervalSet0 :: string IntervalSet)"
  "isetContains (<) (isetAdd (<) (setInfinite [] (Interval0 [])) IntervalSet0) (v :: string)"
proof -
  have wf: "interval_wf (setInfinite [] (Interval0 [] :: string Interval))"
    by (simp add: wf_simps setInfinite_def unsetLowerBound_def unsetUpperBound_def point_pred_defs point_type_defs)
  then show "iset_inv (<) (isetAdd (<) (setInfinite [] (Interval0 [])) IntervalSet0 :: string IntervalSet)"
    by (rule add_to_empty(1))
  have "intervalIsInfinite (setInfinite [] (Interval0 [] :: string Interval))"
    by (simp add: intervalIsInfinite_def setInfinite_def unsetLowerBound_def unsetUpperBound_def point_pred_defs point_type_defs)
  then show "isetContains (<) (isetAdd (<) (setInfinite [] (Interval0 [])) IntervalSet0) v"
    using add_to_empty(2) [OF wf] infinite_interval_contains [OF wf] by blast
qed

lemma fresh_scanner:
  assumes "scan_predicate_inv pred" "maxHistory pred = 0"
  shows "super_inv env s ts (makeSuperScanner pred)"
    and "cellAllowed (currentPred (makeSuperScanner pred)) c \<longleftrightarrow> cellAllowed pred c"
proof -
  show "super_inv env s ts (makeSuperScanner pred)"
    using assms infinite_set(1)
    by (auto simp: super_inv_def superPredOk_def makeSuperScanner_def scan_predicate_inv_def split: option.splits)
  show "cellAllowed (currentPred (makeSuperScanner pred)) c \<longleftrightarrow> cellAllowed pred c"
    unfolding currentPred_def allowed_set
    using infinite_set(2) by (cases "rows pred") (simp_all add: makeSuperScanner_def cellAllowed_def rowAllowed_def)
qed

context fragment_contract
begin

lemma superRead_take:
  assumes "tableOk s ts"
  shows "super_inv env s ts ss \<Longrightarrow>
    \<exists>ss'. superRead env s ts n ss = Inr (ss', take n (pendingCells env s ts ss)) \<and> super_inv env s ts ss' \<and>
      pendingCells env s ts ss' = drop n (pendingCells env s ts ss)"
proof (induction n arbitrary: ss)
  case (Suc n)
  obtain ss1 where g: "superGet env s ts ss = Inr (ss1, case pendingCells env s ts ss of [] \<Rightarrow> None | c # _ \<Rightarrow> Some c)"
    "super_inv env s ts ss1" "pendingCells env s ts ss1 = tl (pendingCells env s ts ss)"
    using superGet_pops [OF assms Suc.prems] unfolding pops_def by blast
  then show ?case
    using Suc.IH [OF g(2)] by (cases "pendingCells env s ts ss") auto
qed simp

lemma fresh_pending:
  assumes "tableOk s ts" "scan_predicate_inv pred" "maxHistory pred = 0"
  shows "pendingCells env s ts (makeSuperScanner pred) = tableCells env pred s ts"
proof -
  have "superPredOk (makeSuperScanner pred)"
    using fresh_scanner(1) [OF assms(2,3)] by (auto simp: super_inv_def)
  note c = currentPred_ok [OF this]
  have "cellAllowed (currentPred (makeSuperScanner pred)) c \<longleftrightarrow> cellAllowed pred c \<and> True" for c
    using fresh_scanner(2) [OF assms(2,3)] by simp
  from tableCells_restrict [OF assms(1) subset_refl assms(2,3) c [THEN conjunct1] c [THEN conjunct2] this]
  show ?thesis by (simp add: pendingCells_def makeSuperScanner_def)
qed

lemma tableCells_member:
  assumes "tableOk s ts" "scan_predicate_inv pred" "maxHistory pred = 0"
  shows "c \<in> set (tableCells env pred s ts) \<longleftrightarrow> cellAllowed pred c \<and>
    (\<exists>t\<in>set ts. intervalContains (<) (tabletRange (tabletAt s t)) (getRow c) \<and>
       newest content (fragments (tabletAt s t)) (cellKey c) = Some c \<and>
       (isErasure c \<longrightarrow> soleImmutable env (fragments (tabletAt s t))))"
  using tabletCells_correct(4) [OF tableOk_deref(2,3) [OF assms(1)] assms(2,3)]
  by (auto simp: tableCells_def)

text \<open>The cells of the two halves of a split tablet.\<close>

lemma split_cells:
  assumes x: "tablet_wf x" "\<not> intervalIsEmpty (<) (tabletRange x)"
    and low: "tabletRange low = setUpperBound row BT_INCLUSIVE (tabletRange x)"
    and high: "tabletRange high = setLowerBound row BT_EXCLUSIVE (tabletRange x)"
    and ne: "\<not> intervalIsEmpty (<) (tabletRange low)" "\<not> intervalIsEmpty (<) (tabletRange high)"
    and frags: "fragments low = fragments x" "fragments high = fragments x"
    and p: "scan_predicate_inv p" "maxHistory p = 0"
  shows "tabletCells env p low @ tabletCells env p high = tabletCells env p x"
proof -
  have wf: "interval_wf (tabletRange x)" using x(1) by (simp add: tablet_wf_def)
  have wfs: "tablet_wf low" "tablet_wf high"
    unfolding tablet_wf_def low high using half_wf [OF wf] by blast+
  note l = tabletCells_correct [OF wfs(1) ne(1) p] and h = tabletCells_correct [OF wfs(2) ne(2) p]
    and a = tabletCells_correct [OF x p]
  note lo = low_half [OF ne(2) [unfolded high] wf] and hi = high_half [OF ne(1) [unfolded low] wf]
  have ord: "cellKey c < cellKey d" if "c \<in> set (tabletCells env p low)" "d \<in> set (tabletCells env p high)" for c d
  proof -
    have "getRow c \<le> row" "row < getRow d"
      using that l(4) h(4) unfolding low high
      by (auto simp: intervalContains_def setUpperBound_def setLowerBound_def)
    then show ?thesis by (intro key_of_row) simp
  qed
  have s: "cellsSorted (tabletCells env p low @ tabletCells env p high)"
    using l(2) h(2) ord by (simp add: cellsSorted_def sorted_wrt_append)
  have parts: "intervalContains (<) (tabletRange x) v \<longleftrightarrow>
      intervalContains (<) (tabletRange low) v \<or> intervalContains (<) (tabletRange high) v" for v
    using halves(1) [OF wf, of v row] lo [of v] hi [of v] unfolding low high by blast
  have "c \<in> set (tabletCells env p low @ tabletCells env p high) \<longleftrightarrow> c \<in> set (tabletCells env p x)" for c
    unfolding set_append Un_iff l(4) h(4) a(4) frags parts by blast
  then have "firstKey k (tabletCells env p low @ tabletCells env p high) = Some c \<longleftrightarrow> firstKey k (tabletCells env p x) = Some c" for k c
    unfolding firstKey_sorted [OF s] firstKey_sorted [OF a(2)] by simp
  then show ?thesis by (intro cellsSorted_ext [OF s a(2)]) (metis option.exhaust)
qed

end

subsection \<open>Splitting a tablet of the table\<close>

lemma split_tiles:
  assumes "tiles (pre @ x # post)" and low: "tabletRange low = setUpperBound row BT_INCLUSIVE (tabletRange x)"
    and high: "tabletRange high = setLowerBound row BT_EXCLUSIVE (tabletRange x)"
    and ne: "\<not> intervalIsEmpty (<) (tabletRange low)" "\<not> intervalIsEmpty (<) (tabletRange high)"
  shows "tiles (pre @ low # high # post)"
    and "y \<in> set pre \<Longrightarrow> pointLt (<) (maxRow y) (maxRow low)" "\<not> pointLt (<) (maxRow high) (maxRow low)"
proof -
  have x: "tablet_wf x" "\<not> intervalIsEmpty (<) (tabletRange x)" using assms(1) by (auto simp: tiles_def)
  have rows: "minRow low = minRow x" "maxRow low = mk_point row PT_INCLUSIVE_UPPER_BOUND"
    "minRow high = mk_point row PT_EXCLUSIVE_LOWER_BOUND" "maxRow high = maxRow x"
    using low high by (simp_all add: tabletRange_def setUpperBound_def setLowerBound_def)
  have wfs: "tablet_wf low" "tablet_wf high"
    using half_wf [OF x(1) [unfolded tablet_wf_def]] by (simp_all add: tablet_wf_def low high)
  have adj: "getAdjacentComplement (maxRow low) = Inr (minRow high)"
    by (simp add: rows getAdjacentComplement_def)
  have "successively (\<lambda>a b. getAdjacentComplement (maxRow a) = Inr (minRow b)) (pre @ x # post)"
    using assms(1) by (simp add: tiles_def)
  then have "successively (\<lambda>a b. getAdjacentComplement (maxRow a) = Inr (minRow b)) (pre @ low # high # post)"
    using adj rows by (auto simp: successively_append_iff successively_Cons)
  moreover have "minRow (hd (pre @ low # high # post)) = minRow (hd (pre @ x # post))"
    "maxRow (last (pre @ low # high # post)) = maxRow (last (pre @ x # post))"
    using rows by (cases pre; simp)+
  ultimately show "tiles (pre @ low # high # post)"
    using assms(1) ne wfs unfolding tiles_def by auto
  have b: "pointLt (<) (minRow low) (maxRow low)" by (rule range_bounds(3) [OF wfs(1) ne(1)])
  show "pointLt (<) (maxRow y) (maxRow low)" if "y \<in> set pre"
    using tiles_sorted [OF assms(1)] that b unfolding rows(1) by (auto simp: sorted_wrt_append dest: std_less.pointLt_trans)
  have "pointLt (<) (maxRow low) (minRow high)" by (rule complement_correct(2) [OF adj range_bounds(2) [OF wfs(1) ne(1)]])
  then have "pointLt (<) (maxRow low) (maxRow high)"
    using range_bounds(3) [OF wfs(2) ne(2)] std_less.pointLt_trans by blast
  then show "\<not> pointLt (<) (maxRow high) (maxRow low)" by (rule std_less.pointLt_asym)
qed

lemma reopen_all:
  "mapFind i (fold reopenLive is m) = (if i \<in> set is then map_option superReopen (mapFind i m) else mapFind i m)"
proof (induction "is" arbitrary: m)
  case (Cons j js)
  have "superReopen (superReopen x) = superReopen x" for x by (simp add: superReopen_def)
  then show ?case
    using Cons.IH by (auto simp: reopenLive_def split: option.splits)
qed simp

lemma at_other [simp]:
  "tabletAt (s\<lparr>dag := d\<rparr>) t = tabletAt s t" "tabletAt (s\<lparr>world := w\<rparr>) t = tabletAt s t"
  by (simp_all add: tabletAt_def)

lemma tiles_ranges:
  assumes "map tabletRange xs = map tabletRange ys"
  shows "tiles xs = tiles ys"
proof -
  let ?T = "\<lambda>rs :: string Interval list. rs \<noteq> [] \<and> (\<forall>r\<in>set rs. interval_wf r \<and> \<not> intervalIsEmpty (<) r) \<and>
     pointIsInfinite (lowerBound (hd rs)) \<and> pointIsInfinite (upperBound (last rs)) \<and>
     successively (\<lambda>a b. getAdjacentComplement (upperBound a) = Inr (lowerBound b)) rs"
  have t: "tiles zs = ?T (map tabletRange zs)" for zs
    by (auto simp: tiles_def tablet_wf_def hd_map last_map successively_map tabletRange_def)
  show ?thesis by (simp only: t assms)
qed

lemma tableCells_map: "tableCells env p s ts = concat (map (tabletCells env p) (map (tabletAt s) ts))"
  by (simp add: tableCells_def comp_def)

text \<open>A scan depends on the range and the chain of the tablet only.\<close>

definition sameContent :: "Tablet \<Rightarrow> Tablet \<Rightarrow> bool" where
  "sameContent x y \<longleftrightarrow> tabletRange x = tabletRange y \<and> fragments x = fragments y"

lemma sameContent_scan:
  assumes "sameContent x y"
  shows "getMergedScan env p x = getMergedScan env p y" "tabletCells env p x = tabletCells env p y"
    "scannerOk env x sc = scannerOk env y sc" "scannerRest env x sc = scannerRest env y sc"
proof -
  have eq: "minRow x = minRow y" "maxRow x = maxRow y" "fragments x = fragments y" "tabletRange x = tabletRange y"
    using assms by (simp_all add: sameContent_def tabletRange_def)
  then have a: "getMergedScan env q x = getMergedScan env q y" for q
    by (simp add: getMergedScan_def validateRows_def getRows_def)
  show "getMergedScan env p x = getMergedScan env p y" by (rule a)
  show "tabletCells env p x = tabletCells env p y" by (simp only: tabletCells_def a eq(4))
  show "scannerOk env x sc = scannerOk env y sc" by (simp only: scannerOk_def a)
  show "scannerRest env x sc = scannerRest env y sc" by (simp only: scannerRest_def a)
qed

lemma sameContent_table:
  assumes "\<And>t. t \<in> set ts \<Longrightarrow> sameContent (tabletAt s t) (tabletAt s' t)"
    and "\<And>t. t \<in> set ts \<Longrightarrow> mapFind t (tablets s') \<noteq> None"
  shows "tableOk s ts \<Longrightarrow> tableOk s' ts" "tableCells env p s ts = tableCells env p s' ts"
    "super_inv env s ts ss \<Longrightarrow> super_inv env s' ts ss" "pendingCells env s ts ss = pendingCells env s' ts ss"
proof -
  have cells: "tableCells env p s us = tableCells env p s' us" if "set us \<subseteq> set ts" for us p
    using that sameContent_scan(2) [OF assms(1)] by (induction us) auto
  show "tableCells env p s ts = tableCells env p s' ts" "pendingCells env s ts ss = pendingCells env s' ts ss"
    using cells by (simp_all add: pendingCells_def)
  have "map tabletRange (map (tabletAt s) ts) = map tabletRange (map (tabletAt s') ts)"
    using assms(1) by (simp add: sameContent_def)
  then show "tableOk s' ts" if "tableOk s ts"
    using that assms(2) tiles_ranges unfolding tableOk_def by metis
  show "super_inv env s' ts ss" if inv: "super_inv env s ts ss"
    unfolding super_inv_def
  proof (intro conjI allI impI)
    show "superPredOk ss" using inv by (simp add: super_inv_def)
    fix t sc assume "ss_scanner ss = Some (t, sc)"
    then obtain post where at: "scannerAt env s ts ss t sc post" using inv by (auto simp: super_inv_def)
    then obtain pre where pre: "ts = pre @ t # post" "tableCells env (currentPred ss) s pre = []"
      by (auto simp: scannerAt_def)
    have t: "sameContent (tabletAt s t) (tabletAt s' t)" using assms(1) pre(1) by simp
    have c: "tableCells env (currentPred ss) s' pre = tableCells env (currentPred ss) s pre"
      "tableCells env (currentPred ss) s' post = tableCells env (currentPred ss) s post"
      by (rule cells [symmetric], use pre(1) in auto)+
    have "tabletRange (tabletAt s' t) = tabletRange (tabletAt s t)" using t by (simp add: sameContent_def)
    moreover have "\<exists>pre. ts = pre @ t # post \<and> tableCells env (currentPred ss) s' pre = []" using pre c(1) by auto
    ultimately have "scannerAt env s' ts ss t sc post"
      using at unfolding scannerAt_def c(2) sameContent_scan [OF t, symmetric] by simp
    then show "\<exists>post. scannerAt env s' ts ss t sc post" by blast
  qed
qed

context fragment_contract
begin

lemma performSplit_correct:
  assumes tab: "tableOk s (superTablets st)" "this \<in> set (superTablets st)" "mapFind lowId (tablets s) = None"
    and sync: "tabletSync env flushes fs (tabletAt s this, world s) = Inr (x, w)" "sameContent (tabletAt s this) x"
  obtains st' s' where "performSplit env flushes fs lowId this (st, s) = Inr (st', s')" "tableOk s' (superTablets st')"
    "\<And>p. scan_predicate_inv p \<Longrightarrow> maxHistory p = 0 \<Longrightarrow>
       tableCells env p s' (superTablets st') = tableCells env p s (superTablets st)"
    "\<And>i ss. i \<in> set (superScanners st) \<Longrightarrow> mapFind i (liveScanners st) = Some ss \<Longrightarrow> super_inv env s (superTablets st) ss \<Longrightarrow>
       \<exists>ss'. mapFind i (liveScanners st') = Some ss' \<and> super_inv env s' (superTablets st') ss' \<and>
         pendingCells env s' (superTablets st') ss' = pendingCells env s (superTablets st) ss"
proof -
  let ?ts = "superTablets st"
  note d = tableOk_deref [OF tab(1,2)]
  have wf: "tablet_wf x" using sync(2) d(2) by (simp add: sameContent_def tablet_wf_def)
  show ?thesis
  proof (rule splitSynced_cases [OF wf, of env lowId w])
    assume none: "splitSynced env lowId (x, w) = Inr ((x, w), None)"
    let ?s' = "setTablet this x (s\<lparr>world := w\<rparr>)"
    have run: "performSplit env flushes fs lowId this (st, s) = Inr (st, ?s')"
      using d(1) sync(1) none by (simp add: performSplit_def serverSplit_def splitTablet_def Let_def)
    have at: "tabletAt ?s' t = (if t = this then x else tabletAt s t)" for t by simp
    have "sameContent (tabletAt s t) (tabletAt ?s' t)" for t
      using sync(2) unfolding at by (auto simp: sameContent_def)
    moreover have "mapFind t (tablets ?s') \<noteq> None" if "t \<in> set ?ts" for t
      using tab(1) that by (auto simp: tableOk_def setTablet_def)
    ultimately show ?thesis
      using that [OF run] sameContent_table [of ?ts s ?s'] tab(1) by metis
  next
    fix row t' low w'
    assume split: "splitSynced env lowId (x, w) = Inr ((t', w'), Some low)"
      "tabletRange low = setUpperBound row BT_INCLUSIVE (tabletRange x)"
      "tabletRange t' = setLowerBound row BT_EXCLUSIVE (tabletRange x)"
      "\<not> intervalIsEmpty (<) (tabletRange low)" "\<not> intervalIsEmpty (<) (tabletRange t')"
      "fragments low = fragments x" "fragments t' = fragments x"
    let ?x = "tabletAt s this"
    have rx: "tabletRange x = tabletRange ?x" "fragments x = fragments ?x" using sync(2) by (simp_all add: sameContent_def)
    let ?s1 = "setTablet this t' (s\<lparr>world := w'\<rparr>)"
    let ?s' = "setTablet lowId low (?s1\<lparr>dag := fold (dagAddFragment lowId) (filter (isImmutable env) (fragments low)) (dag ?s1)\<rparr>)"
    obtain pre post where ts: "?ts = pre @ this # post" "this \<notin> set pre"
      using split_list_first [OF tab(2)] by blast
    have "this \<notin> set post" using tiles_disjoint [OF tab(1) ts(1)] by blast
    moreover have new: "lowId \<notin> set ?ts" using tab(1,3) by (auto simp: tableOk_def)
    ultimately have ne: "u \<noteq> this \<and> u \<noteq> lowId" if "u \<in> set pre \<or> u \<in> set post" for u using that ts by auto
    have at: "tabletAt ?s' u = (if u = lowId then low else if u = this then t' else tabletAt s u)" for u
      by simp
    have tl: "tiles (map (tabletAt s) pre @ ?x # map (tabletAt s) post)"
      using tab(1) ts(1) by (simp add: tableOk_def)
    note st = split_tiles [OF tl split(2) [unfolded rx(1)] split(3) [unfolded rx(1)] split(4,5)]
    have pre: "takeWhile (\<lambda>u. pointLt (<) (maxRow (tabletAt ?s' u)) (maxRow (tabletAt ?s' lowId))) ?ts = pre"
    proof -
      have "pointLt (<) (maxRow (tabletAt ?s' u)) (maxRow (tabletAt ?s' lowId))" if "u \<in> set pre" for u
        using st(2) [of "tabletAt s u"] that ne unfolding at by auto
      moreover have "\<not> pointLt (<) (maxRow (tabletAt ?s' this)) (maxRow (tabletAt ?s' lowId))"
        using st(3) new tab(2) unfolding at by auto
      ultimately show ?thesis unfolding ts(1) by (simp add: takeWhile_append2)
    qed
    let ?new = "pre @ lowId # this # post"
    have ins: "insertTablet ?s' lowId ?ts = ?new"
      unfolding insertTablet_def Let_def pre by (simp add: ts(1))
    let ?st' = "superUpdateScanners (st\<lparr>superTablets := ?new\<rparr>)"
    have run: "performSplit env flushes fs lowId this (st, s) = Inr (?st', ?s')"
      using d(1) sync(1) split(1) ins by (simp add: performSplit_def serverSplit_def splitTablet_def Let_def)
    have tabs: "superTablets ?st' = ?new" by (simp add: superUpdateScanners_def)
    have same: "map (tabletAt ?s') us = map (tabletAt s) us" if "set us \<subseteq> set pre \<union> set post" for us
      using that ne by (auto simp: at)
    have "map (tabletAt ?s') ?new = map (tabletAt s) pre @ low # t' # map (tabletAt s) post"
      using same [of pre] same [of post] new tab(2) by (auto simp: at)
    moreover have "mapFind u (tablets ?s') \<noteq> None" if "u \<in> set ?new" for u
      using tab(1) that unfolding ts(1) by (auto simp: tableOk_def setTablet_def)
    ultimately have ok: "tableOk ?s' (superTablets ?st')"
      unfolding tabs tableOk_def using st(1) by metis
    have cells: "tableCells env p ?s' (superTablets ?st') = tableCells env p s ?ts"
      if p: "scan_predicate_inv p" "maxHistory p = 0" for p
    proof -
      have e: "tableCells env p ?s' us = tableCells env p s us" if "set us \<subseteq> set pre \<union> set post" for us
        by (simp only: tableCells_map same [OF that])
      have "tabletCells env p low @ tabletCells env p t' = tabletCells env p ?x"
        using split_cells [OF d(2,3) split(2) [unfolded rx(1)] split(3) [unfolded rx(1)] split(4,5)] split(6,7) rx(2) p by simp
      then show ?thesis
        unfolding tabs ts(1) using e [of pre] e [of post] new tab(2) by (auto simp: at)
    qed
    show ?thesis
    proof (rule that [OF run ok cells])
      fix i ss
      assume i: "i \<in> set (superScanners st)" "mapFind i (liveScanners st) = Some ss" "super_inv env s ?ts ss"
      have "mapFind i (liveScanners ?st') = Some (superReopen ss)"
        using i(1,2) by (simp add: superUpdateScanners_def reopen_all)
      moreover have ok': "superPredOk (superReopen ss)" and pok: "superPredOk ss"
        using i(3) by (simp_all add: super_inv_def superPredOk_def superReopen_def)
      moreover have "super_inv env ?s' (superTablets ?st') (superReopen ss)"
        using ok' by (simp add: super_inv_def superReopen_def)
      moreover have "pendingCells env ?s' (superTablets ?st') (superReopen ss) = pendingCells env s ?ts ss"
        using cells currentPred_ok [OF pok] by (simp add: pendingCells_def superReopen_def currentPred_def)
      ultimately show "\<exists>ss'. mapFind i (liveScanners ?st') = Some ss' \<and> super_inv env ?s' (superTablets ?st') ss' \<and>
         pendingCells env ?s' (superTablets ?st') ss' = pendingCells env s ?ts ss" by blast
    qed
  qed
qed

end

subsection \<open>Mutations and splits\<close>

text \<open>
  \<open>MutationInterlock\<close> and \<open>MutationLull\<close>: a mutation waits while mutations are blocked and is
  counted while it runs; a lull blocks mutations, waits until none is running, and allows them
  again at its end. Each step holds the mutex. \<open>inside\<close> is the set of the threads that run a
  mutation. The splits are jobs of a work queue with a single thread, so there is one lull at
  a time.
\<close>

datatype LullState = NoLull | WaitingForQuiet | Quiet

record Interlock =
  mutationsBlocked :: bool
  pendingCount :: "64 word"
  inside :: "nat set"
  lull :: LullState

definition Interlock0 :: Interlock where
  "Interlock0 = \<lparr>mutationsBlocked = False, pendingCount = 0, inside = {}, lull = NoLull\<rparr>"

inductive lockStep :: "Interlock \<Rightarrow> Interlock \<Rightarrow> bool" where
  enter: "\<not> mutationsBlocked s \<Longrightarrow> i \<notin> inside s \<Longrightarrow> card (inside s) < 2 ^ 64 - 1 \<Longrightarrow>
    lockStep s (s\<lparr>pendingCount := pendingCount s + 1, inside := insert i (inside s)\<rparr>)"
| leave: "i \<in> inside s \<Longrightarrow>
    lockStep s (s\<lparr>pendingCount := pendingCount s - 1, inside := inside s - {i}\<rparr>)"
| lullBegin: "lull s = NoLull \<Longrightarrow> lockStep s (s\<lparr>mutationsBlocked := True, lull := WaitingForQuiet\<rparr>)"
| lullQuiet: "lull s = WaitingForQuiet \<Longrightarrow> pendingCount s = 0 \<Longrightarrow> lockStep s (s\<lparr>lull := Quiet\<rparr>)"
| lullEnd: "lull s = Quiet \<Longrightarrow> lockStep s (s\<lparr>mutationsBlocked := False, lull := NoLull\<rparr>)"

inductive_cases lockStepE: "lockStep s s'"

definition lock_inv :: "Interlock \<Rightarrow> bool" where
  "lock_inv s \<longleftrightarrow> finite (inside s) \<and> card (inside s) < 2 ^ 64 \<and> pendingCount s = of_nat (card (inside s)) \<and>
     (mutationsBlocked s \<longleftrightarrow> lull s \<noteq> NoLull) \<and> (lull s = Quiet \<longrightarrow> inside s = {})"

lemma lockStep_inv:
  assumes "lockStep s s'" "lock_inv s"
  shows "lock_inv s'"
  using assms(1)
proof (cases rule: lockStep.cases)
  case (leave i)
  then have "card (inside s) = Suc (card (inside s - {i}))"
    using assms(2) card_Suc_Diff1 [of "inside s" i] unfolding lock_inv_def by metis
  then show ?thesis using leave assms(2) by (auto simp: lock_inv_def)
next
  case lullQuiet
  then have "of_nat (card (inside s)) = (0 :: 64 word)" "card (inside s) < 2 ^ 64"
    using assms(2) by (simp_all add: lock_inv_def)
  then have "2 ^ 64 dvd card (inside s)" "card (inside s) < 2 ^ 64" by (simp_all add: word_of_nat_eq_0_iff)
  then have "card (inside s) = 0" using nat_dvd_not_less [of "card (inside s)" "2 ^ 64"] by blast
  then show ?thesis using lullQuiet assms(2) by (auto simp: lock_inv_def)
qed (use assms(2) in \<open>auto simp: lock_inv_def\<close>)

lemma reachable_inv:
  assumes "lockStep\<^sup>*\<^sup>* Interlock0 s"
  shows "lock_inv s"
  using assms
proof (induction rule: rtranclp_induct)
  case base
  show ?case by (simp add: lock_inv_def Interlock0_def)
qed (rule lockStep_inv)

text \<open>Once a lull has begun, the running mutations are all that it waits for.\<close>

lemma quiet_reached:
  assumes "lock_inv s" "lull s = WaitingForQuiet"
  shows "\<exists>s'. (lockStep ^^ Suc (card (inside s))) s s' \<and> lull s' = Quiet"
  using assms
proof (induction "card (inside s)" arbitrary: s)
  case 0
  then have "pendingCount s = 0" by (simp add: lock_inv_def)
  then have "lockStep s (s\<lparr>lull := Quiet\<rparr>)" using 0 by (intro lullQuiet)
  then show ?case using 0(1) by (intro exI [of _ "s\<lparr>lull := Quiet\<rparr>"]) auto
next
  case (Suc n)
  then obtain i where i: "i \<in> inside s" by (metis card.empty ex_in_conv nat.distinct(1))
  let ?s = "s\<lparr>pendingCount := pendingCount s - 1, inside := inside s - {i}\<rparr>"
  have step: "lockStep s ?s" by (rule leave [OF i])
  moreover have "n = card (inside ?s)" using Suc(2,3) i by (simp add: lock_inv_def)
  moreover obtain s' where "(lockStep ^^ Suc (card (inside ?s))) ?s s'" "lull s' = Quiet"
    using Suc(1) [OF \<open>n = card (inside ?s)\<close> lockStep_inv [OF step Suc(3)]] Suc(4) by auto
  ultimately show ?case using Suc(2) by (metis relpowp_Suc_I2)
qed

subsection \<open>Properties\<close>

text \<open>
  C1. Reading a table through its tablets delivers one sorted sequence: of every key that the
  predicate allows, the newest version in the chain of the tablet that holds its row, and no
  erasure unless that chain is a single immutable fragment. Every number of reads delivers that
  many cells of the sequence, or all of it.
\<close>
theorem table_scan_delivers:
  assumes "fragment_contract env content" "tableOk s ts" "scan_predicate_inv pred" "maxHistory pred = 0"
  shows "\<exists>out. cellsSorted out \<and>
    (\<forall>c. c \<in> set out \<longleftrightarrow> cellAllowed pred c \<and>
      (\<exists>t\<in>set ts. intervalContains (<) (tabletRange (tabletAt s t)) (getRow c) \<and>
         newest content (fragments (tabletAt s t)) (cellKey c) = Some c \<and>
         (isErasure c \<longrightarrow> soleImmutable env (fragments (tabletAt s t))))) \<and>
    (\<forall>n. \<exists>ss. superRead env s ts n (makeSuperScanner pred) = Inr (ss, take n out))"
proof (rule exI [of _ "tableCells env pred s ts"], intro conjI allI)
  show "cellsSorted (tableCells env pred s ts)"
    by (rule fragment_contract.tableCells_sorted [OF assms])
  show "c \<in> set (tableCells env pred s ts) \<longleftrightarrow> cellAllowed pred c \<and>
      (\<exists>t\<in>set ts. intervalContains (<) (tabletRange (tabletAt s t)) (getRow c) \<and>
         newest content (fragments (tabletAt s t)) (cellKey c) = Some c \<and>
         (isErasure c \<longrightarrow> soleImmutable env (fragments (tabletAt s t))))" for c
    by (rule fragment_contract.tableCells_member [OF assms])
  show "\<exists>ss. superRead env s ts n (makeSuperScanner pred) = Inr (ss, take n (tableCells env pred s ts))" for n
    using fragment_contract.superRead_take [OF assms(1,2) fresh_scanner(1) [OF assms(3,4)]]
    unfolding fragment_contract.fresh_pending [OF assms] by blast
qed

text \<open>A table of two tablets, split at the row \<open>q\<close>, over fragment 5 of the examples.\<close>

definition exampleTable :: Server where
  "exampleTable =
     \<lparr>tablets = [(1, (tablet0 [5])\<lparr>maxRow := mk_point ''q'' PT_INCLUSIVE_UPPER_BOUND\<rparr>),
                 (2, (tablet0 [5])\<lparr>minRow := mk_point ''q'' PT_EXCLUSIVE_LOWER_BOUND\<rparr>)],
      world = world0, dag = FragDag0, splitRequests = []\<rparr>"

lemma exampleTable_ok: "tableOk exampleTable [1, 2]"
proof -
  have "mapFind 1 (tablets exampleTable) \<noteq> None" "mapFind 2 (tablets exampleTable) \<noteq> None" by code_simp+
  moreover have "tiles (map (tabletAt exampleTable) [1, 2])"
    unfolding tiles_def by code_simp
  ultimately show ?thesis by (simp add: tableOk_def)
qed

theorem table_scan_delivers_witness:
  "\<exists>ss. superRead exampleEnv exampleTable [1, 2] 2 (makeSuperScanner ScanPredicate0) =
     Inr (ss, [makeCell ''q'' ''c'' 1 ''first'', makeCell ''r'' ''c'' 1 ''second''])"
proof -
  obtain out where out: "\<forall>n. \<exists>ss. superRead exampleEnv exampleTable [1, 2] n (makeSuperScanner ScanPredicate0) = Inr (ss, take n out)"
    using table_scan_delivers [OF example_facts(5) exampleTable_ok example_facts(3,4)] by blast
  have run: "map_option snd (case superRead exampleEnv exampleTable [1, 2] 2 (makeSuperScanner ScanPredicate0) of
      Inr r \<Rightarrow> Some r | Inl e \<Rightarrow> None) = Some [makeCell ''q'' ''c'' 1 ''first'', makeCell ''r'' ''c'' 1 ''second'']"
    by code_simp
  then show ?thesis using out [rule_format, of 2] by auto
qed

text \<open>
  C5. A split is invisible to the scanners of the table: the tablets still tile the rows, and
  every registered scanner delivers, after the split, what it had still to deliver before it.
\<close>
theorem split_invisible_to_scanners:
  assumes "fragment_contract env content" "tableOk s (superTablets st)" "this \<in> set (superTablets st)"
    and "mapFind lowId (tablets s) = None"
    and "tabletSync env flushes fs (tabletAt s this, world s) = Inr (x, w)" "sameContent (tabletAt s this) x"
    and "i \<in> set (superScanners st)" "mapFind i (liveScanners st) = Some ss" "super_inv env s (superTablets st) ss"
  shows "\<exists>st' s' ss'. performSplit env flushes fs lowId this (st, s) = Inr (st', s') \<and> tableOk s' (superTablets st') \<and>
    mapFind i (liveScanners st') = Some ss' \<and>
    (\<forall>n. \<exists>ss''. superRead env s' (superTablets st') n ss' =
       Inr (ss'', take n (pendingCells env s (superTablets st) ss)))"
proof -
  obtain st' s' where r: "performSplit env flushes fs lowId this (st, s) = Inr (st', s')" "tableOk s' (superTablets st')"
    and sc: "\<And>i ss. i \<in> set (superScanners st) \<Longrightarrow> mapFind i (liveScanners st) = Some ss \<Longrightarrow>
       super_inv env s (superTablets st) ss \<Longrightarrow>
       \<exists>ss'. mapFind i (liveScanners st') = Some ss' \<and> super_inv env s' (superTablets st') ss' \<and>
         pendingCells env s' (superTablets st') ss' = pendingCells env s (superTablets st) ss"
    using fragment_contract.performSplit_correct [OF assms(1-6)] by metis
  obtain ss' where ss': "mapFind i (liveScanners st') = Some ss'" "super_inv env s' (superTablets st') ss'"
    "pendingCells env s' (superTablets st') ss' = pendingCells env s (superTablets st) ss"
    using sc [OF assms(7-9)] by blast
  have "\<exists>ss''. superRead env s' (superTablets st') n ss' = Inr (ss'', take n (pendingCells env s (superTablets st) ss))" for n
    using fragment_contract.superRead_take [OF assms(1) r(2) ss'(2), of n] unfolding ss'(3) by blast
  with r ss'(1) show ?thesis by blast
qed

definition exampleSuper :: SuperTablet where
  "exampleSuper = \<lparr>superTablets = [1, 2], superScanners = [7, 8], liveScanners = [(7, makeSuperScanner ScanPredicate0)]\<rparr>"

theorem split_invisible_to_scanners_witness:
  "\<exists>st' s'. performSplit exampleEnv [] [] 3 2 (exampleSuper, exampleTable) = Inr (st', s') \<and> tableOk s' (superTablets st')"
proof -
  have t: "tableOk exampleTable (superTablets exampleSuper)" using exampleTable_ok by (simp add: exampleSuper_def)
  have m: "2 \<in> set (superTablets exampleSuper)" "7 \<in> set (superScanners exampleSuper)"
    "mapFind 7 (liveScanners exampleSuper) = Some (makeSuperScanner ScanPredicate0)" by (simp_all add: exampleSuper_def mapFind_def)
  have f: "mapFind 3 (tablets exampleTable) = None" by code_simp
  have s: "tabletSync exampleEnv [] [] (tabletAt exampleTable 2, world exampleTable) = Inr (tabletAt exampleTable 2, world exampleTable)"
    by (simp add: tabletSync_def saveConfig_def tabletAt_def mapAt_def mapFind_def exampleTable_def tablet0_def)
  have i: "super_inv exampleEnv exampleTable (superTablets exampleSuper) (makeSuperScanner ScanPredicate0)"
    by (rule fresh_scanner(1) [OF example_facts(3,4)])
  show ?thesis
    using split_invisible_to_scanners [OF example_facts(5) t m(1) f s _ m(2,3) i] by (auto simp: sameContent_def)
qed

text \<open>Every row of a table has its tablet, and a mutation of the row reaches it.\<close>

lemma getTablet_correct:
  assumes "tableOk s ts"
  shows "\<exists>t\<in>set ts. getTablet row s ts = Inr t \<and> intervalContains (<) (tabletRange (tabletAt s t)) row"
proof -
  let ?p = "mk_point row PT_POINT"
  have tl: "tiles (map (tabletAt s) ts)" and p: "pointIsLowerBound ?p \<or> ptype ?p = PT_POINT"
    using assms by (simp_all add: tableOk_def)
  obtain xpre x xpost where x: "map (tabletAt s) ts = xpre @ x # xpost"
    "\<not> pointLt (<) (maxRow x) ?p" "\<not> pointLt (<) ?p (minRow x)"
    "\<And>i. i = length (takeWhile (\<lambda>y. pointLt (<) (maxRow y) ?p) (map (tabletAt s) ts)) \<Longrightarrow> i = length xpre"
    by (rule tiles_find [OF tl p]) (rule that)
  obtain pre t post where ts: "ts = pre @ t # post" "xpre = map (tabletAt s) pre" "x = tabletAt s t"
    using x(1) by (auto simp: map_eq_append_conv map_eq_Cons_conv)
  have t: "t \<in> set ts" using ts(1) by simp
  note d = tableOk_deref [OF assms t]
  have i: "length (takeWhile (\<lambda>t. pointValueLt (<) (maxRow (tabletAt s t)) row) ts) = length pre"
    using x(4) [OF refl] unfolding takeWhile_map comp_def ts(2) pointLt_value by simp
  have "getTablet row s ts = Inr t"
    unfolding getTablet_def getTabletInternal_def Let_def i
    using ts x(3) d by (simp add: getRows_wf tabletRange_def pointLt_value)
  moreover have "intervalContains (<) (tabletRange (tabletAt s t)) row"
    using x(2,3) range_bounds [OF d(2,3)] std_less.pointLt_value_total [of "maxRow x" row]
      std_less.pointLt_value_total [of "minRow x" row]
    unfolding in_range_points ts(3) point_pred_defs point_type_defs by auto
  ultimately show ?thesis using t by blast
qed

lemma superSet_correct:
  assumes "tableOk s (superTablets st)"
  shows "\<exists>t\<in>set (superTablets st). intervalContains (<) (tabletRange (tabletAt s t)) row \<and>
    superSet row column timestamp val st s =
      Inr (setTablet t ((tabletAt s t)\<lparr>mutationsPending := True\<rparr>) s, t, makeCell row column timestamp val) \<and>
    superErase row column timestamp st s =
      Inr (setTablet t ((tabletAt s t)\<lparr>mutationsPending := True\<rparr>) s, t, makeCellErasure row column timestamp)"
proof -
  obtain t where t: "t \<in> set (superTablets st)" "getTablet row s (superTablets st) = Inr t"
    "intervalContains (<) (tabletRange (tabletAt s t)) row"
    using getTablet_correct [OF assms] by blast
  show ?thesis
    using t tableOk_deref [OF assms t(1)]
    by (intro bexI [OF _ t(1)])
      (simp add: superSet_def superErase_def tabletSet_def tabletErase_def validateRow_def getRows_wf)
qed

text \<open>
  C17. A split excludes mutations: while a lull is quiet no mutation is running, and every
  mutation that would start waits; and a lull that has begun becomes quiet as soon as the
  mutations that are running have ended.
\<close>
theorem lull_excludes_mutations:
  assumes "lockStep\<^sup>*\<^sup>* Interlock0 s"
  shows "(lull s = Quiet \<longrightarrow> inside s = {} \<and> mutationsBlocked s) \<and>
    (lull s = WaitingForQuiet \<longrightarrow> (\<exists>s'. (lockStep ^^ Suc (card (inside s))) s s' \<and> lull s' = Quiet))"
  using reachable_inv [OF assms] quiet_reached by (auto simp: lock_inv_def)

theorem lull_excludes_mutations_witness:
  "\<exists>s s'. lockStep\<^sup>*\<^sup>* Interlock0 s \<and> inside s = {4} \<and> (lockStep ^^ 2) s s' \<and> lull s' = Quiet"
proof -
  let ?a = "Interlock0\<lparr>pendingCount := pendingCount Interlock0 + 1, inside := insert 4 (inside Interlock0)\<rparr>"
  let ?s = "?a\<lparr>mutationsBlocked := True, lull := WaitingForQuiet\<rparr>"
  have "lockStep Interlock0 ?a" by (rule enter) (simp_all add: Interlock0_def)
  moreover have "lockStep ?a ?s" by (rule lullBegin) (simp add: Interlock0_def)
  ultimately have r: "lockStep\<^sup>*\<^sup>* Interlock0 ?s" by (meson converse_rtranclp_into_rtranclp rtranclp.rtrancl_refl)
  have i: "inside ?s = {4}" "lull ?s = WaitingForQuiet" by (simp_all add: Interlock0_def)
  then have "Suc (card (inside ?s)) = 2" by (simp only: i(1)) simp
  with lull_excludes_mutations [OF r] i r show ?thesis by metis
qed

end
