(* ===== verification/SyncQueue.thy ===== *)
theory SyncQueue
  imports Prelude
begin

section \<open>Synchronized queues (src/cc/warp/syncqueue.h)\<close>

text \<open>
  A bounded queue between threads. An operation that has to wait is not enabled: its result is
  \<open>None\<close>, and it is tried again when another operation has changed the queue. The untimed forms
  are modelled; the counts of waiting threads are not kept.
\<close>

record 'a SyncQueue =
  queued :: "'a list"
  qMax :: nat
  nTasksPending :: nat
  cancelled :: bool

definition SyncQueue0 :: "nat \<Rightarrow> 'a SyncQueue" where
  "SyncQueue0 n = \<lparr>queued = [], qMax = n, nTasksPending = 0, cancelled = False\<rparr>"

definition queuePush :: "bool \<Rightarrow> 'a \<Rightarrow> 'a SyncQueue \<Rightarrow> ('a SyncQueue \<times> bool) option" where
  "queuePush wait x q =
     (if length (queued q) < qMax q
      then Some (q\<lparr>nTasksPending := nTasksPending q + 1, queued := queued q @ [x]\<rparr>, True)
      else if \<not> wait \<or> cancelled q then Some (q, False) else None)"

definition queuePop :: "bool \<Rightarrow> 'a SyncQueue \<Rightarrow> ('a SyncQueue \<times> 'a option) option" where
  "queuePop wait q =
     (case queued q of
        x # xs \<Rightarrow> Some (q\<lparr>queued := xs\<rparr>, Some x)
      | [] \<Rightarrow> if \<not> wait \<or> cancelled q then Some (q, None) else None)"

definition taskComplete :: "'a SyncQueue \<Rightarrow> 'a SyncQueue" where
  "taskComplete q = q\<lparr>nTasksPending := nTasksPending q - 1\<rparr>"

definition cancelWaits :: "'a SyncQueue \<Rightarrow> 'a SyncQueue" where
  "cancelWaits q = q\<lparr>cancelled := True\<rparr>"

definition enableWaits :: "'a SyncQueue \<Rightarrow> 'a SyncQueue" where
  "enableWaits q = q\<lparr>cancelled := False\<rparr>"

definition waitForEmpty :: "'a SyncQueue \<Rightarrow> bool option" where
  "waitForEmpty q = (if queued q = [] then Some True else if cancelled q then Some False else None)"

definition waitForCompletion :: "'a SyncQueue \<Rightarrow> bool option" where
  "waitForCompletion q =
     (if nTasksPending q = 0 then Some True else if cancelled q then Some False else None)"

text \<open>With one consumer that acknowledges each item before it pops the next, no item is lost.\<close>

definition queue_inv :: "'a SyncQueue \<Rightarrow> bool" where
  "queue_inv q \<longleftrightarrow> length (queued q) \<le> qMax q \<and> length (queued q) \<le> nTasksPending q"

lemma queue_ops_inv:
  "queue_inv (SyncQueue0 n)"
  "queue_inv q \<Longrightarrow> queuePush w x q = Some (q', ok) \<Longrightarrow> queue_inv q' \<and>
     queued q' = queued q @ (if ok then [x] else [])"
  "queue_inv q \<Longrightarrow> queuePop w q = Some (q', r) \<Longrightarrow> queue_inv q' \<and>
     queued q = (case r of None \<Rightarrow> [] | Some x \<Rightarrow> [x]) @ queued q'"
  by (auto simp: queue_inv_def SyncQueue0_def queuePush_def queuePop_def split: if_splits list.splits)

text \<open>A cancelled queue still delivers what is in it, and nothing waits on it.\<close>

lemma cancelled_drains:
  assumes "cancelled q"
  shows "queuePop w q = Some (case queued q of [] \<Rightarrow> (q, None) | x # xs \<Rightarrow> (q\<lparr>queued := xs\<rparr>, Some x))"
    and "queuePush w x q \<noteq> None" "waitForEmpty q \<noteq> None" "waitForCompletion q \<noteq> None"
  using assms by (auto simp: queuePop_def queuePush_def waitForEmpty_def waitForCompletion_def split: list.split)

end
