(* ===== verification/Logger.thy ===== *)
theory Logger
  imports TabletServer SyncQueue
begin

section \<open>The shared logger (src/cc/kdi/tablet/SharedLogger.cc, LogWriter.cc)\<close>

text \<open>
  Mutations are collected in a commit buffer. Full buffers go through a queue to the commit
  thread, which appends them to a log file and then applies them to the memory tables of a table
  group; full groups go through a second queue to the serialize thread, which writes each memory
  table to a disk fragment and puts that in the place of the log fragment in every tablet. A
  step of a thread is one round of its loop; a round that has to wait at its end, for room in a
  queue, is taken when it can end. The table name of a tablet never changes: it is the
  argument \<open>nameOf\<close>. New log fragments get increasing addresses.
\<close>

definition COMMIT_BUFFER_SZ :: "64 word" where
  "COMMIT_BUFFER_SZ = push_bit 10 32"

definition SERIALIZE_THRESHOLD_SZ :: "64 word" where
  "SERIALIZE_THRESHOLD_SZ = push_bit 20 128"

text \<open>Six pointers.\<close>

definition CELL_OVERHEAD :: "64 word" where
  "CELL_OVERHEAD = 48"

subsection \<open>Commit buffers\<close>

record CommitBuffer =
  tableMap :: "(nat, Cell list) omap"
  bufferSize :: "64 word"

definition CommitBuffer0 :: CommitBuffer where
  "CommitBuffer0 = \<lparr>tableMap = [], bufferSize = 0\<rparr>"

definition bufferFull :: "CommitBuffer \<Rightarrow> bool" where
  "bufferFull b \<longleftrightarrow> COMMIT_BUFFER_SZ \<le> bufferSize b"

definition bufferEmpty :: "CommitBuffer \<Rightarrow> bool" where
  "bufferEmpty b \<longleftrightarrow> tableMap b = []"

definition bufferAppend :: "nat \<Rightarrow> Cell \<Rightarrow> CommitBuffer \<Rightarrow> CommitBuffer" where
  "bufferAppend tablet cell b =
     b\<lparr>bufferSize := bufferSize b + cellSize CELL_OVERHEAD cell,
       tableMap := mapPut tablet (mapAt [] tablet (tableMap b) @ [cell]) (tableMap b)\<rparr>"

subsection \<open>Table groups\<close>

record TableInfo =
  infoFragment :: nat
  infoTablets :: "nat list"

record TableGroup =
  tableInfoMap :: "(string, TableInfo) omap"
  fragmentMap :: "(nat, nat) omap"
  groupSize :: "64 word"
  logUri :: string

definition TableGroup0 :: TableGroup where
  "TableGroup0 = \<lparr>tableInfoMap = [], fragmentMap = [], groupSize = 0, logUri = []\<rparr>"

definition setLogUri :: "string \<Rightarrow> TableGroup \<Rightarrow> TableGroup result" where
  "setLogUri uri g =
     (if uri = [] then Inl (ValueError ''empty logUri'')
      else if logUri g \<noteq> [] then Inl (RuntimeError ''already set logUri'')
      else Inr (g\<lparr>logUri := uri\<rparr>))"

definition groupFull :: "TableGroup \<Rightarrow> bool" where
  "groupFull g \<longleftrightarrow> SERIALIZE_THRESHOLD_SZ \<le> groupSize g"

subsection \<open>State\<close>

text \<open>
  The log files, in the order of their creation, hold entries of a table name and a block of
  cell data, in which a null value is an erasure. The offsets in a block are not modelled, only
  the strings that they refer to. The URI of a log fragment is recorded with its memory table.
\<close>

record CellData =
  cd_row :: string
  cd_column :: string
  cd_timestamp :: int
  cd_value :: "string option"

type_synonym LogFile = "(string \<times> CellData list) list"

record Logger =
  commitBuffer :: "CommitBuffer option"
  commitQueue :: "CommitBuffer SyncQueue"
  logWriter :: "string option"
  tableGroup :: TableGroup
  serializeQueue :: "TableGroup SyncQueue"
  logFiles :: "(string \<times> LogFile) list"
  memTables :: "(nat, string \<times> MemoryTable) omap"
  nextFragment :: nat
  server :: Server

definition Logger0 :: "nat \<Rightarrow> Server \<Rightarrow> Logger" where
  "Logger0 base s =
     \<lparr>commitBuffer = Some CommitBuffer0, commitQueue = SyncQueue0 4, logWriter = None, tableGroup = TableGroup0,
      serializeQueue = SyncQueue0 2, logFiles = [], memTables = [], nextFragment = base, server = s\<rparr>"

subsection \<open>The log\<close>

definition appendCellData :: "Cell \<Rightarrow> CellData" where
  "appendCellData c =
     \<lparr>cd_row = getRow c, cd_column = getColumn c, cd_timestamp = getTimestamp c,
      cd_value = (if isErasure c then None else Some (getValue c))\<rparr>"

definition logCells :: "string \<Rightarrow> string \<Rightarrow> Cell list \<Rightarrow> Logger \<Rightarrow> Logger" where
  "logCells uri name cs L =
     L\<lparr>logFiles := map (\<lambda>(u, es). (u, if u = uri then es @ [(name, map appendCellData cs)] else es)) (logFiles L)\<rparr>"

fun writeLog :: "(nat \<Rightarrow> string) \<Rightarrow> string \<Rightarrow> (nat, Cell list) omap \<Rightarrow> Logger \<Rightarrow> Logger" where
  "writeLog nameOf uri [] L = L"
| "writeLog nameOf uri ((tablet, cs) # m) L = writeLog nameOf uri m (logCells uri (nameOf tablet) cs L)"

subsection \<open>Memory tables\<close>

definition memInsert :: "64 word \<Rightarrow> Cell \<Rightarrow> MemoryTable \<Rightarrow> MemoryTable" where
  "memInsert overhead c t =
     (if isErasure c then tableErase overhead (getRow c) (getColumn c) (getTimestamp c) t
      else tableSet overhead (getRow c) (getColumn c) (getTimestamp c) (getValue c) t)"

text \<open>The fragment of a tablet in the group, which is made and announced when the tablet has none.\<close>

definition groupFragment ::
  "Fragments \<Rightarrow> (nat \<Rightarrow> string) \<Rightarrow> (string \<Rightarrow> string \<Rightarrow> string) \<Rightarrow> nat \<Rightarrow> Logger \<Rightarrow> (Logger \<times> nat) result" where
  "groupFragment env nameOf tableUri tablet L =
     (let g = tableGroup L
      in case mapFind tablet (fragmentMap g) of
           Some f \<Rightarrow> Inr (L, f)
         | None \<Rightarrow>
             let name = nameOf tablet;
                 (info, L1) =
                   (case mapFind name (tableInfoMap g) of
                      Some info \<Rightarrow> (info, L)
                    | None \<Rightarrow>
                        (\<lparr>infoFragment = nextFragment L, infoTablets = []\<rparr>,
                         L\<lparr>nextFragment := nextFragment L + 1,
                           memTables := mapPut (nextFragment L) (tableUri (logUri g) name, MemoryTable0 False) (memTables L)\<rparr>));
                 f = infoFragment info;
                 g1 = g\<lparr>tableInfoMap := mapPut name (info\<lparr>infoTablets := infoTablets info @ [tablet]\<rparr>) (tableInfoMap g),
                        fragmentMap := mapPut tablet f (fragmentMap g)\<rparr>
             in bind_res (onTablet tablet (\<lambda>ts. Inr (addFragment env f ts)) (server L1)) (\<lambda>s1.
                  Inr (L1\<lparr>tableGroup := g1, server := s1\<rparr>, f)))"

definition applyMutations ::
  "Fragments \<Rightarrow> (nat \<Rightarrow> string) \<Rightarrow> (string \<Rightarrow> string \<Rightarrow> string) \<Rightarrow> 64 word \<Rightarrow> nat \<Rightarrow> Cell list \<Rightarrow> Logger \<Rightarrow> Logger result" where
  "applyMutations env nameOf tableUri overhead tablet cs L =
     (if logUri (tableGroup L) = [] then Inl (RuntimeError ''applyMutations() before setLogUri()'')
      else bind_res (groupFragment env nameOf tableUri tablet L) (\<lambda>(L1, f).
        let (uri, tbl) = mapAt ([], MemoryTable0 False) f (memTables L1)
        in Inr (L1\<lparr>memTables := mapPut f (uri, fold (memInsert overhead) cs tbl) (memTables L1),
                  tableGroup := (tableGroup L1)\<lparr>groupSize := foldl (\<lambda>sz c. sz + cellSize CELL_OVERHEAD c)
                    (groupSize (tableGroup L1)) cs\<rparr>\<rparr>)))"

fun replayToTables ::
  "Fragments \<Rightarrow> (nat \<Rightarrow> string) \<Rightarrow> (string \<Rightarrow> string \<Rightarrow> string) \<Rightarrow> 64 word \<Rightarrow> (nat, Cell list) omap \<Rightarrow> Logger \<Rightarrow> Logger result" where
  "replayToTables env nameOf tableUri overhead [] L = Inr L"
| "replayToTables env nameOf tableUri overhead ((tablet, cs) # m) L =
     bind_res (applyMutations env nameOf tableUri overhead tablet cs L) (replayToTables env nameOf tableUri overhead m)"

subsection \<open>The public interface\<close>

text \<open>A flush waits (\<open>None\<close>) while the commit queue is full.\<close>

definition loggerFlush :: "CommitBuffer \<Rightarrow> Logger \<Rightarrow> Logger result option" where
  "loggerFlush b L =
     (if bufferEmpty b then Some (Inr (L\<lparr>commitBuffer := Some b\<rparr>))
      else case queuePush True b (commitQueue L) of
             None \<Rightarrow> None
           | Some (q, ok) \<Rightarrow>
               if ok then Some (Inr (L\<lparr>commitQueue := q, commitBuffer := Some CommitBuffer0\<rparr>))
               else Some (Inl (RuntimeError ''push to commit queue failed'')))"

definition loggerInsert :: "nat \<Rightarrow> Cell \<Rightarrow> Logger \<Rightarrow> Logger result option" where
  "loggerInsert tablet cell L =
     (case commitBuffer L of
        None \<Rightarrow> Some (Inl (RuntimeError ''received mutation after SharedLogger shutdown''))
      | Some b \<Rightarrow>
          let b1 = bufferAppend tablet cell b
          in if bufferFull b1 then loggerFlush b1 L else Some (Inr (L\<lparr>commitBuffer := Some b1\<rparr>)))"

definition loggerSet :: "nat \<Rightarrow> string \<Rightarrow> string \<Rightarrow> int \<Rightarrow> string \<Rightarrow> Logger \<Rightarrow> Logger result option" where
  "loggerSet tablet row column timestamp val = loggerInsert tablet (makeCell row column timestamp val)"

definition loggerErase :: "nat \<Rightarrow> string \<Rightarrow> string \<Rightarrow> int \<Rightarrow> Logger \<Rightarrow> Logger result option" where
  "loggerErase tablet row column timestamp = loggerInsert tablet (makeCellErasure row column timestamp)"

text \<open>\<open>sync\<close> flushes and then waits for the commit thread.\<close>

definition syncFlush :: "Logger \<Rightarrow> Logger result option" where
  "syncFlush L =
     (case commitBuffer L of
        None \<Rightarrow> Some (Inl (RuntimeError ''received flushCommitBuffer() after SharedLogger shutdown''))
      | Some b \<Rightarrow> loggerFlush b L)"

definition syncWait :: "Logger \<Rightarrow> unit result option" where
  "syncWait L =
     (case waitForCompletion (commitQueue L) of
        None \<Rightarrow> None
      | Some ok \<Rightarrow> Some (if ok then Inr () else Inl (RuntimeError ''wait on commit queue failed'')))"

text \<open>\<open>shutdown\<close> up to joining the threads, and after it.\<close>

definition shutdownBegin :: "Logger \<Rightarrow> Logger result option" where
  "shutdownBegin L =
     (case commitBuffer L of
        None \<Rightarrow> Some (Inr L)
      | Some b \<Rightarrow>
          (case loggerFlush b L of
             None \<Rightarrow> None
           | Some r \<Rightarrow> Some (bind_res r (\<lambda>L1.
               Inr (L1\<lparr>commitQueue := cancelWaits (commitQueue L1), serializeQueue := cancelWaits (serializeQueue L1)\<rparr>)))))"

definition shutdownEnd :: "Logger \<Rightarrow> Logger" where
  "shutdownEnd L = L\<lparr>commitBuffer := None, logWriter := None, tableGroup := TableGroup0\<rparr>"

subsection \<open>The commit thread\<close>

text \<open>
  \<open>dataFile n\<close> is the name of the \<open>n\<close>th log file that the configuration manager gives out, and
  \<open>writerUri\<close> the URI of the log writer for a file.
\<close>

definition openLog :: "(nat \<Rightarrow> string) \<Rightarrow> (string \<Rightarrow> string) \<Rightarrow> Logger \<Rightarrow> Logger result" where
  "openLog dataFile writerUri L =
     (case logWriter L of
        Some _ \<Rightarrow> Inr L
      | None \<Rightarrow>
          let fn = dataFile (length (logFiles L)); w = world (server L)
          in bind_res (track fn (tracker w)) (\<lambda>tr.
             bind_res (setLogUri (writerUri fn) (tableGroup L)) (\<lambda>g.
               Inr (L\<lparr>server := (server L)\<lparr>world := w\<lparr>tracker := tr\<rparr>\<rparr>, logWriter := Some (writerUri fn),
                      logFiles := logFiles L @ [(writerUri fn, [])], tableGroup := g\<rparr>))))"

definition commitBufferOf ::
  "Fragments \<Rightarrow> (nat \<Rightarrow> string) \<Rightarrow> (string \<Rightarrow> string \<Rightarrow> string) \<Rightarrow> 64 word \<Rightarrow> (nat \<Rightarrow> string) \<Rightarrow> (string \<Rightarrow> string) \<Rightarrow>
     CommitBuffer \<Rightarrow> Logger \<Rightarrow> Logger result option" where
  "commitBufferOf env nameOf tableUri overhead dataFile writerUri b L =
     (case bind_res (openLog dataFile writerUri L) (\<lambda>L1.
             replayToTables env nameOf tableUri overhead (tableMap b)
               (writeLog nameOf (logUri (tableGroup L1)) (tableMap b) L1)) of
        Inl e \<Rightarrow> Some (Inl e)
      | Inr L2 \<Rightarrow>
          if groupFull (tableGroup L2) then
            (case queuePush True (tableGroup L2) (serializeQueue L2) of
               None \<Rightarrow> None
             | Some (q, ok) \<Rightarrow>
                 if ok then Some (Inr (L2\<lparr>serializeQueue := q, tableGroup := TableGroup0, logWriter := None,
                                         commitQueue := taskComplete (commitQueue L2)\<rparr>))
                 else Some (Inl (RuntimeError ''push to serialize queue failed'')))
          else Some (Inr (L2\<lparr>commitQueue := taskComplete (commitQueue L2)\<rparr>)))"

text \<open>One round of the loop; without a buffer the loop has ended and nothing changes.\<close>

definition commitRound ::
  "Fragments \<Rightarrow> (nat \<Rightarrow> string) \<Rightarrow> (string \<Rightarrow> string \<Rightarrow> string) \<Rightarrow> 64 word \<Rightarrow> (nat \<Rightarrow> string) \<Rightarrow> (string \<Rightarrow> string) \<Rightarrow>
     Logger \<Rightarrow> Logger result option" where
  "commitRound env nameOf tableUri overhead dataFile writerUri L =
     (case queuePop True (commitQueue L) of
        None \<Rightarrow> None
      | Some (q, None) \<Rightarrow> Some (Inr (L\<lparr>commitQueue := q\<rparr>))
      | Some (q, Some b) \<Rightarrow>
          commitBufferOf env nameOf tableUri overhead dataFile writerUri b (L\<lparr>commitQueue := q\<rparr>))"

subsection \<open>The serialize thread\<close>

fun notifyTablets :: "Fragments \<Rightarrow> nat \<Rightarrow> nat \<Rightarrow> nat list \<Rightarrow> Server \<Rightarrow> Server result" where
  "notifyTablets env old new [] s = Inr s"
| "notifyTablets env old new (t # ts) s =
     bind_res (tabletReplaceFragments env [old] new t s) (notifyTablets env old new ts)"

text \<open>\<open>writer\<close> is what starting, filling and finishing the fragment writer gives: a URI.\<close>

definition serializeTable ::
  "Fragments \<Rightarrow> (string \<Rightarrow> Cell list \<Rightarrow> string result) \<Rightarrow> (string \<Rightarrow> nat result) \<Rightarrow> string \<Rightarrow> TableInfo \<Rightarrow> Logger \<Rightarrow>
     Logger result" where
  "serializeTable env writer loader name info L =
     bind_res (tableScan ScanPredicate0 (snd (mapAt ([], MemoryTable0 False) (infoFragment info) (memTables L)))) (\<lambda>cs.
     bind_res (writer name cs) (\<lambda>uri.
     bind_res (loader uri) (\<lambda>frag.
     bind_res (track (getDiskUri env frag) (tracker (world (server L)))) (\<lambda>tr.
     bind_res (notifyTablets env (infoFragment info) frag (infoTablets info)
                 ((server L)\<lparr>world := (world (server L))\<lparr>tracker := tr\<rparr>\<rparr>)) (\<lambda>s1.
       Inr (L\<lparr>server := s1\<lparr>world := updateTracker (release (getDiskUri env frag)) (world s1)\<rparr>\<rparr>))))))"

fun serializeTables ::
  "Fragments \<Rightarrow> (string \<Rightarrow> Cell list \<Rightarrow> string result) \<Rightarrow> (string \<Rightarrow> nat result) \<Rightarrow> (string, TableInfo) omap \<Rightarrow>
     Logger \<Rightarrow> Logger result" where
  "serializeTables env writer loader [] L = Inr L"
| "serializeTables env writer loader ((name, info) # m) L =
     bind_res (serializeTable env writer loader name info L) (serializeTables env writer loader m)"

text \<open>\<open>logFileOf\<close> takes the scheme off the URI of a log.\<close>

definition serializeGroup ::
  "Fragments \<Rightarrow> (string \<Rightarrow> Cell list \<Rightarrow> string result) \<Rightarrow> (string \<Rightarrow> nat result) \<Rightarrow> (string \<Rightarrow> string) \<Rightarrow>
     TableGroup \<Rightarrow> Logger \<Rightarrow> Logger result" where
  "serializeGroup env writer loader logFileOf g L =
     bind_res (serializeTables env writer loader (tableInfoMap g) L) (\<lambda>L1.
       Inr (L1\<lparr>server := (server L1)\<lparr>world := updateTracker (release (logFileOf (logUri g))) (world (server L1))\<rparr>\<rparr>))"

definition serializeRound ::
  "Fragments \<Rightarrow> (string \<Rightarrow> Cell list \<Rightarrow> string result) \<Rightarrow> (string \<Rightarrow> nat result) \<Rightarrow> (string \<Rightarrow> string) \<Rightarrow>
     Logger \<Rightarrow> Logger result option" where
  "serializeRound env writer loader logFileOf L =
     (case queuePop True (serializeQueue L) of
        None \<Rightarrow> None
      | Some (q, None) \<Rightarrow> Some (Inr (L\<lparr>serializeQueue := q\<rparr>))
      | Some (q, Some g) \<Rightarrow> Some (serializeGroup env writer loader logFileOf g (L\<lparr>serializeQueue := q\<rparr>)))"

end
