(* ===== verification/LogRecovery.thy ===== *)
theory LogRecovery
  imports Logger
begin

section \<open>Reading logs back (src/cc/kdi/tablet/LogReader.cc, CachedLogLoader.cc)\<close>

text \<open>
  A log is turned into a disk fragment of one table by reading the table's cells in the order
  in which they were logged, sorting them stably and keeping the last of each key. The theorem
  is that this is what the table's memory table held, for every log and at every moment.
\<close>

subsection \<open>The log reader\<close>

text \<open>The state is what remains of the log and of the current block.\<close>

definition readCellData :: "CellData \<Rightarrow> Cell" where
  "readCellData d =
     (case cd_value d of
        Some v \<Rightarrow> makeCell (cd_row d) (cd_column d) (cd_timestamp d) v
      | None \<Rightarrow> makeCellErasure (cd_row d) (cd_column d) (cd_timestamp d))"

fun readerGet :: "string \<Rightarrow> LogFile \<times> CellData list \<Rightarrow> (LogFile \<times> CellData list) \<times> Cell option" where
  "readerGet name (input, d # ds) = ((input, ds), Some (readCellData d))"
| "readerGet name ([], []) = (([], []), None)"
| "readerGet name ((n, ds) # input, []) = (if n \<noteq> name then readerGet name (input, []) else readerGet name (input, ds))"

definition readerSize :: "LogFile \<times> CellData list \<Rightarrow> nat" where
  "readerSize s = length (snd s) + sum_list (map (\<lambda>(n, ds). length ds) (fst s))"

lemma readerGet_size: "readerGet name s = (s', Some c) \<Longrightarrow> readerSize s' < readerSize s"
proof (induction name s arbitrary: s' c rule: readerGet.induct)
  case (3 name n ds input)
  then show ?case by (fastforce simp: readerSize_def split: if_splits)
qed (auto simp: readerSize_def)

text \<open>The loop that reads all cells.\<close>

function readAll :: "string \<Rightarrow> LogFile \<times> CellData list \<Rightarrow> Cell list" where
  "readAll name s = (case readerGet name s of (s', Some c) \<Rightarrow> c # readAll name s' | (s', None) \<Rightarrow> [])"
  by pat_completeness auto
termination
  by (relation "measure (\<lambda>(name, s). readerSize s)") (auto dest: readerGet_size [OF sym])

declare readAll.simps [simp del]

definition blockCells :: "string \<Rightarrow> LogFile \<Rightarrow> CellData list" where
  "blockCells name es = concat (map snd (filter (\<lambda>e. fst e = name) es))"

lemma readAll_cells: "readAll name (input, ds) = map readCellData (ds @ blockCells name input)"
proof (induction "readerSize (input, ds) + length input" arbitrary: input ds rule: less_induct)
  case less
  show ?case
  proof (cases ds)
    case (Cons d ds')
    then show ?thesis
      by (subst readAll.simps) (simp add: less.hyps readerSize_def)
  next
    case Nil
    show ?thesis
    proof (cases input)
      case Nil
      then show ?thesis using \<open>ds = []\<close> by (subst readAll.simps) (simp add: blockCells_def)
    next
      case (Cons e input')
      obtain n es where e: "e = (n, es)" by fastforce
      have "readAll name (input, ds) = (if n \<noteq> name then readAll name (input', []) else readAll name (input', es))"
        using Nil Cons e by (subst (1 2 3) readAll.simps) simp
      moreover have "readAll name (input', []) = map readCellData (blockCells name input')"
        using less.hyps [of input' "[]"] Nil Cons e by (simp add: readerSize_def)
      moreover have "readAll name (input', es) = map readCellData (es @ blockCells name input')"
        using less.hyps [of input' es] Nil Cons e by (simp add: readerSize_def)
      ultimately show ?thesis using Nil Cons e by (simp add: blockCells_def)
    qed
  qed
qed

subsection \<open>Sorting and keeping the last cells\<close>

text \<open>\<open>std::stable_sort\<close> and \<open>std::unique\<close>.\<close>

fun insertStable :: "('a \<Rightarrow> 'a \<Rightarrow> bool) \<Rightarrow> 'a \<Rightarrow> 'a list \<Rightarrow> 'a list" where
  "insertStable lt x [] = [x]"
| "insertStable lt x (y # ys) = (if lt y x then y # insertStable lt x ys else x # y # ys)"

definition stableSort :: "('a \<Rightarrow> 'a \<Rightarrow> bool) \<Rightarrow> 'a list \<Rightarrow> 'a list" where
  "stableSort lt xs = foldr (insertStable lt) xs []"

fun stdUnique :: "('a \<Rightarrow> 'a \<Rightarrow> bool) \<Rightarrow> 'a list \<Rightarrow> 'a list" where
  "stdUnique eq [] = []"
| "stdUnique eq [x] = [x]"
| "stdUnique eq (x # y # ys) = (if eq x y then stdUnique eq (x # ys) else x # stdUnique eq (y # ys))"

text \<open>The vector that \<open>serializeLog\<close> writes: unique is applied to the reversed vector.\<close>

definition recoverCells :: "string \<Rightarrow> LogFile \<Rightarrow> Cell list" where
  "recoverCells name es = rev (stdUnique cellEq (rev (stableSort cellLt (readAll name (es, [])))))"

lemma stableSort_key:
  assumes "list_all cellOk cs"
  shows "stableSort cellLt cs = sort_key cellKey cs"
proof -
  have ins: "insertStable cellLt c ds = insort_key cellKey c ds" if "cellOk c" "list_all cellOk ds" for c ds
    using that(2)
  proof (induction ds)
    case (Cons d ds)
    then have "cellLt d c \<longleftrightarrow> cellKey d < cellKey c" using cell_values.lt_key that(1) by simp
    then show ?case using Cons by (auto simp: not_less)
  qed simp
  show ?thesis
    using assms by (induction cs) (auto simp: stableSort_def sort_key_def ins list_all_iff set_sort simp flip: sort_key_def)
qed

lemma unique_first:
  assumes "sorted_wrt (\<lambda>a b. cellKey b \<le> cellKey a) cs"
  shows "sorted_wrt (\<lambda>a b. cellKey b < cellKey a) (stdUnique cellEq cs) \<and> set (stdUnique cellEq cs) \<subseteq> set cs \<and>
    (\<forall>k. firstKey k (stdUnique cellEq cs) = firstKey k cs)"
  using assms
proof (induction cellEq cs rule: stdUnique.induct)
  case (3 x y ys)
  show ?case
  proof (cases "cellEq x y")
    case True
    then have "cellKey y = cellKey x" by (simp add: cellEq_key)
    then show ?thesis using 3(1) [OF True] 3(3) True by auto
  next
    case False
    then have "cellKey y < cellKey x" using 3(3) by (auto simp: cellEq_key order.strict_iff_order)
    then have "\<forall>z\<in>set (y # ys). cellKey z < cellKey x" using 3(3) by auto
    then show ?thesis using 3(2) [OF False] 3(3) False by fastforce
  qed
qed simp_all

text \<open>The last write of each key.\<close>

definition opOf :: "Cell \<Rightarrow> TableOp" where
  "opOf c = (if isErasure c then OpErase (getRow c) (getColumn c) (getTimestamp c)
             else OpSet (getRow c) (getColumn c) (getTimestamp c) (getValue c))"

lemma opOf_simps [simp]:
  "applyOp ov (opOf c) = memInsert ov c" "opCell (opOf c) = readCellData (appendCellData c)"
  "cellKey (readCellData (appendCellData c)) = cellKey c" "cellOk (readCellData (appendCellData c)) = cellOk c"
  by (auto simp: opOf_def memInsert_def readCellData_def appendCellData_def cellKey_def cellOk_def fun_eq_iff)

lemma firstKey_rev: "firstKey k (rev cs) = fold (\<lambda>c m. m(cellKey c \<mapsto> c)) cs Map.empty k"
proof -
  have "fold (\<lambda>c m. m(cellKey c \<mapsto> c)) cs m k = (case firstKey k (rev cs) of None \<Rightarrow> m k | Some c \<Rightarrow> Some c)" for m
    by (induction cs arbitrary: m) (auto simp: firstKey_append split: option.split)
  then show ?thesis by (auto split: option.split)
qed

lemma firstKey_filter_key: "firstKey k cs = firstKey k (filter (\<lambda>c. cellKey c = k) cs)"
  by (induction cs) auto

lemma cellMap_firstKey: "cellMap cs k = firstKey k cs"
  by (induction cs) (auto simp: cellMap_def)

lemma firstKey_rev_distinct: "distinct (map cellKey xs) \<Longrightarrow> firstKey k (rev xs) = firstKey k xs"
proof (induction xs)
  case (Cons x xs)
  have "cellKey c \<noteq> cellKey x" if "c \<in> set xs" for c
    using Cons.prems imageI [OF that, of cellKey] by auto
  then have "firstKey (cellKey x) xs = None" unfolding firstKey_None by blast
  then show ?case using Cons by (auto simp: firstKey_append split: option.split)
qed simp

lemma recover_correct:
  assumes "list_all cellOk cs"
  shows "rev (stdUnique cellEq (rev (stableSort cellLt (map (readCellData \<circ> appendCellData) cs)))) =
    cells (fold (memInsert ov) cs (MemoryTable0 False))"
proof -
  let ?ds = "map (readCellData \<circ> appendCellData) cs" and ?ops = "map opOf cs"
  have ok: "list_all cellOk ?ds" "list_all (\<lambda>op. cellOk (opCell op)) ?ops" using assms by (simp_all add: list_all_iff)
  have fold: "fold (applyOp ov) ?ops t = fold (memInsert ov) cs t" for t
    by (induction cs arbitrary: t) simp_all
  note t = table_after [OF ok(2) refl, of ov False, unfolded fold]
  let ?s = "sort_key cellKey ?ds"
  have "sorted (map cellKey ?s)" by simp
  then have "sorted_wrt (\<lambda>a b. cellKey b \<le> cellKey a) (rev ?s)"
    by (simp add: sorted_map sorted_wrt_rev)
  note u = unique_first [OF this]
  have s: "cellsSorted (rev (stdUnique cellEq (rev ?s)))"
    using u by (simp add: cellsSorted_def sorted_wrt_rev)
  have "firstKey k (rev (stdUnique cellEq (rev ?s))) = firstKey k (cells (fold (memInsert ov) cs (MemoryTable0 False)))" for k
  proof -
    have one: "firstKey k (rev xs) = firstKey k xs" if "cellsSorted xs" for xs
    proof -
      have "distinct (map cellKey xs)"
        using that strict_sorted_iff [of "map cellKey xs"] by (simp add: cellsSorted_def sorted_wrt_map)
      then show ?thesis by (rule firstKey_rev_distinct)
    qed
    have "firstKey k (rev (stdUnique cellEq (rev ?s))) = firstKey k (rev ?s)"
      using one [OF s] u by simp
    also have "\<dots> = firstKey k (rev ?ds)"
      unfolding firstKey_filter_key [of k "rev ?s"] firstKey_filter_key [of k "rev ?ds"]
      by (simp only: rev_filter [symmetric] sort_key_stable)
    also have "\<dots> = lastWrite ?ops k"
    proof -
      have "fold (\<lambda>c m. m(cellKey c \<mapsto> c)) ?ds m = fold (\<lambda>op m. m(cellKey (opCell op) \<mapsto> opCell op)) ?ops m" for m
        by (induction cs arbitrary: m) simp_all
      then show ?thesis unfolding firstKey_rev lastWrite_def by simp
    qed
    finally show ?thesis using t(2) cellMap_firstKey by metis
  qed
  then show ?thesis
    unfolding stableSort_key [OF ok(1)]
    using cellsSorted_ext [OF s] t(1) by (simp add: table_inv_def)
qed

end
