(* ===== verification/LogRun.thy ===== *)
theory LogRun
  imports LogRecovery
begin

section \<open>Runs of the shared logger\<close>

text \<open>
  The steps of the logger: the calls of its clients, the rounds of its two threads, and whatever
  else changes the tablets. A step that raises ends the program and is not a step here.
\<close>

inductive loggerStep ::
  "Fragments \<Rightarrow> (nat \<Rightarrow> string) \<Rightarrow> (string \<Rightarrow> string \<Rightarrow> string) \<Rightarrow> 64 word \<Rightarrow> (nat \<Rightarrow> string) \<Rightarrow> (string \<Rightarrow> string) \<Rightarrow>
     Logger \<Rightarrow> (nat \<times> Cell) list \<Rightarrow> Logger \<Rightarrow> bool"
  for env nameOf tableUri overhead dataFile writerUri where
  insert: "cellOk c \<Longrightarrow> loggerInsert t c L = Some (Inr L') \<Longrightarrow>
     loggerStep env nameOf tableUri overhead dataFile writerUri L [(t, c)] L'"
| flush: "syncFlush L = Some (Inr L') \<Longrightarrow> loggerStep env nameOf tableUri overhead dataFile writerUri L [] L'"
| shutdown: "shutdownBegin L = Some (Inr L') \<Longrightarrow> loggerStep env nameOf tableUri overhead dataFile writerUri L [] L'"
| shutdown_done: "queued (commitQueue L) = [] \<Longrightarrow> bufferEmpty (case commitBuffer L of None \<Rightarrow> CommitBuffer0 | Some b \<Rightarrow> b) \<Longrightarrow>
     loggerStep env nameOf tableUri overhead dataFile writerUri L [] (shutdownEnd L)"
| commit: "commitRound env nameOf tableUri overhead dataFile writerUri L = Some (Inr L') \<Longrightarrow>
     loggerStep env nameOf tableUri overhead dataFile writerUri L [] L'"
| serialize: "serializeRound env writer loader logFileOf L = Some (Inr L') \<Longrightarrow>
     loggerStep env nameOf tableUri overhead dataFile writerUri L [] L'"
| other: "loggerStep env nameOf tableUri overhead dataFile writerUri L [] (L\<lparr>server := s\<rparr>)"

inductive loggerRun ::
  "Fragments \<Rightarrow> (nat \<Rightarrow> string) \<Rightarrow> (string \<Rightarrow> string \<Rightarrow> string) \<Rightarrow> 64 word \<Rightarrow> (nat \<Rightarrow> string) \<Rightarrow> (string \<Rightarrow> string) \<Rightarrow>
     nat \<Rightarrow> Server \<Rightarrow> (nat \<times> Cell) list \<Rightarrow> Logger \<Rightarrow> bool"
  for env nameOf tableUri overhead dataFile writerUri base s where
  start: "loggerRun env nameOf tableUri overhead dataFile writerUri base s [] (Logger0 base s)"
| step: "loggerRun env nameOf tableUri overhead dataFile writerUri base s h L \<Longrightarrow>
     loggerStep env nameOf tableUri overhead dataFile writerUri L xs L' \<Longrightarrow>
     loggerRun env nameOf tableUri overhead dataFile writerUri base s (h @ xs) L'"

inductive_cases loggerStepE: "loggerStep env nameOf tableUri overhead dataFile writerUri L xs L'"

subsection \<open>What the log says and what the tables hold\<close>

definition logAt :: "string \<Rightarrow> Logger \<Rightarrow> LogFile" where
  "logAt uri L = (case map_of (logFiles L) uri of None \<Rightarrow> [] | Some es \<Rightarrow> es)"

definition logUris :: "Logger \<Rightarrow> string list" where
  "logUris L = map fst (logFiles L)"

definition fragOf :: "TableGroup \<Rightarrow> string \<Rightarrow> nat option" where
  "fragOf g name = map_option infoFragment (mapFind name (tableInfoMap g))"

definition heldTable :: "TableGroup \<Rightarrow> string \<Rightarrow> Logger \<Rightarrow> MemoryTable" where
  "heldTable g name L =
     (case fragOf g name of
        None \<Rightarrow> MemoryTable0 False
      | Some f \<Rightarrow> snd (mapAt ([], MemoryTable0 False) f (memTables L)))"

text \<open>The cells of a buffer, or of a part of its map, for one table.\<close>

definition cellsFor :: "(nat \<Rightarrow> string) \<Rightarrow> string \<Rightarrow> (nat, Cell list) omap \<Rightarrow> Cell list" where
  "cellsFor nameOf name m = concat (map snd (filter (\<lambda>e. nameOf (fst e) = name) m))"

abbreviation replayed :: "64 word \<Rightarrow> CellData list \<Rightarrow> MemoryTable" where
  "replayed ov ds \<equiv> fold (memInsert ov) (map readCellData ds) (MemoryTable0 False)"

lemma read_append [simp]: "memInsert ov (readCellData (appendCellData c)) = memInsert ov c"
  by (auto simp: memInsert_def readCellData_def appendCellData_def fun_eq_iff)

lemma cellsFor_simps [simp]:
  "cellsFor nameOf name [] = []"
  "cellsFor nameOf name ((t, cs) # m) = (if nameOf t = name then cs else []) @ cellsFor nameOf name m"
  by (simp_all add: cellsFor_def)

lemma blockCells_simps [simp]:
  "blockCells name [] = []"
  "blockCells name (es @ fs) = blockCells name es @ blockCells name fs"
  "blockCells name (e # fs) = (if fst e = name then snd e else []) @ blockCells name fs"
  by (simp_all add: blockCells_def)

lemma map_of_map_entry: "map_of (map (\<lambda>(u, es). (u, f u es)) xs) u = map_option (f u) (map_of xs u)"
  by (induction xs) auto

lemma logCells_at:
  "uri \<in> set (logUris L) \<Longrightarrow>
     logAt u (logCells uri name cs L) = logAt u L @ (if u = uri then [(name, map appendCellData cs)] else [])"
  using map_of_eq_None_iff [of "logFiles L" uri]
  by (cases "map_of (logFiles L) u"; cases "u = uri") (simp_all add: logAt_def logCells_def logUris_def map_of_map_entry)

lemma logCells_frame [simp]:
  "logUris (logCells uri name cs L) = logUris L" "length (logFiles (logCells uri name cs L)) = length (logFiles L)"
  "memTables (logCells uri name cs L) = memTables L" "tableGroup (logCells uri name cs L) = tableGroup L"
  "nextFragment (logCells uri name cs L) = nextFragment L" "logWriter (logCells uri name cs L) = logWriter L"
  "serializeQueue (logCells uri name cs L) = serializeQueue L" "commitQueue (logCells uri name cs L) = commitQueue L"
  "commitBuffer (logCells uri name cs L) = commitBuffer L"
  by (auto simp: logCells_def logUris_def)

lemma writeLog_frame [simp]:
  "logUris (writeLog nameOf uri m L) = logUris L" "length (logFiles (writeLog nameOf uri m L)) = length (logFiles L)"
  "memTables (writeLog nameOf uri m L) = memTables L" "tableGroup (writeLog nameOf uri m L) = tableGroup L"
  "nextFragment (writeLog nameOf uri m L) = nextFragment L" "logWriter (writeLog nameOf uri m L) = logWriter L"
  "serializeQueue (writeLog nameOf uri m L) = serializeQueue L" "commitQueue (writeLog nameOf uri m L) = commitQueue L"
  "commitBuffer (writeLog nameOf uri m L) = commitBuffer L"
  by (induction nameOf uri m L rule: writeLog.induct) auto

text \<open>Writing a buffer appends, for every table, the cells of its tablets in the order of the map.\<close>

lemma writeLog_at:
  "uri \<in> set (logUris L) \<Longrightarrow>
     blockCells name (logAt u (writeLog nameOf uri m L)) =
       blockCells name (logAt u L) @ (if u = uri then map appendCellData (cellsFor nameOf name m) else [])"
proof (induction nameOf uri m L rule: writeLog.induct)
  case (2 nameOf uri tablet cs m L)
  then have "uri \<in> set (logUris (logCells uri (nameOf tablet) cs L))" by simp
  then show ?case
    using 2(1) logCells_at [OF 2(2), of u "nameOf tablet" cs] by simp
qed simp

lemma heldTable_cong [simp]:
  "heldTable g name (L\<lparr>server := s\<rparr>) = heldTable g name L"
  "heldTable g name (L\<lparr>commitQueue := q\<rparr>) = heldTable g name L"
  "heldTable g name (L\<lparr>commitBuffer := b\<rparr>) = heldTable g name L"
  "heldTable g name (L\<lparr>serializeQueue := sq\<rparr>) = heldTable g name L"
  "heldTable g name (L\<lparr>tableGroup := g'\<rparr>) = heldTable g name L"
  "heldTable g name (L\<lparr>logWriter := w\<rparr>) = heldTable g name L"
  "heldTable g name (L\<lparr>logFiles := fs\<rparr>) = heldTable g name L"
  "heldTable g name (writeLog nameOf uri m L) = heldTable g name L"
  by (simp_all add: heldTable_def cong: option.case_cong)

subsection \<open>The invariant\<close>

text \<open>
  For every table of a group, inserting the cells that are still to be replayed into the group's
  memory table gives the table of everything that the group's log says about it.
\<close>

definition groupFragments :: "TableGroup \<Rightarrow> nat set" where
  "groupFragments g = ran (fragOf g)"

definition groupLogged ::
  "(nat \<Rightarrow> string) \<Rightarrow> (string \<Rightarrow> string \<Rightarrow> string) \<Rightarrow> 64 word \<Rightarrow> (nat, Cell list) omap \<Rightarrow> TableGroup \<Rightarrow> Logger \<Rightarrow> bool" where
  "groupLogged nameOf tableUri ov m g L \<longleftrightarrow>
     (\<forall>name. fold (memInsert ov) (cellsFor nameOf name m) (heldTable g name L) =
        replayed ov (blockCells name (logAt (logUri g) L))) \<and>
     (\<forall>name f. fragOf g name = Some f \<longrightarrow> f < nextFragment L \<and>
        (\<exists>tbl. mapFind f (memTables L) = Some (tableUri (logUri g) name, tbl)))"

definition groupWf :: "(nat \<Rightarrow> string) \<Rightarrow> TableGroup \<Rightarrow> bool" where
  "groupWf nameOf g \<longleftrightarrow>
     (logUri g = [] \<longrightarrow> g = TableGroup0) \<and>
     (\<forall>t f. mapFind t (fragmentMap g) = Some f \<longrightarrow> fragOf g (nameOf t) = Some f) \<and>
     (\<forall>n n' f. fragOf g n = Some f \<longrightarrow> fragOf g n' = Some f \<longrightarrow> n = n')"

definition queuedApart ::
  "(nat \<Rightarrow> string) \<Rightarrow> (string \<Rightarrow> string \<Rightarrow> string) \<Rightarrow> 64 word \<Rightarrow> Logger \<Rightarrow> bool" where
  "queuedApart nameOf tableUri ov L \<longleftrightarrow>
     (\<forall>g\<in>set (queued (serializeQueue L)). groupLogged nameOf tableUri ov [] g L \<and>
        logUri g \<in> set (logUris L) \<and> logUri g \<noteq> logUri (tableGroup L) \<and>
        groupFragments g \<inter> groupFragments (tableGroup L) = {})"

definition urisGiven :: "(nat \<Rightarrow> string) \<Rightarrow> (string \<Rightarrow> string) \<Rightarrow> Logger \<Rightarrow> bool" where
  "urisGiven dataFile writerUri L \<longleftrightarrow>
     logUris L = map (writerUri \<circ> dataFile) [0..<length (logFiles L)] \<and> [] \<notin> set (logUris L)"

definition logUrisOk :: "(nat \<Rightarrow> string) \<Rightarrow> (string \<Rightarrow> string) \<Rightarrow> Logger \<Rightarrow> bool" where
  "logUrisOk dataFile writerUri L \<longleftrightarrow>
     urisGiven dataFile writerUri L \<and>
     (case logWriter L of
        None \<Rightarrow> logUri (tableGroup L) = []
      | Some u \<Rightarrow> logUri (tableGroup L) = u \<and> u \<in> set (logUris L))"

definition loggerInv ::
  "(nat \<Rightarrow> string) \<Rightarrow> (string \<Rightarrow> string \<Rightarrow> string) \<Rightarrow> 64 word \<Rightarrow> (nat \<Rightarrow> string) \<Rightarrow> (string \<Rightarrow> string) \<Rightarrow> (nat, Cell list) omap \<Rightarrow>
     Logger \<Rightarrow> bool" where
  "loggerInv nameOf tableUri ov dataFile writerUri m L \<longleftrightarrow>
     logUrisOk dataFile writerUri L \<and> groupWf nameOf (tableGroup L) \<and>
     groupLogged nameOf tableUri ov m (tableGroup L) L \<and> queuedApart nameOf tableUri ov L"

lemmas loggerInv_defs = loggerInv_def logUrisOk_def queuedApart_def

lemma logAt_frame [simp]:
  "logAt u (L\<lparr>server := s\<rparr>) = logAt u L" "logAt u (L\<lparr>commitQueue := q\<rparr>) = logAt u L"
  "logAt u (L\<lparr>commitBuffer := b\<rparr>) = logAt u L" "logAt u (L\<lparr>serializeQueue := sq\<rparr>) = logAt u L"
  "logAt u (L\<lparr>tableGroup := g\<rparr>) = logAt u L" "logAt u (L\<lparr>logWriter := w\<rparr>) = logAt u L"
  "logAt u (L\<lparr>memTables := ts\<rparr>) = logAt u L" "logAt u (L\<lparr>nextFragment := n\<rparr>) = logAt u L"
  by (simp_all add: logAt_def)

lemma logUris_frame [simp]:
  "logUris (L\<lparr>server := s\<rparr>) = logUris L" "logUris (L\<lparr>commitQueue := q\<rparr>) = logUris L"
  "logUris (L\<lparr>commitBuffer := b\<rparr>) = logUris L" "logUris (L\<lparr>serializeQueue := sq\<rparr>) = logUris L"
  "logUris (L\<lparr>tableGroup := g\<rparr>) = logUris L" "logUris (L\<lparr>logWriter := w\<rparr>) = logUris L"
  "logUris (L\<lparr>memTables := ts\<rparr>) = logUris L" "logUris (L\<lparr>nextFragment := n\<rparr>) = logUris L"
  by (simp_all add: logUris_def)

lemma urisGiven_frame [simp]:
  "urisGiven df wu (L\<lparr>server := s\<rparr>) = urisGiven df wu L" "urisGiven df wu (L\<lparr>commitQueue := q\<rparr>) = urisGiven df wu L"
  "urisGiven df wu (L\<lparr>commitBuffer := b\<rparr>) = urisGiven df wu L" "urisGiven df wu (L\<lparr>serializeQueue := sq\<rparr>) = urisGiven df wu L"
  "urisGiven df wu (L\<lparr>tableGroup := g\<rparr>) = urisGiven df wu L" "urisGiven df wu (L\<lparr>logWriter := w\<rparr>) = urisGiven df wu L"
  "urisGiven df wu (L\<lparr>memTables := ts\<rparr>) = urisGiven df wu L"
  "urisGiven df wu (L\<lparr>nextFragment := n\<rparr>) = urisGiven df wu L"
  "urisGiven df wu (writeLog nameOf uri m L) = urisGiven df wu L"
  by (simp_all add: urisGiven_def)

lemma groupLogged_frame [simp]:
  "groupLogged nameOf tableUri ov m g (L\<lparr>server := s\<rparr>) = groupLogged nameOf tableUri ov m g L"
  "groupLogged nameOf tableUri ov m g (L\<lparr>commitQueue := q\<rparr>) = groupLogged nameOf tableUri ov m g L"
  "groupLogged nameOf tableUri ov m g (L\<lparr>commitBuffer := b\<rparr>) = groupLogged nameOf tableUri ov m g L"
  "groupLogged nameOf tableUri ov m g (L\<lparr>serializeQueue := sq\<rparr>) = groupLogged nameOf tableUri ov m g L"
  "groupLogged nameOf tableUri ov m g (L\<lparr>tableGroup := g'\<rparr>) = groupLogged nameOf tableUri ov m g L"
  "groupLogged nameOf tableUri ov m g (L\<lparr>logWriter := w\<rparr>) = groupLogged nameOf tableUri ov m g L"
  by (simp_all add: groupLogged_def)

lemma empty_group [simp]:
  "tableInfoMap TableGroup0 = []" "fragmentMap TableGroup0 = []" "logUri TableGroup0 = []" "groupSize TableGroup0 = 0"
  "heldTable TableGroup0 name L = MemoryTable0 False" "fragOf TableGroup0 = Map.empty" "groupFragments TableGroup0 = {}" "groupWf nameOf TableGroup0"
  by (auto simp: TableGroup0_def heldTable_def groupFragments_def groupWf_def fragOf_def fun_eq_iff ran_def)

lemma fragOf_uri [simp]: "fragOf (g\<lparr>logUri := u\<rparr>) = fragOf g"
  by (simp add: fragOf_def fun_eq_iff)

lemma logAt_none: "u \<notin> set (logUris L) \<Longrightarrow> logAt u L = []"
  by (simp add: logAt_def logUris_def map_of_eq_None_iff [THEN iffD2])

lemma empty_group_logged:
  "[] \<notin> set (logUris L) \<Longrightarrow> groupLogged nameOf tableUri ov [] TableGroup0 L"
  by (simp add: groupLogged_def logAt_none)

subsection \<open>Opening and writing a log\<close>

lemma new_uri:
  "urisGiven dataFile writerUri L \<Longrightarrow> inj (writerUri \<circ> dataFile) \<Longrightarrow>
     writerUri (dataFile (length (logFiles L))) \<notin> set (logUris L)"
  using injD [of "writerUri \<circ> dataFile" "length (logFiles L)"] by (auto simp: urisGiven_def)

lemma openLog_Inr:
  assumes "openLog dataFile writerUri L = Inr L1" and inv: "loggerInv nameOf tableUri ov dataFile writerUri [] L"
    and inj: "inj (writerUri \<circ> dataFile)"
  shows "loggerInv nameOf tableUri ov dataFile writerUri [] L1" "logUri (tableGroup L1) \<in> set (logUris L1)"
    "commitQueue L1 = commitQueue L" "serializeQueue L1 = serializeQueue L" "commitBuffer L1 = commitBuffer L"
    "\<And>u. logAt u L1 = logAt u L"
proof -
  have "loggerInv nameOf tableUri ov dataFile writerUri [] L1 \<and> logUri (tableGroup L1) \<in> set (logUris L1) \<and>
    commitQueue L1 = commitQueue L \<and> serializeQueue L1 = serializeQueue L \<and> commitBuffer L1 = commitBuffer L \<and>
    (\<forall>u. logAt u L1 = logAt u L)"
  proof (cases "logWriter L")
    case (Some w)
    then have "L1 = L" using assms(1) by (simp add: openLog_def)
    then show ?thesis using inv Some by (auto simp: loggerInv_def logUrisOk_def)
  next
    case None
    let ?u = "writerUri (dataFile (length (logFiles L)))"
    have g0: "logUri (tableGroup L) = []" "tableGroup L = TableGroup0"
      using inv None by (auto simp: loggerInv_defs groupWf_def)
    obtain s where u: "?u \<noteq> []" and L1: "L1 = L\<lparr>server := s, logWriter := Some ?u, logFiles := logFiles L @ [(?u, [])],
        tableGroup := TableGroup0\<lparr>logUri := ?u\<rparr>\<rparr>"
      using assms(1) None
      by (auto simp: openLog_def setLogUri_def bind_res_eq_Inr Let_def g0(2) split: if_splits)
    have new: "?u \<notin> set (logUris L)"
      using inv new_uri [OF _ inj] by (simp add: loggerInv_defs)
    have uris: "logUris L1 = logUris L @ [?u]" unfolding L1 by (simp add: logUris_def)
    have none: "map_of (logFiles L) ?u = None" using new by (simp add: logUris_def map_of_eq_None_iff)
    have at: "logAt v L1 = logAt v L" for v
      unfolding L1 by (cases "v = ?u") (simp_all add: logAt_def none map_add_def split: option.split)
    have held: "heldTable g name L1 = heldTable g name L" for g name
      unfolding L1 by (simp add: heldTable_def cong: option.case_cong)
    have "groupLogged nameOf tableUri ov [] g L1 = groupLogged nameOf tableUri ov [] g L" for g
      unfolding groupLogged_def at held by (simp add: L1)
    moreover have "groupLogged nameOf tableUri ov [] (TableGroup0\<lparr>logUri := ?u\<rparr>) L1"
      unfolding groupLogged_def by (simp add: at logAt_none [OF new] heldTable_def)
    moreover have "tableGroup L1 = TableGroup0\<lparr>logUri := ?u\<rparr>" "logWriter L1 = Some ?u" "serializeQueue L1 = serializeQueue L"
      "commitQueue L1 = commitQueue L" "commitBuffer L1 = commitBuffer L" "length (logFiles L1) = Suc (length (logFiles L))"
      by (simp_all add: L1)
    moreover have "logUri g \<noteq> ?u" if "g \<in> set (queued (serializeQueue L))" for g
    proof -
      have "logUri g \<in> set (logUris L)" using inv that unfolding loggerInv_def queuedApart_def by blast
      then show ?thesis using new by metis
    qed
    moreover have "groupWf nameOf (TableGroup0\<lparr>logUri := ?u\<rparr>)" using u by (simp add: groupWf_def)
    moreover have "[] \<notin> set (logUris L)" "logUris L = map (writerUri \<circ> dataFile) [0..<length (logFiles L)]"
      "\<forall>g\<in>set (queued (serializeQueue L)). logUri g \<in> set (logUris L) \<and> groupLogged nameOf tableUri ov [] g L"
      using inv unfolding loggerInv_def logUrisOk_def urisGiven_def queuedApart_def by blast+
    ultimately show ?thesis
      using u unfolding loggerInv_def logUrisOk_def urisGiven_def queuedApart_def uris
      by (simp del: set_map add: groupFragments_def at)
  qed
  then show "loggerInv nameOf tableUri ov dataFile writerUri [] L1" "logUri (tableGroup L1) \<in> set (logUris L1)"
    "commitQueue L1 = commitQueue L" "serializeQueue L1 = serializeQueue L" "commitBuffer L1 = commitBuffer L"
    "\<And>u. logAt u L1 = logAt u L" by blast+
qed

lemma fold_read: "fold (memInsert ov) (map (\<lambda>c. readCellData (appendCellData c)) cs) = fold (memInsert ov) cs"
  by (induction cs) (auto simp: fun_eq_iff)

lemma writeLog_inv:
  assumes "loggerInv nameOf tableUri ov dataFile writerUri [] L" "logUri (tableGroup L) \<in> set (logUris L)"
  shows "loggerInv nameOf tableUri ov dataFile writerUri m (writeLog nameOf (logUri (tableGroup L)) m L)"
proof -
  let ?L = "writeLog nameOf (logUri (tableGroup L)) m L"
  have "logUrisOk dataFile writerUri ?L = logUrisOk dataFile writerUri L"
    by (simp add: logUrisOk_def split: option.split)
  moreover have "groupLogged nameOf tableUri ov m (tableGroup ?L) ?L"
    using assms(1) by (simp add: loggerInv_def groupLogged_def writeLog_at [OF assms(2)] o_def fold_read)
  moreover have "groupLogged nameOf tableUri ov [] g ?L"
    if "groupLogged nameOf tableUri ov [] g L" "logUri g \<noteq> logUri (tableGroup L)" for g
    using that by (simp add: groupLogged_def writeLog_at [OF assms(2)])
  ultimately show ?thesis
    using assms(1) by (auto simp: loggerInv_def queuedApart_def)
qed

subsection \<open>Replaying a buffer\<close>

lemma fragOf_put [simp]:
  "fragOf (g\<lparr>tableInfoMap := mapPut n info im, fragmentMap := fm\<rparr>) name =
     (if name = n then Some (infoFragment info) else fragOf (g\<lparr>tableInfoMap := im, fragmentMap := fm\<rparr>) name)"
  "fragOf (g\<lparr>fragmentMap := fm\<rparr>) = fragOf g" "fragOf (g\<lparr>groupSize := sz\<rparr>) = fragOf g"
  by (auto simp: fragOf_def fun_eq_iff)

text \<open>What making a fragment for a tablet changes, apart from the tablets themselves.\<close>

lemma groupFragment_cases:
  assumes "groupFragment env nameOf tableUri t L = Inr (L1, f)"
  obtains (found) "L1 = L" "mapFind t (fragmentMap (tableGroup L)) = Some f"
  | (shared) g1 s where "fragOf (tableGroup L) (nameOf t) = Some f" "L1 = L\<lparr>tableGroup := g1, server := s\<rparr>"
      "fragOf g1 = fragOf (tableGroup L)" "logUri g1 = logUri (tableGroup L)"
      "fragmentMap g1 = mapPut t f (fragmentMap (tableGroup L))"
  | (made) g1 s where "fragOf (tableGroup L) (nameOf t) = None" "f = nextFragment L"
      "L1 = L\<lparr>nextFragment := f + 1, memTables := mapPut f (tableUri (logUri (tableGroup L)) (nameOf t), MemoryTable0 False)
         (memTables L), tableGroup := g1, server := s\<rparr>"
      "fragOf g1 = (fragOf (tableGroup L))(nameOf t \<mapsto> f)" "logUri g1 = logUri (tableGroup L)"
      "fragmentMap g1 = mapPut t f (fragmentMap (tableGroup L))"
proof (cases "mapFind t (fragmentMap (tableGroup L))")
  case (Some f')
  then show ?thesis using assms found by (simp add: groupFragment_def Let_def)
next
  case None
  let ?g = "tableGroup L" and ?n = "nameOf t"
  let ?g1 = "\<lambda>info. ?g\<lparr>tableInfoMap := mapPut ?n (info\<lparr>infoTablets := infoTablets info @ [t]\<rparr>) (tableInfoMap ?g),
      fragmentMap := mapPut t (infoFragment info) (fragmentMap ?g)\<rparr>"
  show ?thesis
  proof (cases "mapFind ?n (tableInfoMap ?g)")
    case (Some info)
    obtain s where L1: "L1 = L\<lparr>tableGroup := ?g1 info, server := s\<rparr>" and f: "f = infoFragment info"
      using assms None Some by (auto simp: groupFragment_def Let_def bind_res_eq_Inr)
    have "fragOf (?g1 info) = fragOf ?g" using Some by (auto simp: fun_eq_iff) (auto simp: fragOf_def)
    then show ?thesis using shared [of s "?g1 info"] L1 f Some by (simp add: fragOf_def [of ?g])
  next
    case none: None
    let ?i = "\<lparr>infoFragment = nextFragment L, infoTablets = []\<rparr>"
    obtain s where L1: "L1 = L\<lparr>nextFragment := nextFragment L + 1,
        memTables := mapPut (nextFragment L) (tableUri (logUri ?g) ?n, MemoryTable0 False) (memTables L),
        tableGroup := ?g1 ?i, server := s\<rparr>" and f: "f = nextFragment L"
      using assms None none by (auto simp: groupFragment_def Let_def bind_res_eq_Inr)
    have "fragOf (?g1 ?i) = (fragOf ?g)(?n \<mapsto> nextFragment L)" by (auto simp: fun_eq_iff) (auto simp: fragOf_def)
    then show ?thesis using made [of s "?g1 ?i"] L1 f none by (simp add: fragOf_def [of ?g])
  qed
qed

text \<open>It changes no table: a new fragment has an empty one.\<close>

lemma groupLogged_made:
  assumes "groupLogged nameOf tableUri ov m g L"
    and "nextFragment L1 = nextFragment L + 1" "memTables L1 = mapPut (nextFragment L) e (memTables L)"
      "\<And>u. logAt u L1 = logAt u L"
  shows "groupLogged nameOf tableUri ov m g L1"
proof -
  have less: "f < nextFragment L" if "fragOf g name = Some f" for name f
    using assms(1) that by (simp add: groupLogged_def)
  then have "heldTable g name L1 = heldTable g name L" for name
    by (auto simp: heldTable_def assms split: option.split)
  then show ?thesis
    using assms(1) less unfolding groupLogged_def assms(2-4) by (fastforce simp: less_Suc_eq)
qed

lemma groupFragment_inv:
  assumes "groupFragment env nameOf tableUri t L = Inr (L1, f)"
    and inv: "loggerInv nameOf tableUri ov dataFile writerUri m L" and u: "logUri (tableGroup L) \<noteq> []"
  shows "loggerInv nameOf tableUri ov dataFile writerUri m L1 \<and> fragOf (tableGroup L1) (nameOf t) = Some f"
  using assms(1)
proof (cases rule: groupFragment_cases)
  case found
  then show ?thesis using inv by (simp add: loggerInv_def groupWf_def)
next
  case (shared g1 s)
  have "groupLogged nameOf tableUri ov m g1 L = groupLogged nameOf tableUri ov m (tableGroup L) L"
    by (simp add: groupLogged_def heldTable_def shared)
  moreover have "groupWf nameOf g1"
    using inv u shared(1) by (auto simp: loggerInv_def groupWf_def shared(3-5))
  ultimately show ?thesis
    using inv shared(1) by (simp add: loggerInv_def logUrisOk_def queuedApart_def groupFragments_def shared(2-4) cong: option.case_cong)
next
  case (made g1 s)
  have less: "k < f" if "fragOf (tableGroup L) n = Some k" for n k
    using inv that made(2) by (simp add: loggerInv_def groupLogged_def)
  have "groupLogged nameOf tableUri ov m (tableGroup L) L" using inv by (simp add: loggerInv_def)
  from groupLogged_made [OF this, of L1] have old: "groupLogged nameOf tableUri ov m (tableGroup L) L1"
    using made(2) by (simp add: made(3))
  have held: "heldTable g1 name L1 = heldTable (tableGroup L) name L1" for name
    using made(1) by (simp add: heldTable_def made(3,4))
  have "groupLogged nameOf tableUri ov m g1 L1"
    using old unfolding groupLogged_def held made(4,5) by (simp add: made(3))
  moreover have "groupWf nameOf g1"
    using inv u less made(1) unfolding loggerInv_def groupWf_def made(4-6) by (auto split: if_splits) force+
  moreover have "queuedApart nameOf tableUri ov L1"
    unfolding queuedApart_def
  proof (intro ballI conjI)
    fix g assume "g \<in> set (queued (serializeQueue L1))"
    then have g: "g \<in> set (queued (serializeQueue L))" by (simp add: made(3))
    then have log: "groupLogged nameOf tableUri ov [] g L" and d: "groupFragments g \<inter> groupFragments (tableGroup L) = {}"
      and uri: "logUri g \<in> set (logUris L)" "logUri g \<noteq> logUri (tableGroup L)"
      using inv unfolding loggerInv_def queuedApart_def by blast+
    show "groupLogged nameOf tableUri ov [] g L1" using groupLogged_made [OF log, of L1] made(2) by (simp add: made(3))
    have "f \<notin> groupFragments g"
      using log made(2) by (auto simp: groupLogged_def groupFragments_def ran_def)
    then show "groupFragments g \<inter> groupFragments (tableGroup L1) = {}"
      using d made(1) by (simp add: made(3,4) groupFragments_def ran_map_upd)
    show "logUri g \<in> set (logUris L1)" "logUri g \<noteq> logUri (tableGroup L1)"
      using uri made(5) by (simp_all add: made(3))
  qed
  ultimately show ?thesis using inv made(4,5) by (simp add: loggerInv_def logUrisOk_def made(3) cong: option.case_cong)
qed

text \<open>Inserting the cells of one tablet.\<close>

lemma applyMutations_inv:
  assumes "applyMutations env nameOf tableUri ov t cs L = Inr L2"
    and inv: "loggerInv nameOf tableUri ov dataFile writerUri ((t, cs) # m) L"
  shows "loggerInv nameOf tableUri ov dataFile writerUri m L2"
proof -
  have u: "logUri (tableGroup L) \<noteq> []" using assms(1) by (auto simp: applyMutations_def)
  obtain L1 f where L1: "groupFragment env nameOf tableUri t L = Inr (L1, f)"
    using assms(1) u by (auto simp: applyMutations_def bind_res_eq_Inr)
  note * = groupFragment_inv [OF L1 inv u]
  then have inv1: "loggerInv nameOf tableUri ov dataFile writerUri ((t, cs) # m) L1"
    and f: "fragOf (tableGroup L1) (nameOf t) = Some f" by blast+
  have log1: "groupLogged nameOf tableUri ov ((t, cs) # m) (tableGroup L1) L1" and wf1: "groupWf nameOf (tableGroup L1)"
    using inv1 by (simp_all add: loggerInv_def)
  obtain tbl where tbl: "mapFind f (memTables L1) = Some (tableUri (logUri (tableGroup L1)) (nameOf t), tbl)"
    using log1 f unfolding groupLogged_def by blast
  let ?ts = "mapPut f (tableUri (logUri (tableGroup L1)) (nameOf t), fold (memInsert ov) cs tbl) (memTables L1)"
  obtain sz where L2: "L2 = L1\<lparr>memTables := ?ts, tableGroup := (tableGroup L1)\<lparr>groupSize := sz\<rparr>\<rparr>"
    using assms(1) u L1 tbl by (auto simp: applyMutations_def mapAt_def)
  have held: "heldTable (tableGroup L1) name L2 =
      (if name = nameOf t then fold (memInsert ov) cs (heldTable (tableGroup L1) name L1) else heldTable (tableGroup L1) name L1)" for name
    using f tbl wf1 by (auto simp: heldTable_def L2 groupWf_def mapAt_def split: option.split)
  have at2: "logAt u L2 = logAt u L1" for u by (simp add: L2)
  have "fold (memInsert ov) (cellsFor nameOf name m) (heldTable (tableGroup L1) name L2) =
      replayed ov (blockCells name (logAt (logUri (tableGroup L1)) L2))" for name
  proof -
    have "fold (memInsert ov) (cellsFor nameOf name ((t, cs) # m)) (heldTable (tableGroup L1) name L1) =
      replayed ov (blockCells name (logAt (logUri (tableGroup L1)) L1))"
      using log1 unfolding groupLogged_def by blast
    then show ?thesis by (cases "name = nameOf t") (simp_all add: held at2)
  qed
  moreover have "k < nextFragment L2 \<and> (\<exists>tbl. mapFind k (memTables L2) = Some (tableUri (logUri (tableGroup L1)) name, tbl))"
    if k: "fragOf (tableGroup L1) name = Some k" for name k
  proof -
    have "k = f \<Longrightarrow> name = nameOf t" using wf1 f k unfolding groupWf_def by blast
    then show ?thesis using log1 k unfolding groupLogged_def by (auto simp: L2)
  qed
  ultimately have logged: "groupLogged nameOf tableUri ov m (tableGroup L1) L2" unfolding groupLogged_def by blast
  have u1: "logUri (tableGroup L1) \<noteq> []" using wf1 f by (auto simp: groupWf_def)
  have sz: "groupLogged nameOf tableUri ov m' ((tableGroup L1)\<lparr>groupSize := sz\<rparr>) L' = groupLogged nameOf tableUri ov m' (tableGroup L1) L'"
    "groupWf nameOf ((tableGroup L1)\<lparr>groupSize := sz\<rparr>) = groupWf nameOf (tableGroup L1)" for m' L'
    using u1 by (simp_all add: groupLogged_def heldTable_def groupWf_def)
  have other: "groupLogged nameOf tableUri ov [] g L2"
    if g: "groupLogged nameOf tableUri ov [] g L1" "groupFragments g \<inter> groupFragments (tableGroup L1) = {}" for g
  proof -
    have ne: "k \<noteq> f" if "fragOf g name = Some k" for name k
      using g(2) f that by (auto simp: groupFragments_def ran_def)
    then have "heldTable g name L2 = heldTable g name L1" for name
      by (auto simp: heldTable_def L2 split: option.split)
    then show ?thesis using g(1) ne by (auto simp: groupLogged_def L2)
  qed
  have "queuedApart nameOf tableUri ov L2"
    using inv1 other by (auto simp: loggerInv_def queuedApart_def groupFragments_def L2)
  then show ?thesis
    using inv1 logged sz by (simp add: loggerInv_def logUrisOk_def L2 cong: option.case_cong)
qed

lemma replayToTables_inv:
  "replayToTables env nameOf tableUri ov m L = Inr L2 \<Longrightarrow> loggerInv nameOf tableUri ov dataFile writerUri m L \<Longrightarrow>
     loggerInv nameOf tableUri ov dataFile writerUri [] L2"
  by (induction env nameOf tableUri ov m L rule: replayToTables.induct)
    (auto simp: bind_res_eq_Inr dest: applyMutations_inv)

subsection \<open>Steps\<close>

lemma applyMutations_frame:
  assumes "applyMutations env nameOf tableUri ov t cs L = Inr L2"
  shows "logUri (tableGroup L2) = logUri (tableGroup L) \<and> logFiles L2 = logFiles L \<and> commitQueue L2 = commitQueue L \<and>
    commitBuffer L2 = commitBuffer L \<and> logWriter L2 = logWriter L"
proof -
  obtain L1 f where L1: "groupFragment env nameOf tableUri t L = Inr (L1, f)"
    using assms by (auto simp: applyMutations_def bind_res_eq_Inr split: if_splits)
  then have "logUri (tableGroup L1) = logUri (tableGroup L) \<and> logFiles L1 = logFiles L \<and> commitQueue L1 = commitQueue L \<and>
    commitBuffer L1 = commitBuffer L \<and> logWriter L1 = logWriter L"
    by (cases rule: groupFragment_cases) simp_all
  then show ?thesis using assms L1 by (auto simp: applyMutations_def split: if_splits prod.splits)
qed

lemma replay_frame:
  "replayToTables env nameOf tableUri ov m L = Inr L2 \<Longrightarrow>
     logUri (tableGroup L2) = logUri (tableGroup L) \<and> logFiles L2 = logFiles L \<and> commitQueue L2 = commitQueue L \<and>
     commitBuffer L2 = commitBuffer L \<and> logWriter L2 = logWriter L"
proof (induction env nameOf tableUri ov m L rule: replayToTables.induct)
  case (2 env nameOf tableUri ov tablet cs m L)
  then obtain L1 where "applyMutations env nameOf tableUri ov tablet cs L = Inr L1"
    "replayToTables env nameOf tableUri ov m L1 = Inr L2" by (auto simp: bind_res_eq_Inr)
  then show ?case using 2(1) applyMutations_frame by metis
qed simp

lemma loggerFlush_Inr:
  assumes "loggerFlush b L = Some (Inr L')"
  obtains "bufferEmpty b" "L' = L\<lparr>commitBuffer := Some b\<rparr>"
  | q where "queuePush True b (commitQueue L) = Some (q, True)" "L' = L\<lparr>commitQueue := q, commitBuffer := Some CommitBuffer0\<rparr>"
  using assms by (auto simp: loggerFlush_def split: if_splits option.splits prod.splits)

lemma serializeTables_server:
  "serializeTables env writer loader m L = Inr L' \<Longrightarrow> \<exists>s. L' = L\<lparr>server := s\<rparr>"
proof (induction env writer loader m L rule: serializeTables.induct)
  case (2 env writer loader name info m L)
  then obtain L1 where L1: "serializeTable env writer loader name info L = Inr L1"
    "serializeTables env writer loader m L1 = Inr L'" by (auto simp: bind_res_eq_Inr)
  obtain s where "L1 = L\<lparr>server := s\<rparr>" using L1(1) by (auto simp: serializeTable_def bind_res_eq_Inr)
  then show ?case using 2(1) [OF L1] by auto
next
  case (1 env writer loader L)
  then show ?case by (auto intro: exI [of _ "server L"])
qed

lemma serializeRound_Inr:
  assumes "serializeRound env writer loader logFileOf L = Some (Inr L')"
  obtains q s where "L' = L\<lparr>serializeQueue := q, server := s\<rparr>" "set (queued q) \<subseteq> set (queued (serializeQueue L))"
proof -
  obtain q r where pop: "queuePop True (serializeQueue L) = Some (q, r)"
    using assms by (auto simp: serializeRound_def split: option.splits)
  have sub: "set (queued q) \<subseteq> set (queued (serializeQueue L))"
    using pop by (auto simp: queuePop_def split: list.splits if_splits)
  show ?thesis
  proof (cases r)
    case None
    then have "L' = L\<lparr>serializeQueue := q\<rparr>" using assms pop by (simp add: serializeRound_def)
    then have "L' = L\<lparr>serializeQueue := q, server := server L\<rparr>" by simp
    then show ?thesis using that sub by blast
  next
    case (Some g)
    then obtain L1 where "serializeTables env writer loader (tableInfoMap g) (L\<lparr>serializeQueue := q\<rparr>) = Inr L1"
      "\<exists>s. L' = L1\<lparr>server := s\<rparr>"
      using assms pop by (auto simp: serializeRound_def serializeGroup_def bind_res_eq_Inr)
    then have "\<exists>s. L' = L\<lparr>serializeQueue := q, server := s\<rparr>"
      using serializeTables_server by fastforce
    then show ?thesis using that sub by blast
  qed
qed

lemma commitRound_Inr:
  assumes "commitRound env nameOf tableUri ov dataFile writerUri L = Some (Inr L')"
  obtains (none) "queued (commitQueue L) = []" "L' = L"
  | (round) b bs L1 L2 q where "queued (commitQueue L) = b # bs"
      "openLog dataFile writerUri (L\<lparr>commitQueue := (commitQueue L)\<lparr>queued := bs\<rparr>\<rparr>) = Inr L1"
      "replayToTables env nameOf tableUri ov (tableMap b) (writeLog nameOf (logUri (tableGroup L1)) (tableMap b) L1) = Inr L2"
      "L' = L2\<lparr>commitQueue := taskComplete (commitQueue L2)\<rparr> \<or>
       queuePush True (tableGroup L2) (serializeQueue L2) = Some (q, True) \<and>
       L' = L2\<lparr>serializeQueue := q, tableGroup := TableGroup0, logWriter := None,
               commitQueue := taskComplete (commitQueue L2)\<rparr>"
proof (cases "queued (commitQueue L)")
  case Nil
  then show ?thesis using assms none by (auto simp: commitRound_def queuePop_def split: if_splits)
next
  case (Cons b bs)
  let ?L = "L\<lparr>commitQueue := (commitQueue L)\<lparr>queued := bs\<rparr>\<rparr>"
  have c: "commitBufferOf env nameOf tableUri ov dataFile writerUri b ?L = Some (Inr L')"
    using assms Cons by (simp add: commitRound_def queuePop_def)
  obtain L2 where L2: "bind_res (openLog dataFile writerUri ?L) (\<lambda>L1.
      replayToTables env nameOf tableUri ov (tableMap b) (writeLog nameOf (logUri (tableGroup L1)) (tableMap b) L1)) = Inr L2"
    using c unfolding commitBufferOf_def by (cases "bind_res (openLog dataFile writerUri ?L) (\<lambda>L1.
      replayToTables env nameOf tableUri ov (tableMap b) (writeLog nameOf (logUri (tableGroup L1)) (tableMap b) L1))") simp_all
  then obtain L1 where "openLog dataFile writerUri ?L = Inr L1"
    "replayToTables env nameOf tableUri ov (tableMap b) (writeLog nameOf (logUri (tableGroup L1)) (tableMap b) L1) = Inr L2"
    by (auto simp: bind_res_eq_Inr)
  moreover have "\<exists>q. L' = L2\<lparr>commitQueue := taskComplete (commitQueue L2)\<rparr> \<or>
       queuePush True (tableGroup L2) (serializeQueue L2) = Some (q, True) \<and>
       L' = L2\<lparr>serializeQueue := q, tableGroup := TableGroup0, logWriter := None,
               commitQueue := taskComplete (commitQueue L2)\<rparr>"
    using c unfolding commitBufferOf_def L2 by (auto split: if_splits option.splits prod.splits)
  ultimately show ?thesis using Cons round by blast
qed

lemma loggerInv_frame [simp]:
  "loggerInv nameOf tableUri ov df wu m (L\<lparr>server := s\<rparr>) = loggerInv nameOf tableUri ov df wu m L"
  "loggerInv nameOf tableUri ov df wu m (L\<lparr>commitQueue := q\<rparr>) = loggerInv nameOf tableUri ov df wu m L"
  "loggerInv nameOf tableUri ov df wu m (L\<lparr>commitBuffer := b\<rparr>) = loggerInv nameOf tableUri ov df wu m L"
  by (simp_all add: loggerInv_defs cong: option.case_cong)

lemma loggerInv_queue [simp]:
  "queued q = queued (serializeQueue L) \<Longrightarrow>
     loggerInv nameOf tableUri ov df wu m (L\<lparr>serializeQueue := q\<rparr>) = loggerInv nameOf tableUri ov df wu m L"
  by (simp add: loggerInv_defs cong: option.case_cong)

lemma cancelWaits_queued [simp]: "queued (cancelWaits q) = queued q"
  by (simp add: cancelWaits_def)

lemma queuedApart_less:
  "queuedApart nameOf tableUri ov L \<Longrightarrow> set (queued q) \<subseteq> set (queued (serializeQueue L)) \<Longrightarrow>
     queuedApart nameOf tableUri ov (L\<lparr>serializeQueue := q, server := s\<rparr>)"
  by (auto simp: queuedApart_def)

lemma loggerInv_new_group:
  assumes inv: "loggerInv nameOf tableUri ov df wu [] L" and w: "logUri (tableGroup L) \<noteq> []"
    and q: "set (queued q) \<subseteq> insert (tableGroup L) (set (queued (serializeQueue L)))"
  shows "loggerInv nameOf tableUri ov df wu [] (L\<lparr>serializeQueue := q, tableGroup := TableGroup0, logWriter := None\<rparr>)"
proof -
  have ne: "[] \<notin> set (logUris L)" using inv unfolding loggerInv_defs urisGiven_def by blast
  have "logUri (tableGroup L) \<in> set (logUris L)"
    using inv w by (auto simp: loggerInv_defs split: option.splits)
  then have "logUri g \<in> set (logUris L) \<and> logUri g \<noteq> [] \<and> groupLogged nameOf tableUri ov [] g L" if "g \<in> set (queued q)" for g
    using q inv ne that unfolding loggerInv_def queuedApart_def by (metis insertE subsetD)
  then show ?thesis
    using inv ne empty_group_logged [OF ne] unfolding loggerInv_def logUrisOk_def queuedApart_def
    by (auto cong: option.case_cong)
qed

lemma loggerStep_inv:
  assumes "loggerStep env nameOf tableUri ov df wu L xs L'" and inv: "loggerInv nameOf tableUri ov df wu [] L"
    and inj: "inj (wu \<circ> df)"
  shows "loggerInv nameOf tableUri ov df wu [] L'"
  using assms(1)
proof (cases rule: loggerStep.cases)
  case (insert c t)
  then show ?thesis using inv
    by (auto simp: loggerInsert_def Let_def elim!: loggerFlush_Inr split: option.splits if_splits)
next
  case flush
  then show ?thesis using inv by (auto simp: syncFlush_def elim!: loggerFlush_Inr split: option.splits)
next
  case shutdown
  then show ?thesis using inv shutdown
    by (auto simp: shutdownBegin_def bind_res_eq_Inr elim!: loggerFlush_Inr split: option.splits)
next
  case shutdown_done
  have "loggerInv nameOf tableUri ov df wu [] (L\<lparr>commitBuffer := None, logWriter := None, tableGroup := TableGroup0\<rparr>)"
    using inv empty_group_logged unfolding loggerInv_def logUrisOk_def queuedApart_def urisGiven_def
    by (auto cong: option.case_cong)
  then show ?thesis using shutdown_done by (simp add: shutdownEnd_def)
next
  case commit
  from commit(2) show ?thesis
  proof (cases rule: commitRound_Inr)
    case none
    then show ?thesis using inv by simp
  next
    case (round b bs L1 L2 q)
    have "loggerInv nameOf tableUri ov df wu [] (L\<lparr>commitQueue := (commitQueue L)\<lparr>queued := bs\<rparr>\<rparr>)" using inv by simp
    note o = openLog_Inr [OF round(2) this inj]
    note w = writeLog_inv [OF o(1,2), of "tableMap b"]
    have inv2: "loggerInv nameOf tableUri ov df wu [] L2" by (rule replayToTables_inv [OF round(3) w])
    show ?thesis
    proof (cases "L' = L2\<lparr>commitQueue := taskComplete (commitQueue L2)\<rparr>")
      case True
      then show ?thesis using inv2 by simp
    next
      case False
      then have push: "queuePush True (tableGroup L2) (serializeQueue L2) = Some (q, True)"
        and L': "L' = L2\<lparr>serializeQueue := q, tableGroup := TableGroup0, logWriter := None,
               commitQueue := taskComplete (commitQueue L2)\<rparr>" using round(4) by blast+
      have q: "set (queued q) \<subseteq> insert (tableGroup L2) (set (queued (serializeQueue L2)))"
        using push by (auto simp: queuePush_def split: if_splits)
      have "logUri (tableGroup L2) \<noteq> []"
        using replay_frame [OF round(3)] o(1,2) by (auto simp: loggerInv_defs urisGiven_def)
      from loggerInv_new_group [OF inv2 this q] show ?thesis by (simp add: L')
    qed
  qed
next
  case (serialize writer loader logFileOf)
  from serialize(2) show ?thesis
  proof (cases rule: serializeRound_Inr)
    case (1 q s)
    then show ?thesis using inv queuedApart_less [OF _ 1(2)]
      by (simp add: loggerInv_def logUrisOk_def cong: option.case_cong)
  qed
next
  case (other s)
  then show ?thesis using inv by simp
qed

lemma loggerRun_inv:
  "loggerRun env nameOf tableUri ov df wu base s h L \<Longrightarrow> inj (wu \<circ> df) \<Longrightarrow> loggerInv nameOf tableUri ov df wu [] L"
proof (induction rule: loggerRun.induct)
  case start
  have "[] \<notin> set (logUris (Logger0 base s))" by (simp add: Logger0_def logUris_def)
  from empty_group_logged [OF this] show ?case
    by (simp add: loggerInv_defs urisGiven_def Logger0_def logUris_def SyncQueue0_def)
next
  case (step h L xs L')
  then show ?case using loggerStep_inv by blast
qed

end
