(* ===== verification/LogHistory.thy ===== *)
theory LogHistory
  imports LogRun
begin

section \<open>Loading logs (src/cc/kdi/tablet/CachedLogLoader.cc)\<close>

text \<open>
  The URI of a log fragment names a log and a table: \<open>logOf\<close> and \<open>tableOf\<close> take them out of it.
  A log that cannot be opened is taken as an empty one. The map from log URIs to the URIs of
  their disk tables is threaded through the calls; an empty URI stands for no disk table.
\<close>

definition serializeLog ::
  "(string \<Rightarrow> string) \<Rightarrow> (string \<Rightarrow> string) \<Rightarrow> (string \<Rightarrow> Cell list \<Rightarrow> string result) \<Rightarrow> (string \<times> LogFile) list \<Rightarrow> string \<Rightarrow>
     string result" where
  "serializeLog logOf tableOf writer lfs uri =
     (let name = tableOf uri
      in writer name (recoverCells name (case map_of lfs (logOf uri) of None \<Rightarrow> [] | Some es \<Rightarrow> es)))"

definition getLogDiskUri ::
  "(string \<Rightarrow> string) \<Rightarrow> (string \<Rightarrow> string) \<Rightarrow> (string \<Rightarrow> Cell list \<Rightarrow> string result) \<Rightarrow> (string \<times> LogFile) list \<Rightarrow> string \<Rightarrow>
     (string, string) omap \<Rightarrow> ((string, string) omap \<times> string) result" where
  "getLogDiskUri logOf tableOf writer lfs uri m =
     (let d = mapAt [] uri m
      in if d = [] then bind_res (serializeLog logOf tableOf writer lfs uri) (\<lambda>d'. Inr (mapPut uri d' m, d'))
         else Inr (m, d))"

definition cachedLogLoad ::
  "(string \<Rightarrow> string) \<Rightarrow> (string \<Rightarrow> string) \<Rightarrow> (string \<Rightarrow> string) \<Rightarrow> (string \<Rightarrow> Cell list \<Rightarrow> string result) \<Rightarrow> (string \<Rightarrow> nat result) \<Rightarrow>
     (string \<times> LogFile) list \<Rightarrow> string \<Rightarrow> (string, string) omap \<Rightarrow> ((string, string) omap \<times> nat) result" where
  "cachedLogLoad topScheme logOf tableOf writer loader lfs uri m =
     (if topScheme uri \<noteq> ''sharedlog'' then Inl (ValueError ''invalid URI for CachedLogLoader'')
      else bind_res (getLogDiskUri logOf tableOf writer lfs uri m) (\<lambda>(m', d).
           bind_res (loader d) (\<lambda>f. Inr (m', f))))"

subsection \<open>The cells in flight\<close>

lemma set_put: "set (mapPut k v m) \<subseteq> insert (k, v) (set m)"
  by (induction k v m rule: mapPut.induct) auto

lemma set_at: "x \<in> set (mapAt [] k m) \<Longrightarrow> \<exists>xs. (k, xs) \<in> set m \<and> x \<in> set xs"
  by (cases "map_of m k") (auto simp: mapAt_def mapFind_def dest: map_of_SomeD)

text \<open>A predicate of a tablet and a cell that holds of everything that is buffered or logged.\<close>

definition bufferAll :: "(nat \<Rightarrow> Cell \<Rightarrow> bool) \<Rightarrow> CommitBuffer \<Rightarrow> bool" where
  "bufferAll P b \<longleftrightarrow> omap_wf (tableMap b) \<and> (\<forall>(t, cs)\<in>set (tableMap b). \<forall>c\<in>set cs. P t c)"

lemma bufferAll_0 [simp]: "bufferAll P CommitBuffer0"
  by (simp add: bufferAll_def CommitBuffer0_def omap_wf_def)

lemma bufferAll_append: "bufferAll P b \<Longrightarrow> P t c \<Longrightarrow> bufferAll P (bufferAppend t c b)"
  using set_put [of t "mapAt [] t (tableMap b) @ [c]" "tableMap b"] set_at [of _ t "tableMap b"]
  unfolding bufferAll_def bufferAppend_def by (fastforce simp: Ball_def)

definition inFlight :: "Logger \<Rightarrow> CommitBuffer list" where
  "inFlight L = queued (commitQueue L) @ (case commitBuffer L of None \<Rightarrow> [] | Some b \<Rightarrow> [b])"

lemma taskComplete_queued [simp]: "queued (taskComplete q) = queued q"
  by (simp add: taskComplete_def)

lemma loggerFlush_flight:
  assumes "loggerFlush b L = Some (Inr L')"
  shows "logFiles L' = logFiles L" "logWriter L' = logWriter L" "serializeQueue L' = serializeQueue L"
    "tableGroup L' = tableGroup L"
    "inFlight L' = queued (commitQueue L) @ [b] \<or> inFlight L' = queued (commitQueue L) @ [b, CommitBuffer0]"
  using assms by (auto elim!: loggerFlush_Inr simp: inFlight_def queuePush_def split: if_splits)

text \<open>
  Each step but a commit leaves the logs alone; the buffers in flight gain what is inserted and
  perhaps an empty buffer.
\<close>

lemma loggerStep_flight:
  assumes "loggerStep env nameOf tableUri ov df wu L xs L'"
  shows "(\<exists>b bs t c b'. inFlight L = bs @ [b] \<and> xs = [(t, c)] \<and> cellOk c \<and> b' = bufferAppend t c b \<and>
           logFiles L' = logFiles L \<and> logWriter L' = logWriter L \<and>
           (inFlight L' = bs @ [b'] \<or> inFlight L' = bs @ [b', CommitBuffer0])) \<or>
    (xs = [] \<and> logFiles L' = logFiles L \<and> (logWriter L' = logWriter L \<or> logWriter L' = None) \<and>
      (\<exists>e e'. inFlight L @ e = inFlight L' @ e' \<and> (\<forall>b\<in>set (e @ e'). tableMap b = []))) \<or>
    (xs = [] \<and> commitRound env nameOf tableUri ov df wu L = Some (Inr L'))"
  using assms
proof (cases rule: loggerStep.cases)
  case (insert c t)
  from insert(3) obtain b where b: "commitBuffer L = Some b" by (auto simp: loggerInsert_def split: option.splits)
  have fl: "inFlight L = queued (commitQueue L) @ [b]" by (simp add: inFlight_def b)
  show ?thesis
  proof (cases "bufferFull (bufferAppend t c b)")
    case True
    then have "loggerFlush (bufferAppend t c b) L = Some (Inr L')" using insert b by (simp add: loggerInsert_def Let_def)
    from loggerFlush_flight [OF this] show ?thesis using fl insert by blast
  next
    case False
    then have "L' = L\<lparr>commitBuffer := Some (bufferAppend t c b)\<rparr>" using insert b by (simp add: loggerInsert_def Let_def)
    then have "logFiles L' = logFiles L \<and> logWriter L' = logWriter L \<and> inFlight L' = queued (commitQueue L) @ [bufferAppend t c b]"
      by (simp add: inFlight_def)
    then show ?thesis using fl insert by blast
  qed
next
  case flush
  then obtain b where b: "commitBuffer L = Some b" "loggerFlush b L = Some (Inr L')" by (auto simp: syncFlush_def split: option.splits)
  then have "inFlight L = queued (commitQueue L) @ [b]" by (simp add: inFlight_def)
  then have "inFlight L @ [] = inFlight L' @ [] \<or> inFlight L @ [CommitBuffer0] = inFlight L' @ []"
    using loggerFlush_flight(5) [OF b(2)] by auto
  then have "\<exists>e e'. inFlight L @ e = inFlight L' @ e' \<and> (\<forall>b\<in>set (e @ e'). tableMap b = [])"
    by (elim disjE) (rule exI, rule exI, erule conjI, simp add: CommitBuffer0_def)+
  then show ?thesis using flush loggerFlush_flight(1,2) [OF b(2)] by blast
next
  case shutdown
  show ?thesis
  proof (cases "commitBuffer L")
    case None
    then have "L' = L" using shutdown by (simp add: shutdownBegin_def)
    then show ?thesis using shutdown by (auto intro: exI [of _ "[]"])
  next
    case (Some b)
    then obtain L1 where b: "loggerFlush b L = Some (Inr L1)"
      "L' = L1\<lparr>commitQueue := cancelWaits (commitQueue L1), serializeQueue := cancelWaits (serializeQueue L1)\<rparr>"
      using shutdown by (auto simp: shutdownBegin_def bind_res_eq_Inr split: option.splits)
    have "inFlight L = queued (commitQueue L) @ [b]" "inFlight L' = inFlight L1" using Some b(2) by (simp_all add: inFlight_def)
    then have "inFlight L @ [] = inFlight L' @ [] \<or> inFlight L @ [CommitBuffer0] = inFlight L' @ []"
      using loggerFlush_flight(5) [OF b(1)] by auto
    then have "\<exists>e e'. inFlight L @ e = inFlight L' @ e' \<and> (\<forall>b\<in>set (e @ e'). tableMap b = [])"
      by (elim disjE) (rule exI, rule exI, erule conjI, simp add: CommitBuffer0_def)+
    moreover have "logFiles L' = logFiles L" "logWriter L' = logWriter L"
      using loggerFlush_flight(1,2) [OF b(1)] b(2) by simp_all
    ultimately show ?thesis using shutdown by blast
  qed
next
  case shutdown_done
  have "inFlight L @ [] = inFlight L' @ (case commitBuffer L of None \<Rightarrow> [] | Some b \<Rightarrow> [b])"
    using shutdown_done by (simp add: inFlight_def shutdownEnd_def)
  moreover have "\<forall>b\<in>set ([] @ (case commitBuffer L of None \<Rightarrow> [] | Some b \<Rightarrow> [b])). tableMap b = []"
    using shutdown_done by (simp add: bufferEmpty_def split: option.splits)
  moreover have "logFiles L' = logFiles L" "logWriter L' = None" using shutdown_done by (simp_all add: shutdownEnd_def)
  ultimately show ?thesis using shutdown_done by blast
next
  case commit
  then show ?thesis by simp
next
  case (serialize writer loader logFileOf)
  from serialize(2) show ?thesis
  proof (cases rule: serializeRound_Inr)
    case (1 q s)
    then have "inFlight L @ [] = inFlight L' @ []" "logFiles L' = logFiles L" "logWriter L' = logWriter L" by (simp_all add: inFlight_def)
    then show ?thesis using serialize by (metis append_Nil2 empty_iff list.set(1))
  qed
next
  case (other s)
  then have "inFlight L @ [] = inFlight L' @ []" "logFiles L' = logFiles L" "logWriter L' = logWriter L" by (simp_all add: inFlight_def)
  then show ?thesis using other by (metis append_Nil2 empty_iff list.set(1))
qed

subsection \<open>What happens to a mutation\<close>

text \<open>What a committed buffer adds to the logs: its cells, in the order of its map, at the end of the last log.\<close>

definition loggedCells :: "string \<Rightarrow> Logger \<Rightarrow> CellData list" where
  "loggedCells name L = concat (map (\<lambda>(u, es). blockCells name es) (logFiles L))"

definition lastLog :: "Logger \<Rightarrow> bool" where
  "lastLog L \<longleftrightarrow> (case logWriter L of None \<Rightarrow> True | Some u \<Rightarrow> \<exists>fs es. logFiles L = fs @ [(u, es)] \<and> u \<notin> set (map fst fs))"

lemma writeLog_last:
  "logFiles L = fs @ [(u, es)] \<Longrightarrow> u \<notin> set (map fst fs) \<Longrightarrow>
     \<exists>es'. logFiles (writeLog nameOf u m L) = fs @ [(u, es')] \<and>
       (\<forall>name. blockCells name es' = blockCells name es @ map appendCellData (cellsFor nameOf name m))"
proof (induction nameOf u m L arbitrary: es rule: writeLog.induct)
  case (2 nameOf u tablet cs m L)
  have "map (\<lambda>(v, es). (v, if v = u then f es else es)) fs = fs" for f
    using 2(3) by (intro map_idI) (auto simp: image_iff)
  then have "logFiles (logCells u (nameOf tablet) cs L) = fs @ [(u, es @ [(nameOf tablet, map appendCellData cs)])]"
    using 2(2) by (simp add: logCells_def)
  from 2(1) [OF this 2(3)] show ?case by (auto simp: fun_eq_iff)
qed simp

lemma commit_flight:
  assumes c: "commitRound env nameOf tableUri ov df wu L = Some (Inr L')"
    and inv: "loggerInv nameOf tableUri ov df wu [] L" and inj: "inj (wu \<circ> df)" and last: "lastLog L"
  shows "L' = L \<or> (\<exists>b. inFlight L = b # inFlight L' \<and> lastLog L' \<and>
    (\<forall>name. loggedCells name L' = loggedCells name L @ map appendCellData (cellsFor nameOf name (tableMap b))))"
  using c
proof (cases rule: commitRound_Inr)
  case (round b bs L1 L2 q)
  let ?L = "L\<lparr>commitQueue := (commitQueue L)\<lparr>queued := bs\<rparr>\<rparr>"
  have "loggerInv nameOf tableUri ov df wu [] ?L" using inv by simp
  note o = openLog_Inr [OF round(2) this inj]
  have "\<exists>u fs es. logUri (tableGroup L1) = u \<and> logFiles L1 = fs @ [(u, es)] \<and> u \<notin> set (map fst fs) \<and>
      (\<forall>name. loggedCells name L1 = loggedCells name L)"
  proof (cases "logWriter L")
    case (Some w)
    then have "L1 = ?L" using round(2) by (simp add: openLog_def)
    moreover have "logUri (tableGroup L) = w" using inv Some by (simp add: loggerInv_def logUrisOk_def)
    ultimately show ?thesis using last Some by (simp add: lastLog_def loggedCells_def)
  next
    case None
    let ?u = "wu (df (length (logFiles L)))"
    have L1: "logFiles L1 = logFiles L @ [(?u, [])]" "logUri (tableGroup L1) = ?u"
      using round(2) None by (auto simp: openLog_def bind_res_eq_Inr Let_def setLogUri_def split: if_splits)
    have "?u \<notin> set (map fst (logFiles L))"
      using inv new_uri [OF _ inj, of L] by (simp add: loggerInv_def logUrisOk_def logUris_def)
    then show ?thesis using L1 by (simp add: loggedCells_def)
  qed
  then obtain u fs es where u: "logUri (tableGroup L1) = u" "logFiles L1 = fs @ [(u, es)]" "u \<notin> set (map fst fs)"
    and log1: "\<And>name. loggedCells name L1 = loggedCells name L" by blast
  obtain es' where es': "logFiles (writeLog nameOf u (tableMap b) L1) = fs @ [(u, es')]"
    "\<And>name. blockCells name es' = blockCells name es @ map appendCellData (cellsFor nameOf name (tableMap b))"
    using writeLog_last [OF u(2,3)] by blast
  note r = replay_frame [OF round(3), unfolded u(1)]
  have L': "logFiles L' = fs @ [(u, es')]" "logWriter L' = logWriter L2 \<or> logWriter L' = None"
    "queued (commitQueue L') = bs" "commitBuffer L' = commitBuffer L"
    using round(4) r es'(1) o(3,5) by auto
  have "loggedCells name L' = loggedCells name L @ map appendCellData (cellsFor nameOf name (tableMap b))" for name
    using log1 [of name] es'(2) by (simp add: loggedCells_def L'(1) u(2))
  moreover have "lastLog L'"
  proof -
    have "logWriter L1 = Some u"
    proof -
      have "logWriter L1 \<noteq> None"
        using round(2) by (auto simp: openLog_def bind_res_eq_Inr Let_def split: option.splits)
      then show ?thesis using o(1) u(1) by (auto simp: loggerInv_def logUrisOk_def)
    qed
    then have "logWriter L2 = Some u" using r by simp
    then show ?thesis using L'(1,2) u(3) by (auto simp: lastLog_def)
  qed
  moreover have "inFlight L = b # inFlight L'" using round(1) L'(3,4) by (simp add: inFlight_def)
  ultimately show ?thesis by blast
qed simp

text \<open>What is buffered and logged are cells that could be stored.\<close>

lemma bufferAll_empty: "tableMap b = [] \<Longrightarrow> bufferAll P b"
  by (simp add: bufferAll_def omap_wf_def)

lemma cellsFor_all: "bufferAll P b \<Longrightarrow> c \<in> set (cellsFor nameOf name (tableMap b)) \<Longrightarrow> \<exists>t. nameOf t = name \<and> P t c"
  unfolding bufferAll_def cellsFor_def by fastforce

lemma log_cong:
  "logFiles L' = logFiles L \<Longrightarrow> loggedCells name L' = loggedCells name L"
  "logFiles L' = logFiles L \<Longrightarrow> logWriter L' = logWriter L \<or> logWriter L' = None \<Longrightarrow> lastLog L \<Longrightarrow> lastLog L'"
  by (auto simp: loggedCells_def lastLog_def cong: option.case_cong)

lemma loggerRun_all:
  assumes "loggerRun env nameOf tableUri ov df wu base s h L" "inj (wu \<circ> df)" "\<forall>(t, c)\<in>set h. P t c"
  shows "lastLog L \<and> (\<forall>b\<in>set (inFlight L). bufferAll (\<lambda>t c. P t c \<and> cellOk c) b) \<and>
    (\<forall>name. list_all cellOk (map readCellData (loggedCells name L)))"
  using assms
proof (induction rule: loggerRun.induct)
  case start
  show ?case by (simp add: lastLog_def inFlight_def Logger0_def loggedCells_def SyncQueue0_def)
next
  case (step h L xs L')
  then have IH: "lastLog L" "\<forall>b\<in>set (inFlight L). bufferAll (\<lambda>t c. P t c \<and> cellOk c) b"
    "\<And>name. list_all cellOk (map readCellData (loggedCells name L))" by auto
  note inv = loggerRun_inv [OF step(1) assms(2)]
  from loggerStep_flight [OF step(2)] consider
    (insert) b bs t c where "inFlight L = bs @ [b]" "xs = [(t, c)]" "cellOk c" "logFiles L' = logFiles L" "logWriter L' = logWriter L"
      "inFlight L' = bs @ [bufferAppend t c b] \<or> inFlight L' = bs @ [bufferAppend t c b, CommitBuffer0]"
  | (same) e e' where "logFiles L' = logFiles L" "logWriter L' = logWriter L \<or> logWriter L' = None"
      "inFlight L @ e = inFlight L' @ e'" "\<forall>b\<in>set (e @ e'). tableMap b = []"
  | (commit) "commitRound env nameOf tableUri ov df wu L = Some (Inr L')" by blast
  then show ?case
  proof cases
    case insert
    then have "bufferAll (\<lambda>t c. P t c \<and> cellOk c) (bufferAppend t c b)"
      using IH(2) step.prems(2) by (intro bufferAll_append) auto
    then show ?thesis using insert IH log_cong [OF insert(4)] by auto
  next
    case same
    have "bufferAll (\<lambda>t c. P t c \<and> cellOk c) b" if "b \<in> set (inFlight L')" for b
    proof -
      have "b \<in> set (inFlight L @ e)" using that same(3) by simp
      then show ?thesis using IH(2) same(4) bufferAll_empty by auto
    qed
    then show ?thesis using IH log_cong [OF same(1)] same(2) by auto
  next
    case commit
    from commit_flight [OF commit inv assms(2) IH(1)] show ?thesis
    proof (elim disjE exE conjE)
      fix b assume b: "inFlight L = b # inFlight L'" "lastLog L'"
        "\<forall>name. loggedCells name L' = loggedCells name L @ map appendCellData (cellsFor nameOf name (tableMap b))"
      have "cellOk c" if "c \<in> set (cellsFor nameOf name (tableMap b))" for name c
        using cellsFor_all [OF _ that, of "\<lambda>t c. P t c \<and> cellOk c"] IH(2) b(1) by auto
      then show ?thesis using IH b by (auto simp: list_all_iff)
    qed (use IH in auto)
  qed
qed

subsection \<open>Order\<close>

text \<open>Each row of a table belongs to one tablet: \<open>route\<close>.\<close>

definition rowCells :: "(nat \<Rightarrow> string) \<Rightarrow> string \<Rightarrow> string \<Rightarrow> CommitBuffer \<Rightarrow> Cell list" where
  "rowCells nameOf name r b = filter (\<lambda>c. getRow c = r) (cellsFor nameOf name (tableMap b))"

abbreviation routed :: "(nat \<Rightarrow> string) \<Rightarrow> (string \<Rightarrow> string \<Rightarrow> nat) \<Rightarrow> nat \<Rightarrow> Cell \<Rightarrow> bool" where
  "routed nameOf route t c \<equiv> route (nameOf t) (getRow c) = t \<and> cellOk c"

lemma rowCells_route:
  assumes "bufferAll (routed nameOf route) b"
  shows "rowCells nameOf name r b =
    (if nameOf (route name r) = name then filter (\<lambda>c. getRow c = r) (mapAt [] (route name r) (tableMap b)) else [])"
proof -
  have "filter (\<lambda>c. getRow c = r) (cellsFor nameOf name m) =
      (if nameOf (route name r) = name then filter (\<lambda>c. getRow c = r) (mapAt [] (route name r) m) else [])"
    if "omap_wf m" "\<forall>(t, cs)\<in>set m. \<forall>c\<in>set cs. routed nameOf route t c" for m
    using that
  proof (induction m)
    case (Cons e m)
    obtain t cs where e: "e = (t, cs)" by fastforce
    have IH: "filter (\<lambda>c. getRow c = r) (cellsFor nameOf name m) =
      (if nameOf (route name r) = name then filter (\<lambda>c. getRow c = r) (mapAt [] (route name r) m) else [])"
      using Cons by (simp add: omap_wf_def)
    have fresh: "mapFind t m = None" using Cons.prems(1) by (auto simp: e omap_wf_def find_None)
    have "filter (\<lambda>c. getRow c = r) cs = []" if "nameOf t = name" "route name r \<noteq> t"
      using Cons.prems(2) that by (auto simp: e filter_empty_conv)
    then show ?case
      using IH fresh by (auto simp: e mapAt_def mapFind_def)
  qed (simp add: mapAt_def)
  then show ?thesis using assms by (simp add: rowCells_def bufferAll_def)
qed

lemma rowCells_append:
  assumes "bufferAll (routed nameOf route) b" "routed nameOf route t c"
  shows "rowCells nameOf name r (bufferAppend t c b) =
    rowCells nameOf name r b @ (if nameOf t = name \<and> getRow c = r then [c] else [])"
  unfolding rowCells_route [OF bufferAll_append [OF assms]] rowCells_route [OF assms(1)]
  using assms(2) by (auto simp: bufferAppend_def)

lemma rowCells_empty: "tableMap b = [] \<Longrightarrow> rowCells nameOf name r b = []"
  by (simp add: rowCells_def)

definition flightCells :: "(nat \<Rightarrow> string) \<Rightarrow> string \<Rightarrow> string \<Rightarrow> Logger \<Rightarrow> Cell list" where
  "flightCells nameOf name r L = concat (map (rowCells nameOf name r) (inFlight L))"

lemma logger_history:
  assumes "loggerRun env nameOf tableUri ov df wu base s h L" "inj (wu \<circ> df)"
    and "\<forall>(t, c)\<in>set h. route (nameOf t) (getRow c) = t"
  shows "filter (\<lambda>d. cd_row d = r) (loggedCells name L) @ map appendCellData (flightCells nameOf name r L) =
    map appendCellData (map snd (filter (\<lambda>(t, c). nameOf t = name \<and> getRow c = r) h))"
  using assms
proof (induction rule: loggerRun.induct)
  case start
  show ?case by (simp add: loggedCells_def flightCells_def inFlight_def Logger0_def SyncQueue0_def rowCells_def CommitBuffer0_def)
next
  case (step h L xs L')
  then have IH: "filter (\<lambda>d. cd_row d = r) (loggedCells name L) @ map appendCellData (flightCells nameOf name r L) =
    map appendCellData (map snd (filter (\<lambda>(t, c). nameOf t = name \<and> getRow c = r) h))" by simp
  have h: "\<forall>(t, c)\<in>set h. route (nameOf t) (getRow c) = t" using step.prems by simp
  note inv = loggerRun_inv [OF step(1) assms(2)]
  note all = loggerRun_all [OF step(1) assms(2) h]
  from loggerStep_flight [OF step(2)] consider
    (insert) b bs t c where "inFlight L = bs @ [b]" "xs = [(t, c)]" "cellOk c" "logFiles L' = logFiles L"
      "inFlight L' = bs @ [bufferAppend t c b] \<or> inFlight L' = bs @ [bufferAppend t c b, CommitBuffer0]"
  | (same) e e' where "xs = []" "logFiles L' = logFiles L"
      "inFlight L @ e = inFlight L' @ e'" "\<forall>b\<in>set (e @ e'). tableMap b = []"
  | (commit) "xs = []" "commitRound env nameOf tableUri ov df wu L = Some (Inr L')" by blast
  then show ?case
  proof cases
    case insert
    have "bufferAll (routed nameOf route) b" "routed nameOf route t c"
      using all insert step.prems(2) by auto
    from rowCells_append [OF this, of name r]
    have "flightCells nameOf name r L' = flightCells nameOf name r L @ (if nameOf t = name \<and> getRow c = r then [c] else [])"
      using insert(1,5) by (auto simp: flightCells_def rowCells_empty CommitBuffer0_def)
    moreover have "loggedCells name L' = loggedCells name L" using insert(4) by (simp add: loggedCells_def)
    ultimately show ?thesis using IH insert(2) by (simp flip: append_assoc)
  next
    case same
    have none: "concat (map (rowCells nameOf name r) x) = []" if "\<forall>b\<in>set x. tableMap b = []" for x
      using that by (simp add: rowCells_empty)
    have "concat (map (rowCells nameOf name r) (inFlight L @ e)) = concat (map (rowCells nameOf name r) (inFlight L' @ e'))"
      unfolding same(3) ..
    then have "flightCells nameOf name r L' = flightCells nameOf name r L"
      using none [of e] none [of e'] same(4) by (simp add: flightCells_def)
    moreover have "loggedCells name L' = loggedCells name L" using same(2) by (simp add: loggedCells_def)
    ultimately show ?thesis using IH same(1) by simp
  next
    case commit
    from commit_flight [OF commit(2) inv assms(2)] all
    have "L' = L \<or> (\<exists>b. inFlight L = b # inFlight L' \<and>
      loggedCells name L' = loggedCells name L @ map appendCellData (cellsFor nameOf name (tableMap b)))" by blast
    then show ?thesis
    proof (elim disjE exE conjE)
      fix b assume b: "inFlight L = b # inFlight L'"
        "loggedCells name L' = loggedCells name L @ map appendCellData (cellsFor nameOf name (tableMap b))"
      have "filter (\<lambda>d. cd_row d = r) (map appendCellData cs) = map appendCellData (filter (\<lambda>c. getRow c = r) cs)" for cs
        by (induction cs) (simp_all add: appendCellData_def)
      then show ?thesis using IH b commit(1) by (simp add: flightCells_def rowCells_def)
    qed (use IH commit(1) in simp)
  qed
qed

subsection \<open>Acknowledgement\<close>

text \<open>A task is pending as long as its buffer is in the queue.\<close>

lemma loggerRun_pending:
  assumes "loggerRun env nameOf tableUri ov df wu base s h L" "inj (wu \<circ> df)"
  shows "nTasksPending (commitQueue L) = length (queued (commitQueue L))"
  using assms
proof (induction rule: loggerRun.induct)
  case start
  show ?case by (simp add: Logger0_def SyncQueue0_def)
next
  case (step h L xs L')
  then have IH: "nTasksPending (commitQueue L) = length (queued (commitQueue L))" by simp
  have flush: "nTasksPending (commitQueue L1) = length (queued (commitQueue L1))" if "loggerFlush b L = Some (Inr L1)" for b L1
    using that IH by (auto elim!: loggerFlush_Inr simp: queuePush_def split: if_splits)
  from step(2) show ?case
  proof (cases rule: loggerStep.cases)
    case (insert c t)
    then show ?thesis using flush IH by (auto simp: loggerInsert_def Let_def split: option.splits if_splits)
  next
    case flush
    then show ?thesis using \<open>\<And>L1 b. loggerFlush b L = Some (Inr L1) \<Longrightarrow> _\<close> by (auto simp: syncFlush_def split: option.splits)
  next
    case shutdown
    then show ?thesis using flush IH
      by (auto simp: shutdownBegin_def bind_res_eq_Inr cancelWaits_def split: option.splits)
  next
    case shutdown_done
    then show ?thesis using IH by (simp add: shutdownEnd_def)
  next
    case commit
    from commit(2) show ?thesis
    proof (cases rule: commitRound_Inr)
      case (round b bs L1 L2 q)
      have inv: "loggerInv nameOf tableUri ov df wu [] (L\<lparr>commitQueue := (commitQueue L)\<lparr>queued := bs\<rparr>\<rparr>)"
        using loggerRun_inv [OF step(1) assms(2)] by simp
      have "commitQueue L2 = (commitQueue L)\<lparr>queued := bs\<rparr>"
        using replay_frame [OF round(3)] openLog_Inr(3) [OF round(2) inv assms(2)] by simp
      then show ?thesis using round(1,4) IH by (auto simp: taskComplete_def)
    qed (use IH in simp)
  next
    case (serialize writer loader logFileOf)
    from serialize(2) show ?thesis by (cases rule: serializeRound_Inr) (use IH in simp)
  next
    case (other s)
    then show ?thesis using IH by simp
  qed
qed

text \<open>What happens after a point of a run: the steps from a state on, with the mutations that they make.\<close>

inductive loggerSteps ::
  "Fragments \<Rightarrow> (nat \<Rightarrow> string) \<Rightarrow> (string \<Rightarrow> string \<Rightarrow> string) \<Rightarrow> 64 word \<Rightarrow> (nat \<Rightarrow> string) \<Rightarrow> (string \<Rightarrow> string) \<Rightarrow>
     Logger \<Rightarrow> (nat \<times> Cell) list \<Rightarrow> Logger \<Rightarrow> bool"
  for env nameOf tableUri overhead dataFile writerUri L where
  none: "loggerSteps env nameOf tableUri overhead dataFile writerUri L [] L"
| more: "loggerSteps env nameOf tableUri overhead dataFile writerUri L e L1 \<Longrightarrow>
     loggerStep env nameOf tableUri overhead dataFile writerUri L1 xs L2 \<Longrightarrow>
     loggerSteps env nameOf tableUri overhead dataFile writerUri L (e @ xs) L2"

lemma run_steps:
  assumes "loggerSteps env nameOf tableUri ov df wu L e L'" "loggerRun env nameOf tableUri ov df wu base s h L"
  shows "loggerRun env nameOf tableUri ov df wu base s (h @ e) L'"
  using assms
proof (induction rule: loggerSteps.induct)
  case (more e L1 xs L2)
  then show ?case using loggerRun.step by (metis append_assoc)
qed simp

definition bufferedCells :: "(nat \<Rightarrow> string) \<Rightarrow> string \<Rightarrow> string \<Rightarrow> Logger \<Rightarrow> Cell list" where
  "bufferedCells nameOf name r L = (case commitBuffer L of None \<Rightarrow> [] | Some b \<Rightarrow> rowCells nameOf name r b)"

abbreviation mutationsOf :: "(nat \<Rightarrow> string) \<Rightarrow> string \<Rightarrow> string \<Rightarrow> (nat \<times> Cell) list \<Rightarrow> Cell list" where
  "mutationsOf nameOf name r h \<equiv> map snd (filter (\<lambda>(t, c). nameOf t = name \<and> getRow c = r) h)"

text \<open>A step appends what it inserts to the cells in the buffer, or leaves the buffer empty.\<close>

lemma loggerFlush_buffered:
  assumes "loggerFlush b L = Some (Inr L')"
  shows "bufferedCells nameOf name r L' = rowCells nameOf name r b \<or> bufferedCells nameOf name r L' = []"
  using assms by (auto elim!: loggerFlush_Inr simp: bufferedCells_def rowCells_empty CommitBuffer0_def)

lemma loggerStep_buffered:
  assumes "loggerStep env nameOf tableUri ov df wu L xs L'" "loggerInv nameOf tableUri ov df wu [] L" "inj (wu \<circ> df)"
    and "\<forall>b\<in>set (inFlight L). bufferAll (routed nameOf route) b" "\<forall>(t, c)\<in>set xs. route (nameOf t) (getRow c) = t"
  shows "bufferedCells nameOf name r L' = bufferedCells nameOf name r L @ mutationsOf nameOf name r xs \<or>
    bufferedCells nameOf name r L' = []"
  using assms(1)
proof (cases rule: loggerStep.cases)
  case (insert c t)
  then obtain b where b: "commitBuffer L = Some b" by (auto simp: loggerInsert_def split: option.splits)
  have "bufferAll (routed nameOf route) b" using assms(4) b by (simp add: inFlight_def)
  moreover have "routed nameOf route t c" using assms(5) insert by auto
  ultimately have "rowCells nameOf name r (bufferAppend t c b) = bufferedCells nameOf name r L @ mutationsOf nameOf name r xs"
    using rowCells_append [where name = name and r = r] insert(1) by (simp add: bufferedCells_def b)
  then show ?thesis
    using insert(3) b loggerFlush_buffered [of "bufferAppend t c b" L L' nameOf name r]
    by (auto simp: loggerInsert_def Let_def bufferedCells_def split: if_splits)
next
  case flush
  then show ?thesis
    by (auto simp: syncFlush_def bufferedCells_def split: option.splits dest!: loggerFlush_buffered [where nameOf = nameOf and name = name and r = r])
next
  case shutdown
  then show ?thesis
    by (auto simp: shutdownBegin_def bind_res_eq_Inr bufferedCells_def split: option.splits
        dest!: loggerFlush_buffered [where nameOf = nameOf and name = name and r = r])
next
  case shutdown_done
  then show ?thesis by (simp add: bufferedCells_def shutdownEnd_def)
next
  case commit
  have "commitBuffer L' = commitBuffer L"
    using commit(2)
  proof (cases rule: commitRound_Inr)
    case (round b bs L1 L2 q)
    have "loggerInv nameOf tableUri ov df wu [] (L\<lparr>commitQueue := (commitQueue L)\<lparr>queued := bs\<rparr>\<rparr>)" using assms(2) by simp
    from openLog_Inr(3,5) [OF round(2) this assms(3)] show ?thesis using replay_frame [OF round(3)] round(4) by auto
  qed simp
  then show ?thesis using commit by (simp add: bufferedCells_def)
next
  case (serialize writer loader logFileOf)
  from serialize(2) have "commitBuffer L' = commitBuffer L" by (cases rule: serializeRound_Inr) simp_all
  then show ?thesis using serialize by (simp add: bufferedCells_def)
next
  case (other s)
  then show ?thesis by (simp add: bufferedCells_def)
qed

lemma loggerSteps_buffered:
  assumes "loggerSteps env nameOf tableUri ov df wu L1 e L2" "loggerRun env nameOf tableUri ov df wu base s h L1" "inj (wu \<circ> df)"
    and "bufferedCells nameOf name r L1 = []" "\<forall>(t, c)\<in>set (h @ e). route (nameOf t) (getRow c) = t"
  shows "\<exists>e1 e2. e = e1 @ e2 \<and> bufferedCells nameOf name r L2 = mutationsOf nameOf name r e2"
  using assms
proof (induction rule: loggerSteps.induct)
  case (more e L xs L')
  have "\<forall>(t, c)\<in>set (h @ e). route (nameOf t) (getRow c) = t" using more(7) by auto
  then obtain e1 e2 where e: "e = e1 @ e2" "bufferedCells nameOf name r L = mutationsOf nameOf name r e2"
    using more(3) [OF more(4-6)] by blast
  have run: "loggerRun env nameOf tableUri ov df wu base s (h @ e) L" by (rule run_steps [OF more(1,4)])
  have "\<forall>(t, c)\<in>set (h @ e). route (nameOf t) (getRow c) = t" using more(7) by auto
  note all = loggerRun_all [OF run assms(3) this]
  have "bufferedCells nameOf name r L' = bufferedCells nameOf name r L @ mutationsOf nameOf name r xs \<or>
      bufferedCells nameOf name r L' = []"
    by (rule loggerStep_buffered [OF more(2) loggerRun_inv [OF run assms(3)] assms(3)]) (use all more(7) in auto)
  then show ?case
  proof
    assume "bufferedCells nameOf name r L' = bufferedCells nameOf name r L @ mutationsOf nameOf name r xs"
    then have "bufferedCells nameOf name r L' = mutationsOf nameOf name r (e2 @ xs)" using e(2) by simp
    then show ?thesis using e(1) by (metis append_assoc)
  next
    assume "bufferedCells nameOf name r L' = []"
    then show ?thesis by (intro exI [of _ "e @ xs"] exI [of _ "[]"]) simp
  qed
qed (auto intro: exI [of _ "[]"])

lemma sync_logged:
  assumes run: "loggerRun env nameOf tableUri ov df wu base s h L" "inj (wu \<circ> df)"
    and sync: "syncFlush L = Some (Inr L1)" "loggerSteps env nameOf tableUri ov df wu L1 e L2" "syncWait L2 = Some (Inr ())"
    and route: "\<forall>(t, c)\<in>set (h @ e). route (nameOf t) (getRow c) = t"
  shows "\<exists>e1 e2. e = e1 @ e2 \<and>
    filter (\<lambda>d. cd_row d = r) (loggedCells name L2) = map appendCellData (mutationsOf nameOf name r (h @ e1))"
proof -
  have run1: "loggerRun env nameOf tableUri ov df wu base s h L1" using loggerRun.step [OF run(1) loggerStep.flush [OF sync(1)]] by simp
  note run2 = run_steps [OF sync(2) run1]
  have "bufferedCells nameOf name r L1 = []"
    using sync(1) by (auto simp: syncFlush_def bufferedCells_def bufferEmpty_def rowCells_empty CommitBuffer0_def
        split: option.splits elim!: loggerFlush_Inr)
  from loggerSteps_buffered [OF sync(2) run1 run(2) this route]
  obtain e1 e2 where e: "e = e1 @ e2" "bufferedCells nameOf name r L2 = mutationsOf nameOf name r e2" by blast
  have "queued (commitQueue L2) = []"
    using sync(3) loggerRun_pending [OF run2 run(2)] by (auto simp: syncWait_def waitForCompletion_def split: if_splits)
  then have "flightCells nameOf name r L2 = mutationsOf nameOf name r e2"
    using e(2) by (simp add: flightCells_def inFlight_def bufferedCells_def split: option.splits)
  then have "filter (\<lambda>d. cd_row d = r) (loggedCells name L2) @ map appendCellData (mutationsOf nameOf name r e2) =
      map appendCellData (mutationsOf nameOf name r (h @ e1)) @ map appendCellData (mutationsOf nameOf name r e2)"
    using logger_history [OF run2 run(2) route, of r name] e(1) by simp
  then show ?thesis using e(1) by blast
qed

lemma read_again [simp]: "readCellData (appendCellData (readCellData d)) = readCellData d"
  by (cases "cd_value d") (simp_all add: readCellData_def appendCellData_def)

lemma replayed_scan:
  "tableScan ScanPredicate0 (replayed ov ds) = Inr (cells (replayed ov ds))"
proof -
  have "\<not> filterErasures (fold (memInsert ov) cs t)" if "\<not> filterErasures t" for cs t
    using that
    by (induction cs arbitrary: t) (simp_all add: memInsert_def tableErase_def tableSet_def tableInsert_def Let_def)
  then have "\<not> filterErasures (replayed ov ds)" by (simp add: MemoryTable0_def)
  then show ?thesis
    by (simp add: tableScan_def applyPredicateFilter_def scanWithErasures_def ScanPredicate0_def)
qed

subsection \<open>Recovery\<close>

text \<open>
  In every run of the logger, the memory table of every table of every group, and so the
  fragment that the serialize thread would write from it, is what loading the table's log
  fragment by its URI writes, when the URI gives the log and the table's name back.
\<close>

lemma log_recovery_restores:
  assumes "loggerRun env nameOf tableUri ov df wu base s h L" "inj (wu \<circ> df)"
    and "g = tableGroup L \<or> g \<in> set (queued (serializeQueue L))" "mapFind name (tableInfoMap g) = Some info"
    and "logOf (tableUri (logUri g) name) = logUri g" "tableOf (tableUri (logUri g) name) = name"
  shows "\<exists>uri tbl cs. mapFind (infoFragment info) (memTables L) = Some (uri, tbl) \<and>
    tableScan ScanPredicate0 tbl = Inr cs \<and> serializeLog logOf tableOf writer (logFiles L) uri = writer name cs"
proof -
  have "groupLogged nameOf tableUri ov [] g L"
    using loggerRun_inv [OF assms(1,2)] assms(3) unfolding loggerInv_def queuedApart_def by blast
  moreover have f: "fragOf g name = Some (infoFragment info)" using assms(4) by (simp add: fragOf_def)
  ultimately obtain tbl where tbl: "mapFind (infoFragment info) (memTables L) = Some (tableUri (logUri g) name, tbl)"
    "heldTable g name L = replayed ov (blockCells name (logAt (logUri g) L))"
    unfolding groupLogged_def by fastforce
  have held: "tbl = replayed ov (blockCells name (logAt (logUri g) L))"
    using tbl f by (simp add: heldTable_def mapAt_def)
  have ok: "list_all cellOk (map readCellData (blockCells name (logAt (logUri g) L)))"
  proof -
    have "set (blockCells name (logAt (logUri g) L)) \<subseteq> set (loggedCells name L)"
      by (force simp: logAt_def loggedCells_def dest: map_of_SomeD split: option.split)
    moreover have "list_all cellOk (map readCellData (loggedCells name L))"
      using loggerRun_all [OF assms(1,2), of "\<lambda>_ _. True"] by auto
    ultimately show ?thesis by (auto simp: list_all_iff)
  qed
  have "recoverCells name (logAt (logUri g) L) = cells tbl"
    using recover_correct [OF ok, of ov] held by (simp add: recoverCells_def readAll_cells o_def)
  moreover have "tableScan ScanPredicate0 tbl = Inr (cells tbl)"
    unfolding held by (rule replayed_scan)
  ultimately show ?thesis
    using tbl(1) assms(5,6) by (auto simp: serializeLog_def Let_def logAt_def)
qed

subsection \<open>Properties\<close>

text \<open>
  C3. In every run of the logger, whatever its threads do and in whatever order, the mutations
  of a row of a table that the log files hold, followed by those in the buffers, are the
  mutations that the clients made, in the order in which they made them, when each row of a
  table belongs to one tablet: none is lost, none is written twice. And \<open>sync\<close> is an
  acknowledgement: when it has flushed the buffer, whatever happens then, with more mutations by
  other clients, until its wait is over, all the mutations that were made before the call are in
  the log files, followed only by some that were made after it.
\<close>
theorem logger_keeps_mutations:
  assumes "loggerRun env nameOf tableUri ov df wu base s h L" "inj (wu \<circ> df)"
    and "\<forall>(t, c)\<in>set h. route (nameOf t) (getRow c) = t"
  shows "filter (\<lambda>d. cd_row d = r) (loggedCells name L) @ map appendCellData (flightCells nameOf name r L) =
      map appendCellData (map snd (filter (\<lambda>(t, c). nameOf t = name \<and> getRow c = r) h)) \<and>
    (\<forall>L1 e L2. syncFlush L = Some (Inr L1) \<longrightarrow> loggerSteps env nameOf tableUri ov df wu L1 e L2 \<longrightarrow>
       (\<forall>(t, c)\<in>set e. route (nameOf t) (getRow c) = t) \<longrightarrow> syncWait L2 = Some (Inr ()) \<longrightarrow>
       (\<exists>e1 e2. e = e1 @ e2 \<and> filter (\<lambda>d. cd_row d = r) (loggedCells name L2) =
          map appendCellData (map snd (filter (\<lambda>(t, c). nameOf t = name \<and> getRow c = r) (h @ e1)))))"
proof (intro conjI allI impI)
  show "filter (\<lambda>d. cd_row d = r) (loggedCells name L) @ map appendCellData (flightCells nameOf name r L) =
      map appendCellData (map snd (filter (\<lambda>(t, c). nameOf t = name \<and> getRow c = r) h))"
    by (rule logger_history [OF assms])
  fix L1 e L2
  assume "syncFlush L = Some (Inr L1)" "loggerSteps env nameOf tableUri ov df wu L1 e L2"
    "\<forall>(t, c)\<in>set e. route (nameOf t) (getRow c) = t" "syncWait L2 = Some (Inr ())"
  then show "\<exists>e1 e2. e = e1 @ e2 \<and> filter (\<lambda>d. cd_row d = r) (loggedCells name L2) =
      map appendCellData (map snd (filter (\<lambda>(t, c). nameOf t = name \<and> getRow c = r) (h @ e1)))"
    using sync_logged [OF assms(1,2), of L1 e L2 route r name] assms(3) by (simp only: set_append ball_Un)
qed

subsection \<open>An example run\<close>

definition example_tableUri :: "string \<Rightarrow> string \<Rightarrow> string" where
  "example_tableUri log name = log @ ''#'' @ name"

definition example_dataFile :: "nat \<Rightarrow> string" where
  "example_dataFile n = replicate n (CHR ''a'')"

definition stepTo :: "Logger result option \<Rightarrow> Logger" where
  "stepTo x = (case x of Some (Inr L) \<Rightarrow> L | _ \<Rightarrow> Logger0 0 server0)"

definition stepOk :: "Logger result option \<Rightarrow> bool" where
  "stepOk x \<longleftrightarrow> (case x of Some (Inr L) \<Rightarrow> True | _ \<Rightarrow> False)"

lemma stepOk_to: "stepOk x \<Longrightarrow> x = Some (Inr (stepTo x))"
  by (auto simp: stepOk_def stepTo_def split: option.splits sum.splits)

definition logger1 :: Logger where
  "logger1 = stepTo (loggerInsert 7 (makeCell ''r'' ''c'' 1 ''v'') (Logger0 12 server0))"

definition logger2 :: Logger where
  "logger2 = stepTo (loggerErase 7 ''r'' ''c'' 1 logger1)"

definition logger3 :: Logger where
  "logger3 = stepTo (syncFlush logger2)"

definition logger4 :: Logger where
  "logger4 = stepTo (commitRound fragments0 (\<lambda>_. ''T'') example_tableUri 100 example_dataFile ((@) ''log:'') logger3)"

lemma example_steps:
  "stepOk (loggerInsert 7 (makeCell ''r'' ''c'' 1 ''v'') (Logger0 12 server0))"
  "stepOk (loggerErase 7 ''r'' ''c'' 1 logger1)"
  "stepOk (syncFlush logger2)"
  "stepOk (commitRound fragments0 (\<lambda>_. ''T'') example_tableUri 100 example_dataFile ((@) ''log:'') logger3)"
  by code_simp+

lemma example_mutations:
  "loggerRun fragments0 (\<lambda>_. ''T'') tu 100 df wu 12 server0
     [(7, makeCell ''r'' ''c'' 1 ''v''), (7, makeCellErasure ''r'' ''c'' 1)] logger2"
proof -
  note s = example_steps(1,2) [THEN stepOk_to, folded logger1_def logger2_def]
  have "loggerStep fragments0 (\<lambda>_. ''T'') tu 100 df wu (Logger0 12 server0)
      [(7, makeCell ''r'' ''c'' 1 ''v'')] logger1"
    by (rule loggerStep.insert) (use s(1) in \<open>simp_all add: cellOk_def\<close>)
  from loggerRun.step [OF loggerRun.start this]
  have "loggerRun fragments0 (\<lambda>_. ''T'') tu 100 df wu 12 server0
     [(7, makeCell ''r'' ''c'' 1 ''v'')] logger1" by simp
  moreover have "loggerStep fragments0 (\<lambda>_. ''T'') tu 100 df wu logger1
      [(7, makeCellErasure ''r'' ''c'' 1)] logger2"
    by (rule loggerStep.insert) (use s(2) in \<open>simp_all add: cellOk_def loggerErase_def\<close>)
  ultimately have "loggerRun fragments0 (\<lambda>_. ''T'') tu 100 df wu 12 server0
     ([(7, makeCell ''r'' ''c'' 1 ''v'')] @ [(7, makeCellErasure ''r'' ''c'' 1)]) logger2" by (rule loggerRun.step)
  then show ?thesis by simp
qed

lemma example_sync: "syncFlush logger2 = Some (Inr logger3)"
  using stepOk_to [OF example_steps(3)] by (simp add: logger3_def)

lemma example_commit:
  assumes "stepOk (commitRound fragments0 (\<lambda>_. ''T'') tu 100 df wu logger3)"
  shows "loggerSteps fragments0 (\<lambda>_. ''T'') tu 100 df wu logger3 []
     (stepTo (commitRound fragments0 (\<lambda>_. ''T'') tu 100 df wu logger3))"
  using loggerSteps.more [OF loggerSteps.none loggerStep.commit [OF stepOk_to [OF assms]]] by simp

lemma example_committed:
  assumes "stepOk (commitRound fragments0 (\<lambda>_. ''T'') tu 100 df wu logger3)"
  shows "loggerRun fragments0 (\<lambda>_. ''T'') tu 100 df wu 12 server0
     [(7, makeCell ''r'' ''c'' 1 ''v''), (7, makeCellErasure ''r'' ''c'' 1)]
     (stepTo (commitRound fragments0 (\<lambda>_. ''T'') tu 100 df wu logger3))"
  using run_steps [OF example_commit [OF assms] loggerRun.step [OF example_mutations loggerStep.flush [OF example_sync]]]
  by simp

lemma example_inj: "inj ((@) ''log:'' \<circ> example_dataFile)"
  by (rule injI) (auto simp: example_dataFile_def dest: arg_cong [of _ _ length])

theorem logger_keeps_mutations_witness:
  "syncFlush logger2 = Some (Inr logger3) \<and> syncWait logger4 = Some (Inr ()) \<and>
   filter (\<lambda>d. cd_row d = ''r'') (loggedCells ''T'' logger2) = [] \<and>
   filter (\<lambda>d. cd_row d = ''r'') (loggedCells ''T'' logger4) =
     [appendCellData (makeCell ''r'' ''c'' 1 ''v''), appendCellData (makeCellErasure ''r'' ''c'' 1)]"
proof -
  have r: "\<forall>(t, c)\<in>set [(7, makeCell ''r'' ''c'' 1 ''v''), (7, makeCellErasure ''r'' ''c'' 1)].
      (\<lambda>(_ :: string) (_ :: string). 7 :: nat) ''T'' (getRow c) = t" by simp
  have w: "syncWait logger4 = Some (Inr ())" "loggedCells ''T'' logger2 = []" by code_simp+
  show ?thesis
    using logger_keeps_mutations [OF example_mutations example_inj r, of "''r''" "''T''", THEN conjunct2, rule_format,
        OF example_sync example_commit [OF example_steps(4), folded logger4_def] _ w(1)] example_sync w
    by auto
qed

end
