(* ===== verification/Uri.thy ===== *)
theory Uri
  imports StrUtil
begin

section \<open>URIs (src/cc/warp/uri.h, src/cc/warp/uri.cc)\<close>

text \<open>
  A parsed URI keeps its text and five ranges of it, which are pairs of positions here; whether a
  part was defined is read off the positions and the separators before them, as in the code. The
  parameters of a query are taken one after the other from the rest of the query.
\<close>

subsection \<open>Parsing\<close>

type_synonym range = "nat \<times> nat"

definition sub :: "string \<Rightarrow> range \<Rightarrow> string" where
  "sub s r = take (snd r - fst r) (drop (fst r) s)"

record Uri =
  uriText :: string
  uriScheme :: range
  uriAuthority :: range
  uriPath :: range
  uriQuery :: range
  uriFragment :: range

definition validFirst :: "char \<Rightarrow> bool" where
  "validFirst c \<longleftrightarrow> c \<in> set ''ABCDEFGHIJKLMNOPQRSTUVWXYZabcdefghijklmnopqrstuvwxyz''"

definition validSubsequent :: "char \<Rightarrow> bool" where
  "validSubsequent c \<longleftrightarrow> validFirst c \<or> c \<in> set ''0123456789.+-''"

text \<open>The position of the colon that ends the scheme; \<open>None\<close> is the end pointer.\<close>

fun scanSchemeRest :: "string \<Rightarrow> nat option" where
  "scanSchemeRest [] = None"
| "scanSchemeRest (c # cs) =
     (if c = CHR '':'' then Some 0
      else if validSubsequent c then map_option Suc (scanSchemeRest cs)
      else None)"

definition scanUriScheme :: "string \<Rightarrow> nat option" where
  "scanUriScheme s =
     (case s of [] \<Rightarrow> None | c # cs \<Rightarrow> if validFirst c then map_option Suc (scanSchemeRest cs) else None)"

definition scanTo :: "char list \<Rightarrow> string \<Rightarrow> nat \<Rightarrow> nat" where
  "scanTo stops s p = p + length (takeWhile (\<lambda>c. c \<notin> set stops) (drop p s))"

definition charAt :: "string \<Rightarrow> nat \<Rightarrow> char \<Rightarrow> bool" where
  "charAt s i c \<longleftrightarrow> i < length s \<and> s ! i = c"

definition parseUri :: "string \<Rightarrow> Uri" where
  "parseUri s =
     (let (sch, p) = (case scanUriScheme s of Some k \<Rightarrow> ((0, k), k + 1) | None \<Rightarrow> ((0, 0), 0));
          (auth, p1) = (if charAt s p CHR ''/'' \<and> charAt s (p + 1) CHR ''/''
                        then let pp = scanTo ''/?#'' s (p + 2) in ((p + 2, pp), pp) else ((p, p), p));
          p2 = scanTo ''?#'' s p1;
          (query, p3) = (if charAt s p2 CHR ''?''
                         then let pp = scanTo ''#'' s (p2 + 1) in ((p2 + 1, pp), pp) else ((p2, p2), p2));
          frag = (if charAt s p3 CHR ''#'' then (p3 + 1, length s) else (p3, p3))
      in \<lparr>uriText = s, uriScheme = sch, uriAuthority = auth, uriPath = (p1, p2), uriQuery = query, uriFragment = frag\<rparr>)"

definition schemeDefined :: "Uri \<Rightarrow> bool" where
  "schemeDefined u \<longleftrightarrow> snd (uriScheme u) < fst (uriAuthority u) \<and> charAt (uriText u) (snd (uriScheme u)) CHR '':''"

definition authorityDefined :: "Uri \<Rightarrow> bool" where
  "authorityDefined u \<longleftrightarrow> (let a = fst (uriAuthority u) in 2 \<le> a - snd (uriScheme u) \<and>
     charAt (uriText u) (a - 1) CHR ''/'' \<and> charAt (uriText u) (a - 2) CHR ''/'')"

definition queryDefined :: "Uri \<Rightarrow> bool" where
  "queryDefined u \<longleftrightarrow> snd (uriPath u) < fst (uriQuery u) \<and> charAt (uriText u) (fst (uriQuery u) - 1) CHR ''?''"

definition fragmentDefined :: "Uri \<Rightarrow> bool" where
  "fragmentDefined u \<longleftrightarrow> snd (uriQuery u) < fst (uriFragment u) \<and> charAt (uriText u) (fst (uriFragment u) - 1) CHR ''#''"

definition schemeOf :: "Uri \<Rightarrow> string" where "schemeOf u = sub (uriText u) (uriScheme u)"
definition authorityOf :: "Uri \<Rightarrow> string" where "authorityOf u = sub (uriText u) (uriAuthority u)"
definition pathOf :: "Uri \<Rightarrow> string" where "pathOf u = sub (uriText u) (uriPath u)"
definition queryOf :: "Uri \<Rightarrow> string" where "queryOf u = sub (uriText u) (uriQuery u)"
definition fragmentOf :: "Uri \<Rightarrow> string" where "fragmentOf u = sub (uriText u) (uriFragment u)"

subsection \<open>Schemes\<close>

definition popScheme :: "Uri \<Rightarrow> string" where
  "popScheme u =
     (if \<not> schemeDefined u then uriText u
      else drop (fst (uriScheme u) + length (takeWhile (\<lambda>c. c \<noteq> CHR ''+'') (schemeOf u)) + 1) (uriText u))"

definition topScheme :: "Uri \<Rightarrow> string" where
  "topScheme u = takeWhile (\<lambda>c. c \<noteq> CHR ''+'') (schemeOf u)"

definition uriPopScheme :: "string \<Rightarrow> string" where
  "uriPopScheme uri = popScheme (parseUri uri)"

definition uriTopScheme :: "string \<Rightarrow> string" where
  "uriTopScheme uri = topScheme (parseUri uri)"

definition uriPushScheme :: "string \<Rightarrow> string \<Rightarrow> string" where
  "uriPushScheme uri scheme =
     (if scheme = [] then uri
      else scheme @ (if schemeDefined (parseUri uri) then ''+'' else '':'') @ uri)"

subsection \<open>Queries\<close>

record UriQuery =
  queryKey :: string
  queryValue :: string
  queryText :: string
  queryRest :: string

text \<open>
  The next parameter of the rest of a query: its key, its value, and its text from the key to the end
  of the value; \<open>None\<close> when the key begins at the end of the query.
\<close>

definition parseNext :: "string \<Rightarrow> UriQuery option" where
  "parseNext rest =
     (let p = dropWhile (\<lambda>c. c = CHR ''&'') rest;
          k = takeWhile (\<lambda>c. c \<noteq> CHR ''&'' \<and> c \<noteq> CHR ''='') p;
          pp = drop (length k) p
      in if p = [] then None
         else case pp of
           c # v \<Rightarrow>
             if c = CHR ''='' then
               let val = takeWhile (\<lambda>c. c \<noteq> CHR ''&'') v
               in Some \<lparr>queryKey = k, queryValue = val, queryText = k @ c # val, queryRest = drop (length val) v\<rparr>
             else Some \<lparr>queryKey = k, queryValue = [], queryText = k, queryRest = pp\<rparr>
         | [] \<Rightarrow> Some \<lparr>queryKey = k, queryValue = [], queryText = k, queryRest = []\<rparr>)"

lemma length_dropWhile: "length (dropWhile P xs) \<le> length xs"
  by (induction xs) auto

lemma parseNext_less:
  assumes "parseNext rest = Some q"
  shows "length (queryRest q) < length rest"
proof -
  define p where "p = dropWhile (\<lambda>c. c = CHR ''&'') rest"
  define k where "k = takeWhile (\<lambda>c. c \<noteq> CHR ''&'' \<and> c \<noteq> CHR ''='') p"
  note q = assms [unfolded parseNext_def Let_def, folded p_def, folded k_def]
  have le: "length p \<le> length rest" unfolding p_def by (rule length_dropWhile)
  have ne: "p \<noteq> []" using q by auto
  have "hd p \<noteq> CHR ''&''" using hd_dropWhile [of "\<lambda>c. c = CHR ''&''" rest] ne by (simp add: p_def)
  then have amp: "k = [] \<Longrightarrow> hd p = CHR ''=''" using ne by (cases p) (auto simp: k_def split: if_splits)
  show ?thesis
  proof (cases "drop (length k) p")
    case Nil
    then show ?thesis using q ne le by (cases p) auto
  next
    case (Cons d v)
    have len: "length k + Suc (length v) = length p" using arg_cong [OF Cons, of length] by simp
    show ?thesis
    proof (cases "d = CHR ''=''")
      case True
      then have "queryRest q = drop (length (takeWhile (\<lambda>c. c \<noteq> CHR ''&'') v)) v" using q ne Cons by auto
      then show ?thesis using le len by simp
    next
      case False
      have "k \<noteq> []" using amp Cons False ne by (cases p) auto
      moreover have "queryRest q = d # v" using q ne Cons False by auto
      ultimately show ?thesis using le len by (cases k) auto
    qed
  qed
qed

text \<open>The parameters that a loop over a query goes through.\<close>

function queryAttrs :: "string \<Rightarrow> UriQuery list" where
  "queryAttrs rest = (case parseNext rest of None \<Rightarrow> [] | Some q \<Rightarrow> q # queryAttrs (queryRest q))"
  by pat_completeness auto
termination
  by (relation "measure length") (auto simp: parseNext_less)

declare queryAttrs.simps [simp del]

definition uriGetParameter :: "string \<Rightarrow> string \<Rightarrow> string" where
  "uriGetParameter uri key =
     (case find (\<lambda>q. queryKey q = key) (queryAttrs (queryOf (parseUri uri))) of None \<Rightarrow> [] | Some q \<Rightarrow> queryValue q)"

definition parameterText :: "string \<Rightarrow> string \<Rightarrow> string" where
  "parameterText key val = key @ (if val \<noteq> [] then CHR ''='' # val else [])"

definition separator :: "bool \<Rightarrow> char" where
  "separator first = (if first then CHR ''?'' else CHR ''&'')"

fun setParameters :: "string \<Rightarrow> string \<Rightarrow> bool \<Rightarrow> bool \<Rightarrow> UriQuery list \<Rightarrow> string" where
  "setParameters key val first found [] =
     (if found then [] else separator first # parameterText key val)"
| "setParameters key val first found (q # qs) =
     (if queryKey q = key then
        (if found then setParameters key val first found qs
         else separator first # parameterText key val @ setParameters key val False True qs)
      else separator first # queryText q @ setParameters key val False found qs)"

definition uriSetParameter :: "string \<Rightarrow> string \<Rightarrow> string \<Rightarrow> string" where
  "uriSetParameter uri key val =
     (let u = parseUri uri
      in take (snd (uriPath u)) uri @ setParameters key val True False (queryAttrs (queryOf u)) @ drop (snd (uriQuery u)) uri)"

fun eraseParameters :: "string \<Rightarrow> bool \<Rightarrow> UriQuery list \<Rightarrow> string" where
  "eraseParameters key first [] = []"
| "eraseParameters key first (q # qs) =
     (if queryKey q = key then eraseParameters key first qs
      else separator first # queryText q @ eraseParameters key False qs)"

definition uriEraseParameter :: "string \<Rightarrow> string \<Rightarrow> string" where
  "uriEraseParameter uri key =
     (let u = parseUri uri
      in take (snd (uriPath u)) uri @ eraseParameters key True (queryAttrs (queryOf u)) @ drop (snd (uriQuery u)) uri)"

subsection \<open>Encoding\<close>

fun uriDecode :: "bool \<Rightarrow> string \<Rightarrow> string" where
  "uriDecode plusToSpace [] = []"
| "uriDecode plusToSpace (c # s) =
     (if c = CHR ''+'' then (if plusToSpace then CHR '' '' else CHR ''+'') # uriDecode plusToSpace s
      else if c = CHR ''%'' then
        (case s of
           a # b # s' \<Rightarrow> (if dehex a b \<noteq> -1 then [char_of (nat (dehex a b))] else []) @ uriDecode plusToSpace s'
         | _ \<Rightarrow> [])
      else c # uriDecode plusToSpace s)"

definition UNRESERVED_SET :: string where
  "UNRESERVED_SET = ''abcdefghijklmnopqrstuvwxyzABCDEFGHIJKLMNOPQRSTUVWXYZ0123456789._~-''"

definition encodeChar :: "bool \<Rightarrow> string \<Rightarrow> char \<Rightarrow> string" where
  "encodeChar spaceToPlus safe c =
     (if c \<in> set UNRESERVED_SET \<or> c \<in> set safe then [c]
      else if c = CHR '' '' \<and> spaceToPlus then ''+''
      else CHR ''%'' # hexByte c)"

definition uriEncode :: "bool \<Rightarrow> string \<Rightarrow> string \<Rightarrow> string" where
  "uriEncode spaceToPlus safe s = concat (map (encodeChar spaceToPlus safe) s)"

text \<open>The default argument of \<open>uriEncode\<close>.\<close>

definition DEFAULT_SAFE :: string where
  "DEFAULT_SAFE = [CHR ''/'', CHR 0x27, CHR ''!'', CHR ''*'', CHR '':'', CHR ''('', CHR '')'', CHR '','']"

subsection \<open>Dot segments\<close>

text \<open>
  The path is normalised in place; the output is the list of the characters before the position at
  which the next one is written. \<open>scanDots\<close> counts the dots of the last segment backwards.
\<close>

fun scanDots :: "string \<Rightarrow> nat \<Rightarrow> nat \<times> string" where
  "scanDots [] dots = (dots, [])"
| "scanDots (c # cs) dots =
     (if c = CHR ''/'' then (dots, c # cs) else scanDots cs (if c = CHR ''.'' then dots + 1 else 3))"

definition pop_segment :: "string \<Rightarrow> string" where
  "pop_segment out =
     (let p = (if out \<noteq> [] \<and> last out = CHR ''/'' then butlast out else out);
          p1 = take (length p - 2) p
      in if p1 = [] then out
         else let p2 = butlast p1; (dots, r) = scanDots (rev p2) 0
              in if dots = 2 then out
                 else if dots = 0 then rev r @ [CHR ''/'']
                 else rev r)"

fun dotLoop :: "nat \<Rightarrow> string \<Rightarrow> string \<Rightarrow> string" where
  "dotLoop dots out [] = (if dots = 2 then pop_segment out else if dots = 1 then butlast out else out)"
| "dotLoop dots out (c # cs) =
     (if c = CHR ''/'' then
        (let out' = (if 3 \<le> dots then out @ [c]
                     else if dots = 1 then butlast out
                     else if dots = 2 then pop_segment (out @ [c])
                     else if out = [] then [c] else out)
         in dotLoop 0 out' cs)
      else if c = CHR ''.'' then dotLoop (dots + 1) (out @ [c]) cs
      else dotLoop 3 (out @ [c]) cs)"

definition normalize_dot_segments :: "string \<Rightarrow> string" where
  "normalize_dot_segments path = dotLoop 0 [] path"

subsection \<open>Authorities\<close>

record UriAuthority =
  authText :: string
  authUser :: range
  authPass :: range
  authHost :: range
  authPort :: range

definition hostAndPort :: "string \<Rightarrow> nat \<Rightarrow> range \<times> range" where
  "hostAndPort s p =
     (let pp = scanTo '':'' s p in ((p, pp), if pp = length s then (pp, pp) else (pp + 1, length s)))"

definition parseAuthority :: "string \<Rightarrow> UriAuthority" where
  "parseAuthority s =
     (let n = length s; pp = scanTo '':@'' s 0
      in if pp = n then \<lparr>authText = s, authUser = (0, 0), authPass = (0, 0), authHost = (0, n), authPort = (n, n)\<rparr>
         else if s ! pp = CHR ''@'' then
           let (host, port) = hostAndPort s (pp + 1)
           in \<lparr>authText = s, authUser = (0, pp), authPass = (pp, pp), authHost = host, authPort = port\<rparr>
         else
           let ppp = scanTo ''@'' s (pp + 1)
           in if ppp \<noteq> n then
                let (host, port) = hostAndPort s (ppp + 1)
                in \<lparr>authText = s, authUser = (0, pp), authPass = (pp + 1, ppp), authHost = host, authPort = port\<rparr>
              else \<lparr>authText = s, authUser = (0, 0), authPass = (0, 0), authHost = (0, pp), authPort = (pp + 1, n)\<rparr>)"

subsection \<open>Normalisation\<close>

definition recode :: "bool \<Rightarrow> string \<Rightarrow> string \<Rightarrow> string" where
  "recode convertPlus safe s = (if s \<noteq> [] then uriEncode convertPlus safe (uriDecode convertPlus s) else [])"

definition SUB_DELIMS :: string where
  "SUB_DELIMS = ''!$&'' @ [CHR 0x27] @ ''()*+,;=''"

definition QUERY_SAFE :: string where
  "QUERY_SAFE = ''!$'' @ [CHR 0x27] @ ''()*+,;:@/?''"

definition defaultPort :: "string \<Rightarrow> string option" where
  "defaultPort scheme =
     (if scheme = ''http'' then Some ''80'' else if scheme = ''https'' then Some ''443''
      else if scheme = ''ftp'' then Some ''21'' else if scheme = ''gopher'' then Some ''70'' else None)"

definition normalizeAuthority :: "string option \<Rightarrow> string \<Rightarrow> string" where
  "normalizeAuthority port s =
     (let a = parseAuthority s; usr = sub s (authUser a); prt = sub s (authPort a)
      in (if usr \<noteq> [] then recode False (SUB_DELIMS @ '':'') (sub s (fst (authUser a), snd (authPass a))) @ ''@'' else []) @
         map tolower (recode False SUB_DELIMS (sub s (authHost a))) @
         (if prt \<noteq> [] \<and> port \<noteq> Some prt then CHR '':'' # prt else []))"

fun normalizeQuery :: "bool \<Rightarrow> UriQuery list \<Rightarrow> string" where
  "normalizeQuery first [] = []"
| "normalizeQuery first (q # qs) =
     (if queryKey q = [] then normalizeQuery first qs
      else (if first then [] else ''&'') @ recode True QUERY_SAFE (queryKey q) @
        (if queryValue q \<noteq> [] then CHR ''='' # recode True QUERY_SAFE (queryValue q) else []) @ normalizeQuery False qs)"

definition uriNormalize :: "string \<Rightarrow> string" where
  "uriNormalize uri =
     (let u = parseUri uri; sch = map tolower (schemeOf u); qry = normalizeQuery True (queryAttrs (queryOf u))
      in (if schemeDefined u then sch @ '':'' else []) @
         (if authorityDefined u
          then ''//'' @ normalizeAuthority (if schemeDefined u then defaultPort sch else None) (authorityOf u) else []) @
         normalize_dot_segments (recode False (SUB_DELIMS @ '':@/'') (pathOf u)) @
         (if queryOf u \<noteq> [] \<and> qry \<noteq> [] then CHR ''?'' # qry else []) @
         (if fragmentOf u \<noteq> [] then CHR ''#'' # recode False (SUB_DELIMS @ '':@/?'') (fragmentOf u) else []))"

subsection \<open>Resolution\<close>

definition flagBit :: "nat \<Rightarrow> 32 word" where
  "flagBit n = push_bit n 1"

definition AUTH_SAME_SCHEME :: "32 word" where "AUTH_SAME_SCHEME = flagBit 0"
definition AUTH_ANY_SCHEME :: "32 word" where "AUTH_ANY_SCHEME = or (flagBit 1) AUTH_SAME_SCHEME"
definition PATH_SAME_SCHEME :: "32 word" where "PATH_SAME_SCHEME = flagBit 2"
definition PATH_ANY_SCHEME :: "32 word" where "PATH_ANY_SCHEME = or (flagBit 3) PATH_SAME_SCHEME"
definition PATH_SAME_AUTHORITY :: "32 word" where "PATH_SAME_AUTHORITY = flagBit 4"
definition PATH_ANY_AUTHORITY :: "32 word" where "PATH_ANY_AUTHORITY = or (flagBit 5) PATH_SAME_AUTHORITY"
definition QUERY_SAME_SCHEME :: "32 word" where "QUERY_SAME_SCHEME = flagBit 6"
definition QUERY_ANY_SCHEME :: "32 word" where "QUERY_ANY_SCHEME = or (flagBit 7) QUERY_SAME_SCHEME"
definition QUERY_SAME_AUTHORITY :: "32 word" where "QUERY_SAME_AUTHORITY = flagBit 8"
definition QUERY_ANY_AUTHORITY :: "32 word" where "QUERY_ANY_AUTHORITY = or (flagBit 9) QUERY_SAME_AUTHORITY"
definition QUERY_SAME_PATH :: "32 word" where "QUERY_SAME_PATH = flagBit 10"
definition QUERY_ANY_PATH :: "32 word" where "QUERY_ANY_PATH = or (flagBit 11) QUERY_SAME_PATH"
definition QUERY_APPEND :: "32 word" where "QUERY_APPEND = flagBit 12"

definition ALLOW :: "32 word \<Rightarrow> 32 word \<Rightarrow> 32 word \<Rightarrow> bool \<Rightarrow> bool" where
  "ALLOW allow any_flag same_flag same \<longleftrightarrow>
     and (and allow any_flag) (not same_flag) \<noteq> 0 \<or> and allow same_flag \<noteq> 0 \<and> same"

definition basename :: "string \<Rightarrow> nat" where
  "basename s = length s - length (takeWhile (\<lambda>c. c \<noteq> CHR ''/'') (rev s))"

definition resolvePath :: "bool \<Rightarrow> bool \<Rightarrow> string \<Rightarrow> string \<Rightarrow> string" where
  "resolvePath allowBasePath outHasAuth base ref =
     normalize_dot_segments
       (if \<not> allowBasePath then ref
        else if ref = [] then base
        else if hd ref = CHR ''/'' then ref
        else (if basename base \<noteq> 0 then take (basename base) base else if outHasAuth then ''/'' else []) @ ref)"

definition resolve :: "Uri \<Rightarrow> Uri \<Rightarrow> 32 word \<Rightarrow> string" where
  "resolve base ref allow =
     (let sameScheme = (schemeOf ref = schemeOf base); sameAuth = (authorityOf ref = authorityOf base);
          allowAuth = (if schemeDefined ref then ALLOW allow AUTH_ANY_SCHEME AUTH_SAME_SCHEME sameScheme else True);
          allowPath = (if schemeDefined ref then ALLOW allow PATH_ANY_SCHEME PATH_SAME_SCHEME sameScheme else True);
          allowQuery = (if schemeDefined ref then ALLOW allow QUERY_ANY_SCHEME QUERY_SAME_SCHEME sameScheme else True);
          out1 = (if schemeDefined ref then schemeOf ref @ '':'' else if schemeDefined base then schemeOf base @ '':'' else []);
          baseAuth = (\<not> authorityDefined ref \<and> allowAuth \<and> authorityDefined base);
          outHasAuth = (authorityDefined ref \<or> baseAuth);
          out2 = (if authorityDefined ref then ''//'' @ authorityOf ref else if baseAuth then ''//'' @ authorityOf base else []);
          allowPath' = (if authorityDefined ref then allowPath \<and> ALLOW allow PATH_ANY_AUTHORITY PATH_SAME_AUTHORITY sameAuth else allowPath);
          allowQuery' = (if authorityDefined ref then allowQuery \<and> ALLOW allow QUERY_ANY_AUTHORITY QUERY_SAME_AUTHORITY sameAuth
                         else allowQuery);
          path = resolvePath allowPath' outHasAuth (pathOf base) (pathOf ref);
          allowQuery'' = (if allowQuery' \<and> pathOf ref \<noteq> []
                          then ALLOW allow QUERY_ANY_PATH QUERY_SAME_PATH (pathOf base = path) else allowQuery');
          qry = (if queryDefined ref then
                   CHR ''?'' # (if allowQuery'' \<and> and allow QUERY_APPEND \<noteq> 0 \<and> queryDefined base
                                then queryOf base @ (if queryOf ref \<noteq> [] then ''&'' else []) else []) @ queryOf ref
                 else if allowQuery'' \<and> queryDefined base then CHR ''?'' # queryOf base else [])
      in out1 @ out2 @ path @ qry @ (if fragmentDefined ref then CHR ''#'' # fragmentOf ref else []))"

definition uriResolve :: "string \<Rightarrow> string \<Rightarrow> 32 word \<Rightarrow> string" where
  "uriResolve base ref allow = resolve (parseUri base) (parseUri ref) allow"

end
