(* ===== verification/UriFacts.thy ===== *)
theory UriFacts
  imports Uri
begin

section \<open>What the operations on URIs do\<close>

text \<open>
  Decoding undoes encoding; the parts of a URI make it up; the scheme that is pushed on a URI is its
  top scheme and is popped again; a parameter that is set is found and erased again. Normalising an
  absolute path is compared with a stack of its segments.
\<close>

subsection \<open>Encoding and decoding\<close>

lemma encodeChar_decode:
  assumes "CHR ''%'' \<notin> set safe" "pts \<Longrightarrow> CHR ''+'' \<notin> set safe"
  shows "uriDecode pts (encodeChar pts safe c @ s) = c # uriDecode pts s"
proof (cases "c \<in> set UNRESERVED_SET \<or> c \<in> set safe")
  case True
  moreover have "CHR ''%'' \<notin> set UNRESERVED_SET" "CHR ''+'' \<notin> set UNRESERVED_SET" by (simp_all add: UNRESERVED_SET_def)
  ultimately have "c \<noteq> CHR ''%''" "pts \<Longrightarrow> c \<noteq> CHR ''+''" using assms by auto
  then show ?thesis using True by (auto simp: encodeChar_def)
next
  case False
  have d: "dehex (HEX (of_char c div 16)) (HEX (of_char c mod 16)) = int (of_char c)" by (rule dehex_HEX [OF of_char_byte])
  show ?thesis
  proof (cases "c = CHR '' '' \<and> pts")
    case True
    then show ?thesis using False by (simp add: encodeChar_def)
  next
    case sp: False
    have e: "encodeChar pts safe c = [CHR ''%'', HEX (of_char c div 16), HEX (of_char c mod 16)]"
      using False sp unfolding encodeChar_def hexByte_def by auto
    show ?thesis unfolding e by (simp add: d)
  qed
qed

lemma encode_decode:
  "CHR ''%'' \<notin> set safe \<Longrightarrow> (pts \<Longrightarrow> CHR ''+'' \<notin> set safe) \<Longrightarrow> uriDecode pts (uriEncode pts safe s) = s"
  by (induction s) (simp_all add: uriEncode_def encodeChar_decode)

lemma uriDecode_length: "length (uriDecode pts s) \<le> length s"
proof (induction pts s rule: uriDecode.induct)
  case (2 pts c s)
  show ?case
  proof (cases "c = CHR ''%''")
    case True
    show ?thesis
    proof (cases s)
      case (Cons a t)
      then show ?thesis using True 2(2) by (cases t) (auto simp: le_SucI)
    qed (use True in simp)
  qed (use 2 in auto)
qed simp

text \<open>The characters of an encoded string.\<close>

lemma encode_chars: "c \<in> set (uriEncode pts safe s) \<Longrightarrow> c \<in> set UNRESERVED_SET \<union> set safe \<union> set ''+%''"
proof -
  have hex: "HEX n \<in> set UNRESERVED_SET" if "n < 16" for n
  proof -
    have "\<forall>n\<in>set [0..<16]. HEX n \<in> set UNRESERVED_SET" by code_simp
    then show ?thesis using that by simp
  qed
  have "c \<in> set UNRESERVED_SET \<union> set safe \<union> set ''+%''" if "c \<in> set (encodeChar pts safe d)" for d
    using that hex [OF of_char_nibble [of d]] hex [of "of_char d mod 16"] by (auto simp: encodeChar_def hexByte_def split: if_splits)
  then show "c \<in> set (uriEncode pts safe s) \<Longrightarrow> c \<in> set UNRESERVED_SET \<union> set safe \<union> set ''+%''"
    by (auto simp: uriEncode_def)
qed

lemma encode_default: "c \<in> set (uriEncode pts DEFAULT_SAFE s) \<Longrightarrow> c \<noteq> CHR ''#'' \<and> c \<noteq> CHR ''&'' \<and> c \<noteq> CHR ''='' \<and> c \<noteq> CHR ''?''"
  using encode_chars [of c pts DEFAULT_SAFE s] by (auto simp: UNRESERVED_SET_def DEFAULT_SAFE_def)

subsection \<open>Scanning\<close>

lemma scanTo_le: "p \<le> length s \<Longrightarrow> p \<le> scanTo stops s p \<and> scanTo stops s p \<le> length s"
  using length_takeWhile_le [of "\<lambda>c. c \<notin> set stops" "drop p s"] by (simp add: scanTo_def)

lemma scanTo_append:
  assumes "p \<le> length s" "r = [] \<or> hd r \<in> set stops"
  shows "scanTo stops (s @ r) p = scanTo stops s p"
proof -
  have "takeWhile (\<lambda>c. c \<notin> set stops) (drop p s @ r) = takeWhile (\<lambda>c. c \<notin> set stops) (drop p s)"
    using assms(2) by (cases r) (auto simp: takeWhile_append takeWhile_eq_all_conv [THEN iffD2])
  then show ?thesis using assms(1) by (simp add: scanTo_def)
qed

lemma scanTo_all: "p \<le> length s \<Longrightarrow> \<forall>c\<in>set (drop p s). c \<notin> set stops \<Longrightarrow> scanTo stops s p = length s"
  by (simp add: scanTo_def takeWhile_eq_all_conv [THEN iffD2])

lemma scanTo_at: "p \<le> length s \<Longrightarrow> scanTo stops s p < length s \<Longrightarrow> s ! scanTo stops s p \<in> set stops"
  using nth_length_takeWhile [of "\<lambda>c. c \<notin> set stops" "drop p s"] by (simp add: scanTo_def)

lemma scanSchemeRest_Some: "scanSchemeRest s = Some k \<Longrightarrow> k < length s \<and> s ! k = CHR '':'' \<and> (\<forall>c\<in>set (take k s). validSubsequent c)"
  by (induction s arbitrary: k) (auto split: if_splits simp: nth_Cons')

lemma scanSchemeRest_append: "scanSchemeRest s = Some k \<Longrightarrow> scanSchemeRest (s @ r) = Some k"
  by (induction s arbitrary: k) (auto split: if_splits)

lemma scanSchemeRest_None:
  assumes "scanSchemeRest s = None" "r = [] \<or> hd r = CHR ''?''"
  shows "scanSchemeRest (s @ r) = None"
proof -
  have "scanSchemeRest r = None" using assms(2) by (cases r) (auto simp: validSubsequent_def validFirst_def)
  then show ?thesis using assms(1) by (induction s) (auto split: if_splits)
qed

lemma scanUriScheme_Some: "scanUriScheme s = Some k \<Longrightarrow> k < length s \<and> s ! k = CHR '':'' \<and> 0 < k"
  using scanSchemeRest_Some [of "tl s"] by (cases s) (auto simp: scanUriScheme_def split: if_splits)

lemma scanUriScheme_append: "scanUriScheme s = Some k \<Longrightarrow> scanUriScheme (s @ r) = Some k"
  using scanSchemeRest_append by (cases s) (auto simp: scanUriScheme_def split: if_splits)

lemma scanUriScheme_query:
  assumes r: "r = [] \<or> hd r = CHR ''?''"
  shows "scanUriScheme (s @ r) = scanUriScheme s"
proof (cases "scanUriScheme s")
  case (Some k)
  then show ?thesis using scanUriScheme_append by simp
next
  case None
  show ?thesis
  proof (cases s)
    case Nil
    then show ?thesis using r by (cases r) (auto simp: scanUriScheme_def validFirst_def)
  next
    case (Cons c cs)
    then show ?thesis using None scanSchemeRest_None [OF _ r, of cs] by (simp add: scanUriScheme_def split: if_splits)
  qed
qed

lemma valid_plus: "validSubsequent CHR ''+''" "\<not> validSubsequent CHR '':''"
  by (simp_all add: validSubsequent_def validFirst_def)

lemma scanSchemeRest_prefix:
  assumes "list_all validSubsequent cs" "scanSchemeRest r = Some k"
  shows "scanSchemeRest (cs @ r) = Some (length cs + k)"
proof -
  have "c = CHR '':'' \<Longrightarrow> \<not> validSubsequent c" for c using valid_plus(2) by simp
  then show ?thesis using assms by (induction cs) auto
qed

lemma scanUriScheme_prefix:
  assumes "validFirst c" "list_all validSubsequent cs"
  shows "scanUriScheme (c # cs @ CHR '':'' # r) = Some (Suc (length cs))"
    "scanSchemeRest r = Some k \<Longrightarrow> scanUriScheme (c # cs @ CHR ''+'' # r) = Some (Suc (Suc (length cs)) + k)"
proof -
  show "scanUriScheme (c # cs @ CHR '':'' # r) = Some (Suc (length cs))"
    using scanSchemeRest_prefix [OF assms(2), of "CHR '':'' # r" 0] assms(1) by (simp add: scanUriScheme_def)
  assume "scanSchemeRest r = Some k"
  then have "scanSchemeRest (CHR ''+'' # r) = Some (Suc k)" using valid_plus(1) by simp
  then show "scanUriScheme (c # cs @ CHR ''+'' # r) = Some (Suc (Suc (length cs)) + k)"
    using scanSchemeRest_prefix [OF assms(2)] assms(1) by (simp add: scanUriScheme_def)
qed

lemma scanUriScheme_rest: "scanUriScheme s = Some k \<Longrightarrow> scanSchemeRest s = Some k"
  by (cases s) (auto simp: scanUriScheme_def validSubsequent_def validFirst_def split: if_splits)

subsection \<open>The parts of a URI\<close>

definition schemeRange :: "string \<Rightarrow> range \<times> nat" where
  "schemeRange s = (case scanUriScheme s of Some k \<Rightarrow> ((0, k), k + 1) | None \<Rightarrow> ((0, 0), 0))"

definition authorityRange :: "string \<Rightarrow> nat \<Rightarrow> range \<times> nat" where
  "authorityRange s p = (if charAt s p CHR ''/'' \<and> charAt s (p + 1) CHR ''/''
     then ((p + 2, scanTo ''/?#'' s (p + 2)), scanTo ''/?#'' s (p + 2)) else ((p, p), p))"

definition queryRange :: "string \<Rightarrow> nat \<Rightarrow> range \<times> nat" where
  "queryRange s p = (if charAt s p CHR ''?''
     then ((p + 1, scanTo ''#'' s (p + 1)), scanTo ''#'' s (p + 1)) else ((p, p), p))"

definition fragmentRange :: "string \<Rightarrow> nat \<Rightarrow> range" where
  "fragmentRange s p = (if charAt s p CHR ''#'' then (p + 1, length s) else (p, p))"

lemma parseUri_ranges:
  "parseUri s = (let sch = schemeRange s; auth = authorityRange s (snd sch); p2 = scanTo ''?#'' s (snd auth); qry = queryRange s p2
     in \<lparr>uriText = s, uriScheme = fst sch, uriAuthority = fst auth, uriPath = (snd auth, p2), uriQuery = fst qry,
         uriFragment = fragmentRange s (snd qry)\<rparr>)"
  unfolding parseUri_def schemeRange_def authorityRange_def queryRange_def fragmentRange_def Let_def
  by (simp split: prod.splits option.splits)

lemma schemeRange_le: "snd (schemeRange s) \<le> length s"
  using scanUriScheme_Some [of s] by (auto simp: schemeRange_def split: option.splits)

lemma authorityRange_le: "p \<le> length s \<Longrightarrow> p \<le> snd (authorityRange s p) \<and> snd (authorityRange s p) \<le> length s"
  using scanTo_le [of "p + 2" s "''/?#''"] by (auto simp: authorityRange_def charAt_def)

lemma schemeDefined_parse: "schemeDefined (parseUri s) \<longleftrightarrow> scanUriScheme s \<noteq> None"
proof (cases "scanUriScheme s")
  case None
  then show ?thesis
    by (auto simp: parseUri_ranges Let_def schemeDefined_def schemeRange_def authorityRange_def charAt_def)
next
  case (Some k)
  note k = scanUriScheme_Some [OF Some]
  have "k < fst (fst (authorityRange s (k + 1)))" by (simp add: authorityRange_def)
  then show ?thesis using k Some by (simp add: parseUri_ranges Let_def schemeDefined_def schemeRange_def charAt_def)
qed

lemma schemeOf_parse: "schemeOf (parseUri s) = (case scanUriScheme s of None \<Rightarrow> [] | Some k \<Rightarrow> take k s)"
  by (auto simp: parseUri_ranges Let_def schemeOf_def schemeRange_def sub_def split: option.splits)

text \<open>A URI without a query and a fragment, and the same with a query.\<close>

definition plainUri :: "string \<Rightarrow> bool" where
  "plainUri s \<longleftrightarrow> CHR ''?'' \<notin> set s \<and> CHR ''#'' \<notin> set s"

lemma schemeRange_query: "r = [] \<or> hd r = CHR ''?'' \<Longrightarrow> schemeRange (s @ r) = schemeRange s"
  by (simp add: schemeRange_def scanUriScheme_query)

lemma authorityRange_query:
  assumes r: "r = [] \<or> hd r = CHR ''?''" and p: "p \<le> length s"
  shows "authorityRange (s @ r) p = authorityRange s p"
proof -
  have c: "charAt (s @ r) i CHR ''/'' \<longleftrightarrow> charAt s i CHR ''/''" if "i \<le> length s" for i
    using r that by (cases r) (auto simp: charAt_def nth_append)
  have 1: "charAt (s @ r) p CHR ''/'' \<and> charAt (s @ r) (p + 1) CHR ''/'' \<longleftrightarrow> charAt s p CHR ''/'' \<and> charAt s (p + 1) CHR ''/''"
  proof (cases "p = length s")
    case True
    then show ?thesis using c [of p] by (auto simp: charAt_def)
  next
    case False
    then show ?thesis using c [of p] c [of "p + 1"] p by auto
  qed
  have 2: "scanTo ''/?#'' (s @ r) (p + 2) = scanTo ''/?#'' s (p + 2)" if "charAt s (p + 1) CHR ''/''"
    by (rule scanTo_append) (use r that in \<open>auto simp: charAt_def\<close>)
  show ?thesis unfolding authorityRange_def 1 using 2 by auto
qed

lemma parse_plain:
  assumes s: "plainUri s" and r: "r = [] \<or> (\<exists>q. r = CHR ''?'' # q \<and> CHR ''#'' \<notin> set q)"
  shows "snd (uriPath (parseUri (s @ r))) = length s"
    "uriQuery (parseUri (s @ r)) = (if r = [] then (length s, length s) else (length s + 1, length (s @ r)))"
    "uriScheme (parseUri (s @ r)) = uriScheme (parseUri s)" "uriAuthority (parseUri (s @ r)) = uriAuthority (parseUri s)"
    "uriPath (parseUri (s @ r)) = uriPath (parseUri s)"
proof -
  let ?t = "s @ r"
  have h: "r = [] \<or> hd r = CHR ''?''" using r by auto
  note S = schemeRange_query [OF h, of s]
  have A: "authorityRange ?t (snd (schemeRange s)) = authorityRange s (snd (schemeRange s))"
    by (rule authorityRange_query [OF h schemeRange_le])
  let ?p = "snd (authorityRange s (snd (schemeRange s)))"
  have p: "?p \<le> length s" using authorityRange_le [OF schemeRange_le, of s] by simp
  have "scanTo ''?#'' ?t ?p = scanTo ''?#'' s ?p" by (rule scanTo_append [OF p]) (use h in auto)
  moreover have P: "scanTo ''?#'' s ?p = length s"
    by (rule scanTo_all [OF p]) (use s in \<open>auto simp: plainUri_def dest: in_set_dropD\<close>)
  ultimately have T: "scanTo ''?#'' ?t ?p = length s" by simp
  show "snd (uriPath (parseUri ?t)) = length s" by (simp add: parseUri_ranges Let_def S A T)
  show "uriScheme (parseUri ?t) = uriScheme (parseUri s)" "uriAuthority (parseUri ?t) = uriAuthority (parseUri s)"
    "uriPath (parseUri ?t) = uriPath (parseUri s)"
    by (simp_all add: parseUri_ranges Let_def S A T P)
  have "fst (queryRange ?t (length s)) = (if r = [] then (length s, length s) else (length s + 1, length (s @ r)))"
  proof (cases r)
    case (Cons c q)
    then have c: "c = CHR ''?''" "CHR ''#'' \<notin> set q" using r by auto
    have "scanTo ''#'' ?t (length s + 1) = length ?t" by (rule scanTo_all) (use c Cons in auto)
    then show ?thesis using Cons c by (simp add: queryRange_def charAt_def)
  qed (simp add: queryRange_def charAt_def)
  then show "uriQuery (parseUri ?t) = (if r = [] then (length s, length s) else (length s + 1, length (s @ r)))"
    by (simp add: parseUri_ranges Let_def S A T)
qed

lemma queryOf_plain:
  "plainUri s \<Longrightarrow> queryOf (parseUri s) = []"
  "plainUri s \<Longrightarrow> CHR ''#'' \<notin> set q \<Longrightarrow> queryOf (parseUri (s @ CHR ''?'' # q)) = q"
proof -
  have t: "uriText (parseUri x) = x" for x by (simp add: parseUri_ranges Let_def)
  show "plainUri s \<Longrightarrow> queryOf (parseUri s) = []" using parse_plain(2) [of s "[]"] by (simp add: queryOf_def sub_def t)
  assume "plainUri s" "CHR ''#'' \<notin> set q"
  then show "queryOf (parseUri (s @ CHR ''?'' # q)) = q"
    using parse_plain(2) [of s "CHR ''?'' # q"] by (simp add: queryOf_def sub_def t)
qed

subsection \<open>Schemes and parameters\<close>

definition validScheme :: "string \<Rightarrow> bool" where
  "validScheme sc \<longleftrightarrow> (case sc of [] \<Rightarrow> False | c # cs \<Rightarrow> validFirst c \<and> list_all validSubsequent cs) \<and> CHR ''+'' \<notin> set sc"

lemma push_scheme:
  assumes "validScheme sc"
  shows "uriPopScheme (uriPushScheme uri sc @ r) = uri @ r" "uriTopScheme (uriPushScheme uri sc @ r) = sc"
proof -
  obtain c cs where sc: "sc = c # cs" "validFirst c" "list_all validSubsequent cs" "CHR ''+'' \<notin> set sc"
    using assms by (auto simp: validScheme_def split: list.splits)
  have tw: "takeWhile (\<lambda>c. c \<noteq> CHR ''+'') sc = sc" using sc(4) by (auto simp: takeWhile_eq_all_conv [THEN iffD2])
  obtain d k where t: "uriPushScheme uri sc @ r = sc @ d # uri @ r" and k: "scanUriScheme (sc @ d # uri @ r) = Some k"
    "takeWhile (\<lambda>c. c \<noteq> CHR ''+'') (take k (sc @ d # uri @ r)) = sc"
  proof (cases "scanUriScheme uri")
    case None
    have "scanUriScheme (sc @ CHR '':'' # uri @ r) = Some (length sc)" using scanUriScheme_prefix(1) [OF sc(2,3)] sc(1) by simp
    then show ?thesis using that [of "CHR '':''" "length sc"] None sc(1) tw by (simp add: uriPushScheme_def schemeDefined_parse)
  next
    case (Some l)
    have "scanSchemeRest (uri @ r) = Some l" using scanUriScheme_rest scanUriScheme_append [OF Some] by blast
    then have s: "scanUriScheme (sc @ CHR ''+'' # uri @ r) = Some (Suc (length sc) + l)"
      using scanUriScheme_prefix(2) [OF sc(2,3)] sc(1) by simp
    have "takeWhile (\<lambda>c. c \<noteq> CHR ''+'') (take (Suc (length sc) + l) (sc @ CHR ''+'' # uri @ r)) = sc"
      using tw sc(4) by (auto simp: takeWhile_append)
    then show ?thesis using that [of "CHR ''+''" "Suc (length sc) + l"] Some sc(1) s by (simp add: uriPushScheme_def schemeDefined_parse)
  qed
  let ?t = "sc @ d # uri @ r"
  have u: "uriText (parseUri ?t) = ?t" "uriScheme (parseUri ?t) = (0, k)" using k(1) by (simp_all add: parseUri_ranges Let_def schemeRange_def)
  have sch: "schemeOf (parseUri ?t) = take k ?t" using k(1) by (simp add: schemeOf_parse)
  show "uriTopScheme (uriPushScheme uri sc @ r) = sc" unfolding t uriTopScheme_def topScheme_def sch k(2) ..
  have "schemeDefined (parseUri ?t)" using k(1) by (simp add: schemeDefined_parse)
  then show "uriPopScheme (uriPushScheme uri sc @ r) = uri @ r"
    unfolding t uriPopScheme_def popScheme_def sch k(2) u by simp
qed

lemma push_plain: "plainUri uri \<Longrightarrow> plainUri sc \<Longrightarrow> plainUri (uriPushScheme uri sc)"
  by (auto simp: plainUri_def uriPushScheme_def)

lemma parse_parameter:
  assumes "key \<noteq> []" "CHR ''&'' \<notin> set key" "CHR ''='' \<notin> set key" "CHR ''&'' \<notin> set val"
  shows "queryAttrs (parameterText key val) = [\<lparr>queryKey = key, queryValue = val, queryText = parameterText key val, queryRest = []\<rparr>]"
proof -
  have k: "takeWhile (\<lambda>c. c \<noteq> CHR ''&'' \<and> c \<noteq> CHR ''='') (key @ x) = key" if "x = [] \<or> hd x = CHR ''=''" for x
    using assms(2,3) that by (cases x) (auto simp: takeWhile_append takeWhile_eq_all_conv [THEN iffD2])
  have v: "takeWhile (\<lambda>c. c \<noteq> CHR ''&'') val = val" using assms(4) by (auto simp: takeWhile_eq_all_conv [THEN iffD2])
  have d: "dropWhile (\<lambda>c. c = CHR ''&'') (key @ x) = key @ x" for x using assms(1,2) by (cases key) auto
  have n: "parseNext (parameterText key val) = Some \<lparr>queryKey = key, queryValue = val, queryText = parameterText key val, queryRest = []\<rparr>"
  proof (cases "val = []")
    case True
    then show ?thesis
      by (simp add: parseNext_def parameterText_def Let_def k [of "[]", OF disjI1, simplified append_Nil2] d [of "[]", simplified append_Nil2] assms(1))
  next
    case False
    have "takeWhile (\<lambda>c. c \<noteq> CHR ''&'' \<and> c \<noteq> CHR ''='') (key @ CHR ''='' # val) = key" by (rule k) simp
    then show ?thesis using False
      by (simp add: parseNext_def parameterText_def Let_def d [of "CHR ''='' # val"] v assms(1))
  qed
  have "queryAttrs [] = []" by (subst queryAttrs.simps) (simp add: parseNext_def)
  then show ?thesis by (subst queryAttrs.simps) (simp add: n)
qed

lemma set_parameter:
  assumes "plainUri uri"
  shows "uriSetParameter uri key val = uri @ CHR ''?'' # parameterText key val"
proof -
  have "queryAttrs [] = []" by (subst queryAttrs.simps) (simp add: parseNext_def)
  then show ?thesis
    using queryOf_plain(1) [OF assms] parse_plain(1,2) [OF assms, of "[]"] by (simp add: uriSetParameter_def Let_def separator_def)
qed

lemma get_erase_parameter:
  assumes "plainUri uri" "key \<noteq> []" "CHR ''&'' \<notin> set key" "CHR ''='' \<notin> set key" "CHR ''#'' \<notin> set key"
    "CHR ''&'' \<notin> set val" "CHR ''#'' \<notin> set val"
  shows "uriGetParameter (uri @ CHR ''?'' # parameterText key val) key = val"
    "uriEraseParameter (uri @ CHR ''?'' # parameterText key val) key = uri"
proof -
  have h: "CHR ''#'' \<notin> set (parameterText key val)" using assms(5,7) by (auto simp: parameterText_def)
  note q = queryOf_plain(2) [OF assms(1) h] and a = parse_parameter [OF assms(2-4,6)]
  show "uriGetParameter (uri @ CHR ''?'' # parameterText key val) key = val"
    unfolding uriGetParameter_def q a by simp
  have "snd (uriPath (parseUri (uri @ CHR ''?'' # parameterText key val))) = length uri"
    "snd (uriQuery (parseUri (uri @ CHR ''?'' # parameterText key val))) = length (uri @ CHR ''?'' # parameterText key val)"
    using parse_plain(1,2) [OF assms(1), of "CHR ''?'' # parameterText key val"] h by simp_all
  then show "uriEraseParameter (uri @ CHR ''?'' # parameterText key val) key = uri"
    unfolding uriEraseParameter_def Let_def q a by simp
qed

lemma log_uris:
  fixes name :: string
  assumes "plainUri file" "validScheme sc" "plainUri sc" "key \<noteq> []" "CHR ''&'' \<notin> set key" "CHR ''='' \<notin> set key" "CHR ''#'' \<notin> set key"
  defines "log \<equiv> uriPushScheme file sc"
  defines "u \<equiv> uriSetParameter log key (uriEncode True DEFAULT_SAFE name)"
  shows "uriTopScheme u = sc" "uriPopScheme log = file" "uriDecode True (uriGetParameter u key) = name"
    "uriEraseParameter (uriPopScheme u) key = file"
    "uriPopScheme u = file @ CHR ''?'' # parameterText key (uriEncode True DEFAULT_SAFE name)"
proof -
  let ?v = "uriEncode True DEFAULT_SAFE name"
  have v: "CHR ''&'' \<notin> set ?v" "CHR ''#'' \<notin> set ?v" using encode_default by blast+
  have pl: "plainUri log" unfolding log_def by (rule push_plain [OF assms(1,3)])
  have u: "u = log @ CHR ''?'' # parameterText key ?v" unfolding u_def by (rule set_parameter [OF pl])
  show "uriTopScheme u = sc" unfolding u log_def by (rule push_scheme(2) [OF assms(2)])
  show pop: "uriPopScheme u = file @ CHR ''?'' # parameterText key ?v" unfolding u log_def by (rule push_scheme(1) [OF assms(2)])
  show "uriPopScheme log = file" using push_scheme(1) [OF assms(2), of "file" "[]"] by (simp add: log_def)
  have "uriDecode True ?v = name" by (rule encode_decode) (simp_all add: DEFAULT_SAFE_def)
  then show "uriDecode True (uriGetParameter u key) = name" unfolding u get_erase_parameter(1) [OF pl assms(4-7) v] .
  show "uriEraseParameter (uriPopScheme u) key = file" unfolding pop by (rule get_erase_parameter(2) [OF assms(1,4-7) v])
qed

subsection \<open>Putting a URI together again\<close>

lemma cut_string: "a \<le> b \<Longrightarrow> drop a s = sub s (a, b) @ drop b s"
proof -
  assume ab: "a \<le> b"
  have "drop a s = take (b - a) (drop a s) @ drop (b - a) (drop a s)" by (rule append_take_drop_id [symmetric])
  moreover have "drop (b - a) (drop a s) = drop b s" using ab by simp
  ultimately show ?thesis by (simp only: sub_def fst_conv snd_conv)
qed

lemma drop_charAt: "charAt s i c \<Longrightarrow> drop i s = c # drop (Suc i) s"
  by (auto simp: charAt_def Cons_nth_drop_Suc)

lemma uri_parts:
  fixes s :: string
  defines "u \<equiv> parseUri s"
  shows "s = (if schemeDefined u then schemeOf u @ '':'' else []) @ (if authorityDefined u then ''//'' @ authorityOf u else []) @
    pathOf u @ (if queryDefined u then CHR ''?'' # queryOf u else []) @ (if fragmentDefined u then CHR ''#'' # fragmentOf u else [])"
proof -
  define p where "p = snd (schemeRange s)"
  define p1 where "p1 = snd (authorityRange s p)"
  define p2 where "p2 = scanTo ''?#'' s p1"
  define p3 where "p3 = snd (queryRange s p2)"
  have le: "p \<le> length s" "p \<le> p1" "p1 \<le> length s" "p1 \<le> p2" "p2 \<le> length s"
    using schemeRange_le authorityRange_le [of p s] scanTo_le [of p1 s] by (auto simp: p_def p1_def p2_def)
  have u: "u = \<lparr>uriText = s, uriScheme = fst (schemeRange s), uriAuthority = fst (authorityRange s p), uriPath = (p1, p2),
      uriQuery = fst (queryRange s p2), uriFragment = fragmentRange s p3\<rparr>"
    by (simp add: u_def parseUri_ranges Let_def p_def p1_def p2_def p3_def)
  have sch: "s = (if schemeDefined u then schemeOf u @ '':'' else []) @ drop p s"
  proof (cases "scanUriScheme s")
    case None
    then show ?thesis unfolding u_def by (simp add: schemeDefined_parse p_def schemeRange_def)
  next
    case (Some k)
    note k = scanUriScheme_Some [OF Some]
    then have "take (Suc k) s = take k s @ '':''" by (simp add: take_Suc_conv_app_nth)
    then have "s = (take k s @ '':'') @ drop (Suc k) s" by (metis append_take_drop_id)
    then show ?thesis using Some unfolding u_def by (simp add: schemeDefined_parse schemeOf_parse p_def schemeRange_def)
  qed
  have snd_scheme: "snd (fst (schemeRange s)) \<le> p" "p - snd (fst (schemeRange s)) \<le> 1"
    by (auto simp: p_def schemeRange_def split: option.splits)
  have auth: "drop p s = (if authorityDefined u then ''//'' @ authorityOf u else []) @ drop p1 s"
  proof (cases "charAt s p CHR ''/'' \<and> charAt s (p + 1) CHR ''/''")
    case True
    then have r: "fst (authorityRange s p) = (p + 2, p1)" by (simp add: authorityRange_def p1_def)
    have d: "authorityDefined u" using True snd_scheme by (simp add: authorityDefined_def u r)
    have "p + 2 \<le> p1" using scanTo_le [of "p + 2" s] True by (auto simp: p1_def authorityRange_def charAt_def)
    then have "drop (p + 2) s = authorityOf u @ drop p1 s" using cut_string by (simp add: authorityOf_def u r)
    moreover have "drop p s = CHR ''/'' # drop (p + 1) s" "drop (p + 1) s = CHR ''/'' # drop (p + 2) s"
      using True drop_charAt [of s p "CHR ''/''"] drop_charAt [of s "p + 1" "CHR ''/''"] by simp_all
    ultimately show ?thesis using d by simp
  next
    case False
    then have r: "fst (authorityRange s p) = (p, p)" "p1 = p" by (auto simp: authorityRange_def p1_def)
    have "\<not> authorityDefined u" using snd_scheme by (auto simp: authorityDefined_def u r Let_def)
    then show ?thesis using r by simp
  qed
  have path: "drop p1 s = pathOf u @ drop p2 s" using cut_string [OF le(4)] by (simp add: pathOf_def u)
  have qry: "drop p2 s = (if queryDefined u then CHR ''?'' # queryOf u else []) @ drop p3 s"
  proof (cases "charAt s p2 CHR ''?''")
    case True
    then have r: "fst (queryRange s p2) = (p2 + 1, p3)" by (simp add: queryRange_def p3_def)
    have d: "queryDefined u" using True by (simp add: queryDefined_def u r)
    have "p2 + 1 \<le> p3" using scanTo_le [of "p2 + 1" s] True by (auto simp: p3_def queryRange_def charAt_def)
    then have "drop (p2 + 1) s = queryOf u @ drop p3 s" using cut_string by (simp add: queryOf_def u r)
    then show ?thesis using d drop_charAt [OF True] by simp
  next
    case False
    then have r: "fst (queryRange s p2) = (p2, p2)" "p3 = p2" by (auto simp: queryRange_def p3_def)
    then show ?thesis by (simp add: queryDefined_def u)
  qed
  have p3: "p3 \<le> length s" "snd (fst (queryRange s p2)) = p3"
    using scanTo_le [of "p2 + 1" s] le(5) by (auto simp: p3_def queryRange_def charAt_def)
  have frag: "drop p3 s = (if fragmentDefined u then CHR ''#'' # fragmentOf u else [])"
  proof (cases "charAt s p3 CHR ''#''")
    case True
    then show ?thesis using drop_charAt [OF True] p3(2) by (simp add: fragmentDefined_def fragmentOf_def fragmentRange_def u sub_def)
  next
    case False
    have "p3 = length s"
    proof (rule ccontr)
      assume "p3 \<noteq> length s"
      then have lt: "p3 < length s" using p3(1) by simp
      show False
      proof (cases "charAt s p2 CHR ''?''")
        case True
        then have "p3 = scanTo ''#'' s (p2 + 1)" "p2 + 1 \<le> length s" by (auto simp: p3_def queryRange_def charAt_def)
        then show False using scanTo_at [of "p2 + 1" s "''#''"] lt False by (simp add: charAt_def)
      next
        case no: False
        then have "p3 = p2" by (auto simp: p3_def queryRange_def)
        then show False using scanTo_at [OF le(3), of "''?#''"] lt False no by (auto simp: charAt_def p2_def)
      qed
    qed
    then show ?thesis using False p3(2) by (simp add: fragmentDefined_def fragmentRange_def u)
  qed
  show ?thesis by (subst sch, subst auth, subst path, subst qry, subst frag) simp
qed

subsection \<open>Absolute paths\<close>

text \<open>The segments of a path, and what normalising makes of them with a stack of segments.\<close>

fun splitSlash :: "string \<Rightarrow> string list" where
  "splitSlash [] = [[]]"
| "splitSlash (c # cs) = (if c = CHR ''/'' then [] # splitSlash cs else (c # hd (splitSlash cs)) # tl (splitSlash cs))"

definition renderPath :: "string list \<Rightarrow> string" where
  "renderPath st = CHR ''/'' # concat (map (\<lambda>seg. seg @ ''/'') st)"

definition dotStep :: "string list \<Rightarrow> string \<Rightarrow> string list" where
  "dotStep st seg = (if seg = [] \<or> seg = ''.'' then st else if seg = ''..'' then butlast st else st @ [seg])"

definition dotEnd :: "string list \<Rightarrow> string \<Rightarrow> string" where
  "dotEnd st seg = (if seg = [] \<or> seg = ''.'' then renderPath st else if seg = ''..'' then renderPath (butlast st) else renderPath st @ seg)"

definition normalAbsolute :: "string list \<Rightarrow> string" where
  "normalAbsolute segs = dotEnd (foldl dotStep [] (butlast segs)) (last segs)"

lemma splitSlash_ne [simp]: "splitSlash s \<noteq> []"
  by (cases s) auto

definition goodSegment :: "string \<Rightarrow> bool" where
  "goodSegment seg \<longleftrightarrow> CHR ''/'' \<notin> set seg \<and> seg \<notin> {[], ''.'', ''..''}"

text \<open>The counter of dots for the part of a segment that was read.\<close>

definition dotsFor :: "nat \<Rightarrow> string \<Rightarrow> bool" where
  "dotsFor d seg \<longleftrightarrow> (d = 0 \<longleftrightarrow> seg = []) \<and> (d = 1 \<longleftrightarrow> seg = ''.'') \<and> (d = 2 \<longleftrightarrow> seg = ''..'')"

lemma dotsFor_dot: "dotsFor d seg \<Longrightarrow> dotsFor (d + 1) (seg @ ''.'')"
  by (cases seg rule: rev_cases; cases "butlast seg" rule: rev_cases) (auto simp: dotsFor_def)

lemma dotsFor_other: "c \<noteq> CHR ''.'' \<Longrightarrow> dotsFor 3 (seg @ [c])"
  by (auto simp: dotsFor_def append_eq_Cons_conv)

lemma scanDots_segment:
  "CHR ''/'' \<notin> set xs \<Longrightarrow> dotsFor d pre \<Longrightarrow> \<exists>n. scanDots (xs @ CHR ''/'' # ys) d = (n, CHR ''/'' # ys) \<and> dotsFor n (pre @ xs)"
proof (induction xs arbitrary: d pre)
  case (Cons c xs)
  have "dotsFor (if c = CHR ''.'' then d + 1 else 3) (pre @ [c])"
    using Cons(3) dotsFor_dot dotsFor_other by auto
  from Cons(1) [OF _ this] Cons(2) show ?case by auto
qed auto

lemma render_last: "last (renderPath st) = CHR ''/''" "renderPath (st @ [seg]) = renderPath st @ seg @ ''/''" "renderPath st \<noteq> []"
  by (cases st rule: rev_cases) (simp_all add: renderPath_def)

lemma pop_rendered:
  assumes "\<forall>seg\<in>set st. goodSegment seg" "e = [] \<or> e = ''/''"
  shows "pop_segment (renderPath st @ ''..'' @ e) = renderPath (butlast st)"
proof -
  have p: "(if renderPath st @ ''..'' @ e \<noteq> [] \<and> last (renderPath st @ ''..'' @ e) = CHR ''/'' then butlast (renderPath st @ ''..'' @ e)
      else renderPath st @ ''..'' @ e) = renderPath st @ ''..''"
    using assms(2) by (auto simp: butlast_append)
  have p1: "take (length (renderPath st @ ''..'') - 2) (renderPath st @ ''..'') = renderPath st" by simp
  show ?thesis
  proof (cases st rule: rev_cases)
    case Nil
    then show ?thesis unfolding pop_segment_def p Let_def p1 by (simp add: renderPath_def)
  next
    case (snoc st' seg)
    have seg: "goodSegment seg" using assms(1) snoc by simp
    have p2: "butlast (renderPath st) = renderPath st' @ seg" using snoc by (simp add: render_last(2) butlast_append)
    obtain ys where ys: "rev (renderPath st') = CHR ''/'' # ys" using render_last(1,3) [of st'] by (cases "renderPath st'" rule: rev_cases) auto
    obtain n where n: "scanDots (rev seg @ CHR ''/'' # ys) 0 = (n, CHR ''/'' # ys)" "dotsFor n (rev seg)"
      using scanDots_segment [of "rev seg" 0 "[]" ys] seg by (auto simp: goodSegment_def dotsFor_def)
    have "n \<noteq> 0" "n \<noteq> 2" using n(2) seg by (auto simp: dotsFor_def goodSegment_def rev_swap)
    then show ?thesis unfolding pop_segment_def p Let_def p1 p2
      using render_last(3) [of st] n(1) ys snoc by (simp add: rev_swap)
  qed
qed

lemma dotLoop_segments:
  "\<forall>seg\<in>set st. goodSegment seg \<Longrightarrow> CHR ''/'' \<notin> set cur \<Longrightarrow> dotsFor d cur \<Longrightarrow>
   dotLoop d (renderPath st @ cur) cs =
     (let segs = (cur @ hd (splitSlash cs)) # tl (splitSlash cs) in dotEnd (foldl dotStep st (butlast segs)) (last segs))"
proof (induction cs arbitrary: st cur d)
  case Nil
  have "pop_segment (renderPath st @ ''..'') = renderPath (butlast st)" using pop_rendered [OF Nil(1), of "[]"] by simp
  then show ?case using Nil(3) by (auto simp: dotsFor_def dotEnd_def butlast_append)
next
  case (Cons c cs)
  consider (slash) "c = CHR ''/''" | (dot) "c = CHR ''.''" | (other) "c \<noteq> CHR ''/''" "c \<noteq> CHR ''.''" by blast
  then show ?case
  proof cases
    case slash
    let ?out = "if 3 \<le> d then (renderPath st @ cur) @ [c] else if d = 1 then butlast (renderPath st @ cur)
      else if d = 2 then pop_segment ((renderPath st @ cur) @ [c]) else if renderPath st @ cur = [] then [c] else renderPath st @ cur"
    have "pop_segment (renderPath st @ ''../'') = renderPath (butlast st)" using pop_rendered [OF Cons(2), of "''/''"] by simp
    then have out: "?out = renderPath (dotStep st cur)"
      using Cons(4) slash render_last(3) [of st] by (auto simp: dotsFor_def dotStep_def butlast_append render_last(2))
    have good: "\<forall>seg\<in>set (dotStep st cur). goodSegment seg"
      using Cons(2,3) by (auto simp: dotStep_def goodSegment_def dest: in_set_butlastD)
    have "dotLoop d (renderPath st @ cur) (c # cs) = dotLoop 0 (renderPath (dotStep st cur) @ []) cs"
      unfolding append_Nil2 out [symmetric] using slash by (simp only: dotLoop.simps if_True Let_def refl)
    also have "\<dots> = (let segs = splitSlash cs in dotEnd (foldl dotStep (dotStep st cur) (butlast segs)) (last segs))"
      using Cons(1) [OF good, of "[]" 0] by (simp add: dotsFor_def)
    finally show ?thesis using slash by (simp add: Let_def)
  next
    case dot
    have "dotLoop d (renderPath st @ cur) (c # cs) = dotLoop (d + 1) (renderPath st @ (cur @ ''.'')) cs" using dot by simp
    then show ?thesis using Cons(1) [OF Cons(2) _ dotsFor_dot [OF Cons(4)]] Cons(3) dot by simp
  next
    case other
    have "dotLoop d (renderPath st @ cur) (c # cs) = dotLoop 3 (renderPath st @ (cur @ [c])) cs" using other by simp
    then show ?thesis using Cons(1) [OF Cons(2) _ dotsFor_other [OF other(2)]] Cons(3) other by simp
  qed
qed

lemma normalize_absolute: "normalize_dot_segments (CHR ''/'' # s) = normalAbsolute (splitSlash s)"
  using dotLoop_segments [of "[]" "[]" 0 s]
  by (simp add: normalize_dot_segments_def normalAbsolute_def renderPath_def dotsFor_def Let_def)

subsection \<open>Two deviations\<close>

text \<open>
  A relative path whose first segments vanish and are followed by an empty segment comes out
  absolute: the slash of the empty segment is written because the output is empty.
\<close>

lemma relative_path_becomes_absolute:
  "normalize_dot_segments ''.//a'' = ''/a''" "normalize_dot_segments ''a/..//b'' = ''/b''" "uriResolve ''b'' ''.//g'' 0 = ''/g''"
  by code_simp+

text \<open>
  Normalising a query decodes an escaped plus and leaves it so, and a plus stands for a space there.
\<close>

lemma normalize_changes_parameter:
  "uriDecode True (uriGetParameter ''a:?k=1%2b1'' ''k'') = ''1+1''" "uriNormalize ''a:?k=1%2b1'' = ''a:?k=1+1''"
  "uriDecode True (uriGetParameter (uriNormalize ''a:?k=1%2b1'') ''k'') = ''1 1''"
  by code_simp+

subsection \<open>Properties\<close>

text \<open>
  C28. The parts into which a URI is parsed, each with its separator when it is defined, are the
  URI again, for every string.
\<close>
theorem uri_parts_make_uri:
  "uri = (let u = parseUri uri
     in (if schemeDefined u then schemeOf u @ '':'' else []) @ (if authorityDefined u then ''//'' @ authorityOf u else []) @
       pathOf u @ (if queryDefined u then CHR ''?'' # queryOf u else []) @ (if fragmentDefined u then CHR ''#'' # fragmentOf u else []))"
  unfolding Let_def by (rule uri_parts)

text \<open>
  C27. Normalising the dot segments of an absolute path in place gives what a stack of segments gives:
  empty segments and \<open>.\<close> are left out, \<open>..\<close> takes the last segment off, or nothing at the root, and
  the path ends with a slash unless its last segment is a proper one.
\<close>
theorem absolute_paths_normalized:
  "normalize_dot_segments (CHR ''/'' # path) = normalAbsolute (splitSlash path)"
  by (rule normalize_absolute)

end
