(* ===== verification/LogUri.thy ===== *)
theory LogUri
  imports LogHistory UriFacts
begin

section \<open>The URIs of logs (src/cc/kdi/tablet/LogWriter.cc, SharedLogger.cc, LogFragment.cc, CachedLogLoader.cc)\<close>

text \<open>
  The functions that make the URI of a log from its file and the URI of a log fragment from that of
  its log and the name of its table, and those that take them apart when the fragment is loaded
  again or asked for its file. With them the arguments of the logger's model are the code's own.
\<close>

definition logWriterUri :: "string \<Rightarrow> string" where
  "logWriterUri fileUri = uriPushScheme fileUri ''sharedlog''"

definition logTableUri :: "string \<Rightarrow> string \<Rightarrow> string" where
  "logTableUri uri name = uriSetParameter uri ''table'' (uriEncode True DEFAULT_SAFE name)"

definition logTableName :: "string \<Rightarrow> string" where
  "logTableName uri = uriDecode True (uriGetParameter uri ''table'')"

definition logReaderUri :: "string \<Rightarrow> string" where
  "logReaderUri uri = uriPushScheme (uriPopScheme uri) ''cache''"

definition logFragmentDiskUri :: "string \<Rightarrow> string" where
  "logFragmentDiskUri uri = uriEraseParameter (uriPopScheme uri) ''table''"

lemma log_uri_facts:
  assumes "plainUri fileUri"
  shows "uriTopScheme (logTableUri (logWriterUri fileUri) name) = ''sharedlog''"
    "uriPopScheme (logWriterUri fileUri) = fileUri"
    "logTableName (logTableUri (logWriterUri fileUri) name) = name"
    "logFragmentDiskUri (logTableUri (logWriterUri fileUri) name) = fileUri"
    "\<exists>q. logReaderUri (logTableUri (logWriterUri fileUri) name) = uriPushScheme (fileUri @ CHR ''?'' # q) ''cache'' \<and> CHR ''#'' \<notin> set q"
proof -
  have sc: "validScheme ''sharedlog''" "plainUri ''sharedlog''"
    by (simp_all add: validScheme_def validFirst_def validSubsequent_def plainUri_def)
  note L = log_uris [OF assms sc, of "''table''"]
  show "uriTopScheme (logTableUri (logWriterUri fileUri) name) = ''sharedlog''"
    "uriPopScheme (logWriterUri fileUri) = fileUri"
    "logTableName (logTableUri (logWriterUri fileUri) name) = name"
    "logFragmentDiskUri (logTableUri (logWriterUri fileUri) name) = fileUri"
    unfolding logWriterUri_def logTableUri_def logTableName_def logFragmentDiskUri_def using L by simp_all
  have "CHR ''#'' \<notin> set (parameterText ''table'' (uriEncode True DEFAULT_SAFE name))"
    using encode_default [of "CHR ''#''" True name] by (auto simp: parameterText_def)
  then show "\<exists>q. logReaderUri (logTableUri (logWriterUri fileUri) name) = uriPushScheme (fileUri @ CHR ''?'' # q) ''cache'' \<and> CHR ''#'' \<notin> set q"
    unfolding logReaderUri_def logTableUri_def logWriterUri_def using L(5) by (intro exI conjI) simp_all
qed

text \<open>Every group that holds a table was given the URI of a log file.\<close>

lemma group_uri:
  assumes "loggerRun env nameOf tableUri ov df wu base s h L" "inj (wu \<circ> df)"
    and "g = tableGroup L \<or> g \<in> set (queued (serializeQueue L))" "mapFind name (tableInfoMap g) = Some info"
  obtains n where "logUri g = wu (df n)"
proof -
  have inv: "loggerInv nameOf tableUri ov df wu [] L" by (rule loggerRun_inv [OF assms(1,2)])
  have "logUri g \<in> set (logUris L)"
  proof (cases "g \<in> set (queued (serializeQueue L))")
    case True
    then show ?thesis using inv by (simp add: loggerInv_defs)
  next
    case False
    then have g: "g = tableGroup L" using assms(3) by blast
    have "g \<noteq> TableGroup0" using assms(4) by (auto simp: TableGroup0_def)
    then have "logUri g \<noteq> []" using inv g by (auto simp: loggerInv_def groupWf_def)
    then show ?thesis using inv g by (auto simp: loggerInv_def logUrisOk_def split: option.splits)
  qed
  then show ?thesis using inv that by (auto simp: loggerInv_def logUrisOk_def urisGiven_def)
qed

subsection \<open>Properties\<close>

text \<open>
  C26. The URI of a log fragment, whatever the name of its table, has the scheme by which the loader
  knows it, gives the table's name back, and names the file of the log: it is the file under which the
  log's references are counted, and which is released when the log's tables have been written.
\<close>
theorem log_fragment_uri_names_file_and_table:
  assumes "plainUri fileUri"
  shows "uriTopScheme (logTableUri (logWriterUri fileUri) name) = ''sharedlog'' \<and>
    logTableName (logTableUri (logWriterUri fileUri) name) = name \<and>
    logFragmentDiskUri (logTableUri (logWriterUri fileUri) name) = fileUri \<and> uriPopScheme (logWriterUri fileUri) = fileUri"
  using log_uri_facts [OF assms] by blast

theorem log_fragment_uri_names_file_and_table_witness:
  "plainUri ''file:/logs/7'' \<and> logTableUri (logWriterUri ''file:/logs/7'') ''a b&c'' = ''sharedlog+file:/logs/7?table=a+b%26c'' \<and>
     logFragmentDiskUri ''sharedlog+file:/logs/7?table=a+b%26c'' = ''file:/logs/7'' \<and>
     logTableName ''sharedlog+file:/logs/7?table=a+b%26c'' = ''a b&c''"
proof -
  have p: "plainUri ''file:/logs/7''" by (simp add: plainUri_def)
  have "logTableUri (logWriterUri ''file:/logs/7'') ''a b&c'' = ''sharedlog+file:/logs/7?table=a+b%26c''" by code_simp
  then show ?thesis using p log_fragment_uri_names_file_and_table [OF p, of "''a b&c''"] by simp
qed

text \<open>
  C4. Loading the log fragment of any table of any group by its URI, in any run of the logger, writes
  exactly the cells of the group's memory table and opens the file that was written. The code's own
  functions make the URI and take it apart; \<open>opens\<close> is the log that the file layer finds for a URI,
  and it is relied on that it does not look at the query.
\<close>
theorem log_table_recovered_by_uri:
  assumes "loggerRun env nameOf logTableUri ov df logWriterUri base s h L" "inj df" "\<And>n. plainUri (df n)"
    and "g = tableGroup L \<or> g \<in> set (queued (serializeQueue L))" "mapFind name (tableInfoMap g) = Some info"
    and opens: "\<And>fileUri q. plainUri fileUri \<Longrightarrow> CHR ''#'' \<notin> set q \<Longrightarrow>
      opens (uriPushScheme (fileUri @ CHR ''?'' # q) ''cache'') = logWriterUri fileUri"
  shows "\<exists>uri tbl cs. mapFind (infoFragment info) (memTables L) = Some (uri, tbl) \<and> tableScan ScanPredicate0 tbl = Inr cs \<and>
    cachedLogLoad uriTopScheme (opens \<circ> logReaderUri) logTableName writer loader (logFiles L) uri [] =
      bind_res (writer name cs) (\<lambda>d. bind_res (loader d) (\<lambda>f. Inr ([(uri, d)], f)))"
proof -
  have pop: "uriPopScheme (logWriterUri (df n)) = df n" for n by (rule log_uri_facts(2) [OF assms(3)])
  have inj: "inj (logWriterUri \<circ> df)"
  proof (rule injI)
    fix m n assume "(logWriterUri \<circ> df) m = (logWriterUri \<circ> df) n"
    then have "uriPopScheme (logWriterUri (df m)) = uriPopScheme (logWriterUri (df n))" by (simp only: o_apply)
    then have "df m = df n" by (simp only: pop)
    then show "m = n" by (rule injD [OF assms(2)])
  qed
  obtain n where n: "logUri g = logWriterUri (df n)" by (rule group_uri [OF assms(1) inj assms(4,5)])
  note U = log_uri_facts [OF assms(3) [of n], folded n]
  obtain q where q: "logReaderUri (logTableUri (logUri g) name) = uriPushScheme (df n @ CHR ''?'' # q) ''cache''" "CHR ''#'' \<notin> set q"
    using U(5) [of name] by blast
  have log: "(opens \<circ> logReaderUri) (logTableUri (logUri g) name) = logUri g" using opens [OF assms(3) q(2)] q(1) n by simp
  have "fragOf g name = Some (infoFragment info)" using assms(5) by (simp add: fragOf_def)
  moreover have "groupLogged nameOf logTableUri ov [] g L"
    using loggerRun_inv [OF assms(1) inj] assms(4) unfolding loggerInv_def queuedApart_def by blast
  ultimately obtain tbl0 where uri: "mapFind (infoFragment info) (memTables L) = Some (logTableUri (logUri g) name, tbl0)"
    unfolding groupLogged_def by blast
  obtain uri tbl cs where t: "mapFind (infoFragment info) (memTables L) = Some (uri, tbl)" "tableScan ScanPredicate0 tbl = Inr cs"
    "serializeLog (opens \<circ> logReaderUri) logTableName writer (logFiles L) uri = writer name cs"
    using log_recovery_restores [where logOf = "opens \<circ> logReaderUri" and tableOf = logTableName, OF assms(1) inj assms(4,5) log U(3) [of name], of writer] by blast
  have e: "uri = logTableUri (logUri g) name" using t(1) uri by simp
  have "cachedLogLoad uriTopScheme (opens \<circ> logReaderUri) logTableName writer loader (logFiles L) uri [] =
      bind_res (writer name cs) (\<lambda>d. bind_res (loader d) (\<lambda>f. Inr ([(uri, d)], f)))"
    using U(1) t(3) by (cases "writer name cs") (simp_all add: cachedLogLoad_def getLogDiskUri_def mapAt_def e)
  then show ?thesis using t(1,2) by blast
qed

subsection \<open>An example run\<close>

definition example_fileUri :: "nat \<Rightarrow> string" where
  "example_fileUri n = ''file:/'' @ replicate n (CHR ''a'')"

definition example_opens :: "string \<Rightarrow> string" where
  "example_opens uri = uriPushScheme (takeWhile (\<lambda>c. c \<noteq> CHR ''?'') (uriPopScheme uri)) ''sharedlog''"

definition logger5 :: Logger where
  "logger5 = stepTo (commitRound fragments0 (\<lambda>_. ''T'') logTableUri 100 example_fileUri logWriterUri logger3)"

lemma example_fileUri_plain: "plainUri (example_fileUri n)"
  by (auto simp: example_fileUri_def plainUri_def)

lemma example_fileUri_inj: "inj example_fileUri"
  by (rule injI) (auto simp: example_fileUri_def dest: arg_cong [of _ _ length])

lemma example_opens_log:
  assumes "plainUri fileUri"
  shows "example_opens (uriPushScheme (fileUri @ CHR ''?'' # q) ''cache'') = logWriterUri fileUri"
proof -
  have "validScheme ''cache''" by (simp add: validScheme_def validFirst_def validSubsequent_def)
  then have "uriPopScheme (uriPushScheme (fileUri @ CHR ''?'' # q) ''cache'') = fileUri @ CHR ''?'' # q"
    using push_scheme(1) [of "''cache''" "fileUri @ CHR ''?'' # q" "[]"] by simp
  moreover have "takeWhile (\<lambda>c. c \<noteq> CHR ''?'') (fileUri @ CHR ''?'' # q) = fileUri"
    using assms by (auto simp: plainUri_def takeWhile_append)
  ultimately show ?thesis by (simp add: example_opens_def logWriterUri_def)
qed

lemmas logger5_run = example_committed [of logTableUri example_fileUri logWriterUri, folded logger5_def]

theorem log_table_recovered_by_uri_witness:
  "cachedLogLoad uriTopScheme (example_opens \<circ> logReaderUri) logTableName
     (\<lambda>_ cs. if map isErasure cs = [True] then Inr ''disk'' else Inl (ValueError [])) (\<lambda>d. Inr (length d))
     (logFiles logger5) ''sharedlog+file:/?table=T'' [] = Inr ([(''sharedlog+file:/?table=T'', ''disk'')], 4)"
proof -
  have run: "loggerRun fragments0 (\<lambda>_. ''T'') logTableUri 100 example_fileUri logWriterUri 12 server0
      [(7, makeCell ''r'' ''c'' 1 ''v''), (7, makeCellErasure ''r'' ''c'' 1)] logger5"
    by (rule logger5_run) code_simp
  have "map_option infoFragment (mapFind ''T'' (tableInfoMap (tableGroup logger5))) = Some 12" by code_simp
  then obtain info where info: "mapFind ''T'' (tableInfoMap (tableGroup logger5)) = Some info" "infoFragment info = 12"
    by auto
  have *: "map_option (\<lambda>(u, tbl). (u, case tableScan ScanPredicate0 tbl of Inl _ \<Rightarrow> [] | Inr cs \<Rightarrow> map isErasure cs))
      (mapFind 12 (memTables logger5)) = Some (''sharedlog+file:/?table=T'', [True])"
    by code_simp
  show ?thesis
    using log_table_recovered_by_uri [OF run example_fileUri_inj example_fileUri_plain disjI1 [OF refl] info(1) example_opens_log,
        of "\<lambda>_ cs. if map isErasure cs = [True] then Inr ''disk'' else Inl (ValueError [])" "\<lambda>d. Inr (length d)"]
      * info(2) by auto
qed

end
