(* ===== verification/Compactor.thy ===== *)
theory Compactor
  imports TabletServer
begin

section \<open>The shared compactor (src/cc/kdi/tablet/SharedCompactor.cc, src/cc/flux/cutoff.h)\<close>

text \<open>
  A compaction merges, for several tablets, an adjacent sequence of fragments each. The inputs
  are read once, cut off at the ends of the tablets' row ranges, and merged one range at a time;
  the merged cells go to an output, which is split at the end of a range when it has become large.
  When an output is finished its fragment takes the place of the sequences in all ranges that
  the output covers. The statistics that are only logged are not kept.

  Arguments: \<open>writer\<close> gives the URI of the file that is written for a table and its cells,
  \<open>writerSize\<close> the size that the writer reports after these cells, \<open>loader\<close> opens the file as a
  fragment, and \<open>sorter\<close> is \<open>std::sort\<close>. Another thread may cancel the compaction: \<open>cancels n\<close> is
  the flag that is read before the range with \<open>n\<close> ranges after it.
\<close>

definition OUTPUT_SPLIT_SIZE :: "64 word" where
  "OUTPUT_SPLIT_SIZE = push_bit 30 1"

definition MAX_OUTPUT_SIZE :: "64 word" where
  "MAX_OUTPUT_SIZE = 4 * OUTPUT_SPLIT_SIZE"

subsection \<open>Cutting streams off\<close>

record CellCutoff =
  cutInput :: "Cell list"
  cutCurrent :: "Cell option"
  cutPoint :: "string IntervalPoint option"

definition cellRowCutoff :: "Cell \<Rightarrow> string IntervalPoint \<Rightarrow> bool" where
  "cellRowCutoff a b = valuePointLt (<) (getRow a) b"

definition makeCutoff :: "Cell list \<Rightarrow> CellCutoff" where
  "makeCutoff xs = \<lparr>cutInput = xs, cutCurrent = None, cutPoint = None\<rparr>"

definition cutoffGet :: "CellCutoff \<Rightarrow> CellCutoff \<times> Cell option" where
  "cutoffGet c =
     (let c1 = (case cutCurrent c of
                  Some x \<Rightarrow> c
                | None \<Rightarrow> (case cutInput c of [] \<Rightarrow> c | x # xs \<Rightarrow> c\<lparr>cutInput := xs, cutCurrent := Some x\<rparr>))
      in case cutCurrent c1 of
           None \<Rightarrow> (c1, None)
         | Some x \<Rightarrow>
             if (case cutPoint c1 of None \<Rightarrow> True | Some p \<Rightarrow> cellRowCutoff x p)
             then (c1\<lparr>cutCurrent := None\<rparr>, Some x)
             else (c1, None))"

definition setCutoff :: "string IntervalPoint \<Rightarrow> CellCutoff \<Rightarrow> CellCutoff" where
  "setCutoff p c = c\<lparr>cutPoint := Some p\<rparr>"

definition cutoffSize :: "CellCutoff \<Rightarrow> nat" where
  "cutoffSize c = length (cutInput c) + (case cutCurrent c of None \<Rightarrow> 0 | Some x \<Rightarrow> 1)"

lemma cutoffGet_less: "cutoffGet c = (c', Some x) \<Longrightarrow> cutoffSize c' < cutoffSize c"
  by (auto simp: cutoffGet_def cutoffSize_def Let_def split: option.splits list.splits if_splits)

text \<open>What a reader gets that reads the stream until it reports its end.\<close>

function cutoffDrain :: "CellCutoff \<Rightarrow> Cell list \<times> CellCutoff" where
  "cutoffDrain c =
     (case snd (cutoffGet c) of
        None \<Rightarrow> ([], fst (cutoffGet c))
      | Some x \<Rightarrow> let (xs, c') = cutoffDrain (fst (cutoffGet c)) in (x # xs, c'))"
  by pat_completeness auto
termination
  by (relation "measure cutoffSize") (auto intro: cutoffGet_less simp: prod_eq_iff)

declare cutoffDrain.simps [simp del]

subsection \<open>Outputs\<close>

record CompactRange =
  crRange :: "string Interval"
  crFragments :: "nat list"
  crRooted :: bool

definition compactRangeLt :: "CompactRange \<Rightarrow> CompactRange \<Rightarrow> bool" where
  "compactRangeLt a b = pointLt (<) (upperBound (crRange a)) (upperBound (crRange b))"

text \<open>\<open>written\<close> holds the cells that the writer was given for the open output.\<close>

record CompactionOutput =
  outputRange :: "string Interval"
  outputOpen :: bool
  readyToSplit :: bool
  outputFragments :: nat
  outputSize :: "64 word"
  written :: "Cell list"

definition CompactionOutput0 :: CompactionOutput where
  "CompactionOutput0 =
     \<lparr>outputRange = setInfinite [] (Interval0 []), outputOpen = False, readyToSplit = False, outputFragments = 0,
      outputSize = 0, written = []\<rparr>"

fun replaceRanges :: "Fragments \<Rightarrow> string Interval \<Rightarrow> nat \<Rightarrow> CompactRange list \<Rightarrow> Server \<Rightarrow> Server result" where
  "replaceRanges env out frag [] s = Inr s"
| "replaceRanges env out frag (p # ps) s =
     (if \<not> intervalOverlaps (<) (crRange p) out then replaceRanges env out frag ps s
      else bind_res (dagReplaceFragments env (intervalClip (<) out (<) (crRange p)) (crFragments p) frag s)
             (replaceRanges env out frag ps))"

definition finalizeOutput ::
  "Fragments \<Rightarrow> (Cell list \<Rightarrow> string result) \<Rightarrow> (string \<Rightarrow> nat result) \<Rightarrow> (Cell list \<Rightarrow> 64 word) \<Rightarrow> CompactRange list \<Rightarrow>
     CompactionOutput \<times> Server \<Rightarrow> (CompactionOutput \<times> Server) result" where
  "finalizeOutput env writer loader writerSize rangeMap = (\<lambda>(o1, s).
     bind_res (writer (written o1)) (\<lambda>uri.
     bind_res (loader uri) (\<lambda>frag.
     bind_res (track (getDiskUri env frag) (tracker (world s))) (\<lambda>tr.
     bind_res (replaceRanges env (outputRange o1) frag rangeMap (s\<lparr>world := (world s)\<lparr>tracker := tr\<rparr>\<rparr>)) (\<lambda>s1.
     let s2 = s1\<lparr>world := updateTracker (release (getDiskUri env frag)) (world s1)\<rparr>;
         o2 = o1\<lparr>outputSize := outputSize o1 + writerSize (written o1), outputFragments := outputFragments o1 + 1,
                 outputOpen := False, readyToSplit := False, written := []\<rparr>
     in if pointIsFinite (upperBound (outputRange o1)) then
          bind_res (getAdjacentComplement (upperBound (outputRange o1))) (\<lambda>c.
          bind_res (setLowerBoundPoint c (outputRange o1)) (\<lambda>r.
            Inr (o2\<lparr>outputRange := setUpperBound [] BT_INFINITE r\<rparr>, s2)))
        else Inr (o2, s2))))))"

text \<open>Choosing the end of an output: the end of the first range that does not lie below the row.\<close>

definition splitOutput :: "CompactRange list \<Rightarrow> Cell \<Rightarrow> CompactionOutput \<Rightarrow> CompactionOutput result" where
  "splitOutput rangeMap x o1 =
     bind_res
       (case dropWhile (\<lambda>p. pointLt (<) (upperBound (crRange p)) (mk_point (getRow x) PT_POINT)) rangeMap of
          [] \<Rightarrow> Inr (unsetUpperBound [] (outputRange o1))
        | p # ps \<Rightarrow> setUpperBoundPoint (upperBound (crRange p)) (outputRange o1))
       (\<lambda>r. Inr (o1\<lparr>outputRange := r, readyToSplit := True\<rparr>))"

text \<open>Adding a cell, after the output was split if that was due.\<close>

definition outputAdd ::
  "(Cell list \<Rightarrow> 64 word) \<Rightarrow> CompactRange list \<Rightarrow> Cell \<Rightarrow> CompactionOutput \<Rightarrow> CompactionOutput result" where
  "outputAdd writerSize rangeMap x o1 =
     (let o2 = (if outputOpen o1 then o1 else o1\<lparr>outputOpen := True, written := []\<rparr>);
          o3 = o2\<lparr>written := written o2 @ [x]\<rparr>
      in if \<not> readyToSplit o3 \<and> OUTPUT_SPLIT_SIZE < writerSize (written o3) then splitOutput rangeMap x o3 else Inr o3)"

definition outputPut ::
  "Fragments \<Rightarrow> (Cell list \<Rightarrow> string result) \<Rightarrow> (string \<Rightarrow> nat result) \<Rightarrow> (Cell list \<Rightarrow> 64 word) \<Rightarrow> CompactRange list \<Rightarrow>
     Cell \<Rightarrow> CompactionOutput \<times> Server \<Rightarrow> (CompactionOutput \<times> Server) result" where
  "outputPut env writer loader writerSize rangeMap x = (\<lambda>(o1, s).
     bind_res
       (if readyToSplit o1 \<and> pointValueLt (<) (upperBound (outputRange o1)) (getRow x)
        then finalizeOutput env writer loader writerSize rangeMap (o1, s) else Inr (o1, s))
       (\<lambda>(o2, s2). bind_res (outputAdd writerSize rangeMap x o2) (\<lambda>o3. Inr (o3, s2))))"

definition outputFlush ::
  "Fragments \<Rightarrow> (Cell list \<Rightarrow> string result) \<Rightarrow> (string \<Rightarrow> nat result) \<Rightarrow> (Cell list \<Rightarrow> 64 word) \<Rightarrow> CompactRange list \<Rightarrow>
     string IntervalPoint \<Rightarrow> CompactionOutput \<times> Server \<Rightarrow> (CompactionOutput \<times> Server) result" where
  "outputFlush env writer loader writerSize rangeMap outputUpperBound = (\<lambda>(o1, s).
     if outputOpen o1 then
       bind_res (setUpperBoundPoint outputUpperBound (outputRange o1)) (\<lambda>r.
         finalizeOutput env writer loader writerSize rangeMap (o1\<lparr>outputRange := r\<rparr>, s))
     else Inr (o1, s))"

subsection \<open>Compaction\<close>

definition getAllFragments :: "CompactionList list \<Rightarrow> nat set" where
  "getAllFragments cs = (\<Union>c\<in>set cs. set (cl_fragments c))"

definition makeRange :: "Fragments \<Rightarrow> Server \<Rightarrow> CompactionList \<Rightarrow> CompactRange result" where
  "makeRange env s c =
     bind_res (derefTablet (cl_tablet c) s) (\<lambda>t.
     bind_res (getRows t) (\<lambda>r.
       case cl_fragments c of
         [] \<Rightarrow> Inl (Undefined ''front of an empty vector'')
       | f # fs \<Rightarrow>
           bind_res (getParent env f t) (\<lambda>parent.
             Inr \<lparr>crRange = r, crFragments = f # fs, crRooted = (parent = None)\<rparr>)))"

text \<open>The ranges in which each fragment is compacted.\<close>

definition addFragmentRange ::
  "string Interval \<Rightarrow> nat \<Rightarrow> (nat, string IntervalSet) omap \<Rightarrow> (nat, string IntervalSet) omap" where
  "addFragmentRange r f m = mapPut f (isetAdd (<) r (mapAt IntervalSet0 f m)) m"

definition invertRanges :: "CompactRange list \<Rightarrow> (nat, string IntervalSet) omap" where
  "invertRanges rangeMap = fold (\<lambda>p. fold (addFragmentRange (crRange p)) (crFragments p)) rangeMap []"

fun openInputs ::
  "Fragments \<Rightarrow> (nat, string IntervalSet) omap \<Rightarrow> (nat, CellCutoff) omap result" where
  "openInputs env [] = Inr []"
| "openInputs env ((f, activeRows) # m) =
     bind_res (getDiskSizeSet env f activeRows) (\<lambda>restrictedSize.
     bind_res (fragmentScan env f (setRowPredicate activeRows ScanPredicate0)) (\<lambda>cs.
     bind_res (openInputs env m) (\<lambda>inputs.
       Inr ((f, makeCutoff cs) # inputs))))"

text \<open>
  The merge of a range reads each input to its end at the cutoff; no fragment occurs twice in a
  sequence.
\<close>

fun readInputs ::
  "string IntervalPoint \<Rightarrow> nat list \<Rightarrow> (nat, CellCutoff) omap \<Rightarrow> (Cell list list \<times> (nat, CellCutoff) omap) result" where
  "readInputs p [] m = Inr ([], m)"
| "readInputs p (f # fs) m =
     (case mapFind f m of
        None \<Rightarrow> Inl (Undefined ''null input stream'')
      | Some c \<Rightarrow>
          let (xs, c') = cutoffDrain (setCutoff p c)
          in bind_res (readInputs p fs (mapPut f c' m)) (\<lambda>(xss, m'). Inr (xs # xss, m')))"

fun putAll ::
  "Fragments \<Rightarrow> (Cell list \<Rightarrow> string result) \<Rightarrow> (string \<Rightarrow> nat result) \<Rightarrow> (Cell list \<Rightarrow> 64 word) \<Rightarrow> CompactRange list \<Rightarrow>
     Cell list \<Rightarrow> CompactionOutput \<times> Server \<Rightarrow> (CompactionOutput \<times> Server) result" where
  "putAll env writer loader writerSize rangeMap [] st = Inr st"
| "putAll env writer loader writerSize rangeMap (x # xs) st =
     bind_res (outputPut env writer loader writerSize rangeMap x st) (putAll env writer loader writerSize rangeMap xs)"

definition compactOne ::
  "Fragments \<Rightarrow> (Cell list \<Rightarrow> string result) \<Rightarrow> (string \<Rightarrow> nat result) \<Rightarrow> (Cell list \<Rightarrow> 64 word) \<Rightarrow> CompactRange list \<Rightarrow>
     CompactRange \<Rightarrow> (nat, CellCutoff) omap \<times> CompactionOutput \<times> Server \<Rightarrow>
     ((nat, CellCutoff) omap \<times> CompactionOutput \<times> Server) result" where
  "compactOne env writer loader writerSize rangeMap p = (\<lambda>(m, o1, s).
     bind_res (readInputs (upperBound (crRange p)) (rev (crFragments p)) m) (\<lambda>(xss, m1).
     let merged = cellMerge (makeCell [] [] 0 []) (crRooted p) xss
     in bind_res (putAll env writer loader writerSize rangeMap merged (o1, s)) (\<lambda>(o2, s2).
        if merged = [] then
          bind_res (dagRemoveFragments env (crRange p) (crFragments p) s2) (\<lambda>s3. Inr (m1, o2, s3))
        else Inr (m1, o2, s2))))"

text \<open>
  The loop hands over the ranges that are left when the outputs have become too large, or nothing
  when it was cancelled.
\<close>

fun compactRanges ::
  "Fragments \<Rightarrow> (Cell list \<Rightarrow> string result) \<Rightarrow> (string \<Rightarrow> nat result) \<Rightarrow> (Cell list \<Rightarrow> 64 word) \<Rightarrow> (nat \<Rightarrow> bool) \<Rightarrow>
     CompactRange list \<Rightarrow> CompactRange list \<Rightarrow> (nat, CellCutoff) omap \<times> CompactionOutput \<times> Server \<Rightarrow>
     (CompactRange list option \<times> CompactionOutput \<times> Server) result" where
  "compactRanges env writer loader writerSize cancels rangeMap [] (m, o1, s) = Inr (Some [], o1, s)"
| "compactRanges env writer loader writerSize cancels rangeMap (p # ps) (m, o1, s) =
     (if \<not> outputSize o1 < MAX_OUTPUT_SIZE then Inr (Some (p # ps), o1, s)
      else if cancels (length ps) then Inr (None, o1, s)
      else bind_res (compactOne env writer loader writerSize rangeMap p (m, o1, s))
             (compactRanges env writer loader writerSize cancels rangeMap ps))"

definition lastUpperBound :: "CompactRange list \<Rightarrow> string IntervalPoint result" where
  "lastUpperBound rest =
     (case rest of
        [] \<Rightarrow> Inr (mk_point [] PT_INFINITE_UPPER_BOUND)
      | p # ps \<Rightarrow> getAdjacentComplement (lowerBound (crRange p)))"

definition compact ::
  "Fragments \<Rightarrow> (string \<Rightarrow> Cell list \<Rightarrow> string result) \<Rightarrow> (string \<Rightarrow> nat result) \<Rightarrow> (Cell list \<Rightarrow> 64 word) \<Rightarrow>
     ((CompactRange \<Rightarrow> CompactRange \<Rightarrow> bool) \<Rightarrow> CompactRange list \<Rightarrow> CompactRange list) \<Rightarrow> (nat \<Rightarrow> bool) \<Rightarrow>
     CompactionList list \<Rightarrow> Server \<Rightarrow> Server result" where
  "compact env writer loader writerSize sorter cancels compactions s =
     bind_res (case compactions of [] \<Rightarrow> Inr [] | c # cs \<Rightarrow>
                 bind_res (derefTablet (cl_tablet c) s) (\<lambda>t. Inr (tableName t))) (\<lambda>table.
     bind_res (map_res (\<lambda>f. getActiveSize env (tabletAt s) f (dag s)) (elems (getAllFragments compactions))) (\<lambda>inputSizes.
     bind_res (map_res (makeRange env s) compactions) (\<lambda>ranges.
     if ranges = [] then Inl (ValueError ''fragment set contained no compactible sequences'')
     else
       let rangeMap = sorter compactRangeLt ranges
       in bind_res (openInputs env (invertRanges rangeMap)) (\<lambda>inputs.
          bind_res (compactRanges env (writer table) loader writerSize cancels rangeMap rangeMap (inputs, CompactionOutput0, s))
            (\<lambda>(rest, o1, s1).
              case rest of
                None \<Rightarrow> Inr s1
              | Some ps \<Rightarrow>
                  bind_res (lastUpperBound ps) (\<lambda>b.
                  bind_res (outputFlush env (writer table) loader writerSize rangeMap b (o1, s1)) (\<lambda>(o2, s2).
                    Inr (s2\<lparr>dag := sweepGraph (dag s2)\<rparr>))))))))"

end
