(* ===== verification/CompactSplice.thy ===== *)
theory CompactSplice
  imports Compactor
begin

section \<open>What a compaction does to the tablets\<close>

text \<open>
  The tablets of a compaction, one for each range of the range map, and what the compaction
  relies on: each holds its sequence in the chain and in the graph, the statistics of the
  fragments are cached, and no other tablet that holds the sequence lies in the range.
\<close>

abbreviation rangeOf :: "CompactRange list \<Rightarrow> nat \<Rightarrow> string Interval" where
  "rangeOf ps i \<equiv> crRange (ps ! i)"

abbreviation adjOf :: "CompactRange list \<Rightarrow> nat \<Rightarrow> nat list" where
  "adjOf ps i \<equiv> crFragments (ps ! i)"

definition compactReady :: "Fragments \<Rightarrow> nat list \<Rightarrow> nat list \<Rightarrow> CompactRange list \<Rightarrow> Server \<Rightarrow> bool" where
  "compactReady env F own ps s \<longleftrightarrow> graphReady env F s \<and> length own = length ps \<and> distinct own \<and>
     (\<forall>i<length ps. replaceable env (adjOf ps i) s (own ! i) \<and> rangeOf ps i = tabletRange (tabletAt s (own ! i)) \<and>
        adjOf ps i \<noteq> [] \<and> set (adjOf ps i) \<subseteq> set F \<and> (\<forall>f\<in>set (adjOf ps i). (own ! i, f) \<in> edges (dag s)) \<and>
        \<not> pointLt (<) (upperBound (rangeOf ps i)) (lowerBound (rangeOf ps i)) \<and>
        (\<forall>u. (\<forall>f\<in>set (adjOf ps i). (u, f) \<in> edges (dag s)) \<longrightarrow>
           intervalContainsInterval (<) (rangeOf ps i) (tabletRange (tabletAt s u)) \<longrightarrow> u = own ! i)) \<and>
     (\<forall>(u, f)\<in>edges (dag s). f \<in> set F \<longrightarrow> (\<exists>x. mapFind u (tablets s) = Some x \<and> tablet_wf x))"

text \<open>
  The state of the tablets after some of the replacements: \<open>res i\<close> says whether the sequence of
  the \<open>i\<close>th range was replaced, and by what.
\<close>

definition rangeState ::
  "Fragments \<Rightarrow> nat list \<Rightarrow> CompactRange list \<Rightarrow> Server \<Rightarrow> Server \<Rightarrow> nat \<Rightarrow> nat option option \<Rightarrow> bool" where
  "rangeState env own ps s0 s i r \<longleftrightarrow> (case r of
      None \<Rightarrow> tabletAt s (own ! i) = tabletAt s0 (own ! i) \<and> (\<forall>f\<in>set (adjOf ps i). (own ! i, f) \<in> edges (dag s))
    | Some new \<Rightarrow> splicedAt env (adjOf ps i) new (tabletAt s0 (own ! i)) (tabletAt s (own ! i)) \<and>
        (\<forall>f\<in>set (adjOf ps i). (own ! i, f) \<notin> edges (dag s)))"

definition compactState ::
  "Fragments \<Rightarrow> nat list \<Rightarrow> nat list \<Rightarrow> CompactRange list \<Rightarrow> Server \<Rightarrow> (nat \<Rightarrow> nat option option) \<Rightarrow> Server \<Rightarrow> bool" where
  "compactState env F own ps s0 res s \<longleftrightarrow> graphReady env F s \<and> sameTablets s0 s \<and>
     (\<forall>u. u \<notin> set own \<longrightarrow> tabletAt s u = tabletAt s0 u) \<and>
     (\<forall>i<length ps. rangeState env own ps s0 s i (res i)) \<and>
     (\<forall>(u, f)\<in>edges (dag s). f \<in> set F \<longrightarrow> (u, f) \<in> edges (dag s0))"

lemma compactState_at: "compactState env F own ps s0 res s \<Longrightarrow> i < length ps \<Longrightarrow> rangeState env own ps s0 s i (res i)"
  by (simp add: compactState_def)

lemma rangeState_simps:
  "rangeState env own ps s0 s i None \<longleftrightarrow>
     tabletAt s (own ! i) = tabletAt s0 (own ! i) \<and> (\<forall>f\<in>set (adjOf ps i). (own ! i, f) \<in> edges (dag s))"
  "rangeState env own ps s0 s i (Some new) \<longleftrightarrow>
     splicedAt env (adjOf ps i) new (tabletAt s0 (own ! i)) (tabletAt s (own ! i)) \<and>
        (\<forall>f\<in>set (adjOf ps i). (own ! i, f) \<notin> edges (dag s))"
  by (simp_all add: rangeState_def)

lemma sameTablets_refl: "sameTablets s s"
  by (simp add: sameTablets_def)

lemma compactState_start: "compactReady env F own ps s \<Longrightarrow> compactState env F own ps s (\<lambda>i. None) s"
  by (auto simp: compactReady_def compactState_def sameTablets_refl rangeState_simps)

lemma compactState_world [simp]:
  "compactState env F own ps s0 res (s\<lparr>world := w\<rparr>) = compactState env F own ps s0 res s"
proof -
  have "tabletAt (s\<lparr>world := w\<rparr>) = tabletAt s" by (simp add: tabletAt_def fun_eq_iff)
  moreover from this have "rangeState env own ps s0 (s\<lparr>world := w\<rparr>) i r = rangeState env own ps s0 s i r" for i r
    by (cases r) (simp_all add: rangeState_simps)
  ultimately show ?thesis by (simp add: compactState_def graphReady_def sameTablets_def)
qed

lemma range_kept:
  assumes "compactState env F own ps s0 res s" "length own = length ps"
  shows "tabletRange (tabletAt s u) = tabletRange (tabletAt s0 u)"
proof (cases "u \<in> set own")
  case True
  then obtain i where i: "i < length ps" "u = own ! i" using assms(2) by (auto simp: in_set_conv_nth)
  show ?thesis
    using compactState_at [OF assms(1) i(1)] i(2)
    by (cases "res i") (auto simp: rangeState_simps tabletRange_def dest: splicedAt_range)
next
  case False
  then show ?thesis using assms(1) unfolding compactState_def by metis
qed

text \<open>The tablets over which the graph's loop goes for the \<open>i\<close>th sequence.\<close>

lemma active_of_range:
  assumes ready: "compactReady env F own ps s0" and st: "compactState env F own ps s0 res s" and i: "i < length ps"
    and adj: "adj = adjOf ps i" and r: "r = rangeOf ps i"
  defines "A \<equiv> getActiveTabletIntersection adj (dag s)"
  shows "finite A" "\<forall>u\<in>A. replaceableIn env r adj s u"
    "{u \<in> A. intervalContainsInterval (<) r (tabletRange (tabletAt s u))} = (if res i = None then {own ! i} else {})"
proof -
  have l: "length own = length ps" using ready by (simp add: compactReady_def)
  have R: "replaceable env adj s0 (own ! i)" "r = tabletRange (tabletAt s0 (own ! i))" "adj \<noteq> []" "set adj \<subseteq> set F"
    "\<not> pointLt (<) (upperBound r) (lowerBound r)"
    "\<And>u. (\<forall>f\<in>set adj. (u, f) \<in> edges (dag s0)) \<Longrightarrow>
      intervalContainsInterval (<) r (tabletRange (tabletAt s0 u)) \<Longrightarrow> u = own ! i"
    using ready i unfolding compactReady_def adj r by blast+
  have A: "A = {u. \<forall>f\<in>set adj. (u, f) \<in> edges (dag s)}" unfolding A_def by (rule activeIntersection [OF R(3)])
  have inv: "dag_inv (dag s)" using st by (simp add: compactState_def graphReady_def)
  obtain f where f: "f \<in> set adj" using R(3) by (cases adj) auto
  then have "A \<subseteq> tabletsOf (dag s) f" unfolding A by (auto simp: edges_def)
  then show "finite A" using inv finite_subset unfolding dag_inv_def by blast
  have old: "(u, g) \<in> edges (dag s0)" if "u \<in> A" "g \<in> set adj" for u g
    using st that R(4) unfolding compactState_def A by blast
  have only: "u = own ! i" if "u \<in> A" "intervalContainsInterval (<) r (tabletRange (tabletAt s u))" for u
    using R(6) [of u] old that unfolding range_kept [OF st l] by blast
  have self: "intervalContainsInterval (<) r (tabletRange (tabletAt s (own ! i)))"
    unfolding range_kept [OF st l] R(2) [symmetric] using R(5) by (simp add: intervalContainsInterval_def)
  have mem: "own ! i \<in> A \<longleftrightarrow> res i = None"
  proof -
    have "rangeState env own ps s0 s i (res i)" using compactState_at [OF st i] .
    then have "if res i = None then \<forall>g\<in>set adj. (own ! i, g) \<in> edges (dag s) else \<forall>g\<in>set adj. (own ! i, g) \<notin> edges (dag s)"
      unfolding adj by (cases "res i") (simp_all add: rangeState_simps)
    then show ?thesis using f unfolding A by (cases "res i = None") auto
  qed
  show "{u \<in> A. intervalContainsInterval (<) r (tabletRange (tabletAt s u))} = (if res i = None then {own ! i} else {})"
  proof (cases "res i = None")
    case True
    then have "own ! i \<in> A" using mem by simp
    then have "{u \<in> A. intervalContainsInterval (<) r (tabletRange (tabletAt s u))} = {own ! i}" using only self by blast
    then show ?thesis using True by simp
  next
    case False
    then have "own ! i \<notin> A" using mem by simp
    then have "{u \<in> A. intervalContainsInterval (<) r (tabletRange (tabletAt s u))} = {}" using only by blast
    then show ?thesis by (simp only: False if_False)
  qed
  show "\<forall>u\<in>A. replaceableIn env r adj s u"
  proof
    fix u assume u: "u \<in> A"
    obtain x0 where x0: "mapFind u (tablets s0) = Some x0" "tablet_wf x0"
      using ready old [OF u f] f R(4) unfolding compactReady_def by blast
    obtain x where x: "mapFind u (tablets s) = Some x"
      using st x0(1) unfolding compactState_def sameTablets_def by (metis not_None_eq option.distinct(1))
    have at: "tabletAt s u = x" "tabletAt s0 u = x0" using find_at [OF x] find_at [OF x0(1)] .
    have wf: "tablet_wf x" using x0(2) range_kept [OF st l, of u] at by (simp add: tablet_wf_def)
    have "replaceable env adj s u" if "intervalContainsInterval (<) r (tabletRange x)"
    proof -
      have "u = own ! i" using only [OF u] that at by simp
      then have "tabletAt s u = tabletAt s0 u" using mem u compactState_at [OF st i] by (simp add: rangeState_simps)
      then have "x = x0" using at by simp
      moreover obtain y where "mapFind u (tablets s0) = Some y" "segment adj (fragments y)" "distinct (fragments y)"
        using R(1) \<open>u = own ! i\<close> unfolding replaceable_def by blast
      ultimately show ?thesis using x x0 wf unfolding replaceable_def by auto
    qed
    then show "replaceableIn env r adj s u" using x wf unfolding replaceableIn_def by blast
  qed
qed

text \<open>One replacement, or removal, in a range.\<close>

definition recorded :: "nat \<Rightarrow> nat option \<Rightarrow> (nat \<Rightarrow> nat option option) \<Rightarrow> nat \<Rightarrow> nat option option" where
  "recorded i new res = (if res i = None then res(i := Some new) else res)"

lemma compact_step:
  assumes ready: "compactReady env F own ps s0" and st: "compactState env F own ps s0 res s" and i: "i < length ps"
    and new: "\<forall>f\<in>set (optList new). f \<notin> set F"
  shows "\<exists>s'. replaceLoop env (rangeOf ps i) (adjOf ps i) new (elems (getActiveTabletIntersection (adjOf ps i) (dag s))) s = Inr s' \<and>
    compactState env F own ps s0 (recorded i new res) s'"
proof -
  let ?adj = "adjOf ps i" and ?r = "rangeOf ps i"
  let ?A = "getActiveTabletIntersection ?adj (dag s)"
  note A = active_of_range [OF ready st i refl refl]
  have el: "set (elems ?A) = ?A" "distinct (elems ?A)" using A(1) by (simp_all add: elems_def)
  have rep: "\<forall>u\<in>set (elems ?A). replaceableIn env ?r ?adj s u" using A(2) el(1) by simp
  have adj: "set ?adj \<subseteq> set F" "?adj \<noteq> []" using ready i by (auto simp: compactReady_def)
  have own: "length own = length ps" "distinct own" using ready by (auto simp: compactReady_def)
  have gr: "graphReady env F s" using st by (simp add: compactState_def)
  let ?T = "if res i = None then {own ! i} else {}"
  obtain s' where s': "replaceLoop env ?r ?adj new (elems ?A) s = Inr s'" "graphReady env F s'" "sameTablets s s'"
    "edges (dag s') = movedEdges ?adj new ?T (edges (dag s))"
    "\<And>u. if u \<in> ?T then splicedAt env ?adj new (tabletAt s u) (tabletAt s' u) else tabletAt s' u = tabletAt s u"
    using replaceLoop_ok [OF adj new gr rep el(2)] unfolding Let_def el(1) A(3) by blast
  have "compactState env F own ps s0 (recorded i new res) s'"
  proof (cases "res i = None")
    case False
    then have none: "?T = {}" by simp
    have e: "edges (dag s') = edges (dag s)" "tabletAt s' = tabletAt s" "recorded i new res = res"
      using s'(4,5) False unfolding none by (simp_all add: movedEdges_def recorded_def fun_eq_iff)
    show ?thesis
      using st s'(2) sameTablets_trans [OF _ s'(3)] unfolding compactState_def rangeState_def e by blast
  next
    case True
    then have one: "?T = {own ! i}" by simp
    have e: "edges (dag s') = (edges (dag s) - {own ! i} \<times> set ?adj) \<union> {own ! i} \<times> set (optList new)"
      using s'(4) unfolding one by (simp add: movedEdges_def)
    have at: "tabletAt s' u = tabletAt s u" if "u \<noteq> own ! i" for u using s'(5) [of u] that unfolding one by simp
    have spl: "splicedAt env ?adj new (tabletAt s (own ! i)) (tabletAt s' (own ! i))" using s'(5) [of "own ! i"] unfolding one by simp
    have old: "tabletAt s (own ! i) = tabletAt s0 (own ! i)" using compactState_at [OF st i] True by (simp add: rangeState_simps)
    have ne: "own ! j \<noteq> own ! i" if "j < length ps" "j \<noteq> i" for j
      using own that i nth_eq_iff_index_eq by metis
    have "rangeState env own ps s0 s' j (recorded i new res j)" if j: "j < length ps" for j
    proof (cases "j = i")
      case True
      then show ?thesis using spl old new adj(1) \<open>res i = None\<close> by (auto simp: recorded_def rangeState_simps e)
    next
      case False
      have "rangeState env own ps s0 s j (res j)" using compactState_at [OF st j] .
      then show ?thesis
        using ne [OF j False] at [OF ne [OF j False]] False
        by (cases "res j") (auto simp: recorded_def rangeState_simps e)
    qed
    moreover have "tabletAt s' u = tabletAt s0 u" if "u \<notin> set own" for u
      using st that at [of u] i own(1) unfolding compactState_def by (metis nth_mem)
    moreover have "(u, f) \<in> edges (dag s0)" if "(u, f) \<in> edges (dag s')" "f \<in> set F" for u f
      using st that new unfolding compactState_def e by blast
    moreover have "sameTablets s0 s'" using st sameTablets_trans s'(3) unfolding compactState_def by blast
    ultimately show ?thesis using s'(2) unfolding compactState_def by blast
  qed
  then show ?thesis using s'(1) by blast
qed

lemma dag_step:
  assumes "compactReady env F own ps s0" "compactState env F own ps s0 res s" "i < length ps"
  shows "f \<notin> set F \<Longrightarrow> \<exists>s'. dagReplaceFragments env (rangeOf ps i) (adjOf ps i) f s = Inr s' \<and>
      compactState env F own ps s0 (recorded i (Some f) res) s'"
    and "\<exists>s'. dagRemoveFragments env (rangeOf ps i) (adjOf ps i) s = Inr s' \<and>
      compactState env F own ps s0 (recorded i None res) s'"
  using compact_step [OF assms, of "Some f"] compact_step [OF assms, of None] assms(1,3)
  by (auto simp: compactReady_def dagReplaceFragments_def dagRemoveFragments_def optList_def)

text \<open>A finished output.\<close>

lemma replaceRanges_ok:
  assumes ready: "compactReady env F own ps s0" and f: "f \<notin> set F"
    and clip: "\<And>i. i < length ps \<Longrightarrow> intervalOverlaps (<) (rangeOf ps i) out \<Longrightarrow> intervalClip (<) out (<) (rangeOf ps i) = rangeOf ps i"
  shows "k \<le> length ps \<Longrightarrow> compactState env F own ps s0 res s \<Longrightarrow>
    \<exists>s'. replaceRanges env out f (drop k ps) s = Inr s' \<and>
      compactState env F own ps s0
        (\<lambda>i. if k \<le> i \<and> i < length ps \<and> intervalOverlaps (<) (rangeOf ps i) out \<and> res i = None then Some (Some f) else res i) s'"
proof (induction "length ps - k" arbitrary: k res s)
  case 0
  then have "(\<lambda>i. if k \<le> i \<and> i < length ps \<and> intervalOverlaps (<) (rangeOf ps i) out \<and> res i = None then Some (Some f) else res i) = res"
    by auto
  then show ?case using 0 by simp
next
  case (Suc n)
  then have k: "k < length ps" and d: "drop k ps = ps ! k # drop (Suc k) ps" by (auto simp: Cons_nth_drop_Suc)
  have n: "n = length ps - Suc k" using Suc.hyps(2) by simp
  show ?case
  proof (cases "intervalOverlaps (<) (rangeOf ps k) out")
    case False
    obtain s' where s': "replaceRanges env out f (drop (Suc k) ps) s = Inr s'"
      "compactState env F own ps s0 (\<lambda>i. if Suc k \<le> i \<and> i < length ps \<and> intervalOverlaps (<) (rangeOf ps i) out \<and> res i = None
        then Some (Some f) else res i) s'"
      using Suc.hyps(1) [OF n, of res s] Suc.prems(2) k by auto
    have "(\<lambda>i. if Suc k \<le> i \<and> i < length ps \<and> intervalOverlaps (<) (rangeOf ps i) out \<and> res i = None then Some (Some f) else res i) =
      (\<lambda>i. if k \<le> i \<and> i < length ps \<and> intervalOverlaps (<) (rangeOf ps i) out \<and> res i = None then Some (Some f) else res i)"
      using False by (auto simp: fun_eq_iff le_less Suc_le_eq)
    then show ?thesis using s' d False by simp
  next
    case True
    obtain s1 where s1: "dagReplaceFragments env (rangeOf ps k) (adjOf ps k) f s = Inr s1"
      "compactState env F own ps s0 (recorded k (Some f) res) s1"
      using dag_step(1) [OF ready Suc.prems(2) k f] by blast
    let ?res = "recorded k (Some f) res"
    obtain s' where s': "replaceRanges env out f (drop (Suc k) ps) s1 = Inr s'"
      "compactState env F own ps s0 (\<lambda>i. if Suc k \<le> i \<and> i < length ps \<and> intervalOverlaps (<) (rangeOf ps i) out \<and> ?res i = None
        then Some (Some f) else ?res i) s'"
      using Suc.hyps(1) [OF n, of ?res s1] s1(2) k by auto
    have "(\<lambda>i. if Suc k \<le> i \<and> i < length ps \<and> intervalOverlaps (<) (rangeOf ps i) out \<and> ?res i = None then Some (Some f) else ?res i) =
      (\<lambda>i. if k \<le> i \<and> i < length ps \<and> intervalOverlaps (<) (rangeOf ps i) out \<and> res i = None then Some (Some f) else res i)"
      using True k by (auto simp: fun_eq_iff le_less Suc_le_eq recorded_def)
    then show ?thesis using s' s1 d True clip [OF k True] by simp
  qed
qed

end
