(* ===== verification/CompactData.thy ===== *)
theory CompactData
  imports CompactSplice
begin

section \<open>What a compaction reads and writes\<close>

text \<open>
  The cutoff adapter delivers its input up to the cutoff and keeps the rest; the inputs of a
  compaction, cut off at the ends of the ranges in order, are each fragment's cells in each range,
  and their merge is the content that stands for a sequence in that range.
\<close>

subsection \<open>Reading up to a cutoff\<close>

definition cutRest :: "CellCutoff \<Rightarrow> Cell list" where
  "cutRest c = (case cutCurrent c of None \<Rightarrow> [] | Some x \<Rightarrow> [x]) @ cutInput c"

lemma cutoffGet_rest:
  assumes "cutPoint c = Some p"
  shows "case cutRest c of
      [] \<Rightarrow> cutoffGet c = (c, None)
    | x # xs \<Rightarrow> if cellRowCutoff x p
        then \<exists>c'. cutoffGet c = (c', Some x) \<and> cutRest c' = xs \<and> cutPoint c' = Some p
        else \<exists>c'. cutoffGet c = (c', None) \<and> cutRest c' = x # xs \<and> cutPoint c' = Some p"
  using assms by (cases "cutCurrent c"; cases "cutInput c") (auto simp: cutoffGet_def cutRest_def Let_def)

lemma cutoffDrain_rest:
  "cutPoint c = Some p \<Longrightarrow> \<exists>c'. cutoffDrain c = (takeWhile (\<lambda>x. cellRowCutoff x p) (cutRest c), c') \<and>
     cutRest c' = dropWhile (\<lambda>x. cellRowCutoff x p) (cutRest c) \<and> cutPoint c' = Some p"
proof (induction "length (cutRest c)" arbitrary: c)
  case 0
  then show ?case using cutoffGet_rest [OF 0(2)] by (subst cutoffDrain.simps) simp
next
  case (Suc n)
  then obtain x xs where x: "cutRest c = x # xs" by (metis Suc_length_conv)
  show ?case
  proof (cases "cellRowCutoff x p")
    case True
    obtain c' where c': "cutoffGet c = (c', Some x)" "cutRest c' = xs" "cutPoint c' = Some p"
      using cutoffGet_rest [OF Suc(3)] x True by auto
    then obtain c'' where "cutoffDrain c' = (takeWhile (\<lambda>x. cellRowCutoff x p) xs, c'')"
      "cutRest c'' = dropWhile (\<lambda>x. cellRowCutoff x p) xs" "cutPoint c'' = Some p"
      using Suc(1) [of c'] Suc(2) x by auto
    then show ?thesis using c'(1) x True by (subst cutoffDrain.simps) simp
  next
    case False
    obtain c' where "cutoffGet c = (c', None)" "cutRest c' = x # xs" "cutPoint c' = Some p"
      using cutoffGet_rest [OF Suc(3)] x False by auto
    then show ?thesis using x False by (subst cutoffDrain.simps) simp
  qed
qed

lemma while_filter:
  assumes "sorted_wrt R ys" "\<And>a b. R a b \<Longrightarrow> P b \<Longrightarrow> P a"
  shows "takeWhile P ys = filter P ys \<and> dropWhile P ys = filter (\<lambda>x. \<not> P x) ys"
  using assms(1)
proof (induction ys)
  case (Cons y ys)
  show ?case
  proof (cases "P y")
    case False
    then have "\<forall>x\<in>set ys. \<not> P x" using Cons.prems assms(2) by fastforce
    then show ?thesis using False by (simp add: filter_empty_conv)
  qed (use Cons in simp)
qed simp

subsection \<open>Ranges in order\<close>

text \<open>The ranges of the range map, sorted by their ends, lie apart.\<close>

definition rangesApart :: "CompactRange list \<Rightarrow> bool" where
  "rangesApart ps \<longleftrightarrow> (\<forall>i<length ps. interval_wf (rangeOf ps i) \<and> pointLt (<) (lowerBound (rangeOf ps i)) (upperBound (rangeOf ps i)) \<and>
     (\<forall>j<i. pointLt (<) (upperBound (rangeOf ps j)) (lowerBound (rangeOf ps i))))"

abbreviation inRange :: "CompactRange list \<Rightarrow> nat \<Rightarrow> Cell \<Rightarrow> bool" where
  "inRange ps i c \<equiv> intervalContains (<) (rangeOf ps i) (getRow c)"

lemma inRange_points:
  "inRange ps i c \<longleftrightarrow> pointLt (<) (lowerBound (rangeOf ps i)) (mk_point (getRow c) PT_POINT) \<and>
     pointLt (<) (mk_point (getRow c) PT_POINT) (upperBound (rangeOf ps i))"
  by (simp add: intervalContains_points)

lemma cutoff_points: "cellRowCutoff c p \<longleftrightarrow> pointLt (<) (mk_point (getRow c) PT_POINT) p"
  by (simp add: cellRowCutoff_def pointLt_value)

lemma later_range:
  assumes "rangesApart ps" "i < j" "j < length ps" "inRange ps j c"
  shows "pointLt (<) (upperBound (rangeOf ps i)) (mk_point (getRow c) PT_POINT)" "\<not> inRange ps i c"
    "\<not> cellRowCutoff c (upperBound (rangeOf ps i))"
proof -
  have "pointLt (<) (upperBound (rangeOf ps i)) (lowerBound (rangeOf ps j))" using assms(1-3) by (simp add: rangesApart_def)
  moreover have "pointLt (<) (lowerBound (rangeOf ps j)) (mk_point (getRow c) PT_POINT)" using assms(4) by (simp add: inRange_points)
  ultimately show lt: "pointLt (<) (upperBound (rangeOf ps i)) (mk_point (getRow c) PT_POINT)" by (rule std_less.pointLt_trans)
  show "\<not> inRange ps i c" "\<not> cellRowCutoff c (upperBound (rangeOf ps i))"
    using std_less.pointLt_asym [OF lt] by (simp_all add: inRange_points cutoff_points)
qed

lemma row_less_key: "cellKey a < cellKey b \<Longrightarrow> getRow a \<le> getRow b"
  by (auto simp: cellKey_def less_prod_def')

lemma cutoff_mono: "cellKey a < cellKey b \<Longrightarrow> cellRowCutoff b p \<Longrightarrow> cellRowCutoff a p"
proof -
  assume "cellKey a < cellKey b" and b: "cellRowCutoff b p"
  then have "getRow a \<le> getRow b" using row_less_key by blast
  then have "\<not> pointLt (<) (mk_point (getRow b) PT_POINT) (mk_point (getRow a) PT_POINT)"
    by (auto simp: pointLt_def isLess_def point_type_defs)
  then show "cellRowCutoff a p" using b unfolding cutoff_points by (rule std_less.pointLe_lt_trans)
qed

subsection \<open>Reading the inputs\<close>

text \<open>Before the \<open>k\<close>th range the input of a fragment holds its cells of this and the later ranges.\<close>

definition restOf :: "(nat \<Rightarrow> Cell list) \<Rightarrow> CompactRange list \<Rightarrow> nat \<Rightarrow> nat \<Rightarrow> Cell list" where
  "restOf content ps k f = filter (\<lambda>x. \<exists>i<length ps. k \<le> i \<and> f \<in> set (adjOf ps i) \<and> inRange ps i x) (content f)"

definition inputsAt :: "(nat \<Rightarrow> Cell list) \<Rightarrow> CompactRange list \<Rightarrow> nat \<Rightarrow> (nat, CellCutoff) omap \<Rightarrow> bool" where
  "inputsAt content ps k m \<longleftrightarrow> (\<forall>f. (\<exists>i<length ps. f \<in> set (adjOf ps i)) \<longrightarrow> (\<exists>c. mapFind f m = Some c \<and>
     cutRest c = restOf content ps k f))"

definition rangeCells :: "(nat \<Rightarrow> Cell list) \<Rightarrow> CompactRange list \<Rightarrow> nat \<Rightarrow> nat \<Rightarrow> Cell list" where
  "rangeCells content ps i f = filter (inRange ps i) (content f)"

lemma drain_range:
  assumes apart: "rangesApart ps" and k: "k < length ps" "f \<in> set (adjOf ps k)" and sorted: "cellsSorted (content f)"
    and c: "cutRest c = restOf content ps k f"
  shows "\<exists>c'. cutoffDrain (setCutoff (upperBound (rangeOf ps k)) c) = (rangeCells content ps k f, c') \<and>
    cutRest c' = restOf content ps (Suc k) f"
proof -
  let ?p = "upperBound (rangeOf ps k)" and ?c = "setCutoff (upperBound (rangeOf ps k)) c"
  have "cutPoint ?c = Some ?p" and r: "cutRest ?c = cutRest c" by (simp_all add: setCutoff_def cutRest_def)
  from cutoffDrain_rest [OF this(1)] obtain c' where
    c': "cutoffDrain ?c = (takeWhile (\<lambda>x. cellRowCutoff x ?p) (cutRest c), c')"
      "cutRest c' = dropWhile (\<lambda>x. cellRowCutoff x ?p) (cutRest c)" unfolding r by blast
  have "sorted_wrt (\<lambda>a b. cellKey a < cellKey b) (cutRest c)"
    using filter_sorted [OF sorted] unfolding c restOf_def cellsSorted_def .
  note w = while_filter [where P = "\<lambda>x. cellRowCutoff x ?p", OF this cutoff_mono]
  have mem: "(\<exists>i<length ps. k \<le> i \<and> f \<in> set (adjOf ps i) \<and> inRange ps i x) \<and> cellRowCutoff x ?p \<longleftrightarrow> inRange ps k x" for x
    using later_range(3) [OF apart] k unfolding inRange_points [of ps k] cutoff_points
    by (metis cutoff_points inRange_points le_neq_implies_less order.refl)
  have rest: "(\<exists>i<length ps. k \<le> i \<and> f \<in> set (adjOf ps i) \<and> inRange ps i x) \<and> \<not> cellRowCutoff x ?p \<longleftrightarrow>
      (\<exists>i<length ps. Suc k \<le> i \<and> f \<in> set (adjOf ps i) \<and> inRange ps i x)" for x
    using later_range(3) [OF apart] k
    by (metis Suc_le_eq inRange_points cutoff_points le_neq_implies_less less_imp_le)
  have "filter (\<lambda>x. cellRowCutoff x ?p) (cutRest c) = rangeCells content ps k f"
    unfolding c restOf_def rangeCells_def filter_filter mem ..
  moreover have "filter (\<lambda>x. \<not> cellRowCutoff x ?p) (cutRest c) = restOf content ps (Suc k) f"
    unfolding c restOf_def filter_filter rest ..
  ultimately show ?thesis using c' w by auto
qed

text \<open>All inputs of a range.\<close>

lemma readInputs_range:
  assumes apart: "rangesApart ps" and k: "k < length ps" and sorted: "\<And>f. cellsSorted (content f)"
    and fs: "set fs \<subseteq> set (adjOf ps k)" "distinct fs"
    and m: "\<forall>f\<in>set fs. \<exists>c. mapFind f m = Some c \<and>
      cutRest c = restOf content ps k f"
  shows "\<exists>m'. readInputs (upperBound (rangeOf ps k)) fs m = Inr (map (rangeCells content ps k) fs, m') \<and>
    (\<forall>f. if f \<in> set fs then \<exists>c. mapFind f m' = Some c \<and>
        cutRest c = restOf content ps (Suc k) f
      else mapFind f m' = mapFind f m)"
  using fs m
proof (induction fs arbitrary: m)
  case (Cons f fs)
  obtain c where c: "mapFind f m = Some c"
    "cutRest c = restOf content ps k f"
    using Cons.prems(3) by auto
  have "f \<in> set (adjOf ps k)" using Cons.prems(1) by simp
  from drain_range [where content = content, OF apart k this sorted c(2)] obtain c' where
    c': "cutoffDrain (setCutoff (upperBound (rangeOf ps k)) c) = (rangeCells content ps k f, c')"
      "cutRest c' = restOf content ps (Suc k) f" by blast
  have "\<forall>g\<in>set fs. \<exists>c. mapFind g (mapPut f c' m) = Some c \<and>
      cutRest c = restOf content ps k g"
    using Cons.prems(2,3) by auto
  then obtain m' where m': "readInputs (upperBound (rangeOf ps k)) fs (mapPut f c' m) = Inr (map (rangeCells content ps k) fs, m')"
    "\<And>g. if g \<in> set fs then \<exists>c. mapFind g m' = Some c \<and>
        cutRest c = restOf content ps (Suc k) g
      else mapFind g m' = mapFind g (mapPut f c' m)"
    using Cons.IH [of "mapPut f c' m"] Cons.prems(1,2) by auto
  have "mapFind f m' = Some c'" using m'(2) [of f] Cons.prems(2) by simp
  then have "if g \<in> set (f # fs) then \<exists>c. mapFind g m' = Some c \<and>
        cutRest c = restOf content ps (Suc k) g
      else mapFind g m' = mapFind g m" for g
    using m'(2) [of g] c'(2) by (cases "g = f") (simp_all split: if_splits)
  then show ?case using m'(1) c(1) c'(1) by (simp add: Let_def)
qed simp

lemma inputs_step:
  assumes apart: "rangesApart ps" and k: "k < length ps" and sorted: "\<And>f. cellsSorted (content f)"
    and d: "distinct (adjOf ps k)" and m: "inputsAt content ps k m"
  shows "\<exists>m'. readInputs (upperBound (rangeOf ps k)) (rev (adjOf ps k)) m =
      Inr (map (rangeCells content ps k) (rev (adjOf ps k)), m') \<and> inputsAt content ps (Suc k) m'"
proof -
  have "\<forall>f\<in>set (rev (adjOf ps k)). \<exists>c. mapFind f m = Some c \<and>
      cutRest c = restOf content ps k f"
    using m k unfolding inputsAt_def by auto
  from readInputs_range [where content = content, OF apart k sorted _ _ this] d obtain m' where
    m': "readInputs (upperBound (rangeOf ps k)) (rev (adjOf ps k)) m = Inr (map (rangeCells content ps k) (rev (adjOf ps k)), m')"
    "\<And>f. if f \<in> set (rev (adjOf ps k)) then \<exists>c. mapFind f m' = Some c \<and>
        cutRest c = restOf content ps (Suc k) f
      else mapFind f m' = mapFind f m" by auto
  have same: "(\<exists>i<length ps. k \<le> i \<and> f \<in> set (adjOf ps i) \<and> inRange ps i x) \<longleftrightarrow>
      (\<exists>i<length ps. Suc k \<le> i \<and> f \<in> set (adjOf ps i) \<and> inRange ps i x)" if "f \<notin> set (adjOf ps k)" for f x
    using that by (metis Suc_leD le_antisym not_less_eq_eq)
  have "inputsAt content ps (Suc k) m'"
    unfolding inputsAt_def
  proof (intro allI impI)
    fix f assume f: "\<exists>i<length ps. f \<in> set (adjOf ps i)"
    show "\<exists>c. mapFind f m' = Some c \<and>
        cutRest c = restOf content ps (Suc k) f"
    proof (cases "f \<in> set (adjOf ps k)")
      case True
      then show ?thesis using m'(2) [of f] by simp
    next
      case False
      then have "mapFind f m' = mapFind f m" using m'(2) [of f] by simp
      moreover have "restOf content ps (Suc k) f = restOf content ps k f" unfolding restOf_def same [OF False] ..
      ultimately show ?thesis using m f unfolding inputsAt_def by simp
    qed
  qed
  then show ?thesis using m'(1) by blast
qed

subsection \<open>The ranges of a fragment\<close>

lemma vec_subset: "set (vec_insert i x xs) \<subseteq> insert x (set xs)" "set (vec_erase i j xs) \<subseteq> set xs"
  by (auto simp: vec_insert_def vec_erase_def dest: in_set_takeD in_set_dropD)

lemma isetAdd_points_sub: "set (points (isetAdd lt x s)) \<subseteq> set (points s) \<union> {lowerBound x, upperBound x}"
proof (cases "pointLt lt (lowerBound x) (upperBound x)")
  case True
  have sub: "set (fst (if b then let ps' = vec_insert i y ps in (ps', f ps') else (ps, i))) \<subseteq> insert y (set ps)"
    for b i f and y :: "'a IntervalPoint" and ps
    using vec_subset(1) [of i y ps] by (auto simp: Let_def)
  define r1 where "r1 = (let ps = points s; lower0 = lower_bound lt ps (lowerBound x)
    in if lower0 = length ps \<or> pointLt lt (lowerBound x) (ps ! lower0)
       then let ps' = vec_insert lower0 (lowerBound x) ps in (ps', pickLowerBound lt ps' lower0) else (ps, lower0))"
  define r2 where "r2 = (let upper0 = upper_bound lt (fst r1) (upperBound x)
    in if upper0 = length (fst r1) \<or> pointLt lt (fst r1 ! (upper0 - 1)) (upperBound x)
       then let ps' = vec_insert upper0 (upperBound x) (fst r1) in (ps', pickUpperBound lt ps' upper0) else (fst r1, upper0))"
  have "points (isetAdd lt x s) = (if snd r1 + 1 \<noteq> snd r2 then vec_erase (snd r1 + 1) (snd r2) (fst r2) else fst r2)"
    using True by (simp add: isetAdd_def Let_def r1_def r2_def split_beta)
  then have "set (points (isetAdd lt x s)) \<subseteq> set (fst r2)" using vec_subset(2) [of "snd r1 + 1" "snd r2" "fst r2"] by (simp split: if_splits)
  also have "\<dots> \<subseteq> insert (upperBound x) (set (fst r1))" unfolding r2_def Let_def [of "upper_bound lt (fst r1) (upperBound x)"] by (rule sub)
  also have "set (fst r1) \<subseteq> insert (lowerBound x) (set (points s))"
    unfolding r1_def Let_def [of "points s"] Let_def [of "lower_bound lt (points s) (lowerBound x)"] by (rule sub)
  finally show ?thesis by auto
qed (auto simp: isetAdd_def)

definition rangesOf :: "CompactRange list \<Rightarrow> nat \<Rightarrow> nat \<Rightarrow> string IntervalSet \<Rightarrow> bool" where
  "rangesOf ps k f S \<longleftrightarrow> iset_inv (<) S \<and>
     (\<forall>q\<in>set (points S). \<exists>j<k. \<not> pointLt (<) (upperBound (rangeOf ps j)) q) \<and>
     (\<forall>v. isetContains (<) S v \<longleftrightarrow> (\<exists>j<k. f \<in> set (adjOf ps j) \<and> intervalContains (<) (rangeOf ps j) v))"

lemma rangesOf_mono: "rangesOf ps k f S \<Longrightarrow> f \<notin> set (adjOf ps k) \<Longrightarrow> rangesOf ps (Suc k) f S"
  unfolding rangesOf_def less_Suc_eq by blast

lemma rangesOf_add:
  assumes "rangesApart ps" "k < length ps" "rangesOf ps k f S" "f \<in> set (adjOf ps k)"
  shows "rangesOf ps (Suc k) f (isetAdd (<) (rangeOf ps k) S)"
proof -
  let ?r = "rangeOf ps k"
  have wf: "interval_wf ?r" and lt: "pointLt (<) (lowerBound ?r) (upperBound ?r)" using assms(1,2) by (auto simp: rangesApart_def)
  have below: "pointLt (<) q (lowerBound ?r)" if "q \<in> set (points S)" for q
  proof -
    obtain j where j: "j < k" "\<not> pointLt (<) (upperBound (rangeOf ps j)) q" using assms(3) \<open>q \<in> _\<close> unfolding rangesOf_def by blast
    have "pointLt (<) (upperBound (rangeOf ps j)) (lowerBound ?r)" using assms(1,2) j(1) by (simp add: rangesApart_def)
    then show ?thesis using j(2) by (rule std_less.pointLe_lt_trans [rotated])
  qed
  have "\<not> pointEq (<) q (upperBound ?r)" if "q \<in> set (butlast (points S))" for q
    using std_less.pointLt_trans [OF below lt] in_set_butlastD [OF that] by (simp add: pointEq_def)
  then have add: "iset_inv (<) (isetAdd (<) ?r S)"
    "\<And>v. isetContains (<) (isetAdd (<) ?r S) v \<longleftrightarrow> isetContains (<) S v \<or> intervalContains (<) ?r v"
    using std_less.add_correct_iset [of S ?r] assms(3) wf unfolding rangesOf_def by blast+
  have "\<exists>j<Suc k. \<not> pointLt (<) (upperBound (rangeOf ps j)) q" if "q \<in> set (points (isetAdd (<) ?r S))" for q
  proof -
    have "q \<in> set (points S) \<or> q = lowerBound ?r \<or> q = upperBound ?r" using isetAdd_points_sub that by fastforce
    then have "pointLt (<) q (upperBound ?r) \<or> q = upperBound ?r" using below lt std_less.pointLt_trans by blast
    then have "\<not> pointLt (<) (upperBound ?r) q" using std_less.pointLt_asym by fastforce
    then show ?thesis by blast
  qed
  then show ?thesis using add assms(3,4) unfolding rangesOf_def less_Suc_eq by blast
qed

lemma rangesOf_0: "rangesOf ps 0 f IntervalSet0"
  by (simp add: rangesOf_def IntervalSet0_def iset_inv_def isetContains_def isInRange_def)

lemma fold_addFragmentRange:
  "distinct fs \<Longrightarrow> omap_wf m \<Longrightarrow> omap_wf (fold (addFragmentRange r) fs m) \<and>
     (\<forall>f. mapFind f (fold (addFragmentRange r) fs m) =
        (if f \<in> set fs then Some (isetAdd (<) r (mapAt IntervalSet0 f m)) else mapFind f m))"
proof (induction fs arbitrary: m)
  case (Cons g fs)
  have "mapAt IntervalSet0 f (addFragmentRange r g m) = mapAt IntervalSet0 f m" if "f \<in> set fs" for f
    using that Cons.prems(1) by (auto simp: addFragmentRange_def)
  then show ?case
    using Cons.IH [of "addFragmentRange r g m"] Cons.prems by (auto simp: addFragmentRange_def)
qed simp

lemma invertRanges_take:
  assumes apart: "rangesApart ps" and d: "\<And>i. i < length ps \<Longrightarrow> distinct (adjOf ps i)"
  shows "k \<le> length ps \<Longrightarrow> omap_wf (invertRanges (take k ps)) \<and>
    (\<forall>f. rangesOf ps k f (mapAt IntervalSet0 f (invertRanges (take k ps))) \<and>
      (mapFind f (invertRanges (take k ps)) \<noteq> None \<longleftrightarrow> (\<exists>i<k. f \<in> set (adjOf ps i))))"
proof (induction k)
  case 0
  show ?case by (simp add: invertRanges_def omap_wf_def mapAt_def rangesOf_0)
next
  case (Suc k)
  then have k: "k < length ps" by simp
  let ?m = "invertRanges (take k ps)"
  have m: "invertRanges (take (Suc k) ps) = fold (addFragmentRange (rangeOf ps k)) (adjOf ps k) ?m"
    using k by (simp add: invertRanges_def take_Suc_conv_app_nth)
  have IH: "omap_wf ?m" "\<And>f. rangesOf ps k f (mapAt IntervalSet0 f ?m)" "\<And>f. mapFind f ?m \<noteq> None \<longleftrightarrow> (\<exists>i<k. f \<in> set (adjOf ps i))"
    using Suc by auto
  note F = fold_addFragmentRange [OF d [OF k] IH(1), of "rangeOf ps k"]
  have "rangesOf ps (Suc k) f (mapAt IntervalSet0 f (invertRanges (take (Suc k) ps)))" for f
  proof (cases "f \<in> set (adjOf ps k)")
    case True
    then have "mapAt IntervalSet0 f (invertRanges (take (Suc k) ps)) = isetAdd (<) (rangeOf ps k) (mapAt IntervalSet0 f ?m)"
      using F by (simp add: m mapAt_def)
    then show ?thesis using rangesOf_add [OF apart k IH(2) True] by simp
  next
    case False
    then have "mapAt IntervalSet0 f (invertRanges (take (Suc k) ps)) = mapAt IntervalSet0 f ?m"
      using F by (simp add: m mapAt_def)
    then show ?thesis using rangesOf_mono [OF IH(2) False] by simp
  qed
  moreover have "mapFind f (invertRanges (take (Suc k) ps)) \<noteq> None \<longleftrightarrow> (\<exists>i<Suc k. f \<in> set (adjOf ps i))" for f
    using F IH(3) [of f] unfolding m less_Suc_eq by auto
  ultimately show ?case using F unfolding m by blast
qed

lemma openInputs_find:
  "openInputs env M = Inr m \<Longrightarrow> mapFind f M = Some S \<Longrightarrow>
     \<exists>cs. fragmentScan env f (setRowPredicate S ScanPredicate0) = Inr cs \<and> mapFind f m = Some (makeCutoff cs)"
  by (induction env M arbitrary: m rule: openInputs.induct) (auto simp: bind_res_eq_Inr mapFind_def split: if_splits)


subsection \<open>What is merged\<close>

definition mergedCells :: "(nat \<Rightarrow> Cell list) \<Rightarrow> CompactRange list \<Rightarrow> nat \<Rightarrow> Cell list" where
  "mergedCells content ps i = cellMerge (makeCell [] [] 0 []) (crRooted (ps ! i)) (map (rangeCells content ps i) (rev (adjOf ps i)))"

context fragment_contract
begin

lemma openInputs_ok:
  assumes apart: "rangesApart ps" and d: "\<And>i. i < length ps \<Longrightarrow> distinct (adjOf ps i)"
    and m: "openInputs env (invertRanges ps) = Inr m"
  shows "inputsAt content ps 0 m"
  unfolding inputsAt_def
proof (intro allI impI)
  fix f assume f: "\<exists>i<length ps. f \<in> set (adjOf ps i)"
  have inv: "\<And>f. rangesOf ps (length ps) f (mapAt IntervalSet0 f (invertRanges ps))"
    "\<And>f. mapFind f (invertRanges ps) \<noteq> None \<longleftrightarrow> (\<exists>i<length ps. f \<in> set (adjOf ps i))"
    using invertRanges_take [OF apart d order.refl] by auto
  obtain S where S: "mapFind f (invertRanges ps) = Some S" using inv(2) f by blast
  then have r: "rangesOf ps (length ps) f S" using inv(1) [of f] by (simp add: mapAt_def)
  let ?p = "setRowPredicate S ScanPredicate0"
  obtain cs where cs: "fragmentScan env f ?p = Inr cs" "mapFind f m = Some (makeCutoff cs)"
    using openInputs_find [OF m S] by blast
  have "maxHistory ?p = 0" by (simp add: setRowPredicate_def ScanPredicate0_def)
  moreover have "scan_predicate_inv ?p"
    using r by (simp add: rangesOf_def scan_predicate_inv_def setRowPredicate_def ScanPredicate0_def)
  ultimately have "cs = filter (cellAllowed ?p) (content f)" using scan_allowed cs(1) by simp
  moreover have "cellAllowed ?p x \<longleftrightarrow> (\<exists>i<length ps. 0 \<le> i \<and> f \<in> set (adjOf ps i) \<and> inRange ps i x)" for x
    using r by (simp add: rangesOf_def cellAllowed_def rowAllowed_def columnAllowed_def timeAllowed_def setRowPredicate_def
        ScanPredicate0_def)
  ultimately have "cutRest (makeCutoff cs) = restOf content ps 0 f"
    by (simp add: restOf_def cutRest_def makeCutoff_def cong: filter_cong)
  then show "\<exists>c. mapFind f m = Some c \<and> cutRest c = restOf content ps 0 f" using cs(2) by blast
qed

lemma rangeCells_ok: "cellsSorted (rangeCells content ps i f)" "list_all cellOk (rangeCells content ps i f)"
  using content_sorted [of f] content_ok [of f] by (simp_all add: rangeCells_def filter_sorted list_all_iff)

lemma mergedCells_ok:
  "cellsSorted (mergedCells content ps i)" "\<forall>c\<in>set (mergedCells content ps i). inRange ps i c \<and> cellOk c"
proof -
  let ?ss = "map (rangeCells content ps i) (rev (adjOf ps i))"
  have ok: "\<forall>s\<in>set ?ss. cellsSorted s \<and> list_all cellOk s" using rangeCells_ok by auto
  show "cellsSorted (mergedCells content ps i)" using firstKey_merge(1) [OF ok] by (simp add: mergedCells_def)
  have "c \<in> set (concat ?ss)" if "c \<in> set (mergedCells content ps i)" for c
  proof -
    have "shadowing ?ss c"
      using that mergeCells_correct(2) [OF ok] by (simp add: mergedCells_def cellMerge_def split: if_splits)
    then show ?thesis unfolding shadowing_def by (metis in_set_conv_decomp)
  qed
  then show "\<forall>c\<in>set (mergedCells content ps i). inRange ps i c \<and> cellOk c"
    using content_ok by (fastforce simp: rangeCells_def list_all_iff)
qed

end

end
