(* ===== verification/CompactOutput.thy ===== *)
theory CompactOutput
  imports CompactData
begin

section \<open>The outputs of a compaction\<close>

text \<open>
  The loop over the ranges of a compaction: every output that is finished replaces the sequences
  of the ranges it covers, and an output may replace a sequence exactly when its cells in the range
  are the merge of the sequence's cells.
\<close>

subsection \<open>The outputs\<close>

text \<open>
  What is relied on of the writer and the loader: a file that was written in order is read back
  as a fragment that is in no use yet.
\<close>

definition loaderContract ::
  "(nat \<Rightarrow> Cell list) \<Rightarrow> nat list \<Rightarrow> nat list \<Rightarrow> Server \<Rightarrow> (Cell list \<Rightarrow> string result) \<Rightarrow> (string \<Rightarrow> nat result) \<Rightarrow> bool" where
  "loaderContract content F own s writer loader \<longleftrightarrow>
     (\<forall>cs uri f. cellsSorted cs \<longrightarrow> list_all cellOk cs \<longrightarrow> writer cs = Inr uri \<longrightarrow> loader uri = Inr f \<longrightarrow>
        content f = cs \<and> f \<notin> set F \<and> (\<forall>t\<in>set own. f \<notin> set (fragments (tabletAt s t))))"

text \<open>What may stand in the place of a sequence.\<close>

definition goodResult :: "(nat \<Rightarrow> Cell list) \<Rightarrow> nat list \<Rightarrow> nat list \<Rightarrow> CompactRange list \<Rightarrow> Server \<Rightarrow> nat \<Rightarrow> nat option option \<Rightarrow> bool" where
  "goodResult content F own ps s i r \<longleftrightarrow> (case r of
      None \<Rightarrow> True
    | Some None \<Rightarrow> mergedCells content ps i = []
    | Some (Some f) \<Rightarrow> rangeCells content ps i f = mergedCells content ps i \<and> f \<notin> set (fragments (tabletAt s (own ! i))))"

text \<open>
  The state of the output before the \<open>k\<close>th range is finished, of which \<open>part\<close> was put: the
  ranges below \<open>fin\<close> lie below the output's range and are done, the cells of the others are what
  was written, and the end of the output's range, once chosen, is the end of the range \<open>c\<close>, after
  which nothing was put.
\<close>

definition outputAt ::
  "(nat \<Rightarrow> Cell list) \<Rightarrow> CompactRange list \<Rightarrow> nat \<Rightarrow> Cell list \<Rightarrow> (nat \<Rightarrow> nat option option) \<Rightarrow> nat \<Rightarrow> CompactionOutput \<Rightarrow> bool" where
  "outputAt content ps k part res fin o1 \<longleftrightarrow> fin \<le> k \<and>
     pointIsLowerBound (lowerBound (outputRange o1)) \<and>
     (\<forall>i<fin. pointLt (<) (upperBound (rangeOf ps i)) (lowerBound (outputRange o1))) \<and>
     (\<forall>i<length ps. fin \<le> i \<longrightarrow> \<not> pointLt (<) (lowerBound (rangeOf ps i)) (lowerBound (outputRange o1))) \<and>
     (\<forall>i<fin. res i \<noteq> None) \<and> (\<forall>i\<ge>k. res i = None) \<and>
     (\<forall>i. fin \<le> i \<longrightarrow> i < k \<longrightarrow> res i = (if mergedCells content ps i = [] then Some None else None)) \<and>
     written o1 = concat (map (mergedCells content ps) [fin..<k]) @ part \<and> (outputOpen o1 \<longleftrightarrow> written o1 \<noteq> []) \<and>
     (if readyToSplit o1
      then \<exists>c. fin \<le> c \<and> c \<le> k \<and> c < length ps \<and> upperBound (outputRange o1) = upperBound (rangeOf ps c) \<and>
        (\<forall>i. c < i \<longrightarrow> i < k \<longrightarrow> mergedCells content ps i = []) \<and> (c < k \<longrightarrow> part = [])
      else ptype (upperBound (outputRange o1)) = PT_INFINITE_UPPER_BOUND)"

lemma output_overlaps:
  assumes apart: "rangesApart ps"
    and lo: "\<forall>i<fin. pointLt (<) (upperBound (rangeOf ps i)) (lowerBound out)"
      "\<forall>i<length ps. fin \<le> i \<longrightarrow> \<not> pointLt (<) (lowerBound (rangeOf ps i)) (lowerBound out)"
    and hi: "\<forall>i<c. i < length ps \<longrightarrow> \<not> pointLt (<) (upperBound out) (upperBound (rangeOf ps i))"
      "\<forall>i<length ps. c \<le> i \<longrightarrow> pointLt (<) (upperBound out) (lowerBound (rangeOf ps i))"
    and i: "i < length ps"
  shows "intervalOverlaps (<) (rangeOf ps i) out \<longleftrightarrow> fin \<le> i \<and> i < c"
    and "fin \<le> i \<Longrightarrow> i < c \<Longrightarrow> intervalClip (<) out (<) (rangeOf ps i) = rangeOf ps i"
proof -
  have ne: "pointLt (<) (lowerBound (rangeOf ps i)) (upperBound (rangeOf ps i))" using apart i by (simp add: rangesApart_def)
  show "fin \<le> i \<Longrightarrow> i < c \<Longrightarrow> intervalClip (<) out (<) (rangeOf ps i) = rangeOf ps i"
    using lo(2) hi(1) i by (simp add: intervalClip_def Let_def)
  show "intervalOverlaps (<) (rangeOf ps i) out \<longleftrightarrow> fin \<le> i \<and> i < c"
  proof (cases "fin \<le> i \<and> i < c")
    case True
    then have l: "\<not> pointLt (<) (lowerBound (rangeOf ps i)) (lowerBound out)"
      and u: "\<not> pointLt (<) (upperBound out) (upperBound (rangeOf ps i))" using lo(2) hi(1) i by auto
    have "pointLt (<) (lowerBound out) (upperBound (rangeOf ps i))" using l ne by (rule std_less.pointLe_lt_trans)
    then have 1: "pointLt (<) (lowerBound out) (upperBound out)" using u by (rule std_less.pointLt_le_trans)
    have 2: "pointLt (<) (lowerBound (rangeOf ps i)) (upperBound out)" using ne u by (rule std_less.pointLt_le_trans)
    have "\<not> pointLt (<) (upperBound (rangeOf ps i)) (lowerBound (rangeOf ps i))" "\<not> pointLt (<) (upperBound out) (lowerBound out)"
      "\<not> pointLt (<) (upperBound (rangeOf ps i)) (lowerBound out)" "\<not> pointLt (<) (upperBound out) (lowerBound (rangeOf ps i))"
      using std_less.pointLt_asym ne 1 2 \<open>pointLt (<) (lowerBound out) (upperBound (rangeOf ps i))\<close> by blast+
    then show ?thesis using True by (simp add: intervalOverlaps_def)
  next
    case False
    then have "pointLt (<) (upperBound (rangeOf ps i)) (lowerBound out) \<or> pointLt (<) (upperBound out) (lowerBound (rangeOf ps i))"
      using lo(1) hi(2) i by auto
    then show ?thesis using False by (auto simp: intervalOverlaps_def)
  qed
qed

context fragment_contract
begin

lemma concat_merged:
  assumes apart: "rangesApart ps" and c: "c \<le> length ps"
  shows "cellsSorted (concat (map (mergedCells content ps) [a..<c]))"
    "list_all cellOk (concat (map (mergedCells content ps) [a..<c]))"
    "a \<le> i \<Longrightarrow> i < c \<Longrightarrow> filter (inRange ps i) (concat (map (mergedCells content ps) [a..<c])) = mergedCells content ps i"
proof -
  show "list_all cellOk (concat (map (mergedCells content ps) [a..<c]))"
    using mergedCells_ok(2) by (auto simp: list_all_iff)
  have row: "getRow x < getRow y" if "i < j" "j < length ps" "inRange ps i x" "inRange ps j y" for i j x y
  proof -
    have "pointLt (<) (mk_point (getRow x) PT_POINT) (upperBound (rangeOf ps i))" using that(3) by (simp add: inRange_points)
    then have "pointLt (<) (mk_point (getRow x) PT_POINT) (mk_point (getRow y) PT_POINT)"
      using later_range(1) [OF apart that(1,2,4)] by (rule std_less.pointLt_trans)
    then show ?thesis by (auto simp: pointLt_def isLess_def point_type_defs split: if_splits)
  qed
  show "cellsSorted (concat (map (mergedCells content ps) [a..<c]))"
    using c
  proof (induction c)
    case (Suc c)
    have "cellKey x < cellKey y"
      if x: "x \<in> set (concat (map (mergedCells content ps) [a..<c]))" and y: "y \<in> set (mergedCells content ps c)" for x y
    proof -
      obtain i where "i < c" "x \<in> set (mergedCells content ps i)" using x by auto
      then have "getRow x < getRow y" using row [of i c x y] mergedCells_ok(2) y Suc.prems by auto
      then show ?thesis by (simp add: cellKey_def less_prod_def')
    qed
    moreover have "cellsSorted (concat (map (mergedCells content ps) [a..<c]))" using Suc by simp
    ultimately show ?case using mergedCells_ok(1) by (simp add: cellsSorted_def sorted_wrt_append)
  qed (simp add: cellsSorted_def)
  show "filter (inRange ps i) (concat (map (mergedCells content ps) [a..<c])) = mergedCells content ps i"
    if "a \<le> i" "i < c"
  proof -
    have "filter (inRange ps i) (mergedCells content ps j) = (if j = i then mergedCells content ps i else [])" if "j < c" for j
    proof -
      have "\<not> inRange ps i x" if "j \<noteq> i" "x \<in> set (mergedCells content ps j)" for x
        using row [of i j x x] row [of j i x x] that \<open>j < c\<close> \<open>i < c\<close> c mergedCells_ok(2) [of ps j]
        by (metis less_le_trans less_irrefl nat_neq_iff)
      then show ?thesis using mergedCells_ok(2) [of ps i] by (auto simp: filter_empty_conv)
    qed
    then have "filter (inRange ps i) (concat (map (mergedCells content ps) [a..<c])) =
        concat (map (\<lambda>j. if j = i then mergedCells content ps i else []) [a..<c])"
      by (auto simp: filter_concat intro!: arg_cong [where f = concat] map_cong)
    also have "\<dots> = mergedCells content ps i"
    proof -
      have split: "[a..<c] = [a..<i] @ i # [Suc i..<c]"
        using that by (metis le_add_diff_inverse less_imp_le upt_add_eq_append upt_conv_Cons)
      have e: "concat (map (\<lambda>j. if j = i then mergedCells content ps i else []) [a..<i]) = []"
        "concat (map (\<lambda>j. if j = i then mergedCells content ps i else []) [Suc i..<c]) = []" by auto
      show ?thesis unfolding split map_append list.map concat_append concat.simps e by simp
    qed
    finally show ?thesis .
  qed
qed

text \<open>Finishing an output.\<close>

lemma finalizeOutput_ok:
  assumes ready: "compactReady env F own ps s0" and apart: "rangesApart ps"
    and loader: "loaderContract content F own s0 writer loader"
    and fin: "finalizeOutput env writer loader writerSize ps (o1, s) = Inr (o', s')"
    and st: "compactState env F own ps s0 res s"
    and lo: "\<forall>i<fin. pointLt (<) (upperBound (rangeOf ps i)) (lowerBound (outputRange o1))"
      "\<forall>i<length ps. fin \<le> i \<longrightarrow> \<not> pointLt (<) (lowerBound (rangeOf ps i)) (lowerBound (outputRange o1))"
    and hi: "\<forall>i<c. \<not> pointLt (<) (upperBound (outputRange o1)) (upperBound (rangeOf ps i))"
      "\<forall>i<length ps. c \<le> i \<longrightarrow> pointLt (<) (upperBound (outputRange o1)) (lowerBound (rangeOf ps i))"
    and c: "c \<le> length ps" and wr: "written o1 = concat (map (mergedCells content ps) [fin..<c])"
    and good: "\<forall>i<length ps. goodResult content F own ps s0 i (res i)"
  shows "\<exists>f res'. res' = (\<lambda>i. if fin \<le> i \<and> i < c \<and> res i = None then Some (Some f) else res i) \<and>
    compactState env F own ps s0 res' s' \<and> (\<forall>i<length ps. goodResult content F own ps s0 i (res' i)) \<and>
    written o' = [] \<and> \<not> outputOpen o' \<and> \<not> readyToSplit o' \<and>
    (if pointIsFinite (upperBound (outputRange o1))
     then ptype (upperBound (outputRange o')) = PT_INFINITE_UPPER_BOUND \<and> pointIsLowerBound (lowerBound (outputRange o')) \<and>
       getAdjacentComplement (upperBound (outputRange o1)) = Inr (lowerBound (outputRange o'))
     else outputRange o' = outputRange o1)"
proof -
  obtain uri where uri: "writer (written o1) = Inr uri"
    using fin by (cases "writer (written o1)") (simp_all add: finalizeOutput_def)
  obtain f where f: "loader uri = Inr f" using fin uri by (cases "loader uri") (simp_all add: finalizeOutput_def)
  obtain tr where tr: "track (getDiskUri env f) (tracker (world s)) = Inr tr"
    using fin uri f by (cases "track (getDiskUri env f) (tracker (world s))") (simp_all add: finalizeOutput_def)
  let ?s = "s\<lparr>world := (world s)\<lparr>tracker := tr\<rparr>\<rparr>"
  obtain s1 where s1: "replaceRanges env (outputRange o1) f ps ?s = Inr s1"
    using fin uri f tr by (cases "replaceRanges env (outputRange o1) f ps ?s") (simp_all add: finalizeOutput_def)
  have w: "s' = s1\<lparr>world := updateTracker (release (getDiskUri env f)) (world s1)\<rparr>"
    using fin uri f tr s1 by (auto simp: finalizeOutput_def Let_def bind_res_eq_Inr split: if_splits)
  have o': "written o' = [] \<and> \<not> outputOpen o' \<and> \<not> readyToSplit o'"
    "if pointIsFinite (upperBound (outputRange o1))
     then ptype (upperBound (outputRange o')) = PT_INFINITE_UPPER_BOUND \<and> pointIsLowerBound (lowerBound (outputRange o')) \<and>
       getAdjacentComplement (upperBound (outputRange o1)) = Inr (lowerBound (outputRange o'))
     else outputRange o' = outputRange o1"
  proof -
    let ?U = "upperBound (outputRange o1)"
    have "written o' = [] \<and> \<not> outputOpen o' \<and> \<not> readyToSplit o' \<and>
      (if pointIsFinite ?U
       then ptype (upperBound (outputRange o')) = PT_INFINITE_UPPER_BOUND \<and> pointIsLowerBound (lowerBound (outputRange o')) \<and>
         getAdjacentComplement ?U = Inr (lowerBound (outputRange o'))
       else outputRange o' = outputRange o1)"
    proof (cases "pointIsFinite ?U")
      case True
      then obtain c where "getAdjacentComplement ?U = Inr c" "pointIsLowerBound c"
        "o' = o1\<lparr>outputSize := outputSize o1 + writerSize (written o1), outputFragments := outputFragments o1 + 1,
           outputOpen := False, readyToSplit := False, written := [],
           outputRange := setUpperBound [] BT_INFINITE ((outputRange o1)\<lparr>lowerBound := c\<rparr>)\<rparr>"
        using fin uri f tr s1
        by (auto simp: finalizeOutput_def Let_def bind_res_eq_Inr setLowerBoundPoint_def split: if_splits)
      then show ?thesis using True by (simp add: setUpperBound_def)
    next
      case False
      then show ?thesis using fin uri f tr s1 by (auto simp: finalizeOutput_def Let_def)
    qed
    then show "written o' = [] \<and> \<not> outputOpen o' \<and> \<not> readyToSplit o'"
      "if pointIsFinite ?U
       then ptype (upperBound (outputRange o')) = PT_INFINITE_UPPER_BOUND \<and> pointIsLowerBound (lowerBound (outputRange o')) \<and>
         getAdjacentComplement ?U = Inr (lowerBound (outputRange o'))
       else outputRange o' = outputRange o1" by blast+
  qed
  have "cellsSorted (written o1)" "list_all cellOk (written o1)" unfolding wr by (rule concat_merged [OF apart c])+
  then have L: "content f = written o1" "f \<notin> set F" "\<forall>t\<in>set own. f \<notin> set (fragments (tabletAt s0 t))"
    using loader uri f unfolding loaderContract_def by blast+
  have hi': "\<forall>i<c. i < length ps \<longrightarrow> \<not> pointLt (<) (upperBound (outputRange o1)) (upperBound (rangeOf ps i))" using hi(1) by simp
  note ov = output_overlaps [OF apart lo hi' hi(2)]
  have clip: "intervalClip (<) (outputRange o1) (<) (rangeOf ps i) = rangeOf ps i"
    if "i < length ps" "intervalOverlaps (<) (rangeOf ps i) (outputRange o1)" for i using ov that by auto
  have st': "compactState env F own ps s0 res (s\<lparr>world := (world s)\<lparr>tracker := tr\<rparr>\<rparr>)" using st by simp
  let ?res = "\<lambda>i. if fin \<le> i \<and> i < c \<and> res i = None then Some (Some f) else res i"
  have "(\<lambda>i. if 0 \<le> i \<and> i < length ps \<and> intervalOverlaps (<) (rangeOf ps i) (outputRange o1) \<and> res i = None then Some (Some f) else res i) = ?res"
    using ov(1) c by (auto simp: fun_eq_iff)
  then have "compactState env F own ps s0 ?res s1"
    using replaceRanges_ok [OF ready L(2) clip _ st', of 0] s1 by auto
  then have "compactState env F own ps s0 ?res s'" using w by auto
  moreover have "goodResult content F own ps s0 i (?res i)" if i: "i < length ps" for i
  proof (cases "fin \<le> i \<and> i < c \<and> res i = None")
    case True
    then have "rangeCells content ps i f = mergedCells content ps i"
      using concat_merged(3) [OF apart c] by (simp add: rangeCells_def L(1) wr)
    moreover have "own ! i \<in> set own" using ready i by (simp add: compactReady_def)
    ultimately show ?thesis using True L(3) by (simp add: goodResult_def)
  next
    case False
    then have "?res i = res i" by auto
    then show ?thesis using good i by simp
  qed
  ultimately show ?thesis using o' by blast
qed

end

subsection \<open>Putting cells\<close>

lemmas complement_defs = getAdjacentComplement_def pointLt_def isLess_def point_pred_defs point_type_defs less_PointType_def

lemma complement_upper:
  assumes "getAdjacentComplement u = Inr l" "pointIsUpperBound (u :: string IntervalPoint)"
  shows "pointLt (<) u l" "pointIsLowerBound p \<Longrightarrow> pointLt (<) u p \<Longrightarrow> \<not> pointLt (<) p l"
proof -
  show "pointLt (<) u l" using assms by (cases "ptype u") (auto simp: complement_defs)
  assume "pointIsLowerBound p" "pointLt (<) u p"
  then show "\<not> pointLt (<) p l"
    using assms by (cases "ptype u"; cases "ptype p") (auto simp: complement_defs split: if_splits)
qed

lemma complement_lower:
  assumes "getAdjacentComplement l = Inr u" "pointIsLowerBound (l :: string IntervalPoint)"
  shows "pointIsUpperBound u" "pointLt (<) u l" "pointIsUpperBound p \<Longrightarrow> pointLt (<) p l \<Longrightarrow> \<not> pointLt (<) u p"
proof -
  show "pointIsUpperBound u" "pointLt (<) u l" using assms by (cases "ptype l"; auto simp: complement_defs)+
  assume "pointIsUpperBound p" "pointLt (<) p l"
  then show "\<not> pointLt (<) u p"
    using assms by (cases "ptype l"; cases "ptype p") (auto simp: complement_defs split: if_splits)
qed

lemma apart_bounds:
  assumes "rangesApart ps" "i < length ps"
  shows "pointIsLowerBound (lowerBound (rangeOf ps i))" "pointIsUpperBound (upperBound (rangeOf ps i))"
    "pointLt (<) (lowerBound (rangeOf ps i)) (upperBound (rangeOf ps i))"
    "j < i \<Longrightarrow> pointLt (<) (upperBound (rangeOf ps j)) (lowerBound (rangeOf ps i))"
    "j \<le> i \<Longrightarrow> \<not> pointLt (<) (upperBound (rangeOf ps i)) (upperBound (rangeOf ps j))"
proof -
  show b: "pointIsLowerBound (lowerBound (rangeOf ps i))" "pointIsUpperBound (upperBound (rangeOf ps i))"
    "pointLt (<) (lowerBound (rangeOf ps i)) (upperBound (rangeOf ps i))"
    and j: "j < i \<Longrightarrow> pointLt (<) (upperBound (rangeOf ps j)) (lowerBound (rangeOf ps i))" for j
    using assms by (auto simp: rangesApart_def interval_wf_def)
  show "j \<le> i \<Longrightarrow> \<not> pointLt (<) (upperBound (rangeOf ps i)) (upperBound (rangeOf ps j))"
    using std_less.pointLt_asym [OF std_less.pointLt_trans [OF j b(3)]] by (cases "j = i") auto
qed

text \<open>The range in which a row lies is the first that does not end below it.\<close>

lemma first_range:
  assumes "rangesApart ps" "k < length ps" "inRange ps k x"
  shows "dropWhile (\<lambda>p. pointLt (<) (upperBound (crRange p)) (mk_point (getRow x) PT_POINT)) ps = drop k ps"
proof -
  let ?P = "\<lambda>p. pointLt (<) (upperBound (crRange p)) (mk_point (getRow x) PT_POINT)"
  have "?P (ps ! i)" if "i < k" for i using later_range(1) [OF assms(1) that assms(2,3)] .
  moreover have "\<not> ?P (ps ! k)" using assms(3) std_less.pointLt_asym by (auto simp: inRange_points)
  ultimately have "takeWhile ?P ps = take k ps" by (intro takeWhile_eq_take_P_nth) (auto simp: less_Suc_eq)
  then show ?thesis using assms(2) by (simp add: dropWhile_eq_drop)
qed

context fragment_contract
begin

lemma outputPut_ok:
  assumes ready: "compactReady env F own ps s0" and apart: "rangesApart ps"
    and loader: "loaderContract content F own s0 writer loader"
    and put: "outputPut env writer loader writerSize ps x (o1, s) = Inr (o', s')"
    and st: "compactState env F own ps s0 res s" and good: "\<forall>i<length ps. goodResult content F own ps s0 i (res i)"
    and out: "outputAt content ps k part res fin o1" and k: "k < length ps" and x: "inRange ps k x"
  shows "\<exists>res' fin'. compactState env F own ps s0 res' s' \<and> (\<forall>i<length ps. goodResult content F own ps s0 i (res' i)) \<and>
    outputAt content ps k (part @ [x]) res' fin' o'"
proof -
  let ?U = "upperBound (outputRange o1)" and ?x = "mk_point (getRow x) PT_POINT"
  have xk: "pointLt (<) ?x (upperBound (rangeOf ps k))" using x by (simp add: inRange_points)
  note O = out [unfolded outputAt_def]
  have row: "pointValueLt (<) ?U (getRow x) \<longleftrightarrow> pointLt (<) ?U ?x" by (simp add: pointLt_value)
  define trigger where "trigger \<longleftrightarrow> readyToSplit o1 \<and> pointValueLt (<) ?U (getRow x)"
  obtain o2 s2 where o2: "(if trigger then finalizeOutput env writer loader writerSize ps (o1, s) else Inr (o1, s)) = Inr (o2, s2)"
    and add: "outputAdd writerSize ps x o2 = Inr o'" "s' = s2"
    using put unfolding outputPut_def trigger_def by (auto simp only: bind_res_eq_Inr prod.case sum.inject prod.inject)
  have mid: "\<exists>res' fin'. compactState env F own ps s0 res' s2 \<and> (\<forall>i<length ps. goodResult content F own ps s0 i (res' i)) \<and>
    outputAt content ps k part res' fin' o2 \<and>
    (readyToSplit o2 \<longrightarrow> upperBound (outputRange o2) = upperBound (rangeOf ps k))"
  proof (cases trigger)
    case True
    then obtain c where c: "fin \<le> c" "c \<le> k" "c < length ps" "?U = upperBound (rangeOf ps c)"
      "\<And>i. c < i \<Longrightarrow> i < k \<Longrightarrow> mergedCells content ps i = []" "c < k \<Longrightarrow> part = []"
      using O unfolding trigger_def by auto
    have "c \<noteq> k" using True std_less.pointLt_asym [OF xk] unfolding trigger_def row unfolding c(4) by auto
    then have ck: "c < k" using c(2) by simp
    have f: "finalizeOutput env writer loader writerSize ps (o1, s) = Inr (o2, s2)" using o2 True by simp
    have hi: "\<forall>i<Suc c. \<not> pointLt (<) ?U (upperBound (rangeOf ps i))"
      using apart_bounds(5) [OF apart c(3)] unfolding c(4) by auto
    have hi2: "\<forall>i<length ps. Suc c \<le> i \<longrightarrow> pointLt (<) ?U (lowerBound (rangeOf ps i))"
      using apart_bounds(4) [OF apart] unfolding c(4) by auto
    have gap: "concat (map (mergedCells content ps) [Suc c..<k]) = []" using c(5) by auto
    have sp: "[fin..<k] = [fin..<Suc c] @ [Suc c..<k]"
      using c(1) ck upt_add_eq_append [of fin "Suc c" "k - Suc c"] by simp
    have wr: "written o1 = concat (map (mergedCells content ps) [fin..<Suc c])"
      using O c(6) [OF ck] gap unfolding sp by simp
    have lo: "\<forall>i<fin. pointLt (<) (upperBound (rangeOf ps i)) (lowerBound (outputRange o1))"
      "\<forall>i<length ps. fin \<le> i \<longrightarrow> \<not> pointLt (<) (lowerBound (rangeOf ps i)) (lowerBound (outputRange o1))" using O by blast+
    obtain g res' where res': "res' = (\<lambda>i. if fin \<le> i \<and> i < Suc c \<and> res i = None then Some (Some g) else res i)"
      "compactState env F own ps s0 res' s2" "\<forall>i<length ps. goodResult content F own ps s0 i (res' i)"
      "written o2 = []" "\<not> outputOpen o2" "\<not> readyToSplit o2"
      "if pointIsFinite ?U
       then ptype (upperBound (outputRange o2)) = PT_INFINITE_UPPER_BOUND \<and> pointIsLowerBound (lowerBound (outputRange o2)) \<and>
         getAdjacentComplement ?U = Inr (lowerBound (outputRange o2))
       else outputRange o2 = outputRange o1"
      using finalizeOutput_ok [OF ready apart loader f st lo hi hi2 Suc_leI [OF c(3)] wr good]
      by (elim exE conjE, intro that)
    have fn: "pointIsFinite ?U"
      using True apart_bounds(2) [OF apart c(3)] unfolding trigger_def row unfolding c(4)
      by (auto simp: point_pred_defs point_type_defs pointLt_def isLess_def)
    then have n: "ptype (upperBound (outputRange o2)) = PT_INFINITE_UPPER_BOUND" "pointIsLowerBound (lowerBound (outputRange o2))"
      "getAdjacentComplement (upperBound (rangeOf ps c)) = Inr (lowerBound (outputRange o2))" using res'(7) c(4) by auto
    note U = complement_upper [OF n(3) apart_bounds(2) [OF apart c(3)]]
    have lo1: "pointLt (<) (upperBound (rangeOf ps i)) (lowerBound (outputRange o2))" if "i < Suc c" for i
      using std_less.pointLe_lt_trans [OF apart_bounds(5) [OF apart c(3)] U(1)] that by simp
    have lo2: "\<not> pointLt (<) (lowerBound (rangeOf ps i)) (lowerBound (outputRange o2))" if "i < length ps" "Suc c \<le> i" for i
      using U(2) [OF apart_bounds(1) [OF apart that(1)]] apart_bounds(4) [OF apart that(1), of c] that(2) by simp
    have r1: "res' i \<noteq> None" if "i < Suc c" for i
      using that O unfolding res'(1) by (cases "fin \<le> i") auto
    have r2: "res' i = None" if "i \<ge> k" for i using that O ck unfolding res'(1) by auto
    have r3: "res' i = (if mergedCells content ps i = [] then Some None else None)" if "Suc c \<le> i" "i < k" for i
      using that O c(1) unfolding res'(1) by auto
    have "outputAt content ps k part res' (Suc c) o2"
      unfolding outputAt_def
      using ck n(1,2) lo1 lo2 r1 r2 r3 res'(4-6) gap c(6) [OF ck] by simp
    then show ?thesis using res'(2,3,6) by blast
  next
    case False
    then have e: "o2 = o1" "s2 = s" using o2 by simp_all
    have "?U = upperBound (rangeOf ps k)" if r: "readyToSplit o1"
    proof -
      obtain c where c: "c \<le> k" "?U = upperBound (rangeOf ps c)" using O r by auto
      have "\<not> pointLt (<) ?U ?x" using False r unfolding trigger_def row by simp
      then have "\<not> c < k" using later_range(1) [OF apart _ k x] unfolding c(2) by blast
      then show ?thesis using c by simp
    qed
    then show ?thesis using st good out unfolding e by blast
  qed
  then obtain res' fin' where m: "compactState env F own ps s0 res' s2" "\<forall>i<length ps. goodResult content F own ps s0 i (res' i)"
    "outputAt content ps k part res' fin' o2" "readyToSplit o2 \<longrightarrow> upperBound (outputRange o2) = upperBound (rangeOf ps k)" by blast
  note M = m(3) [unfolded outputAt_def]
  define o4 where "o4 = (let o3 = (if outputOpen o2 then o2 else o2\<lparr>outputOpen := True, written := []\<rparr>)
    in o3\<lparr>written := written o3 @ [x]\<rparr>)"
  have o4: "written o4 = written o2 @ [x]" "outputOpen o4" "outputRange o4 = outputRange o2" "readyToSplit o4 = readyToSplit o2"
    using M by (auto simp: o4_def Let_def)
  have o5: "(if \<not> readyToSplit o4 \<and> OUTPUT_SPLIT_SIZE < writerSize (written o4) then splitOutput ps x o4 else Inr o4) = Inr o'"
    using add(1) unfolding outputAdd_def o4_def Let_def .
  have "outputAt content ps k (part @ [x]) res' fin' o'"
  proof (cases "\<not> readyToSplit o4 \<and> OUTPUT_SPLIT_SIZE < writerSize (written o4)")
    case True
    have "splitOutput ps x o4 = Inr (o4\<lparr>outputRange := (outputRange o4)\<lparr>upperBound := upperBound (rangeOf ps k)\<rparr>, readyToSplit := True\<rparr>)"
      using apart_bounds(2) [OF apart k]
      by (simp add: splitOutput_def first_range [OF apart k x] setUpperBoundPoint_def flip: Cons_nth_drop_Suc [OF k])
    then have "o' = o4\<lparr>outputRange := (outputRange o4)\<lparr>upperBound := upperBound (rangeOf ps k)\<rparr>, readyToSplit := True\<rparr>"
      using o5 True by simp
    then show ?thesis using M o4 k unfolding outputAt_def by auto
  next
    case False
    have "o' = o4" using o5 unfolding if_not_P [OF False] by simp
    moreover have "\<exists>c\<ge>fin'. c \<le> k \<and> c < length ps \<and> upperBound (outputRange o2) = upperBound (rangeOf ps c) \<and>
        (\<forall>i. c < i \<longrightarrow> i < k \<longrightarrow> mergedCells content ps i = []) \<and> (c < k \<longrightarrow> part @ [x] = [])" if "readyToSplit o2"
      using m(4) that M k by (intro exI [of _ k]) auto
    ultimately show ?thesis using M o4 unfolding outputAt_def by auto
  qed
  then show ?thesis using m(1,2) add(2) by blast
qed

subsection \<open>One range after the other\<close>

lemma putAll_ok:
  assumes ready: "compactReady env F own ps s0" and apart: "rangesApart ps"
    and loader: "loaderContract content F own s0 writer loader" and k: "k < length ps"
  shows "putAll env writer loader writerSize ps xs (o1, s) = Inr (o', s') \<Longrightarrow> compactState env F own ps s0 res s \<Longrightarrow>
    \<forall>i<length ps. goodResult content F own ps s0 i (res i) \<Longrightarrow> outputAt content ps k part res fin o1 \<Longrightarrow>
    \<forall>x\<in>set xs. inRange ps k x \<Longrightarrow>
    \<exists>res' fin'. compactState env F own ps s0 res' s' \<and> (\<forall>i<length ps. goodResult content F own ps s0 i (res' i)) \<and>
      outputAt content ps k (part @ xs) res' fin' o'"
proof (induction xs arbitrary: o1 s res part fin)
  case (Cons x xs)
  then obtain o2 s2 where put: "outputPut env writer loader writerSize ps x (o1, s) = Inr (o2, s2)"
    and all: "putAll env writer loader writerSize ps xs (o2, s2) = Inr (o', s')" by (auto simp: bind_res_eq_Inr)
  have x: "inRange ps k x" using Cons.prems(5) by simp
  obtain res2 fin2 where 2: "compactState env F own ps s0 res2 s2" "\<forall>i<length ps. goodResult content F own ps s0 i (res2 i)"
    "outputAt content ps k (part @ [x]) res2 fin2 o2"
    using outputPut_ok [OF ready apart loader put Cons.prems(2-4) k x] by blast
  show ?case using Cons.IH [OF all 2] Cons.prems(5) by auto
qed auto

lemma compactOne_ok:
  assumes ready: "compactReady env F own ps s0" and apart: "rangesApart ps" and d: "\<And>i. i < length ps \<Longrightarrow> distinct (adjOf ps i)"
    and loader: "loaderContract content F own s0 writer loader" and k: "k < length ps"
    and one: "compactOne env writer loader writerSize ps (ps ! k) (m, o1, s) = Inr (m', o', s')"
    and st: "compactState env F own ps s0 res s" and good: "\<forall>i<length ps. goodResult content F own ps s0 i (res i)"
    and out: "outputAt content ps k [] res fin o1" and inp: "inputsAt content ps k m"
  shows "\<exists>res' fin'. compactState env F own ps s0 res' s' \<and> (\<forall>i<length ps. goodResult content F own ps s0 i (res' i)) \<and>
    outputAt content ps (Suc k) [] res' fin' o' \<and> inputsAt content ps (Suc k) m'"
proof -
  obtain m1 where m1: "readInputs (upperBound (rangeOf ps k)) (rev (adjOf ps k)) m =
      Inr (map (rangeCells content ps k) (rev (adjOf ps k)), m1)" "inputsAt content ps (Suc k) m1"
    using inputs_step [where content = content, OF apart k content_sorted d [OF k] inp] by blast
  let ?M = "mergedCells content ps k"
  obtain o2 s2 where put: "putAll env writer loader writerSize ps ?M (o1, s) = Inr (o2, s2)"
    and rest: "(if ?M = [] then bind_res (dagRemoveFragments env (rangeOf ps k) (adjOf ps k) s2) (\<lambda>s3. Inr (m1, o2, s3))
      else Inr (m1, o2, s2)) = Inr (m', o', s')"
    using one unfolding compactOne_def mergedCells_def prod.case m1(1) bind_res_simps Let_def
    by (auto simp only: bind_res_eq_Inr prod.case)
  obtain res2 fin2 where 2: "compactState env F own ps s0 res2 s2" "\<forall>i<length ps. goodResult content F own ps s0 i (res2 i)"
    "outputAt content ps k ?M res2 fin2 o2"
    using putAll_ok [OF ready apart loader k put st good out] mergedCells_ok(2) by auto
  note O = 2(3) [unfolded outputAt_def]
  have none: "res2 k = None" using O by simp
  have fin: "fin2 \<le> k" using O by simp
  have up: "[fin2..<Suc k] = [fin2..<k] @ [k]" using fin by simp
  have split: "if readyToSplit o2
    then \<exists>c. fin2 \<le> c \<and> c \<le> Suc k \<and> c < length ps \<and> upperBound (outputRange o2) = upperBound (rangeOf ps c) \<and>
      (\<forall>i. c < i \<longrightarrow> i < Suc k \<longrightarrow> mergedCells content ps i = []) \<and> (c < Suc k \<longrightarrow> ([] :: Cell list) = [])
    else ptype (upperBound (outputRange o2)) = PT_INFINITE_UPPER_BOUND"
  proof (cases "readyToSplit o2")
    case True
    then obtain c where c: "fin2 \<le> c" "c \<le> k" "c < length ps" "upperBound (outputRange o2) = upperBound (rangeOf ps c)"
      "\<And>i. c < i \<Longrightarrow> i < k \<Longrightarrow> mergedCells content ps i = []" "c < k \<Longrightarrow> ?M = []" using O by auto
    have "mergedCells content ps i = []" if "c < i" "i < Suc k" for i using c(5,6) that by (cases "i = k") auto
    then show ?thesis using c(1-4) True by auto
  next
    case False
    then show ?thesis using O by simp
  qed
  show ?thesis
  proof (cases "?M = []")
    case True
    then obtain s3 where s3: "dagRemoveFragments env (rangeOf ps k) (adjOf ps k) s2 = Inr s3" "m' = m1" "o' = o2" "s' = s3"
      using rest by (auto simp: bind_res_eq_Inr)
    have st3: "compactState env F own ps s0 (recorded k None res2) s3"
      using dag_step(2) [OF ready 2(1) k] s3(1) by auto
    have rec: "recorded k None res2 = res2(k := Some None)" using none by (simp add: recorded_def)
    have "goodResult content F own ps s0 i ((res2(k := Some None)) i)" if "i < length ps" for i
      using 2(2) that True by (cases "i = k") (simp_all add: goodResult_def)
    moreover have "outputAt content ps (Suc k) [] (res2(k := Some None)) fin2 o2"
      unfolding outputAt_def using O True split by (auto simp: up less_Suc_eq)
    ultimately show ?thesis using st3 m1(2) unfolding rec s3(2-4) by blast
  next
    case False
    then have e: "m' = m1" "o' = o2" "s' = s2" using rest by auto
    have "outputAt content ps (Suc k) [] res2 fin2 o2"
      unfolding outputAt_def using O False split by (auto simp: up less_Suc_eq)
    then show ?thesis using 2(1,2) m1(2) unfolding e by blast
  qed
qed

end

subsection \<open>The whole range map\<close>

context fragment_contract
begin

definition runOk ::
  "nat list \<Rightarrow> nat list \<Rightarrow> CompactRange list \<Rightarrow> Server \<Rightarrow> (nat \<Rightarrow> nat option option) \<Rightarrow> Server \<Rightarrow> bool" where
  "runOk F own ps s0 res s \<longleftrightarrow> compactState env F own ps s0 res s \<and>
     (\<forall>i<length ps. goodResult content F own ps s0 i (res i))"

lemma compactRanges_ok:
  assumes ready: "compactReady env F own ps s0" and apart: "rangesApart ps" and d: "\<And>i. i < length ps \<Longrightarrow> distinct (adjOf ps i)"
    and loader: "loaderContract content F own s0 writer loader"
  shows "k \<le> length ps \<Longrightarrow>
    compactRanges env writer loader writerSize cancels ps (drop k ps) (m, o1, s) = Inr (rest, o', s') \<Longrightarrow>
    runOk F own ps s0 res s \<Longrightarrow> outputAt content ps k [] res fin o1 \<Longrightarrow> inputsAt content ps k m \<Longrightarrow>
    \<exists>res' fin'. runOk F own ps s0 res' s' \<and> (case rest of None \<Rightarrow> True
      | Some qs \<Rightarrow> \<exists>k'\<le>length ps. qs = drop k' ps \<and> outputAt content ps k' [] res' fin' o')"
proof (induction "length ps - k" arbitrary: k m o1 s res fin)
  case 0
  then have "rest = Some (drop k ps)" "o' = o1" "s' = s" by auto
  then show ?case using 0 by auto
next
  case (Suc n)
  then have k: "k < length ps" and n: "n = length ps - Suc k" by auto
  have dr: "drop k ps = ps ! k # drop (Suc k) ps" using k by (simp add: Cons_nth_drop_Suc)
  note run = Suc.prems(2) [unfolded dr compactRanges.simps]
  consider (full) "\<not> outputSize o1 < MAX_OUTPUT_SIZE"
    | (cancelled) "outputSize o1 < MAX_OUTPUT_SIZE" "cancels (length (drop (Suc k) ps))"
    | (step) "outputSize o1 < MAX_OUTPUT_SIZE" "\<not> cancels (length (drop (Suc k) ps))" by blast
  then show ?case
  proof cases
    case full
    then have "rest = Some (drop k ps)" "o' = o1" "s' = s" using run dr by auto
    then show ?thesis using Suc.prems by auto
  next
    case cancelled
    then have "rest = None" "s' = s" using run by auto
    then show ?thesis using Suc.prems by auto
  next
    case step
    then obtain st where one: "compactOne env writer loader writerSize ps (ps ! k) (m, o1, s) = Inr st"
      and go: "compactRanges env writer loader writerSize cancels ps (drop (Suc k) ps) st = Inr (rest, o', s')"
      using run by (auto simp only: bind_res_eq_Inr simp_thms if_True if_False)
    obtain m2 o2 s2 where st: "st = (m2, o2, s2)" by (cases st)
    obtain res2 fin2 where 2: "compactState env F own ps s0 res2 s2" "\<forall>i<length ps. goodResult content F own ps s0 i (res2 i)"
      "outputAt content ps (Suc k) [] res2 fin2 o2" "inputsAt content ps (Suc k) m2"
      using compactOne_ok [OF ready apart d loader k one [unfolded st] _ _ Suc.prems(4,5)] Suc.prems(3)
      unfolding runOk_def by blast
    have "runOk F own ps s0 res2 s2" using 2 unfolding runOk_def by blast
    then show ?thesis using Suc.hyps(1) [OF n _ go [unfolded st] _ 2(3,4)] k by simp
  qed
qed

lemma infinite_top: "ptype u = PT_INFINITE_UPPER_BOUND \<Longrightarrow> \<not> pointLt (<) u (p :: string IntervalPoint)"
  by (cases "ptype p") (auto simp: pointLt_def isLess_def point_type_defs less_PointType_def)

lemma lastUpperBound_ok:
  assumes apart: "rangesApart ps" and k: "k \<le> length ps" and b: "lastUpperBound (drop k ps) = Inr b"
  shows "\<forall>i<k. \<not> pointLt (<) b (upperBound (rangeOf ps i))"
    "\<forall>i<length ps. k \<le> i \<longrightarrow> pointLt (<) b (lowerBound (rangeOf ps i))"
proof -
  show "\<forall>i<k. \<not> pointLt (<) b (upperBound (rangeOf ps i))"
  proof (cases "k = length ps")
    case True
    then have "ptype b = PT_INFINITE_UPPER_BOUND" using b by (auto simp: lastUpperBound_def)
    then show ?thesis using infinite_top by blast
  next
    case False
    then have kl: "k < length ps" using k by simp
    then have "getAdjacentComplement (lowerBound (rangeOf ps k)) = Inr b"
      using b by (simp add: lastUpperBound_def flip: Cons_nth_drop_Suc)
    note C = complement_lower [OF this apart_bounds(1) [OF apart kl]]
    show ?thesis using C(3) apart_bounds(2,4) [OF apart] kl by (meson less_trans)
  qed
  show "\<forall>i<length ps. k \<le> i \<longrightarrow> pointLt (<) b (lowerBound (rangeOf ps i))"
  proof (intro allI impI)
    fix i assume i: "i < length ps" "k \<le> i"
    then have kl: "k < length ps" by simp
    then have "getAdjacentComplement (lowerBound (rangeOf ps k)) = Inr b"
      using b by (simp add: lastUpperBound_def flip: Cons_nth_drop_Suc)
    note C = complement_lower [OF this apart_bounds(1) [OF apart kl]]
    show "pointLt (<) b (lowerBound (rangeOf ps i))"
    proof (cases "i = k")
      case False
      then have "pointLt (<) (upperBound (rangeOf ps k)) (lowerBound (rangeOf ps i))"
        using i apart_bounds(4) [OF apart i(1), of k] by simp
      then show ?thesis using C(2) apart_bounds(3) [OF apart kl] std_less.pointLt_trans by blast
    qed (use C(2) in simp)
  qed
qed

lemma outputFlush_ok:
  assumes ready: "compactReady env F own ps s0" and apart: "rangesApart ps"
    and loader: "loaderContract content F own s0 writer loader"
    and k: "k \<le> length ps" and b: "lastUpperBound (drop k ps) = Inr b"
    and flush: "outputFlush env writer loader writerSize ps b (o1, s) = Inr (o', s')"
    and run: "runOk F own ps s0 res s" and out: "outputAt content ps k [] res fin o1"
  shows "\<exists>res'. runOk F own ps s0 res' s' \<and> (\<forall>i<k. res' i \<noteq> None)"
proof (cases "outputOpen o1")
  case False
  note O = out [unfolded outputAt_def]
  have "written o1 = []" "written o1 = concat (map (mergedCells content ps) [fin..<k])" using O False by auto
  then have "\<forall>i. fin \<le> i \<longrightarrow> i < k \<longrightarrow> mergedCells content ps i = []" by auto
  then have "\<forall>i<k. res i \<noteq> None" using O by (metis not_le option.distinct(1))
  moreover have "s' = s" using flush False by (simp add: outputFlush_def)
  ultimately show ?thesis using run by blast
next
  case True
  note O = out [unfolded outputAt_def]
  let ?o = "o1\<lparr>outputRange := (outputRange o1)\<lparr>upperBound := b\<rparr>\<rparr>"
  have f: "finalizeOutput env writer loader writerSize ps (?o, s) = Inr (o', s')"
    using flush True by (auto simp: outputFlush_def setUpperBoundPoint_def bind_res_eq_Inr split: if_splits)
  have lo: "\<forall>i<fin. pointLt (<) (upperBound (rangeOf ps i)) (lowerBound (outputRange ?o))"
    "\<forall>i<length ps. fin \<le> i \<longrightarrow> \<not> pointLt (<) (lowerBound (rangeOf ps i)) (lowerBound (outputRange ?o))" using O by simp_all
  have hi: "\<forall>i<k. \<not> pointLt (<) (upperBound (outputRange ?o)) (upperBound (rangeOf ps i))"
    "\<forall>i<length ps. k \<le> i \<longrightarrow> pointLt (<) (upperBound (outputRange ?o)) (lowerBound (rangeOf ps i))"
    using lastUpperBound_ok [OF apart k b] by simp_all
  have wr: "written ?o = concat (map (mergedCells content ps) [fin..<k])" using O by simp
  have st: "compactState env F own ps s0 res s" and good: "\<forall>i<length ps. goodResult content F own ps s0 i (res i)"
    using run unfolding runOk_def by blast+
  obtain g res' where res': "res' = (\<lambda>i. if fin \<le> i \<and> i < k \<and> res i = None then Some (Some g) else res i)"
    "compactState env F own ps s0 res' s'" "\<forall>i<length ps. goodResult content F own ps s0 i (res' i)"
    using finalizeOutput_ok [OF ready apart loader f st lo hi k wr good] by blast
  have "\<forall>i<k. res' i \<noteq> None" using O unfolding res'(1) by (auto simp: not_le)
  then show ?thesis using res'(2,3) unfolding runOk_def by blast
qed

lemma infinite_bottom: "ptype p = PT_INFINITE_LOWER_BOUND \<Longrightarrow> \<not> pointLt (<) (u :: string IntervalPoint) p"
  by (cases "ptype u") (auto simp: pointLt_def isLess_def point_type_defs less_PointType_def)

lemma outputAt_start: "outputAt content ps 0 [] (\<lambda>i. None) 0 CompactionOutput0"
proof -
  have "ptype (lowerBound (outputRange CompactionOutput0)) = PT_INFINITE_LOWER_BOUND"
    "ptype (upperBound (outputRange CompactionOutput0)) = PT_INFINITE_UPPER_BOUND"
    by (simp_all add: CompactionOutput0_def setInfinite_def Interval0_def unsetLowerBound_def unsetUpperBound_def)
  then show ?thesis
    using infinite_bottom by (simp add: outputAt_def point_pred_defs) (simp add: CompactionOutput0_def isLowerBound_def)
qed

end

end
