(* ===== verification/CompactServer.thy ===== *)
theory CompactServer
  imports CompactOutput
begin

section \<open>What a compaction promises\<close>

text \<open>
  The compactions that are handed over: every tablet holds its sequence of at least two fragments
  in its chain and in the graph, the tablets of the graph that hold one of the fragments lie apart
  from each other, and the statistics of the fragments are cached.
\<close>

definition holders :: "Server \<Rightarrow> nat set \<Rightarrow> nat set" where
  "holders s F = {t. \<exists>f\<in>F. (t, f) \<in> edges (dag s)}"

definition holderOk :: "Server \<Rightarrow> nat \<Rightarrow> bool" where
  "holderOk s t \<longleftrightarrow> (\<exists>x. mapFind t (tablets s) = Some x \<and> tablet_wf x \<and> pointLt (<) (minRow x) (maxRow x))"

definition tabletsApart :: "Server \<Rightarrow> nat \<Rightarrow> nat \<Rightarrow> bool" where
  "tabletsApart s t u \<longleftrightarrow> pointLt (<) (maxRow (tabletAt s t)) (minRow (tabletAt s u)) \<or>
     pointLt (<) (maxRow (tabletAt s u)) (minRow (tabletAt s t))"

definition sequenceReady :: "Fragments \<Rightarrow> Server \<Rightarrow> CompactionList \<Rightarrow> bool" where
  "sequenceReady env s c \<longleftrightarrow> replaceable env (cl_fragments c) s (cl_tablet c) \<and> 2 \<le> length (cl_fragments c) \<and>
     (\<forall>f\<in>set (cl_fragments c). (cl_tablet c, f) \<in> edges (dag s))"

definition compactionsReady :: "Fragments \<Rightarrow> Server \<Rightarrow> CompactionList list \<Rightarrow> bool" where
  "compactionsReady env s cs \<longleftrightarrow>
     graphReady env (elems (getAllFragments cs)) s \<and> distinct (map cl_tablet cs) \<and> (\<forall>c\<in>set cs. sequenceReady env s c) \<and>
     (\<forall>t\<in>holders s (getAllFragments cs). holderOk s t) \<and>
     (\<forall>t\<in>holders s (getAllFragments cs). \<forall>u\<in>holders s (getAllFragments cs). t \<noteq> u \<longrightarrow> tabletsApart s t u)"

text \<open>\<open>std::sort\<close> permutes the ranges and leaves none before a smaller one.\<close>

definition sortsRanges :: "((CompactRange \<Rightarrow> CompactRange \<Rightarrow> bool) \<Rightarrow> CompactRange list \<Rightarrow> CompactRange list) \<Rightarrow> bool" where
  "sortsRanges sorter \<longleftrightarrow> (\<forall>ps. mset (sorter compactRangeLt ps) = mset ps \<and>
     sorted_wrt (\<lambda>a b. \<not> compactRangeLt b a) (sorter compactRangeLt ps))"

definition rangeFor :: "Server \<Rightarrow> CompactionList \<Rightarrow> CompactRange" where
  "rangeFor s c = \<lparr>crRange = tabletRange (tabletAt s (cl_tablet c)), crFragments = cl_fragments c,
     crRooted = (hd (fragments (tabletAt s (cl_tablet c))) = hd (cl_fragments c))\<rparr>"

lemma rangeFor_simps [simp]:
  "crRange (rangeFor s c) = tabletRange (tabletAt s (cl_tablet c))" "crFragments (rangeFor s c) = cl_fragments c"
  by (simp_all add: rangeFor_def)

lemma makeRange_ok:
  assumes "sequenceReady env s c"
  shows "makeRange env s c = Inr (rangeFor s c)"
proof -
  obtain x pre post where x: "mapFind (cl_tablet c) (tablets s) = Some x" "tablet_wf x"
    "fragments x = pre @ cl_fragments c @ post" "distinct (fragments x)" "cl_fragments c \<noteq> []"
  proof -
    obtain x where x: "mapFind (cl_tablet c) (tablets s) = Some x" "tablet_wf x" "segment (cl_fragments c) (fragments x)"
      "distinct (fragments x)" using assms unfolding sequenceReady_def replaceable_def by blast
    moreover have "cl_fragments c \<noteq> []" using assms by (auto simp: sequenceReady_def)
    ultimately show ?thesis using that unfolding segment_def by blast
  qed
  obtain f fs where f: "cl_fragments c = f # fs" using x(5) by (cases "cl_fragments c") auto
  have fr: "fragments x = pre @ f # (fs @ post)" "f \<notin> set pre" using x(3,4) f by auto
  have "(hd (fragments x) = f) = (pre = [])" using fr by (cases pre) auto
  then show ?thesis
    using f find_at [OF x(1)] parent_at [OF fr]
    by (simp add: makeRange_def derefTablet_def x(1) getRows_wf [OF x(2)] getParent_def rangeFor_def)
qed

lemma map_res_all: "(\<And>x. x \<in> set xs \<Longrightarrow> f x = Inr (g x)) \<Longrightarrow> map_res f xs = Inr (map g xs)"
  by (induction xs) auto

lemma mset_map_ex: "mset ps = mset (map f cs) \<Longrightarrow> \<exists>ds. mset ds = mset cs \<and> ps = map f ds"
proof (induction ps arbitrary: cs)
  case (Cons p ps)
  have "p \<in> set (map f cs)" using Cons.prems by (metis list.set_intros(1) mset_eq_setD)
  then obtain c xs ys where c: "cs = xs @ c # ys" "p = f c" by (auto dest: split_list)
  then have "mset ps = mset (map f (xs @ ys))" using Cons.prems by simp
  then obtain ds where "mset ds = mset (xs @ ys)" "ps = map f ds" using Cons.IH by blast
  then show ?case using c by (intro exI [of _ "c # ds"]) simp
qed auto

lemma apart_not_contained:
  assumes "tabletsApart s t u" "pointLt (<) (minRow (tabletAt s u)) (maxRow (tabletAt s u))"
  shows "\<not> intervalContainsInterval (<) (tabletRange (tabletAt s t)) (tabletRange (tabletAt s u))"
proof
  let ?t = "tabletAt s t" and ?u = "tabletAt s u"
  assume "intervalContainsInterval (<) (tabletRange ?t) (tabletRange ?u)"
  then have lo: "\<not> pointLt (<) (minRow ?u) (minRow ?t)" and hi: "\<not> pointLt (<) (maxRow ?t) (maxRow ?u)"
    using std_less.pointLt_asym [OF assms(2)] assms(2) by (simp_all add: intervalContainsInterval_def tabletRange_def split: if_splits)
  from assms(1) show False
    unfolding tabletsApart_def
  proof
    assume "pointLt (<) (maxRow ?t) (minRow ?u)"
    then show False using std_less.pointLt_trans assms(2) hi by blast
  next
    assume "pointLt (<) (maxRow ?u) (minRow ?t)"
    then show False using std_less.pointLt_trans assms(2) lo by blast
  qed
qed

text \<open>The range map of such compactions lists the tablets' ranges in order.\<close>

lemma rangeMap_ok:
  assumes ready: "compactionsReady env s cs" and sort: "sortsRanges sorter"
  obtains ds where "set ds = set cs" "sorter compactRangeLt (map (rangeFor s) cs) = map (rangeFor s) ds"
    "compactReady env (elems (getAllFragments cs)) (map cl_tablet ds) (map (rangeFor s) ds) s" "rangesApart (map (rangeFor s) ds)"
proof -
  let ?F = "getAllFragments cs"
  obtain ds where m: "mset ds = mset cs" and ps: "sorter compactRangeLt (map (rangeFor s) cs) = map (rangeFor s) ds"
    using mset_map_ex sort unfolding sortsRanges_def by metis
  have ds: "set ds = set cs" "distinct (map cl_tablet ds)"
    using m ready mset_eq_imp_distinct_iff [of "map cl_tablet ds" "map cl_tablet cs"]
    by (auto simp: compactionsReady_def dest: mset_eq_setD)
  have seq: "sequenceReady env s c" if "c \<in> set ds" for c using ready that unfolding compactionsReady_def ds(1) by blast
  have holds: "cl_tablet c \<in> holders s ?F" if c: "c \<in> set ds" for c
  proof -
    obtain f where "f \<in> set (cl_fragments c)" using seq [OF c] by (cases "cl_fragments c") (auto simp: sequenceReady_def)
    then show ?thesis using seq [OF c] c ds(1) unfolding holders_def sequenceReady_def getAllFragments_def by blast
  qed
  have ok: "holderOk s t" if "t \<in> holders s ?F" for t using ready that unfolding compactionsReady_def by blast
  have apart: "tabletsApart s t u" if "t \<in> holders s ?F" "u \<in> holders s ?F" "t \<noteq> u" for t u
    using ready that unfolding compactionsReady_def by blast
  have wf: "tablet_wf (tabletAt s t)" "pointLt (<) (minRow (tabletAt s t)) (maxRow (tabletAt s t))" if "t \<in> holders s ?F" for t
    using ok [OF that] find_at unfolding holderOk_def by auto
  have fin: "set (elems ?F) = ?F" by (simp add: elems_def getAllFragments_def)
  have one: "replaceable env (cl_fragments c) s (cl_tablet c) \<and> cl_fragments c \<noteq> [] \<and> set (cl_fragments c) \<subseteq> ?F \<and>
    (\<forall>f\<in>set (cl_fragments c). (cl_tablet c, f) \<in> edges (dag s)) \<and>
    \<not> pointLt (<) (maxRow (tabletAt s (cl_tablet c))) (minRow (tabletAt s (cl_tablet c))) \<and>
    (\<forall>u. (\<forall>f\<in>set (cl_fragments c). (u, f) \<in> edges (dag s)) \<longrightarrow>
       intervalContainsInterval (<) (tabletRange (tabletAt s (cl_tablet c))) (tabletRange (tabletAt s u)) \<longrightarrow> u = cl_tablet c)"
    if c: "c \<in> set ds" for c
  proof (intro conjI allI impI)
    fix u assume u: "\<forall>f\<in>set (cl_fragments c). (u, f) \<in> edges (dag s)"
      "intervalContainsInterval (<) (tabletRange (tabletAt s (cl_tablet c))) (tabletRange (tabletAt s u))"
    obtain f where "f \<in> set (cl_fragments c)" using seq [OF c] by (cases "cl_fragments c") (auto simp: sequenceReady_def)
    then have "u \<in> holders s ?F" using u(1) c ds(1) unfolding holders_def getAllFragments_def by blast
    then show "u = cl_tablet c" using apart_not_contained [OF apart wf(2)] holds [OF c] u(2) by metis
  qed (use seq [OF c] std_less.pointLt_asym [OF wf(2) [OF holds [OF c]]] c ds(1) in
       \<open>auto simp: sequenceReady_def getAllFragments_def\<close>)
  have ready': "compactReady env (elems ?F) (map cl_tablet ds) (map (rangeFor s) ds) s"
    unfolding compactReady_def
  proof (intro conjI allI impI)
    show "\<forall>(u, f)\<in>edges (dag s). f \<in> set (elems ?F) \<longrightarrow> (\<exists>x. mapFind u (tablets s) = Some x \<and> tablet_wf x)"
      using ok unfolding fin holders_def holderOk_def by blast
  qed (use ready one ds(2) fin in \<open>auto simp: compactionsReady_def tabletRange_def\<close>)
  have "rangesApart (map (rangeFor s) ds)"
    unfolding rangesApart_def
  proof (intro allI impI conjI)
    fix i assume "i < length (map (rangeFor s) ds)"
    then have i: "i < length ds" by simp
    let ?t = "cl_tablet (ds ! i)"
    have ti: "?t \<in> holders s ?F" using holds i by simp
    show "interval_wf (rangeOf (map (rangeFor s) ds) i)" "pointLt (<) (lowerBound (rangeOf (map (rangeFor s) ds) i)) (upperBound (rangeOf (map (rangeFor s) ds) i))"
      using wf [OF ti] i by (simp_all add: tablet_wf_def) (simp add: tabletRange_def)
    fix j assume j: "j < i"
    let ?u = "cl_tablet (ds ! j)"
    have tj: "?u \<in> holders s ?F" using holds i j by simp
    have "?u \<noteq> ?t" using ds(2) i j nth_eq_iff_index_eq [OF ds(2), of j i] by simp
    then have "tabletsApart s ?u ?t" using apart tj ti by blast
    moreover have "\<not> pointLt (<) (maxRow (tabletAt s ?t)) (minRow (tabletAt s ?u))"
    proof
      assume "pointLt (<) (maxRow (tabletAt s ?t)) (minRow (tabletAt s ?u))"
      then have "pointLt (<) (maxRow (tabletAt s ?t)) (maxRow (tabletAt s ?u))" using wf(2) [OF tj] std_less.pointLt_trans by blast
      then have "compactRangeLt (map (rangeFor s) ds ! i) (map (rangeFor s) ds ! j)"
        using i j by (simp add: compactRangeLt_def tabletRange_def)
      moreover have "sorted_wrt (\<lambda>a b. \<not> compactRangeLt b a) (map (rangeFor s) ds)" using sort ps unfolding sortsRanges_def by metis
      ultimately show False using i j by (simp add: sorted_wrt_iff_nth_less)
    qed
    ultimately show "pointLt (<) (upperBound (rangeOf (map (rangeFor s) ds) j)) (lowerBound (rangeOf (map (rangeFor s) ds) i))"
      using i j by (simp add: tabletsApart_def tabletRange_def)
  qed
  then show ?thesis using that ds(1) ps ready' by blast
qed

subsection \<open>Outputs that stay small\<close>

definition smallOutput :: "CompactionOutput \<Rightarrow> bool" where
  "smallOutput o1 \<longleftrightarrow> outputSize o1 = 0 \<and> \<not> readyToSplit o1"

lemma putAll_small:
  assumes small: "\<And>xs. writerSize xs \<le> OUTPUT_SPLIT_SIZE"
  shows "putAll env writer loader writerSize ps xs (o1, s) = Inr (o2, s2) \<Longrightarrow> smallOutput o1 \<Longrightarrow> smallOutput o2"
proof (induction xs arbitrary: o1 s)
  case (Cons x xs)
  have "\<not> OUTPUT_SPLIT_SIZE < writerSize ys" for ys using small [of ys] by (simp add: not_less)
  then show ?case
    using Cons by (auto simp: outputPut_def outputAdd_def smallOutput_def Let_def bind_res_eq_Inr split: if_splits)
qed simp

lemma compactOne_small:
  assumes "\<And>xs. writerSize xs \<le> OUTPUT_SPLIT_SIZE"
    and "compactOne env writer loader writerSize ps p (m, o1, s) = Inr (m2, o2, s2)" "smallOutput o1"
  shows "smallOutput o2"
proof -
  obtain xss m1 o3 s3 where put:
    "putAll env writer loader writerSize ps (cellMerge (makeCell [] [] 0 []) (crRooted p) xss) (o1, s) = Inr (o3, s3)"
    and "(if cellMerge (makeCell [] [] 0 []) (crRooted p) xss = []
      then bind_res (dagRemoveFragments env (crRange p) (crFragments p) s3) (\<lambda>s4. Inr (m1, o3, s4))
      else Inr (m1, o3, s3)) = Inr (m2, o2, s2)"
    using assms(2) unfolding compactOne_def Let_def by (auto simp only: bind_res_eq_Inr prod.case)
  then have "o2 = o3" by (auto simp: bind_res_eq_Inr split: if_splits)
  then show ?thesis using putAll_small [OF assms(1) put assms(3)] by simp
qed

lemma compactRanges_small:
  assumes "\<And>xs. writerSize xs \<le> OUTPUT_SPLIT_SIZE" "cancels = (\<lambda>n. False)"
  shows "compactRanges env writer loader writerSize cancels ps qs (m, o1, s) = Inr (rest, o2, s2) \<Longrightarrow> smallOutput o1 \<Longrightarrow>
    rest = Some []"
proof (induction qs arbitrary: m o1 s)
  case (Cons q qs)
  have "outputSize o1 < MAX_OUTPUT_SIZE"
    using Cons.prems(2) by (simp add: smallOutput_def MAX_OUTPUT_SIZE_def OUTPUT_SPLIT_SIZE_def)
  then obtain m3 o3 s3 where one: "compactOne env writer loader writerSize ps q (m, o1, s) = Inr (m3, o3, s3)"
    and go: "compactRanges env writer loader writerSize cancels ps qs (m3, o3, s3) = Inr (rest, o2, s2)"
    using Cons.prems(1) unfolding assms(2) by (auto simp: bind_res_eq_Inr)
  show ?case using Cons.IH [OF go] compactOne_small [OF assms(1) one Cons.prems(2)] by blast
qed simp

subsection \<open>A whole compaction\<close>

context fragment_contract
begin

lemma compact_run:
  assumes ready: "compactionsReady env s cs" and sort: "sortsRanges sorter"
    and loader: "\<And>table. loaderContract content (elems (getAllFragments cs)) (map cl_tablet cs) s (writer table) loader"
    and run: "compact env writer loader writerSize sorter cancels cs s = Inr s'"
  obtains ds res s1 where "set ds = set cs" "distinct (map cl_tablet ds)"
    "runOk (elems (getAllFragments cs)) (map cl_tablet ds) (map (rangeFor s) ds) s res s1" "tabletAt s' = tabletAt s1"
    "cancels = (\<lambda>n. False) \<Longrightarrow> (\<forall>xs. writerSize xs \<le> OUTPUT_SPLIT_SIZE) \<Longrightarrow> \<forall>i<length ds. res i \<noteq> None"
proof -
  let ?F = "elems (getAllFragments cs)"
  obtain ds where ds: "set ds = set cs" "sorter compactRangeLt (map (rangeFor s) cs) = map (rangeFor s) ds"
    "compactReady env ?F (map cl_tablet ds) (map (rangeFor s) ds) s" "rangesApart (map (rangeFor s) ds)"
    using rangeMap_ok [OF ready sort] by blast
  let ?ps = "map (rangeFor s) ds" and ?own = "map cl_tablet ds"
  have dist: "distinct ?own" using ds(3) by (simp add: compactReady_def)
  have seq: "\<And>c. c \<in> set cs \<Longrightarrow> sequenceReady env s c" using ready by (simp add: compactionsReady_def)
  have mk: "map_res (makeRange env s) cs = Inr (map (rangeFor s) cs)" by (intro map_res_all makeRange_ok seq)
  have d: "distinct (adjOf ?ps i)" if "i < length ?ps" for i
  proof -
    have "sequenceReady env s (ds ! i)" using seq ds(1) that nth_mem [of i ds] by simp
    then show ?thesis using that by (auto simp: sequenceReady_def replaceable_def segment_def)
  qed
  have L: "loaderContract content ?F ?own s (writer table) loader" for table
    using loader ds(1) unfolding loaderContract_def by simp
  have 0: "runOk ?F ?own ?ps s (\<lambda>i. None) s"
    using compactState_start [OF ds(3)] by (simp add: runOk_def goodResult_def)
  have ne: "map (rangeFor s) cs \<noteq> []"
    using run by (cases cs) (simp_all add: compact_def getAllFragments_def elems_def)
  obtain table inputs rest o1 s1 where
    inputs: "openInputs env (invertRanges ?ps) = Inr inputs"
    and loop: "compactRanges env (writer table) loader writerSize cancels ?ps ?ps (inputs, CompactionOutput0, s) = Inr (rest, o1, s1)"
    and rest: "(case rest of None \<Rightarrow> Inr s1
      | Some qs \<Rightarrow> bind_res (lastUpperBound qs) (\<lambda>b.
          bind_res (outputFlush env (writer table) loader writerSize ?ps b (o1, s1)) (\<lambda>(o2, s2).
            Inr (s2\<lparr>dag := sweepGraph (dag s2)\<rparr>)))) = Inr s'"
    using run unfolding compact_def mk bind_res_simps Let_def ds(2) if_not_P [OF ne]
    by (auto simp only: bind_res_eq_Inr prod.case)
  have inp: "inputsAt content ?ps 0 inputs" using openInputs_ok [OF ds(4) d inputs] .
  obtain res fin where r: "runOk ?F ?own ?ps s res s1"
    "case rest of None \<Rightarrow> True | Some qs \<Rightarrow> \<exists>k'\<le>length ?ps. qs = drop k' ?ps \<and> outputAt content ?ps k' [] res fin o1"
  proof -
    have "compactRanges env (writer table) loader writerSize cancels ?ps (drop 0 ?ps) (inputs, CompactionOutput0, s) =
      Inr (rest, o1, s1)" using loop by simp
    from compactRanges_ok [OF ds(3,4) d L le0 this 0 outputAt_start inp] show ?thesis using that by blast
  qed
  have all: "rest = Some []" if "cancels = (\<lambda>n. False)" "\<forall>xs. writerSize xs \<le> OUTPUT_SPLIT_SIZE"
    using compactRanges_small [OF _ that(1) loop] that(2) by (simp add: smallOutput_def CompactionOutput0_def)
  show ?thesis
  proof (cases rest)
    case None
    then have "s' = s1" using rest by simp
    then show ?thesis using that [OF ds(1) dist r(1)] None all by auto
  next
    case (Some qs)
    then obtain k where k: "k \<le> length ?ps" "qs = drop k ?ps" "outputAt content ?ps k [] res fin o1" using r(2) by auto
    obtain b o2 s2 where b: "lastUpperBound (drop k ?ps) = Inr b"
      and fl: "outputFlush env (writer table) loader writerSize ?ps b (o1, s1) = Inr (o2, s2)"
      and s': "s' = s2\<lparr>dag := sweepGraph (dag s2)\<rparr>"
      using rest Some k(2) by (auto simp: bind_res_eq_Inr)
    obtain res' where res': "runOk ?F ?own ?ps s res' s2" "\<forall>i<k. res' i \<noteq> None"
      using outputFlush_ok [OF ds(3,4) L k(1) b fl r(1) k(3)] by blast
    have at: "tabletAt s' = tabletAt s2" unfolding s' by (simp add: tabletAt_def fun_eq_iff)
    have "\<forall>i<length ds. res' i \<noteq> None" if "cancels = (\<lambda>n. False)" "\<forall>xs. writerSize xs \<le> OUTPUT_SPLIT_SIZE"
    proof -
      have "drop k ?ps = []" using all [OF that] Some k(2) by simp
      then show ?thesis using k(1) res'(2) by simp
    qed
    then show ?thesis using that [OF ds(1) dist res'(1) at] by blast
  qed
qed

text \<open>The chain of a tablet after a compaction.\<close>

lemma splicedAt_scan:
  assumes spl: "splicedAt env old new x y" and inv: "tablet_wf x" "scan_predicate_inv pred" "maxHistory pred = 0" "distinct (fragments x)"
    and len: "2 \<le> length old" and comp: "compactionOf env content x old new"
  shows "getMergedScan env pred x = bind_res (getMergedScan env pred y) (\<lambda>cs. Inr (erasureFilter cs)) \<and>
    ((new = None \<longrightarrow> \<not> soleImmutable env (fragments y)) \<longrightarrow> getMergedScan env pred y = getMergedScan env pred x)"
proof -
  obtain pre post b where fr: "fragments x = pre @ old @ post" and y: "y = (splicedTablet env old new pre post x)\<lparr>splitPending := b\<rparr>"
    using spl unfolding splicedAt_def by blast
  let ?y = "splicedTablet env old new pre post x"
  have "old \<noteq> []" using len by auto
  have "replaceFragmentsInternal env old new (x, world0) = Inr (spliced env old new pre post (x, world0))"
  proof (rule replaceInternal_cases [OF \<open>old \<noteq> []\<close>, of x env new world0], goal_cases)
    case (1 pre' post')
    then show ?case using distinct_split_unique [OF inv(4) fr 1(1) \<open>old \<noteq> []\<close>] by simp
  next
    case 2
    then show ?case using fr by blast
  qed
  then have rep: "replaceFragmentsInternal env old new (x, world0) =
    Inr (?y, trackAll addReference (map (getDiskUri env) (optList new)) world0)" by (simp add: spliced_tablet)
  have "getMergedScan env pred y = getMergedScan env pred ?y" "fragments y = fragments ?y"
    by (simp_all add: y getMergedScan_def validateRows_def getRows_def)
  then show ?thesis using compaction_scan_erasures [OF inv len comp rep] by metis
qed

lemma compact_tablets:
  assumes ready: "compactionsReady env s cs" and sort: "sortsRanges sorter"
    and loader: "\<And>table. loaderContract content (elems (getAllFragments cs)) (map cl_tablet cs) s (writer table) loader"
    and run: "compact env writer loader writerSize sorter cancels cs s = Inr s'"
  shows "u \<notin> cl_tablet ` set cs \<Longrightarrow> tabletAt s' u = tabletAt s u"
    and "c \<in> set cs \<Longrightarrow> tabletAt s' (cl_tablet c) = tabletAt s (cl_tablet c) \<or>
      (\<exists>new. splicedAt env (cl_fragments c) new (tabletAt s (cl_tablet c)) (tabletAt s' (cl_tablet c)) \<and>
        compactionOf env content (tabletAt s (cl_tablet c)) (cl_fragments c) new)"
    and "cancels = (\<lambda>n. False) \<Longrightarrow> (\<forall>xs. writerSize xs \<le> OUTPUT_SPLIT_SIZE) \<Longrightarrow> c \<in> set cs \<Longrightarrow>
      \<exists>new. splicedAt env (cl_fragments c) new (tabletAt s (cl_tablet c)) (tabletAt s' (cl_tablet c)) \<and>
        compactionOf env content (tabletAt s (cl_tablet c)) (cl_fragments c) new"
proof -
  obtain ds res s1 where ds: "set ds = set cs" "distinct (map cl_tablet ds)"
    "runOk (elems (getAllFragments cs)) (map cl_tablet ds) (map (rangeFor s) ds) s res s1" "tabletAt s' = tabletAt s1"
    "cancels = (\<lambda>n. False) \<Longrightarrow> (\<forall>xs. writerSize xs \<le> OUTPUT_SPLIT_SIZE) \<Longrightarrow> \<forall>i<length ds. res i \<noteq> None"
    using compact_run [OF ready sort loader run] by blast
  let ?ps = "map (rangeFor s) ds" and ?own = "map cl_tablet ds"
  have st: "compactState env (elems (getAllFragments cs)) ?own ?ps s res s1"
    and good: "\<forall>i<length ?ps. goodResult content (elems (getAllFragments cs)) ?own ?ps s i (res i)"
    using ds(3) unfolding runOk_def by blast+
  show "tabletAt s' u = tabletAt s u" if "u \<notin> cl_tablet ` set cs"
    using st that ds(1) unfolding compactState_def ds(4) by simp
  assume "c \<in> set cs"
  then obtain i where i: "i < length ds" "c = ds ! i" using ds(1) by (metis in_set_conv_nth)
  have at: "rangeState env ?own ?ps s s1 i (res i)" using compactState_at [OF st] i by simp
  have spl: "splicedAt env (cl_fragments c) new (tabletAt s (cl_tablet c)) (tabletAt s' (cl_tablet c)) \<and>
    compactionOf env content (tabletAt s (cl_tablet c)) (cl_fragments c) new" if "res i = Some new" for new
  proof -
    have rows: "rowsOf (tabletAt s (cl_tablet c)) (content f) = rangeCells content ?ps i f" for f
      using i by (simp add: rowsOf_def rangeCells_def)
    have "compactedCells content (tabletAt s (cl_tablet c)) (cl_fragments c) = mergedCells content ?ps i"
      unfolding compactedCells_def mergedCells_def rows using i by (simp add: rangeFor_def)
    then have "compactionOf env content (tabletAt s (cl_tablet c)) (cl_fragments c) new"
      using good i that rows by (cases new) (auto simp: goodResult_def compactionOf_def)
    then show ?thesis using at i ds(4) that by (simp add: rangeState_simps)
  qed
  show "tabletAt s' (cl_tablet c) = tabletAt s (cl_tablet c) \<or>
      (\<exists>new. splicedAt env (cl_fragments c) new (tabletAt s (cl_tablet c)) (tabletAt s' (cl_tablet c)) \<and>
        compactionOf env content (tabletAt s (cl_tablet c)) (cl_fragments c) new)"
  proof (cases "res i")
    case None
    then show ?thesis using at i ds(4) by (simp add: rangeState_simps)
  qed (use spl in blast)
  assume "cancels = (\<lambda>n. False)" "\<forall>xs. writerSize xs \<le> OUTPUT_SPLIT_SIZE"
  then show "\<exists>new. splicedAt env (cl_fragments c) new (tabletAt s (cl_tablet c)) (tabletAt s' (cl_tablet c)) \<and>
        compactionOf env content (tabletAt s (cl_tablet c)) (cl_fragments c) new"
    using ds(5) i(1) spl by blast
qed

end

end
