(* ===== verification/CompactRun.thy ===== *)
theory CompactRun
  imports CompactServer
begin

section \<open>Compactions\<close>

text \<open>
  The properties of \<open>SharedCompactor::compact\<close> and their example: the first two of the
  three fragments of a tablet, with an insertion sort for \<open>std::sort\<close>.
\<close>

subsection \<open>An example\<close>

primrec insertBy :: "('a \<Rightarrow> 'a \<Rightarrow> bool) \<Rightarrow> 'a \<Rightarrow> 'a list \<Rightarrow> 'a list" where
  "insertBy lt x [] = [x]"
| "insertBy lt x (y # ys) = (if lt y x then y # insertBy lt x ys else x # y # ys)"

definition sortBy :: "('a \<Rightarrow> 'a \<Rightarrow> bool) \<Rightarrow> 'a list \<Rightarrow> 'a list" where
  "sortBy lt xs = foldr (insertBy lt) xs []"

lemma insertBy_mset: "mset (insertBy lt x ys) = add_mset x (mset ys)"
  by (induction ys) auto

lemma sortBy_mset: "mset (sortBy lt xs) = mset xs"
  by (induction xs) (simp_all add: sortBy_def insertBy_mset)

lemma insertBy_sorted:
  assumes "\<And>a b. lt a b \<Longrightarrow> \<not> lt b a" "\<And>a b c. lt a c \<Longrightarrow> lt a b \<or> lt b c"
  shows "sorted_wrt (\<lambda>a b. \<not> lt b a) ys \<Longrightarrow> sorted_wrt (\<lambda>a b. \<not> lt b a) (insertBy lt x ys)"
proof (induction ys)
  case (Cons y ys)
  have "set (insertBy lt x ys) = insert x (set ys)" using insertBy_mset [of lt x ys] by (metis set_mset_add_mset_insert set_mset_mset)
  then show ?case using Cons assms by (auto; blast)
qed simp

lemma sortBy_sortsRanges: "sortsRanges sortBy"
proof -
  have "sorted_wrt (\<lambda>a b. \<not> compactRangeLt b a) (sortBy compactRangeLt ps)" for ps
  proof (induction ps)
    case (Cons p ps)
    have "sorted_wrt (\<lambda>a b. \<not> compactRangeLt b a) (insertBy compactRangeLt p (sortBy compactRangeLt ps))"
      by (rule insertBy_sorted [OF _ _ Cons.IH])
        (auto simp: compactRangeLt_def dest: std_less.pointLt_asym std_less.pointLt_cotrans)
    then show ?case by (simp add: sortBy_def)
  qed (simp add: sortBy_def)
  then show ?thesis by (simp add: sortsRanges_def sortBy_mset)
qed

definition compactContent :: "nat \<Rightarrow> Cell list" where
  "compactContent f = exampleContent (if f = 9 then 3 else if f = 3 then 0 else f)"

definition compactEnv :: Fragments where
  "compactEnv = fragments0\<lparr>fragmentScan := (\<lambda>f p. Inr (filter (cellAllowed p) (compactContent f)))\<rparr>"

definition compactWriter :: "string \<Rightarrow> Cell list \<Rightarrow> string result" where
  "compactWriter table cs = (if cs = exampleContent 3 then Inr ''new'' else Inl (RuntimeError ''disk full''))"

definition compactLoader :: "string \<Rightarrow> nat result" where
  "compactLoader uri = (if uri = ''new'' then Inr 9 else Inl (RuntimeError ''no file''))"

definition compactionsExample :: "CompactionList list" where
  "compactionsExample = [\<lparr>cl_tablet = 7, cl_fragments = [1, 2]\<rparr>]"

lemma compactExample:
  "case compact compactEnv compactWriter compactLoader (\<lambda>cs. 0) sortBy (\<lambda>n. False) compactionsExample server0 of
     Inl e \<Rightarrow> False | Inr s' \<Rightarrow> fragments (tabletAt s' 7) = [9, 3]"
  by code_simp

lemma compact_example_ready: "compactionsReady compactEnv server0 compactionsExample"
proof -
  have F: "getAllFragments compactionsExample = {1, 2}" by (auto simp: getAllFragments_def compactionsExample_def)
  have el: "elems {1, 2} = [1, 2]" by (simp add: elems_def)
  have "sizeOfPoints compactEnv f ps n = sizeOfPoints fragments0 f ps n" for f ps n
    by (induction fragments0 f ps n rule: sizeOfPoints.induct) (simp_all add: compactEnv_def)
  then have size: "getDiskSizeSet compactEnv f rs = getDiskSizeSet fragments0 f rs" for f rs
    by (simp add: getDiskSizeSet_def)
  have "graphReady compactEnv [1, 2] server0"
    using server0_ready unfolding graphReady_def sizesOk_def size by (simp add: compactEnv_def size)
  moreover have holder: "holders server0 {1, 2} = {7}" by (auto simp: holders_def server0_facts(2))
  moreover have x: "mapFind 7 (tablets server0) = Some (tablet0 [1, 2, 3])" by (simp add: server0_def mapFind_def)
  moreover have "holderOk server0 7"
    using x example_facts(2) [of "[1, 2, 3]"]
    by (simp add: holderOk_def tablet0_def pointLt_def isLess_def point_type_defs)
  moreover have "sequenceReady compactEnv server0 \<lparr>cl_tablet = 7, cl_fragments = [1, 2]\<rparr>"
  proof -
    have "segment [1, 2] (fragments (tablet0 [1, 2, 3]))"
      unfolding segment_def by (rule exI [of _ "[]"], rule exI [of _ "[3]"]) (simp add: tablet0_def)
    moreover have "distinct (fragments (tablet0 [1, 2, 3]))" by (simp add: tablet0_def)
    ultimately show ?thesis
      using x example_facts(2) [of "[1, 2, 3]"] by (simp add: sequenceReady_def replaceable_def server0_facts(2))
  qed
  ultimately show ?thesis
    unfolding compactionsReady_def F el by (simp add: compactionsExample_def)
qed

lemma compact_example_loader:
  "loaderContract compactContent (elems (getAllFragments compactionsExample)) (map cl_tablet compactionsExample) server0
     (compactWriter table) compactLoader"
  by (auto simp: loaderContract_def compactWriter_def compactLoader_def compactContent_def compactionsExample_def
      getAllFragments_def elems_def server0_facts(3) tablet0_def split: if_splits)

lemma compact_example_contract: "fragment_contract compactEnv compactContent"
  by unfold_locales (simp_all add: compactEnv_def compactContent_def exampleContent_def cellsSorted_def cellKey_def
      less_prod_def' less_char_def cellOk_def)

lemma compact_example_run:
  obtains s' where "compact compactEnv compactWriter compactLoader (\<lambda>cs. 0) sortBy (\<lambda>n. False) compactionsExample server0 = Inr s'"
    "fragments (tabletAt s' 7) = [9, 3]"
  using compactExample
  by (cases "compact compactEnv compactWriter compactLoader (\<lambda>cs. 0) sortBy (\<lambda>n. False) compactionsExample server0") auto

subsection \<open>Properties\<close>

text \<open>
  C2. A compaction, of any set of sequences, with any sizes of the outputs and cancelled at any
  point, changes the chain of a tablet only by putting at most one fragment in the place of a sequence
  of it, and what the tablet delivers is unchanged, with one exception, in which it is unchanged but
  for the erasures: when a sequence whose merge is empty is removed and a single immutable
  fragment, which was there before, is all that is left, the tablet delivers the erasures of that
  fragment as well, since such a chain is read without a filter for erasures.
\<close>
theorem compact_preserves_scans:
  assumes "fragment_contract env content" "compactionsReady env s cs" "sortsRanges sorter"
    and "\<And>table. loaderContract content (elems (getAllFragments cs)) (map cl_tablet cs) s (writer table) loader"
    and "compact env writer loader writerSize sorter cancels cs s = Inr s'"
    and "scan_predicate_inv pred" "maxHistory pred = 0"
  shows "(if soleImmutable env (fragments (tabletAt s' u)) \<and> set (fragments (tabletAt s' u)) \<subset> set (fragments (tabletAt s u))
      then bind_res (getMergedScan env pred (tabletAt s' u)) (\<lambda>cs. Inr (erasureFilter cs)) = getMergedScan env pred (tabletAt s u)
      else getMergedScan env pred (tabletAt s' u) = getMergedScan env pred (tabletAt s u)) \<and>
    (tabletAt s' u \<noteq> tabletAt s u \<longrightarrow> (\<exists>c\<in>set cs. \<exists>pre post new. u = cl_tablet c \<and>
       fragments (tabletAt s u) = pre @ cl_fragments c @ post \<and> fragments (tabletAt s' u) = pre @ optList new @ post))"
proof -
  note T = fragment_contract.compact_tablets [OF assms(1-5)]
  show ?thesis
  proof (cases "tabletAt s' u = tabletAt s u")
    case False
    then obtain c where c: "c \<in> set cs" "u = cl_tablet c" using T(1) by blast
    let ?x = "tabletAt s u" and ?y = "tabletAt s' u"
    obtain new where new: "splicedAt env (cl_fragments c) new ?x ?y" "compactionOf env content ?x (cl_fragments c) new"
      using T(2) [OF c(1)] False unfolding c(2) by blast
    have seq: "sequenceReady env s c" using assms(2) c(1) by (simp add: compactionsReady_def)
    obtain x where "mapFind u (tablets s) = Some x" "tablet_wf x" "distinct (fragments x)"
      using seq unfolding sequenceReady_def replaceable_def c(2) by blast
    then have x: "tablet_wf ?x" "distinct (fragments ?x)" using find_at by simp_all
    have len: "2 \<le> length (cl_fragments c)" using seq by (simp add: sequenceReady_def)
    obtain pre post where fr: "fragments ?x = pre @ cl_fragments c @ post" "fragments ?y = pre @ optList new @ post"
      using new(1) unfolding splicedAt_def by auto
    note scan = fragment_contract.splicedAt_scan [OF assms(1) new(1) x(1) assms(6,7) x(2) len new(2)]
    have "set (fragments ?y) \<subset> set (fragments ?x)" if "new = None"
    proof -
      have "hd (cl_fragments c) \<in> set (cl_fragments c)" using len by (cases "cl_fragments c") simp_all
      then have "hd (cl_fragments c) \<in> set (fragments ?x)" "hd (cl_fragments c) \<notin> set (fragments ?y)"
        using x(2) that fr by (auto simp: optList_def)
      then show ?thesis using fr that by (auto simp: optList_def)
    qed
    then have "if soleImmutable env (fragments ?y) \<and> set (fragments ?y) \<subset> set (fragments ?x)
      then bind_res (getMergedScan env pred ?y) (\<lambda>cs. Inr (erasureFilter cs)) = getMergedScan env pred ?x
      else getMergedScan env pred ?y = getMergedScan env pred ?x"
      using scan by (metis (no_types, lifting))
    then show ?thesis using c fr by blast
  qed simp
qed

theorem compact_preserves_scans_witness:
  "\<exists>s'. compact compactEnv compactWriter compactLoader (\<lambda>cs. 0) sortBy (\<lambda>n. False) compactionsExample server0 = Inr s' \<and>
     fragments (tabletAt s' 7) = [9, 3] \<and>
     getMergedScan compactEnv ScanPredicate0 (tabletAt s' 7) = getMergedScan compactEnv ScanPredicate0 (tabletAt server0 7)"
proof -
  obtain s' where s': "compact compactEnv compactWriter compactLoader (\<lambda>cs. 0) sortBy (\<lambda>n. False) compactionsExample server0 = Inr s'"
    "fragments (tabletAt s' 7) = [9, 3]" using compact_example_run by blast
  have "getMergedScan compactEnv ScanPredicate0 (tabletAt s' 7) = getMergedScan compactEnv ScanPredicate0 (tabletAt server0 7)"
    using compact_preserves_scans [OF compact_example_contract compact_example_ready sortBy_sortsRanges compact_example_loader s'(1) example_facts(3,4), of 7]
    by (simp add: s'(2) soleImmutable_def)
  then show ?thesis using s' by blast
qed

text \<open>
  C6. A compaction that is not cancelled and whose outputs stay below the size at which they are
  split replaces every sequence that it was handed: in the chain of its tablet the sequence gives
  way to one new fragment, whose cells in the tablet's rows are the merge of those of the
  sequence, or to nothing when this merge is empty.
\<close>
theorem compact_replaces_sequences:
  assumes "fragment_contract env content" "compactionsReady env s cs" "sortsRanges sorter"
    and "\<And>table. loaderContract content (elems (getAllFragments cs)) (map cl_tablet cs) s (writer table) loader"
    and "compact env writer loader writerSize sorter (\<lambda>n. False) cs s = Inr s'"
    and "\<And>xs. writerSize xs \<le> OUTPUT_SPLIT_SIZE" "c \<in> set cs"
  shows "\<exists>pre post new. fragments (tabletAt s (cl_tablet c)) = pre @ cl_fragments c @ post \<and>
    fragments (tabletAt s' (cl_tablet c)) = pre @ optList new @ post \<and>
    compactionOf env content (tabletAt s (cl_tablet c)) (cl_fragments c) new"
proof -
  note T = fragment_contract.compact_tablets [OF assms(1-5)]
  obtain new where "splicedAt env (cl_fragments c) new (tabletAt s (cl_tablet c)) (tabletAt s' (cl_tablet c))"
    "compactionOf env content (tabletAt s (cl_tablet c)) (cl_fragments c) new"
    using T(3) [OF refl _ assms(7)] assms(6) by auto
  then show ?thesis unfolding splicedAt_def by fastforce
qed

theorem compact_replaces_sequences_witness:
  "\<exists>s' pre post new. compact compactEnv compactWriter compactLoader (\<lambda>cs. 0) sortBy (\<lambda>n. False) compactionsExample server0 = Inr s' \<and>
     fragments (tabletAt server0 7) = pre @ [1, 2] @ post \<and> fragments (tabletAt s' 7) = pre @ optList new @ post \<and>
     fragments (tabletAt s' 7) = [9, 3]"
proof -
  obtain s' where s': "compact compactEnv compactWriter compactLoader (\<lambda>cs. 0) sortBy (\<lambda>n. False) compactionsExample server0 = Inr s'"
    "fragments (tabletAt s' 7) = [9, 3]" using compact_example_run by blast
  show ?thesis
    using compact_replaces_sequences [where c = "\<lparr>cl_tablet = 7, cl_fragments = [1, 2]\<rparr>",
      OF compact_example_contract compact_example_ready sortBy_sortsRanges compact_example_loader s'(1)] s'
    by (auto simp: compactionsExample_def)
qed

end
