(* ===== verification/CompactThread.thy ===== *)
theory CompactThread
  imports CompactRun
begin

section \<open>The compaction thread (SharedCompactor: compactLoop, shutdown, wakeup, disable and enable)\<close>

text \<open>
  The thread goes through its loop under the compactor's mutex, which it releases while it chooses
  a set of sequences, while it compacts, and while it waits on the condition variable. The other
  operations run between its steps; those that notify move a waiting thread back to the top of the
  loop. A compaction is one step here; the tablets may be changed by others before and after it.
\<close>

record SharedCompactor =
  disabled :: "64 word"
  cancel :: bool

datatype CompactPc = AtTop | Waiting | Choosing | Chosen "CompactionList list" | Compacting "CompactionList list"
  | Finished | Died kdi_error

record CompactThread =
  pc :: CompactPc
  shared :: SharedCompactor
  server :: Server

text \<open>The operations say whether they notify the condition.\<close>

definition disableCompactions :: "SharedCompactor \<Rightarrow> (SharedCompactor \<times> bool) result" where
  "disableCompactions c = Inr (c\<lparr>disabled := disabled c + 1\<rparr>, False)"

definition enableCompactions :: "SharedCompactor \<Rightarrow> (SharedCompactor \<times> bool) result" where
  "enableCompactions c =
     (if disabled c = 0 then Inl (RuntimeError ''compactor is not disabled'')
      else let n = disabled c - 1 in Inr (c\<lparr>disabled := n\<rparr>, n = 0))"

definition wakeup :: "SharedCompactor \<Rightarrow> (SharedCompactor \<times> bool) result" where
  "wakeup c = Inr (c, True)"

definition shutdown :: "SharedCompactor \<Rightarrow> (SharedCompactor \<times> bool) result" where
  "shutdown c = (if cancel c then Inr (c, False) else Inr (c\<lparr>cancel := True\<rparr>, True))"

definition notified :: "bool \<Rightarrow> CompactPc \<Rightarrow> CompactPc" where
  "notified b p = (if b \<and> p = Waiting then AtTop else p)"

definition runOp :: "(SharedCompactor \<Rightarrow> (SharedCompactor \<times> bool) result) \<Rightarrow> CompactThread \<Rightarrow> CompactThread result" where
  "runOp f st = bind_res (f (shared st)) (\<lambda>(c, b). Inr (st\<lparr>shared := c, pc := notified b (pc st)\<rparr>))"

text \<open>One step of the loop.\<close>

definition compactLoopStep ::
  "(Server \<Rightarrow> (FragDag \<times> CompactionList list) result) \<Rightarrow> (CompactionList list \<Rightarrow> Server \<Rightarrow> Server result) \<Rightarrow>
     CompactThread \<Rightarrow> CompactThread" where
  "compactLoopStep chooser compactor st =
     (case pc st of
        AtTop \<Rightarrow>
          if cancel (shared st) then st\<lparr>pc := Finished\<rparr>
          else if disabled (shared st) \<noteq> 0 then st\<lparr>pc := Waiting\<rparr>
          else st\<lparr>pc := Choosing\<rparr>
      | Choosing \<Rightarrow>
          (case chooser (server st) of
             Inl e \<Rightarrow> st\<lparr>pc := Died e\<rparr>
           | Inr (d, cs) \<Rightarrow> st\<lparr>pc := Chosen cs, server := (server st)\<lparr>dag := d\<rparr>\<rparr>)
      | Chosen cs \<Rightarrow>
          if cancel (shared st) \<or> disabled (shared st) \<noteq> 0 then st\<lparr>pc := AtTop\<rparr>
          else if cs = [] then st\<lparr>pc := Waiting\<rparr>
          else st\<lparr>pc := Compacting cs\<rparr>
      | Compacting cs \<Rightarrow>
          (case compactor cs (server st) of
             Inl e \<Rightarrow> st\<lparr>pc := Died e\<rparr>
           | Inr s \<Rightarrow> st\<lparr>pc := AtTop, server := s\<rparr>)
      | _ \<Rightarrow> st)"

text \<open>The steps of all threads; a wait on a condition may also end by itself.\<close>

inductive compactorStep ::
  "(Server \<Rightarrow> (FragDag \<times> CompactionList list) result) \<Rightarrow> CompactThread \<Rightarrow> CompactThread \<Rightarrow> bool" for chooser where
  loop: "compactorStep chooser st (compactLoopStep chooser compactor st)"
| wake: "pc st = Waiting \<Longrightarrow> compactorStep chooser st (st\<lparr>pc := AtTop\<rparr>)"
| operation: "f \<in> {disableCompactions, enableCompactions, wakeup, shutdown} \<Longrightarrow> runOp f st = Inr st' \<Longrightarrow> compactorStep chooser st st'"
| others: "compactorStep chooser st (st\<lparr>server := s\<rparr>)"

definition compactThread0 :: "Server \<Rightarrow> CompactThread" where
  "compactThread0 s = \<lparr>pc = AtTop, shared = \<lparr>disabled = 0, cancel = False\<rparr>, server = s\<rparr>"

definition reachableThread ::
  "(Server \<Rightarrow> (FragDag \<times> CompactionList list) result) \<Rightarrow> Server \<Rightarrow> CompactThread \<Rightarrow> bool" where
  "reachableThread chooser s st \<longleftrightarrow> (compactorStep chooser)\<^sup>*\<^sup>* (compactThread0 s) st"

definition threadInv :: "CompactThread \<Rightarrow> bool" where
  "threadInv st \<longleftrightarrow> (pc st = Waiting \<longrightarrow> \<not> cancel (shared st)) \<and> (pc st = Finished \<longrightarrow> cancel (shared st))"

lemma compactLoopStep_inv: "threadInv st \<Longrightarrow> threadInv (compactLoopStep chooser compactor st)"
  by (auto simp: threadInv_def compactLoopStep_def split: CompactPc.splits sum.splits)

lemma runOp_inv:
  assumes "f \<in> {disableCompactions, enableCompactions, wakeup, shutdown}" "runOp f st = Inr st'" "threadInv st"
  shows "threadInv st'"
  using assms
  by (auto simp: threadInv_def runOp_def disableCompactions_def enableCompactions_def wakeup_def shutdown_def notified_def
      Let_def split: if_splits)

lemma compactorStep_inv: "compactorStep chooser st st' \<Longrightarrow> threadInv st \<Longrightarrow> threadInv st'"
proof (induction rule: compactorStep.induct)
  case (loop st compactor)
  then show ?case by (rule compactLoopStep_inv)
next
  case (operation f st st')
  then show ?case using runOp_inv by blast
qed (auto simp: threadInv_def)

lemma reachableThread_inv: "reachableThread chooser s st \<Longrightarrow> threadInv st"
  unfolding reachableThread_def
proof (induction rule: rtranclp_induct)
  case base
  show ?case by (simp add: threadInv_def compactThread0_def)
next
  case (step st st')
  then show ?case using compactorStep_inv by blast
qed

definition stepsToEnd :: "CompactPc \<Rightarrow> nat" where
  "stepsToEnd p = (case p of AtTop \<Rightarrow> 1 | Chosen cs \<Rightarrow> 2 | Compacting cs \<Rightarrow> 2 | Choosing \<Rightarrow> 3 | _ \<Rightarrow> 0)"

lemma cancelled_step:
  assumes "cancel (shared st)" "pc st \<noteq> Waiting"
  shows "cancel (shared (compactLoopStep chooser compactor st))" "pc (compactLoopStep chooser compactor st) \<noteq> Waiting"
    "stepsToEnd (pc (compactLoopStep chooser compactor st)) \<le> stepsToEnd (pc st) - 1"
  using assms by (auto simp: compactLoopStep_def stepsToEnd_def split: CompactPc.splits sum.splits)

lemma cancelled_run:
  "cancel (shared st) \<Longrightarrow> pc st \<noteq> Waiting \<Longrightarrow> stepsToEnd (pc st) \<le> n \<Longrightarrow>
     (\<exists>e. pc ((compactLoopStep chooser compactor ^^ n) st) \<in> {Finished, Died e})"
proof (induction n arbitrary: st)
  case 0
  then show ?case by (auto simp: stepsToEnd_def split: CompactPc.splits)
next
  case (Suc n)
  then show ?case
    using cancelled_step [OF Suc.prems(1,2), of chooser compactor] Suc.IH [of "compactLoopStep chooser compactor st"]
    by (simp add: funpow_Suc_right del: funpow.simps)
qed

lemma cancelled_no_compaction:
  "cancel (shared st) \<Longrightarrow> \<forall>cs. pc st \<noteq> Compacting cs \<Longrightarrow>
     cancel (shared ((compactLoopStep chooser compactor ^^ n) st)) \<and> (\<forall>cs. pc ((compactLoopStep chooser compactor ^^ n) st) \<noteq> Compacting cs)"
proof (induction n)
  case (Suc n)
  let ?t = "(compactLoopStep chooser compactor ^^ n) st"
  have "cancel (shared u) \<Longrightarrow> \<forall>cs. pc u \<noteq> Compacting cs \<Longrightarrow>
    cancel (shared (compactLoopStep chooser compactor u)) \<and> (\<forall>cs. pc (compactLoopStep chooser compactor u) \<noteq> Compacting cs)" for u
    by (auto simp: compactLoopStep_def split: CompactPc.splits sum.splits)
  from this [of ?t] show ?case using Suc by simp
qed simp

text \<open>
  C34. A shutdown reaches the compaction thread wherever it is, also when it waits: after the flag
  was set, three steps of its loop end it, at once when it has nothing left to compact, so that the
  join of the shutdown returns. Nothing is compacted after the flag was set but what was already
  being compacted.
\<close>
theorem shutdown_ends_compactor:
  assumes "reachableThread chooser s st" "runOp shutdown st = Inr st'"
  shows "(\<exists>e. pc ((compactLoopStep chooser compactor ^^ 3) st') \<in> {Finished, Died e}) \<and>
    (\<forall>cs. pc st \<noteq> Compacting cs) = (\<forall>n cs. pc ((compactLoopStep chooser compactor ^^ n) st') \<noteq> Compacting cs)"
proof -
  have "threadInv st" using reachableThread_inv [OF assms(1)] .
  then have inv: "threadInv st'" using runOp_inv [OF _ assms(2)] by blast
  have c: "cancel (shared st')" using assms(2) by (auto simp: runOp_def shutdown_def split: if_splits)
  then have w: "pc st' \<noteq> Waiting" using inv by (auto simp: threadInv_def)
  have same: "pc st' = Compacting cs \<longleftrightarrow> pc st = Compacting cs" for cs
    using assms(2) by (auto simp: runOp_def shutdown_def notified_def split: if_splits)
  have "stepsToEnd (pc st') \<le> 3" by (simp add: stepsToEnd_def split: CompactPc.splits)
  then have end3: "\<exists>e. pc ((compactLoopStep chooser compactor ^^ 3) st') \<in> {Finished, Died e}"
    using cancelled_run [OF c w] by blast
  have "\<forall>cs. pc ((compactLoopStep chooser compactor ^^ n) st') \<noteq> Compacting cs" if "\<forall>cs. pc st' \<noteq> Compacting cs" for n
    using cancelled_no_compaction [OF c that] by blast
  moreover have "\<forall>cs. pc st' \<noteq> Compacting cs" if "\<forall>n cs. pc ((compactLoopStep chooser compactor ^^ n) st') \<noteq> Compacting cs"
    using that [rule_format, of 0] by simp
  ultimately show ?thesis using end3 same by blast
qed

theorem shutdown_ends_compactor_witness:
  "\<exists>st' e. runOp shutdown ((compactThread0 server0)\<lparr>pc := Waiting, shared := \<lparr>disabled = 1, cancel = False\<rparr>\<rparr>) = Inr st' \<and>
     pc ((compactLoopStep (\<lambda>s. Inr (dag s, [])) (\<lambda>cs s. Inr s) ^^ 3) st') \<in> {Finished, Died e}"
proof -
  let ?ch = "\<lambda>s :: Server. Inr (dag s, []) :: (FragDag \<times> CompactionList list) result"
  let ?st = "(compactThread0 server0)\<lparr>pc := Waiting, shared := \<lparr>disabled = 1, cancel = False\<rparr>\<rparr>"
  let ?d = "(compactThread0 server0)\<lparr>shared := \<lparr>disabled = 1, cancel = False\<rparr>\<rparr>"
  have "compactorStep ?ch (compactThread0 server0) ?d"
    by (rule compactorStep.operation [of disableCompactions])
      (simp_all add: runOp_def disableCompactions_def compactThread0_def notified_def)
  moreover have "compactLoopStep ?ch (\<lambda>cs s. Inr s) ?d = ?st" by (simp add: compactLoopStep_def compactThread0_def)
  then have "compactorStep ?ch ?d ?st" using compactorStep.loop by metis
  ultimately have reach: "reachableThread ?ch server0 ?st"
    unfolding reachableThread_def by (meson rtranclp.rtrancl_into_rtrancl rtranclp.rtrancl_refl)
  obtain st' where st': "runOp shutdown ?st = Inr st'" by (simp add: runOp_def shutdown_def compactThread0_def)
  then show ?thesis
    using shutdown_ends_compactor [OF reach st', of "\<lambda>cs s. Inr s"] by blast
qed

text \<open>
  C40. A wakeup can be lost. When the thread has chosen from a graph without work and another
  thread then adds a fragment and wakes the compactor, before the thread has taken the mutex
  again, the notification finds nobody waiting; the thread goes on to wait although the graph
  has work, compactions are enabled and no shutdown was asked for.
\<close>
theorem wakeup_can_be_lost:
  assumes "chooser s0 = Inr (d, [])"
  shows "\<exists>st st'. reachableThread chooser s0 st \<and> server st = s1 \<and> runOp wakeup st = Inr st' \<and>
    compactLoopStep chooser compactor st' = st'\<lparr>pc := Waiting\<rparr> \<and> server st' = s1 \<and>
    disabled (shared st') = 0 \<and> \<not> cancel (shared st')"
proof -
  let ?a = "compactThread0 s0"
  let ?b = "?a\<lparr>pc := Choosing\<rparr>" and ?c = "?a\<lparr>pc := Chosen [], server := s0\<lparr>dag := d\<rparr>\<rparr>" and ?e = "?a\<lparr>pc := Chosen [], server := s1\<rparr>"
  have 1: "compactLoopStep chooser compactor ?a = ?b" by (simp add: compactLoopStep_def compactThread0_def)
  have 2: "compactLoopStep chooser compactor ?b = ?c" using assms by (simp add: compactLoopStep_def compactThread0_def)
  have 3: "?c\<lparr>server := s1\<rparr> = ?e" by simp
  have "compactorStep chooser ?a ?b" "compactorStep chooser ?b ?c" "compactorStep chooser ?c ?e"
    using compactorStep.loop [of chooser ?a compactor] compactorStep.loop [of chooser ?b compactor]
      compactorStep.others [of chooser ?c s1] unfolding 1 2 3 by blast+
  then have "reachableThread chooser s0 ?e"
    unfolding reachableThread_def by (meson rtranclp.rtrancl_into_rtrancl rtranclp.rtrancl_refl)
  moreover have "runOp wakeup ?e = Inr ?e" by (simp add: runOp_def wakeup_def notified_def)
  moreover have "compactLoopStep chooser compactor ?e = ?e\<lparr>pc := Waiting\<rparr>" by (simp add: compactLoopStep_def compactThread0_def)
  ultimately show ?thesis by (intro exI [of _ ?e]) (simp add: compactThread0_def)
qed

definition chooserExample :: "Server \<Rightarrow> (FragDag \<times> CompactionList list) result" where
  "chooserExample s = chooseCompactionSet compactEnv (\<lambda>a b c. 1) (\<lambda>lt xs. xs) 8 (tabletAt s) (dag s)"

lemma chooserExample_runs:
  "case chooserExample server0 of Inl e \<Rightarrow> False | Inr (d, cs) \<Rightarrow> map cl_tablet cs = [7]"
  "case chooserExample (server0\<lparr>dag := FragDag0\<rparr>) of Inl e \<Rightarrow> False | Inr (d, cs) \<Rightarrow> cs = []"
  by code_simp+

theorem wakeup_can_be_lost_witness:
  "\<exists>st st' d cs. runOp wakeup st = Inr st' \<and> pc (compactLoopStep chooserExample (\<lambda>cs s. Inr s) st') = Waiting \<and>
     chooserExample (server st') = Inr (d, cs) \<and> cs \<noteq> [] \<and> disabled (shared st') = 0"
proof -
  obtain d where d: "chooserExample (server0\<lparr>dag := FragDag0\<rparr>) = Inr (d, [])"
    using chooserExample_runs(2) by (cases "chooserExample (server0\<lparr>dag := FragDag0\<rparr>)") auto
  obtain d2 cs where cs: "chooserExample server0 = Inr (d2, cs)" "cs \<noteq> []"
    using chooserExample_runs(1) by (cases "chooserExample server0") auto
  show ?thesis
    using wakeup_can_be_lost [where chooser = chooserExample and ?s0.0 = "server0\<lparr>dag := FragDag0\<rparr>" and d = d and
      ?s1.0 = server0 and compactor = "\<lambda>cs s. Inr s"] d cs by fastforce
qed

end
