(* ===== verification/Adler.thy ===== *)
theory Adler
  imports Prelude
begin

section \<open>Checksums (src/cc/warp/adler.cc)\<close>

text \<open>
  The checksum of a record is Adler-32: two sums modulo 65521, which the code keeps in words of 32
  bits and reduces after every 5552 bytes. The lemmas show that the words do not wrap around in between.
\<close>

definition MOD_ADLER :: "32 word" where
  "MOD_ADLER = 65521"

definition adlerByte :: "8 word \<Rightarrow> 32 word \<times> 32 word \<Rightarrow> 32 word \<times> 32 word" where
  "adlerByte d = (\<lambda>(a, b). (a + ucast d, b + (a + ucast d)))"

function adlerLoop :: "8 word list \<Rightarrow> 32 word \<times> 32 word \<Rightarrow> 32 word \<times> 32 word" where
  "adlerLoop ds s =
     (if ds = [] then s
      else let (a, b) = fold adlerByte (take 5552 ds) s in adlerLoop (drop 5552 ds) (a mod MOD_ADLER, b mod MOD_ADLER))"
  by pat_completeness auto
termination
  by (relation "measure (\<lambda>(ds, s). length ds)") auto

declare adlerLoop.simps [simp del]

definition adler :: "8 word list \<Rightarrow> 32 word" where
  "adler ds = (let (a, b) = adlerLoop ds (1, 0) in or (push_bit 16 b) a)"

text \<open>The sums without a modulus and without bounds.\<close>

definition adlerSums :: "8 word list \<Rightarrow> nat \<times> nat \<Rightarrow> nat \<times> nat" where
  "adlerSums ds s = fold (\<lambda>d (a, b). (a + unat d, b + (a + unat d))) ds s"

lemma adlerSums_simps [simp]: "adlerSums [] s = s" "adlerSums (d # ds) (a, b) = adlerSums ds (a + unat d, b + (a + unat d))"
  by (simp_all add: adlerSums_def)

lemma adlerSums_append: "adlerSums (xs @ ys) s = adlerSums ys (adlerSums xs s)"
  by (simp add: adlerSums_def)

lemma byte_le: "unat (d :: 8 word) \<le> 255"
proof -
  have "unat d < 2 ^ LENGTH(8)" by (rule unsigned_less)
  then show ?thesis by simp
qed

lemma piece_step:
  fixes a :: nat
  assumes "2 * b + 2 * (a + p) + 255 * (q + 2 * m + 2) < n" "d \<le> 255" "p' \<le> p + 255 * m"
  shows "2 * (b + (a + d)) + 2 * p' + 255 * q < n" "2 * (b + (a + d)) < n"
proof -
  show "2 * (b + (a + d)) + 2 * p' + 255 * q < n" using assms by (simp add: algebra_simps)
  show "2 * (b + (a + d)) < n" using assms by (simp add: algebra_simps)
qed

text \<open>Within a piece the sums fit into 32 bits.\<close>

lemma adler_piece:
  assumes "2 * unat b + 2 * (length ds * unat a) + 255 * (length ds * (length ds + 1)) < 2 ^ 33" "unat a + 255 * length ds < 2 ^ 32"
  shows "map_prod unat unat (fold adlerByte ds (a, b)) = adlerSums ds (unat a, unat b)"
  using assms
proof (induction ds arbitrary: a b)
  case (Cons d ds)
  let ?m = "length ds"
  let ?a = "a + ucast d" and ?b = "b + (a + ucast d)"
  have d: "unat d \<le> 255" by (rule byte_le)
  have u: "unat (ucast d :: 32 word) = unat d" using d by (simp add: unsigned_ucast_eq take_bit_nat_eq_self)
  have a: "unat ?a = unat a + unat d" using Cons(3) d u by (simp add: unat_word_ariths)
  have size: "2 * unat b + 2 * (unat a + ?m * unat a) + 255 * ((?m + 1) * (?m + 2)) < 2 ^ 33" using Cons(2) by (simp add: algebra_simps)
  have "(?m + 1) * (?m + 2) = ?m * (?m + 1) + 2 * ?m + 2" by (simp add: algebra_simps)
  note size' = size [unfolded this]
  have le: "?m * (unat a + unat d) \<le> ?m * unat a + 255 * ?m" using d by (simp add: distrib_left mult.commute)
  note S = piece_step [OF size' d le]
  have b: "unat ?b = unat b + (unat a + unat d)" using S(2) a by (simp add: unat_word_ariths)
  have "2 * unat ?b + 2 * (?m * unat ?a) + 255 * (?m * (?m + 1)) < 2 ^ 33" using S(1) unfolding a b .
  moreover have "unat ?a + 255 * ?m < 2 ^ 32" using Cons(3) d unfolding a by simp
  ultimately show ?case using Cons(1) [of ?b ?a] by (simp add: adlerByte_def a b)
qed simp

lemma adlerSums_mod:
  "a mod m = a' mod m \<Longrightarrow> b mod m = b' mod m \<Longrightarrow>
     fst (adlerSums ds (a, b)) mod m = fst (adlerSums ds (a', b')) mod m \<and> snd (adlerSums ds (a, b)) mod m = snd (adlerSums ds (a', b')) mod m"
proof (induction ds arbitrary: a b a' b')
  case (Cons d ds)
  have a: "(a + unat d) mod m = (a' + unat d) mod m" using Cons(2) by (rule mod_add_cong) simp
  have "(b + (a + unat d)) mod m = (b' + (a' + unat d)) mod m" by (rule mod_add_cong [OF Cons(3) a])
  then show ?case using Cons(1) [OF a] by simp
qed simp

lemma adler_loop:
  "unat a < 65521 \<Longrightarrow> unat b < 65521 \<Longrightarrow>
     unat (fst (adlerLoop ds (a, b))) = fst (adlerSums ds (unat a, unat b)) mod 65521 \<and>
     unat (snd (adlerLoop ds (a, b))) = snd (adlerSums ds (unat a, unat b)) mod 65521"
proof (induction "length ds" arbitrary: ds a b rule: less_induct)
  case less
  show ?case
  proof (cases "ds = []")
    case True
    then show ?thesis using less(2,3) by (subst (1 2) adlerLoop.simps) simp
  next
    case False
    let ?xs = "take 5552 ds" and ?ys = "drop 5552 ds"
    obtain a1 b1 where f: "fold adlerByte ?xs (a, b) = (a1, b1)" by fastforce
    let ?n = "length ?xs"
    have n: "?n \<le> 5552" by simp
    have "?n * unat a \<le> 5552 * 65520" by (rule mult_le_mono) (use n less(2) in auto)
    moreover have "?n * (?n + 1) \<le> 5552 * 5553" by (rule mult_le_mono) (use n in auto)
    ultimately have "2 * unat b + 2 * (?n * unat a) + 255 * (?n * (?n + 1)) < 2 ^ 33" using less(3) by simp
    moreover have "unat a + 255 * ?n < 2 ^ 32" using less(2) n by simp
    ultimately have "map_prod unat unat (fold adlerByte ?xs (a, b)) = adlerSums ?xs (unat a, unat b)" by (rule adler_piece)
    then have piece: "adlerSums ?xs (unat a, unat b) = (unat a1, unat b1)" unfolding f by simp
    have m: "unat (a1 mod MOD_ADLER) = unat a1 mod 65521" "unat (b1 mod MOD_ADLER) = unat b1 mod 65521"
      by (simp_all add: MOD_ADLER_def unat_mod)
    have go: "adlerLoop ds (a, b) = adlerLoop ?ys (a1 mod MOD_ADLER, b1 mod MOD_ADLER)"
      using False by (subst adlerLoop.simps) (simp add: f)
    have IH: "unat (fst (adlerLoop ?ys (a1 mod MOD_ADLER, b1 mod MOD_ADLER))) = fst (adlerSums ?ys (unat a1 mod 65521, unat b1 mod 65521)) mod 65521 \<and>
       unat (snd (adlerLoop ?ys (a1 mod MOD_ADLER, b1 mod MOD_ADLER))) = snd (adlerSums ?ys (unat a1 mod 65521, unat b1 mod 65521)) mod 65521"
      using less(1) [of ?ys "a1 mod MOD_ADLER" "b1 mod MOD_ADLER"] False unfolding m by simp
    have "adlerSums ds (unat a, unat b) = adlerSums ?ys (unat a1, unat b1)"
      using adlerSums_append [of ?xs ?ys] piece by simp
    then show ?thesis
      using IH adlerSums_mod [of "unat a1 mod 65521" 65521 "unat a1" "unat b1 mod 65521" "unat b1" ?ys] unfolding go by simp
  qed
qed

lemma join_halves:
  assumes "unat (a :: 32 word) < 65536" "unat (b :: 32 word) < 65536"
  shows "unat (or (push_bit 16 b) a) = unat b * 65536 + unat a"
proof -
  have "\<not> bit a n" if "16 \<le> n" for n
  proof -
    have "unat a < 2 ^ n" using assms(1) power_increasing [of 16 n "2 :: nat"] that by simp
    then have "\<not> bit (unat a) n" by (simp add: bit_iff_odd)
    then show ?thesis by (simp add: bit_unsigned_iff)
  qed
  then have "and (push_bit 16 b) a = 0"
    by (intro bit_word_eqI) (auto simp: bit_and_iff bit_push_bit_iff)
  then have "or (push_bit 16 b) a = push_bit 16 b + a" by (rule disjunctive_add_eq_or [symmetric])
  moreover have "unat (push_bit 16 b) = unat b * 65536"
    using assms(2) by (simp add: push_bit_eq_mult unat_word_ariths)
  ultimately show ?thesis using assms by (simp add: unat_word_ariths)
qed

lemma adler_sums:
  "unat (adler ds) = snd (adlerSums ds (1, 0)) mod 65521 * 65536 + fst (adlerSums ds (1, 0)) mod 65521"
proof -
  have l: "unat (fst (adlerLoop ds (1, 0))) = fst (adlerSums ds (1, 0)) mod 65521"
    "unat (snd (adlerLoop ds (1, 0))) = snd (adlerSums ds (1, 0)) mod 65521"
    using adler_loop [of 1 0 ds] by simp_all
  have lt: "x mod 65521 < 65536" for x :: nat using mod_less_divisor [of 65521 x] by linarith
  show ?thesis
    unfolding adler_def Let_def prod.case_eq_if using join_halves lt l by metis
qed

text \<open>
  C29. The checksum of a sequence of bytes, of any length, is its Adler-32: the high half is the sum of
  all partial sums and the low half the sum of the bytes and one, both modulo 65521 and computed
  without bounds. The words in which the code computes them never wrap around.
\<close>
theorem adler_is_adler32:
  "unat (adler ds) = snd (adlerSums ds (1, 0)) mod 65521 * 65536 + fst (adlerSums ds (1, 0)) mod 65521"
  by (rule adler_sums)

end
