(* ===== verification/DiskTable.thy ===== *)
theory DiskTable
  imports LogRecovery Adler
begin

section \<open>Disk tables (src/cc/kdi/local/disk_table.cc, disk_table_writer.cc)\<close>

text \<open>
  A disk table is a file of records: blocks of cells, an index of the blocks and a trailer that
  locates the index. The file is the list of its records. The marshalling of a record and its
  compression are arguments: \<open>recordData\<close> is the data of a record, over which the checksum is
  taken, and \<open>storedLength\<close> the length at which the data are stored, after a header of ten bytes.
  Offsets into a record are resolved: a cell holds its strings.
\<close>

record IndexEntryV1 =
  blockChecksum :: "32 word"
  lastRow :: string
  blockOffset :: nat
  lowestTime :: int
  highestTime :: int
  colFamilyMask :: "32 word"

datatype DiskRecord =
    CellBlockRecord "CellData list"
  | BlockIndexRecord "IndexEntryV1 list" "string list"
  | TableInfoRecord nat

record DiskFormat =
  recordData :: "DiskRecord \<Rightarrow> 8 word list"
  storedLength :: "DiskRecord \<Rightarrow> nat"

subsection \<open>Files of records\<close>

definition recordChecksum :: "DiskFormat \<Rightarrow> DiskRecord \<Rightarrow> 32 word" where
  "recordChecksum fmt r = adler (recordData fmt r)"

definition TABLE_INFO_SIZE :: nat where
  "TABLE_INFO_SIZE = 8"

definition recordLength :: "DiskFormat \<Rightarrow> DiskRecord \<Rightarrow> nat" where
  "recordLength fmt r = 10 + (case r of TableInfoRecord n \<Rightarrow> TABLE_INFO_SIZE | _ \<Rightarrow> storedLength fmt r)"

definition fileTell :: "DiskFormat \<Rightarrow> DiskRecord list \<Rightarrow> nat" where
  "fileTell fmt rs = sum_list (map (recordLength fmt) rs)"

text \<open>The records from a position on; nothing is said of a position inside a record.\<close>

fun fileSeek :: "DiskFormat \<Rightarrow> nat \<Rightarrow> DiskRecord list \<Rightarrow> DiskRecord list option" where
  "fileSeek fmt pos [] = Some []"
| "fileSeek fmt pos (r # rs) =
     (if pos = 0 then Some (r # rs)
      else if pos < recordLength fmt r then None
      else fileSeek fmt (pos - recordLength fmt r) rs)"

subsection \<open>String pools (src/cc/warp/string_pool_builder.h)\<close>

text \<open>
  A string is stored once, at an offset that is a multiple of four, behind its length.
\<close>

record StringPool =
  poolTable :: "(string \<times> nat) list"
  poolSize :: nat

definition StringPool0 :: StringPool where
  "StringPool0 = \<lparr>poolTable = [], poolSize = 0\<rparr>"

definition alignUp :: "nat \<Rightarrow> nat \<Rightarrow> nat" where
  "alignUp n a = (n + (a - 1)) div a * a"

definition getStringOffset :: "string \<Rightarrow> StringPool \<Rightarrow> StringPool \<times> nat" where
  "getStringOffset s p =
     (case map_of (poolTable p) s of
        Some pos \<Rightarrow> (p, pos)
      | None \<Rightarrow>
          let pos = alignUp (poolSize p) 4
          in (\<lparr>poolTable = (s, pos) # poolTable p, poolSize = pos + 4 + length s\<rparr>, pos))"

definition getString :: "nat \<Rightarrow> StringPool \<Rightarrow> string" where
  "getString pos p = (case map_of (map prod.swap (poolTable p)) pos of None \<Rightarrow> [] | Some s \<Rightarrow> s)"

subsection \<open>Writing\<close>

record DiskWriter =
  diskOutput :: "DiskRecord list"
  blockPool :: StringPool
  builderCells :: "CellData list"
  indexPool :: StringPool
  indexEntries :: "IndexEntryV1 list"
  lowTime :: int
  highTime :: int
  colFamilyMasks :: "(nat, 32 word) omap"
  nextColMask :: "32 word"
  curColMask :: "32 word"

definition writerOpen :: DiskWriter where
  "writerOpen =
     \<lparr>diskOutput = [], blockPool = StringPool0, builderCells = [], indexPool = StringPool0, indexEntries = [],
      lowTime = 0, highTime = 0, colFamilyMasks = [], nextColMask = 1, curColMask = 0\<rparr>"

definition CELL_DATA_SIZE :: nat where
  "CELL_DATA_SIZE = 24"

definition INDEX_ENTRY_SIZE :: nat where
  "INDEX_ENTRY_SIZE = 40"

definition blockDataSize :: "DiskWriter \<Rightarrow> nat" where
  "blockDataSize w = poolSize (blockPool w) + CELL_DATA_SIZE * length (builderCells w) + 8"

definition indexDataSize :: "DiskWriter \<Rightarrow> nat" where
  "indexDataSize w = poolSize (indexPool w) + INDEX_ENTRY_SIZE * length (indexEntries w) + 8"

definition addIndexEntry :: "DiskFormat \<Rightarrow> DiskRecord \<Rightarrow> DiskWriter \<Rightarrow> DiskWriter" where
  "addIndexEntry fmt r w =
     (let row = cd_row (last (builderCells w))
      in w\<lparr>indexPool := fst (getStringOffset row (indexPool w)),
           indexEntries := indexEntries w @
             [\<lparr>blockChecksum = recordChecksum fmt r, lastRow = row, blockOffset = fileTell fmt (diskOutput w),
               lowestTime = lowTime w, highestTime = highTime w, colFamilyMask = curColMask w\<rparr>],
           curColMask := 0\<rparr>)"

definition addCellData :: "Cell \<Rightarrow> DiskWriter \<Rightarrow> DiskWriter" where
  "addCellData x w =
     (let (p1, r) = getStringOffset (getRow x) (blockPool w);
          (p2, c) = getStringOffset (getColumn x) p1;
          p3 = (if isErasure x then p2 else fst (getStringOffset (getValue x) p2))
      in w\<lparr>blockPool := p3, builderCells := builderCells w @ [appendCellData x]\<rparr>)"

definition addTimeRange :: "int \<Rightarrow> DiskWriter \<Rightarrow> DiskWriter" where
  "addTimeRange t w =
     (if length (builderCells w) = 1 then w\<lparr>lowTime := t, highTime := t\<rparr>
      else let w1 = (if t < lowTime w then w\<lparr>lowTime := t\<rparr> else w)
           in if highTime w1 < t then w1\<lparr>highTime := t\<rparr> else w1)"

definition addColumnFamily :: "string \<Rightarrow> DiskWriter \<Rightarrow> DiskWriter" where
  "addColumnFamily family w =
     (let (p, colFamily) = getStringOffset family (indexPool w); w1 = w\<lparr>indexPool := p\<rparr>
      in case mapFind colFamily (colFamilyMasks w1) of
           Some m \<Rightarrow> w1\<lparr>curColMask := or (curColMask w1) m\<rparr>
         | None \<Rightarrow>
             let m = (if nextColMask w1 = 0 then 1 else nextColMask w1)
             in w1\<lparr>colFamilyMasks := mapPut colFamily m (colFamilyMasks w1),
                   curColMask := or (curColMask w1) m, nextColMask := push_bit 1 m\<rparr>)"

definition addCell :: "Cell \<Rightarrow> DiskWriter \<Rightarrow> DiskWriter" where
  "addCell x w = addColumnFamily (cellColumnFamily x) (addTimeRange (getTimestamp x) (addCellData x w))"

definition writeCellBlock :: "DiskFormat \<Rightarrow> DiskWriter \<Rightarrow> DiskWriter" where
  "writeCellBlock fmt w =
     (let r = CellBlockRecord (builderCells w); w1 = addIndexEntry fmt r w
      in w1\<lparr>diskOutput := diskOutput w1 @ [r], blockPool := StringPool0, builderCells := []\<rparr>)"

definition writeBlockIndex :: "DiskWriter \<Rightarrow> DiskWriter" where
  "writeBlockIndex w =
     w\<lparr>diskOutput := diskOutput w @
          [BlockIndexRecord (indexEntries w) (map (\<lambda>p. getString (fst p) (indexPool w)) (colFamilyMasks w))],
       indexPool := StringPool0, indexEntries := []\<rparr>"

definition writerClose :: "DiskFormat \<Rightarrow> DiskWriter \<Rightarrow> DiskWriter" where
  "writerClose fmt w =
     (let w1 = (if builderCells w \<noteq> [] then writeCellBlock fmt w else w);
          indexOffset = fileTell fmt (diskOutput w1);
          w2 = writeBlockIndex w1
      in w2\<lparr>diskOutput := diskOutput w2 @ [TableInfoRecord indexOffset]\<rparr>)"

definition writerPut :: "DiskFormat \<Rightarrow> nat \<Rightarrow> Cell \<Rightarrow> DiskWriter \<Rightarrow> DiskWriter" where
  "writerPut fmt blockSize x w =
     (let w1 = addCell x w in if blockSize \<le> blockDataSize w1 then writeCellBlock fmt w1 else w1)"

definition writerSize :: "DiskFormat \<Rightarrow> DiskWriter \<Rightarrow> nat" where
  "writerSize fmt w = fileTell fmt (diskOutput w) + blockDataSize w + indexDataSize w"

text \<open>The file that is written for some cells.\<close>

definition writeTable :: "DiskFormat \<Rightarrow> nat \<Rightarrow> Cell list \<Rightarrow> DiskRecord list" where
  "writeTable fmt blockSize cs = diskOutput (writerClose fmt (fold (writerPut fmt blockSize) cs writerOpen))"

text \<open>The public operations check that the writer is open; a closed writer is \<open>None\<close>.\<close>

definition tableWriterOpen :: "DiskWriter option \<Rightarrow> DiskWriter option result" where
  "tableWriterOpen w = (if w \<noteq> None then Inl (RuntimeError ''DiskTableWriter already open'') else Inr (Some writerOpen))"

definition tableWriterClose :: "DiskFormat \<Rightarrow> DiskWriter option \<Rightarrow> (DiskWriter option \<times> DiskRecord list) result" where
  "tableWriterClose fmt w =
     (case w of
        None \<Rightarrow> Inl (RuntimeError ''DiskTableWriter already closed'')
      | Some w \<Rightarrow> Inr (None, diskOutput (writerClose fmt w)))"

definition tableWriterPut :: "DiskFormat \<Rightarrow> nat \<Rightarrow> Cell \<Rightarrow> DiskWriter option \<Rightarrow> DiskWriter option result" where
  "tableWriterPut fmt blockSize x w =
     (case w of
        None \<Rightarrow> Inl (RuntimeError ''put() to closed DiskTableWriter'')
      | Some w \<Rightarrow> Inr (Some (writerPut fmt blockSize x w)))"

definition tableWriterSize :: "DiskFormat \<Rightarrow> DiskWriter option \<Rightarrow> nat result" where
  "tableWriterSize fmt w =
     (case w of
        None \<Rightarrow> Inl (RuntimeError ''size() to closed DiskTableWriter'')
      | Some w \<Rightarrow> Inr (writerSize fmt w))"


subsection \<open>Loading the index\<close>

text \<open>
  The trailer has a fixed size at the end of the file. The result is the position of the index and
  the index.
\<close>

definition loadIndex :: "DiskFormat \<Rightarrow> DiskRecord list \<Rightarrow> (nat \<times> IndexEntryV1 list \<times> string list) result" where
  "loadIndex fmt file =
     (let n = fileTell fmt file; k = 10 + TABLE_INFO_SIZE
      in if n < k then Inl (Undefined ''seek before the start of the file'')
         else case fileSeek fmt (n - k) file of
           Some (TableInfoRecord indexOffset # _) \<Rightarrow>
             (case fileSeek fmt indexOffset file of
                Some (BlockIndexRecord blocks colFamilies # _) \<Rightarrow> Inr (indexOffset, blocks, colFamilies)
              | _ \<Rightarrow> Inl (RuntimeError ''could not read BlockIndex record''))
         | _ \<Rightarrow> Inl (RuntimeError ''could not read TableInfo record''))"

subsection \<open>Scanning\<close>

text \<open>
  The scanner's position in the file is the list of the records still to be read; \<open>nextRows\<close> are
  the bounds of the row set from the row iterator on, \<open>None\<close> without a row set. The current block
  and the two iterators into it are kept as positions. Where the code advances the index iterator
  to the end of the index it still reads the entry there; \<open>pastIndex\<close> is what it finds.
\<close>

record DiskScanner =
  scanFile :: "DiskRecord list"
  scanInput :: "DiskRecord list"
  nextRows :: "string IntervalPoint list option"
  scanUpper :: "string IntervalPoint"
  scanMask :: "32 word"
  scanTimes :: "int IntervalSet option"
  scanBlocks :: "IndexEntryV1 list"
  indexIt :: "nat option"
  blockRec :: "CellData list option"
  cellIt :: nat
  cellEnd :: nat

definition cellLowerBound :: "CellData list \<Rightarrow> string IntervalPoint \<Rightarrow> nat" where
  "cellLowerBound ds p = length (takeWhile (\<lambda>c. valuePointLt (<) (cd_row c) p) ds)"

definition cellUpperBound :: "CellData list \<Rightarrow> string IntervalPoint \<Rightarrow> nat" where
  "cellUpperBound ds p = length (takeWhile (\<lambda>c. \<not> pointValueLt (<) p (cd_row c)) ds)"

definition entryLowerBound :: "IndexEntryV1 list \<Rightarrow> string IntervalPoint \<Rightarrow> nat" where
  "entryLowerBound entries p = length (takeWhile (\<lambda>e. valuePointLt (<) (lastRow e) p) entries)"

definition timesMiss :: "DiskScanner \<Rightarrow> IndexEntryV1 \<Rightarrow> bool" where
  "timesMiss sc e =
     (case scanTimes sc of
        None \<Rightarrow> False
      | Some ts \<Rightarrow>
          \<not> isetOverlaps (<) ts
             \<lparr>lowerBound = mk_point (lowestTime e) PT_INCLUSIVE_LOWER_BOUND,
              upperBound = mk_point (highestTime e) PT_INCLUSIVE_UPPER_BOUND\<rparr>)"

definition familiesMiss :: "DiskScanner \<Rightarrow> IndexEntryV1 \<Rightarrow> bool" where
  "familiesMiss sc e \<longleftrightarrow> scanMask sc \<noteq> 0 \<and> and (scanMask sc) (colFamilyMask e) = 0"

definition indexEntryAt :: "IndexEntryV1 \<Rightarrow> DiskScanner \<Rightarrow> nat \<Rightarrow> IndexEntryV1" where
  "indexEntryAt pastIndex sc i = (if i < length (scanBlocks sc) then scanBlocks sc ! i else pastIndex)"

text \<open>
  \<open>readNextBlock\<close>: the block at \<open>i\<close> is tried, after a seek to it if \<open>b\<close>, and then the next ones.
\<close>

function readBlock ::
  "DiskFormat \<Rightarrow> IndexEntryV1 \<Rightarrow> bool \<Rightarrow> nat \<Rightarrow> DiskScanner \<Rightarrow> (DiskScanner \<times> bool) result" where
  "readBlock fmt pastIndex b i sc =
     (if b \<and> length (scanBlocks sc) \<le> i then Inr (sc, False)
      else
        case (if b then fileSeek fmt (blockOffset (scanBlocks sc ! i)) (scanFile sc) else Some (scanInput sc)) of
          None \<Rightarrow> Inl (Undefined ''no record at this position'')
        | Some rs \<Rightarrow>
            let sc1 = sc\<lparr>indexIt := Some i, scanInput := rs\<rparr>; e = indexEntryAt pastIndex sc i
            in if timesMiss sc e \<or> familiesMiss sc e then readBlock fmt pastIndex True (Suc i) sc1
               else case rs of
                 CellBlockRecord ds # rs' \<Rightarrow>
                   if blockChecksum e \<noteq> recordChecksum fmt (CellBlockRecord ds)
                   then readBlock fmt pastIndex False (Suc i) (sc1\<lparr>scanInput := rs', blockRec := Some ds\<rparr>)
                   else Inr (sc1\<lparr>scanInput := rs', blockRec := Some ds, cellIt := 0, cellEnd := length ds\<rparr>, True)
               | _ \<Rightarrow> Inr (sc1\<lparr>scanInput := tl rs, blockRec := None, cellIt := 0, cellEnd := 0\<rparr>, False))"
  by pat_completeness auto
termination
  by (relation "inv_image (less_than <*lex*> less_than <*lex*> less_than)
      (\<lambda>(fmt, past, b, i, sc). (Suc (length (scanBlocks sc)) - i, if b then 0 else 1 :: nat, length (scanInput sc)))")
    (auto split: if_splits)

declare readBlock.simps [simp del]

definition readNextBlock :: "DiskFormat \<Rightarrow> IndexEntryV1 \<Rightarrow> DiskScanner \<Rightarrow> (DiskScanner \<times> bool) result" where
  "readNextBlock fmt pastIndex sc = readBlock fmt pastIndex False (case indexIt sc of None \<Rightarrow> 0 | Some i \<Rightarrow> Suc i) sc"

definition getNextRowSegment :: "DiskFormat \<Rightarrow> IndexEntryV1 \<Rightarrow> DiskScanner \<Rightarrow> (DiskScanner \<times> bool) result" where
  "getNextRowSegment fmt pastIndex sc =
     (case nextRows sc of
        None \<Rightarrow> readNextBlock fmt pastIndex sc
      | Some [] \<Rightarrow> Inr (sc, False)
      | Some [lo] \<Rightarrow> Inl (Undefined ''end of the row set read'')
      | Some (lo # hi # ps) \<Rightarrow>
          let sc1 = sc\<lparr>nextRows := Some ps, scanUpper := hi\<rparr>
          in case (case blockRec sc1 of
                     None \<Rightarrow> None
                   | Some ds \<Rightarrow> if cellLowerBound ds lo \<noteq> length ds then Some ds else None) of
               Some ds \<Rightarrow> Inr (sc1\<lparr>cellIt := cellLowerBound ds lo, cellEnd := length ds\<rparr>, True)
             | None \<Rightarrow>
                 let ent = entryLowerBound (scanBlocks sc1) lo
                 in if ent = length (scanBlocks sc1) then Inr (sc1, False)
                    else bind_res (readBlock fmt pastIndex True ent sc1) (\<lambda>(sc2, found).
                      if found then Inr (sc2\<lparr>cellIt := cellLowerBound (the (blockRec sc2)) lo\<rparr>, True)
                      else Inr (sc2, False)))"

definition getMoreCells :: "DiskFormat \<Rightarrow> IndexEntryV1 \<Rightarrow> DiskScanner \<Rightarrow> (DiskScanner \<times> bool) result" where
  "getMoreCells fmt pastIndex sc =
     bind_res
       (if (case blockRec sc of None \<Rightarrow> False | Some ds \<Rightarrow> cellEnd sc = length ds)
        then readNextBlock fmt pastIndex sc else getNextRowSegment fmt pastIndex sc)
       (\<lambda>(sc1, found).
          if \<not> found then Inr (sc1, False)
          else if \<not> pointIsInfinite (scanUpper sc1) then
            Inr (sc1\<lparr>cellEnd := cellIt sc1 + cellUpperBound (drop (cellIt sc1) (take (cellEnd sc1) (the (blockRec sc1)))) (scanUpper sc1)\<rparr>, True)
          else Inr (sc1, True))"

text \<open>
  Every step of the scanner uses up bounds of the row set, or entries of the index, or records of
  the file, or cells of the block.
\<close>

definition boundsLeft :: "DiskScanner \<Rightarrow> nat" where
  "boundsLeft sc = (case nextRows sc of None \<Rightarrow> 0 | Some ps \<Rightarrow> length ps)"

definition entriesLeft :: "DiskScanner \<Rightarrow> nat" where
  "entriesLeft sc = Suc (length (scanBlocks sc)) - (case indexIt sc of None \<Rightarrow> 0 | Some i \<Rightarrow> Suc i)"

definition blockCellsLeft :: "DiskScanner \<Rightarrow> nat" where
  "blockCellsLeft sc = (case blockRec sc of None \<Rightarrow> 0 | Some ds \<Rightarrow> length ds) - cellIt sc"

definition scanOrder :: "(DiskScanner \<times> DiskScanner) set" where
  "scanOrder = inv_image (less_than <*lex*> less_than <*lex*> less_than <*lex*> less_than)
     (\<lambda>sc. (boundsLeft sc, entriesLeft sc, length (scanInput sc), blockCellsLeft sc))"

definition blockOrder :: "(DiskScanner \<times> DiskScanner) set" where
  "blockOrder = inv_image (less_than <*lex*> less_than <*lex*> less_than)
     (\<lambda>sc. (boundsLeft sc, entriesLeft sc, length (scanInput sc)))"

lemma wf_scanOrder: "wf scanOrder"
  by (simp add: scanOrder_def wf_lex_prod)

lemma blockOrder_scanOrder: "(a, b) \<in> blockOrder \<Longrightarrow> (a, b) \<in> scanOrder"
  by (auto simp: blockOrder_def scanOrder_def)

text \<open>One step of the search for a block.\<close>

lemma readBlock_cases:
  assumes "readBlock fmt past b i sc = Inr (sc', r)"
  obtains (off) "b" "length (scanBlocks sc) \<le> i" "sc' = sc" "\<not> r"
  | (skip) rs where "\<not> b \<Longrightarrow> rs = scanInput sc" "b \<Longrightarrow> i < length (scanBlocks sc)"
      "b \<Longrightarrow> fileSeek fmt (blockOffset (scanBlocks sc ! i)) (scanFile sc) = Some rs"
      "timesMiss sc (indexEntryAt past sc i) \<or> familiesMiss sc (indexEntryAt past sc i)"
      "readBlock fmt past True (Suc i) (sc\<lparr>indexIt := Some i, scanInput := rs\<rparr>) = Inr (sc', r)"
  | (bad) rs' ds where "\<not> b \<Longrightarrow> CellBlockRecord ds # rs' = scanInput sc" "b \<Longrightarrow> i < length (scanBlocks sc)"
      "b \<Longrightarrow> fileSeek fmt (blockOffset (scanBlocks sc ! i)) (scanFile sc) = Some (CellBlockRecord ds # rs')"
      "\<not> (timesMiss sc (indexEntryAt past sc i) \<or> familiesMiss sc (indexEntryAt past sc i))"
      "blockChecksum (indexEntryAt past sc i) \<noteq> recordChecksum fmt (CellBlockRecord ds)"
      "readBlock fmt past False (Suc i) (sc\<lparr>indexIt := Some i, scanInput := rs', blockRec := Some ds\<rparr>) = Inr (sc', r)"
  | (good) rs' ds where "\<not> b \<Longrightarrow> CellBlockRecord ds # rs' = scanInput sc" "b \<Longrightarrow> i < length (scanBlocks sc)"
      "b \<Longrightarrow> fileSeek fmt (blockOffset (scanBlocks sc ! i)) (scanFile sc) = Some (CellBlockRecord ds # rs')"
      "\<not> (timesMiss sc (indexEntryAt past sc i) \<or> familiesMiss sc (indexEntryAt past sc i))"
      "blockChecksum (indexEntryAt past sc i) = recordChecksum fmt (CellBlockRecord ds)"
      "sc' = sc\<lparr>indexIt := Some i, scanInput := rs', blockRec := Some ds, cellIt := 0, cellEnd := length ds\<rparr>" r
  | (none) rs where "\<not> b \<Longrightarrow> rs = scanInput sc" "b \<Longrightarrow> i < length (scanBlocks sc)"
      "b \<Longrightarrow> fileSeek fmt (blockOffset (scanBlocks sc ! i)) (scanFile sc) = Some rs"
      "\<nexists>ds rs'. rs = CellBlockRecord ds # rs'"
      "sc' = sc\<lparr>indexIt := Some i, scanInput := tl rs, blockRec := None, cellIt := 0, cellEnd := 0\<rparr>" "\<not> r"
proof (cases "b \<and> length (scanBlocks sc) \<le> i")
  case True
  then have e: "readBlock fmt past b i sc = Inr (sc, False)" by (subst readBlock.simps) (simp only: simp_thms if_True)
  have "sc' = sc" "\<not> r" using assms unfolding e by simp_all
  then show ?thesis using off True by blast
next
  case False
  note run = assms [unfolded readBlock.simps [of fmt past b i sc] if_not_P [OF False]]
  obtain rs where rs: "(if b then fileSeek fmt (blockOffset (scanBlocks sc ! i)) (scanFile sc) else Some (scanInput sc)) = Some rs"
    using run by (cases "if b then fileSeek fmt (blockOffset (scanBlocks sc ! i)) (scanFile sc) else Some (scanInput sc)") auto
  have b: "\<not> b \<Longrightarrow> rs = scanInput sc" "b \<Longrightarrow> i < length (scanBlocks sc)"
    "b \<Longrightarrow> fileSeek fmt (blockOffset (scanBlocks sc ! i)) (scanFile sc) = Some rs" using rs False by auto
  note run' = run [unfolded rs option.case Let_def]
  show ?thesis
  proof (cases "timesMiss sc (indexEntryAt past sc i) \<or> familiesMiss sc (indexEntryAt past sc i)")
    case True
    then show ?thesis using run' skip [OF b] by (simp add: indexEntryAt_def)
  next
    case miss: False
    note run'' = run' [unfolded if_not_P [OF miss]]
    show ?thesis
    proof (cases "\<exists>ds rs'. rs = CellBlockRecord ds # rs'")
      case True
      then obtain ds rs' where e: "rs = CellBlockRecord ds # rs'" by blast
      show ?thesis
      proof (cases "blockChecksum (indexEntryAt past sc i) = recordChecksum fmt (CellBlockRecord ds)")
        case True
        then show ?thesis using run'' e good [of ds rs'] b miss by simp
      next
        case False
        then show ?thesis using run'' e bad [of ds rs'] b miss by simp
      qed
    next
      case False
      then have "sc' = sc\<lparr>indexIt := Some i, scanInput := tl rs, blockRec := None, cellIt := 0, cellEnd := 0\<rparr> \<and> \<not> r"
        using run'' by (auto split: list.splits DiskRecord.splits)
      then show ?thesis using none [OF b False] by blast
    qed
  qed
qed

lemma readBlock_induct [consumes 1, case_names off skip bad good none]:
  assumes "readBlock fmt past b i sc = Inr (sc', r)"
    and off: "\<And>i sc. length (scanBlocks sc) \<le> i \<Longrightarrow> P True i sc sc False"
    and skip: "\<And>b i sc rs sc' r. (\<not> b \<Longrightarrow> rs = scanInput sc) \<Longrightarrow> (b \<Longrightarrow> i < length (scanBlocks sc)) \<Longrightarrow>
      (b \<Longrightarrow> fileSeek fmt (blockOffset (scanBlocks sc ! i)) (scanFile sc) = Some rs) \<Longrightarrow>
      timesMiss sc (indexEntryAt past sc i) \<or> familiesMiss sc (indexEntryAt past sc i) \<Longrightarrow>
      (r \<Longrightarrow> Suc i < length (scanBlocks sc)) \<Longrightarrow>
      P True (Suc i) (sc\<lparr>indexIt := Some i, scanInput := rs\<rparr>) sc' r \<Longrightarrow> P b i sc sc' r"
    and bad: "\<And>b i sc rs' ds sc' r. (\<not> b \<Longrightarrow> CellBlockRecord ds # rs' = scanInput sc) \<Longrightarrow> (b \<Longrightarrow> i < length (scanBlocks sc)) \<Longrightarrow>
      (b \<Longrightarrow> fileSeek fmt (blockOffset (scanBlocks sc ! i)) (scanFile sc) = Some (CellBlockRecord ds # rs')) \<Longrightarrow>
      \<not> (timesMiss sc (indexEntryAt past sc i) \<or> familiesMiss sc (indexEntryAt past sc i)) \<Longrightarrow>
      blockChecksum (indexEntryAt past sc i) \<noteq> recordChecksum fmt (CellBlockRecord ds) \<Longrightarrow>
      P False (Suc i) (sc\<lparr>indexIt := Some i, scanInput := rs', blockRec := Some ds\<rparr>) sc' r \<Longrightarrow> P b i sc sc' r"
    and good: "\<And>b i sc rs' ds. (\<not> b \<Longrightarrow> CellBlockRecord ds # rs' = scanInput sc) \<Longrightarrow> (b \<Longrightarrow> i < length (scanBlocks sc)) \<Longrightarrow>
      (b \<Longrightarrow> fileSeek fmt (blockOffset (scanBlocks sc ! i)) (scanFile sc) = Some (CellBlockRecord ds # rs')) \<Longrightarrow>
      \<not> (timesMiss sc (indexEntryAt past sc i) \<or> familiesMiss sc (indexEntryAt past sc i)) \<Longrightarrow>
      blockChecksum (indexEntryAt past sc i) = recordChecksum fmt (CellBlockRecord ds) \<Longrightarrow>
      P b i sc (sc\<lparr>indexIt := Some i, scanInput := rs', blockRec := Some ds, cellIt := 0, cellEnd := length ds\<rparr>) True"
    and none: "\<And>b i sc rs. (\<not> b \<Longrightarrow> rs = scanInput sc) \<Longrightarrow> (b \<Longrightarrow> i < length (scanBlocks sc)) \<Longrightarrow>
      (b \<Longrightarrow> fileSeek fmt (blockOffset (scanBlocks sc ! i)) (scanFile sc) = Some rs) \<Longrightarrow>
      \<nexists>ds rs'. rs = CellBlockRecord ds # rs' \<Longrightarrow>
      P b i sc (sc\<lparr>indexIt := Some i, scanInput := tl rs, blockRec := None, cellIt := 0, cellEnd := 0\<rparr>) False"
  shows "P b i sc sc' r"
proof -
  have "wf (less_than <*lex*> less_than <*lex*> less_than :: (nat \<times> nat \<times> nat) rel)" by (intro wf_lex_prod wf_less_than)
  then show ?thesis
    using assms(1)
  proof (induction "(Suc (length (scanBlocks sc)) - i, if b then 0 else 1 :: nat, length (scanInput sc))" arbitrary: b i sc
      rule: wf_induct_rule)
    case less
    from less.prems show ?case
    proof (cases rule: readBlock_cases)
      case off
      then show ?thesis using assms(2) by auto
    next
      case (skip rs)
      have "P True (Suc i) (sc\<lparr>indexIt := Some i, scanInput := rs\<rparr>) sc' r"
        by (rule less.hyps) (use skip in auto)
      moreover have "r \<Longrightarrow> Suc i < length (scanBlocks sc)"
        using skip(5) by (auto simp: readBlock.simps [of fmt past True "Suc i"] split: if_splits)
      ultimately show ?thesis using assms(3) [OF skip(1-4)] by blast
    next
      case (bad rs' ds)
      have "P False (Suc i) (sc\<lparr>indexIt := Some i, scanInput := rs', blockRec := Some ds\<rparr>) sc' r"
      proof (rule less.hyps)
        show "readBlock fmt past False (Suc i) (sc\<lparr>indexIt := Some i, scanInput := rs', blockRec := Some ds\<rparr>) = Inr (sc', r)" by (rule bad)
        have "length rs' < length (scanInput sc)" if "\<not> b" using bad(1) [OF that] by (metis length_Cons lessI)
        then show "((Suc (length (scanBlocks (sc\<lparr>indexIt := Some i, scanInput := rs', blockRec := Some ds\<rparr>))) - Suc i, if False then 0 else 1,
            length (scanInput (sc\<lparr>indexIt := Some i, scanInput := rs', blockRec := Some ds\<rparr>))),
          Suc (length (scanBlocks sc)) - i, if b then 0 else 1, length (scanInput sc)) \<in> less_than <*lex*> less_than <*lex*> less_than"
          using bad(2) by (cases b) auto
      qed
      then show ?thesis using assms(4) [OF bad(1-5)] by blast
    next
      case (good rs' ds)
      then show ?thesis using assms(5) [OF good(1-5)] by simp
    next
      case (none rs)
      then show ?thesis using assms(6) [OF none(1-4)] by simp
    qed
  qed
qed

lemma readBlock_keeps:
  "readBlock fmt past b i sc = Inr (sc', r) \<Longrightarrow> scanFile sc' = scanFile sc \<and> scanBlocks sc' = scanBlocks sc \<and>
     nextRows sc' = nextRows sc \<and> scanUpper sc' = scanUpper sc \<and> scanMask sc' = scanMask sc \<and> scanTimes sc' = scanTimes sc \<and>
     (r \<longrightarrow> (\<exists>k ds. indexIt sc' = Some k \<and> i \<le> k \<and> blockRec sc' = Some ds \<and> cellIt sc' = 0 \<and> cellEnd sc' = length ds \<and>
        (i \<le> length (scanBlocks sc) \<or> length (scanInput sc') < length (scanInput sc))))"
proof (induction rule: readBlock_induct)
  case (bad b i sc rs' ds sc' r)
  have "length rs' < length (scanInput sc)" if "\<not> b" using bad(1) [OF that] by (metis length_Cons lessI)
  then show ?case using bad(2,6) by fastforce
next
  case (good b i sc rs' ds)
  have "length rs' < length (scanInput sc)" if "\<not> b" using good(1) [OF that] by (metis length_Cons lessI)
  then show ?case using good(2) by fastforce
qed auto

lemma readBlock_order:
  assumes "readBlock fmt past b i sc = Inr (sc', True)" "(case indexIt sc of None \<Rightarrow> 0 | Some j \<Rightarrow> Suc j) = i"
  shows "(sc', sc) \<in> blockOrder"
proof -
  obtain k where k: "indexIt sc' = Some k" "i \<le> k" "scanBlocks sc' = scanBlocks sc" "nextRows sc' = nextRows sc"
    "i \<le> length (scanBlocks sc) \<or> length (scanInput sc') < length (scanInput sc)"
    using readBlock_keeps [OF assms(1)] by blast
  have "entriesLeft sc = Suc (length (scanBlocks sc)) - i" using assms(2) by (simp add: entriesLeft_def)
  then show ?thesis using k by (auto simp: blockOrder_def boundsLeft_def entriesLeft_def)
qed

lemma getNextRowSegment_order:
  assumes "getNextRowSegment fmt past sc = Inr (sc', True)"
  shows "(sc', sc) \<in> blockOrder"
proof (cases "nextRows sc")
  case None
  then show ?thesis using assms readBlock_order by (simp add: getNextRowSegment_def readNextBlock_def)
next
  case (Some qs)
  then obtain lo hi ps where qs: "qs = lo # hi # ps"
    using assms by (cases qs; cases "tl qs") (auto simp: getNextRowSegment_def)
  have "nextRows sc' = Some ps"
    using assms Some
    by (auto simp: getNextRowSegment_def qs Let_def bind_res_eq_Inr split: option.splits if_splits dest!: readBlock_keeps)
  then show ?thesis using Some by (simp add: blockOrder_def boundsLeft_def qs)
qed

lemma getMoreCells_order:
  assumes "getMoreCells fmt past sc = Inr (sc', True)"
  shows "(sc', sc) \<in> blockOrder"
proof -
  obtain sc1 where sc1: "(if (case blockRec sc of None \<Rightarrow> False | Some ds \<Rightarrow> cellEnd sc = length ds)
      then readNextBlock fmt past sc else getNextRowSegment fmt past sc) = Inr (sc1, True)"
    "nextRows sc' = nextRows sc1" "scanBlocks sc' = scanBlocks sc1" "indexIt sc' = indexIt sc1" "scanInput sc' = scanInput sc1"
    using assms by (auto simp: getMoreCells_def bind_res_eq_Inr simp del: if_split split: if_splits)
  have "(sc1, sc) \<in> blockOrder"
    using sc1(1) readBlock_order [of fmt past False _ sc sc1] getNextRowSegment_order [of fmt past sc sc1]
    by (auto simp: readNextBlock_def split: if_splits)
  then show ?thesis using sc1(2-5) by (simp add: blockOrder_def boundsLeft_def entriesLeft_def)
qed

function diskGet :: "DiskFormat \<Rightarrow> IndexEntryV1 \<Rightarrow> DiskScanner \<Rightarrow> (DiskScanner \<times> Cell option) result" where
  "diskGet fmt pastIndex sc =
     (if cellIt sc \<noteq> cellEnd sc then
        (case blockRec sc of
           None \<Rightarrow> Inl (Undefined ''null cell iterator'')
         | Some ds \<Rightarrow>
             if cellIt sc < length ds then Inr (sc\<lparr>cellIt := Suc (cellIt sc)\<rparr>, Some (readCellData (ds ! cellIt sc)))
             else Inl (Undefined ''end of the block read''))
      else
        case getMoreCells fmt pastIndex sc of
          Inl e \<Rightarrow> Inl e
        | Inr r \<Rightarrow> if snd r then diskGet fmt pastIndex (fst r) else Inr (fst r, None))"
  by pat_completeness auto
termination
  by (relation "inv_image blockOrder (\<lambda>(fmt, past, sc). sc)")
    (auto simp: blockOrder_def intro!: getMoreCells_order [unfolded blockOrder_def, simplified])

declare diskGet.simps [simp del]

lemma blockOrder_trans: "(a, b) \<in> scanOrder \<Longrightarrow> (b, c) \<in> blockOrder \<Longrightarrow> (a, c) \<in> scanOrder"
  by (auto simp: blockOrder_def scanOrder_def)

lemma diskGet_order: "diskGet fmt past sc = Inr (sc', Some c) \<Longrightarrow> (sc', sc) \<in> scanOrder"
proof (induction fmt past sc rule: diskGet.induct)
  case (1 fmt past sc)
  show ?case
  proof (cases "cellIt sc \<noteq> cellEnd sc")
    case True
    then show ?thesis
      using 1(2) by (subst (asm) diskGet.simps)
        (auto simp: scanOrder_def boundsLeft_def entriesLeft_def blockCellsLeft_def split: option.splits if_splits)
  next
    case False
    then obtain sc1 where more: "getMoreCells fmt past sc = Inr (sc1, True)" and go: "diskGet fmt past sc1 = Inr (sc', Some c)"
      using 1(2) by (subst (asm) diskGet.simps) (auto split: sum.splits if_splits)
    have "(sc', sc1) \<in> scanOrder" using 1(1) [OF _ more] go False by simp
    then show ?thesis using getMoreCells_order [OF more] blockOrder_trans by blast
  qed
qed

text \<open>What a reader gets that reads the stream to its end.\<close>

function diskStream :: "DiskFormat \<Rightarrow> IndexEntryV1 \<Rightarrow> DiskScanner \<Rightarrow> Cell list result" where
  "diskStream fmt pastIndex sc =
     (case diskGet fmt pastIndex sc of
        Inl e \<Rightarrow> Inl e
      | Inr r \<Rightarrow>
          case snd r of
            None \<Rightarrow> Inr []
          | Some c \<Rightarrow> bind_res (diskStream fmt pastIndex (fst r)) (\<lambda>cs. Inr (c # cs)))"
  by pat_completeness auto
termination
proof (relation "inv_image scanOrder (\<lambda>(fmt, past, sc). sc)", goal_cases)
  case 1
  show ?case using wf_scanOrder by (rule wf_inv_image)
next
  case (2 fmt past sc r c)
  then show ?case using diskGet_order [of fmt past sc "fst r" c] by (cases r) auto
qed

declare diskStream.simps [simp del]

text \<open>The mask of the wanted families: the bit of a family is its position in the index.\<close>

fun familyBit :: "string \<Rightarrow> string list \<Rightarrow> 32 word \<Rightarrow> 32 word" where
  "familyBit f [] nextMask = 0"
| "familyBit f (g # gs) nextMask = (if g = f then nextMask else familyBit f gs (push_bit 1 nextMask))"

definition familiesMask :: "string list \<Rightarrow> string list \<Rightarrow> 32 word" where
  "familiesMask wanted fams = fold (\<lambda>f m. or m (familyBit f fams 1)) wanted 0"

definition diskScanner ::
  "DiskRecord list \<Rightarrow> IndexEntryV1 list \<Rightarrow> string list \<Rightarrow> string IntervalSet option \<Rightarrow> string list option \<Rightarrow>
     int IntervalSet option \<Rightarrow> DiskScanner" where
  "diskScanner file blocks colFamilies rowSet families ts =
     \<lparr>scanFile = file, scanInput = file, nextRows = map_option points rowSet,
      scanUpper = mk_point [] PT_INFINITE_UPPER_BOUND,
      scanMask = (case families of None \<Rightarrow> 0 | Some fs \<Rightarrow> familiesMask fs colFamilies), scanTimes = ts,
      scanBlocks = blocks, indexIt = None, blockRec = None, cellIt = 0, cellEnd = 0\<rparr>"

definition diskTableScan :: "DiskFormat \<Rightarrow> IndexEntryV1 \<Rightarrow> DiskRecord list \<Rightarrow> ScanPredicate \<Rightarrow> Cell list result" where
  "diskTableScan fmt pastIndex file pred =
     bind_res (loadIndex fmt file) (\<lambda>(indexOffset, blocks, colFamilies).
     bind_res
       (diskStream fmt pastIndex
          (if rows pred \<noteq> None
           then diskScanner file blocks colFamilies (rows pred) (getColumnFamilies pred) (timestamps pred)
           else diskScanner file blocks colFamilies None None None))
       (\<lambda>cs. Inr (applyPredicateFilter (clearRowPredicate pred) cs)))"

subsection \<open>Scanning the index (src/cc/kdi/local/disk_table.cc: IndexScanner; src/cc/kdi/tablet/DiskFragment.cc)\<close>

fun indexSizes :: "nat \<Rightarrow> IndexEntryV1 list \<Rightarrow> (string \<times> nat) list" where
  "indexSizes base [] = []"
| "indexSizes base (e # es) = (lastRow e, blockOffset e - base) # indexSizes (blockOffset e) es"

definition diskScanIndex :: "IndexEntryV1 list \<Rightarrow> string Interval \<Rightarrow> (string \<times> nat) list" where
  "diskScanIndex blocks r =
     (let cur = entryLowerBound blocks (lowerBound r);
          e = cur + entryLowerBound (drop cur blocks) (upperBound r);
          e' = (if e \<noteq> length blocks then e + 1 else e);
          base = (if cur \<noteq> 0 then blockOffset (blocks ! (cur - 1)) else 0)
      in indexSizes base (drop cur (take e' blocks)))"

definition diskGetSize :: "IndexEntryV1 list \<Rightarrow> string Interval \<Rightarrow> 64 word" where
  "diskGetSize blocks r = fold (\<lambda>x total. total + of_nat (snd x)) (diskScanIndex blocks r) 0"

end
