(* ===== verification/DiskScan.thy ===== *)
theory DiskScan
  imports DiskTable CompactRun
begin

section \<open>What a scan of a disk table delivers\<close>

text \<open>
  A file that is laid out as the writer does it is scanned block by block: a block is skipped when
  its times or its families do not match, a range of rows is looked up in the current block or in the
  index, and a range that reaches the end of a block goes on in the next. \<open>scanRest\<close> is what a scanner
  has still to deliver, and \<open>diskStream_ok\<close> that it delivers just this.
\<close>

subsection \<open>The layout of a file\<close>

lemma fileSeek_tell: "fileSeek fmt (fileTell fmt xs) (xs @ ys) = Some ys"
proof (induction xs)
  case Nil
  then show ?case by (cases ys) (simp_all add: fileTell_def)
next
  case (Cons x xs)
  then show ?case by (simp add: fileTell_def recordLength_def)
qed

definition diskFile :: "CellData list list \<Rightarrow> IndexEntryV1 list \<Rightarrow> string list \<Rightarrow> nat \<Rightarrow> DiskRecord list" where
  "diskFile bs es fams off = map CellBlockRecord bs @ [BlockIndexRecord es fams, TableInfoRecord off]"

definition blocksIndexed :: "DiskFormat \<Rightarrow> CellData list list \<Rightarrow> IndexEntryV1 list \<Rightarrow> bool" where
  "blocksIndexed fmt bs es \<longleftrightarrow> length es = length bs \<and> (\<forall>i<length bs. bs ! i \<noteq> [] \<and>
     blockChecksum (es ! i) = recordChecksum fmt (CellBlockRecord (bs ! i)) \<and> lastRow (es ! i) = cd_row (last (bs ! i)) \<and>
     blockOffset (es ! i) = fileTell fmt (map CellBlockRecord (take i bs)))"

lemma seek_block:
  assumes "blocksIndexed fmt bs es" "i < length bs"
  shows "fileSeek fmt (blockOffset (es ! i)) (diskFile bs es fams off) =
    Some (CellBlockRecord (bs ! i) # map CellBlockRecord (drop (Suc i) bs) @ [BlockIndexRecord es fams, TableInfoRecord off])"
proof -
  have "diskFile bs es fams off = map CellBlockRecord (take i bs) @
      (map CellBlockRecord (drop i bs) @ [BlockIndexRecord es fams, TableInfoRecord off])"
    unfolding diskFile_def append_assoc [symmetric] map_append [symmetric] append_take_drop_id ..
  then show ?thesis
    using assms fileSeek_tell [of fmt "map CellBlockRecord (take i bs)"]
    by (simp add: blocksIndexed_def flip: Cons_nth_drop_Suc)
qed

lemma loadIndex_ok:
  assumes "off = fileTell fmt (map CellBlockRecord bs)"
  shows "loadIndex fmt (diskFile bs es fams off) = Inr (off, es, fams)"
proof -
  let ?f = "diskFile bs es fams off" and ?k = "10 + TABLE_INFO_SIZE"
  have tell: "fileTell fmt ?f = fileTell fmt (map CellBlockRecord bs @ [BlockIndexRecord es fams]) + ?k"
    by (simp add: diskFile_def fileTell_def recordLength_def)
  have "fileSeek fmt (fileTell fmt ?f - ?k) ?f = Some [TableInfoRecord off]"
    using fileSeek_tell [of fmt "map CellBlockRecord bs @ [BlockIndexRecord es fams]" "[TableInfoRecord off]"]
    by (simp add: tell) (simp add: diskFile_def)
  moreover have "fileSeek fmt off ?f = Some [BlockIndexRecord es fams, TableInfoRecord off]"
    unfolding assms diskFile_def by (rule fileSeek_tell)
  ultimately show ?thesis by (simp add: loadIndex_def Let_def tell)
qed

subsection \<open>Blocks that are not skipped\<close>

definition keptBlock :: "DiskScanner \<Rightarrow> IndexEntryV1 list \<Rightarrow> nat \<Rightarrow> bool" where
  "keptBlock sc es i \<longleftrightarrow> \<not> timesMiss sc (es ! i) \<and> \<not> familiesMiss sc (es ! i)"

definition keptCells :: "(nat \<Rightarrow> bool) \<Rightarrow> CellData list list \<Rightarrow> nat \<Rightarrow> nat \<Rightarrow> CellData list" where
  "keptCells K bs i n = concat (map (\<lambda>k. if K k then bs ! k else []) [i..<n])"

lemma keptCells_split: "i \<le> k \<Longrightarrow> k \<le> n \<Longrightarrow> keptCells K bs i n = keptCells K bs i k @ keptCells K bs k n"
  using upt_add_eq_append [of i k "n - k"] by (simp add: keptCells_def)

lemma keptCells_find:
  "find K [i..<n] = None \<Longrightarrow> keptCells K bs i n = []"
  "find K [i..<n] = Some k \<Longrightarrow> i \<le> k \<and> k < n \<and> keptCells K bs i n = bs ! k @ keptCells K bs (Suc k) n"
proof -
  show "find K [i..<n] = None \<Longrightarrow> keptCells K bs i n = []" by (auto simp: keptCells_def find_None_iff)
  assume "find K [i..<n] = Some k"
  then obtain j where j: "j < n - i" "k = i + j" "K k" "\<forall>l<j. \<not> K (i + l)" by (auto simp: find_Some_iff)
  have "\<not> K l" if "i \<le> l" "l < k" for l using that j(2,4) by (metis add_less_cancel_left le_Suc_ex)
  then have "keptCells K bs i k = []" by (auto simp: keptCells_def)
  moreover have "keptCells K bs k n = bs ! k @ keptCells K bs (Suc k) n"
    using j by (simp add: keptCells_def upt_conv_Cons)
  ultimately show "i \<le> k \<and> k < n \<and> keptCells K bs i n = bs ! k @ keptCells K bs (Suc k) n"
    using j keptCells_split [of i k n K bs] by simp
qed

lemma readBlock_ok:
  assumes ix: "blocksIndexed fmt bs es" and tail: "tl2 = [BlockIndexRecord es fams, TableInfoRecord off]"
  shows "i \<le> length bs \<Longrightarrow> scanFile sc = diskFile bs es fams off \<Longrightarrow> scanBlocks sc = es \<Longrightarrow>
    (\<not> b \<Longrightarrow> scanInput sc = map CellBlockRecord (drop i bs) @ tl2) \<Longrightarrow>
    case find (keptBlock sc es) [i..<length bs] of
      None \<Rightarrow> \<exists>sc'. readBlock fmt past b i sc = Inr (sc', False)
    | Some k \<Rightarrow> readBlock fmt past b i sc = Inr (sc\<lparr>indexIt := Some k, scanInput := map CellBlockRecord (drop (Suc k) bs) @ tl2,
        blockRec := Some (bs ! k), cellIt := 0, cellEnd := length (bs ! k)\<rparr>, True)"
proof (induction "length bs - i" arbitrary: i b sc)
  case 0
  have len: "length es = length bs" using ix by (simp add: blocksIndexed_def)
  have i: "i = length bs" using 0 by simp
  have off: "\<exists>sc'. readBlock fmt past True j u = Inr (sc', False)" if "scanBlocks u = es" "length bs \<le> j" for j u
    by (subst readBlock.simps) (simp add: that len)
  show ?case
  proof (cases b)
    case True
    then show ?thesis using off [of sc i] 0(4) i by simp
  next
    case False
    let ?u = "sc\<lparr>indexIt := Some i, scanInput := tl2\<rparr>"
    have inp: "scanInput sc = tl2" using 0(5) False i by simp
    have "\<exists>sc'. readBlock fmt past False i sc = Inr (sc', False)"
    proof (cases "timesMiss sc (indexEntryAt past sc i) \<or> familiesMiss sc (indexEntryAt past sc i)")
      case True
      then have "readBlock fmt past False i sc = readBlock fmt past True (Suc i) ?u"
        by (subst readBlock.simps) (simp add: inp Let_def)
      then show ?thesis using off [of ?u "Suc i"] 0(4) i by simp
    next
      case False
      then show ?thesis by (subst readBlock.simps) (simp add: inp Let_def tail)
    qed
    then show ?thesis using False i by simp
  qed
next
  case (Suc n)
  have len: "length es = length bs" using ix by (simp add: blocksIndexed_def)
  have i: "i < length bs" and n: "n = length bs - Suc i" using Suc.hyps(2) by auto
  let ?rs = "map CellBlockRecord (drop (Suc i) bs) @ tl2"
  have seek: "(if b then fileSeek fmt (blockOffset (scanBlocks sc ! i)) (scanFile sc) else Some (scanInput sc)) =
      Some (CellBlockRecord (bs ! i) # ?rs)"
    using seek_block [OF ix i, of fams off] Suc.prems i tail by (simp flip: Cons_nth_drop_Suc)
  have e: "indexEntryAt past sc i = es ! i" using Suc.prems(3) i len by (simp add: indexEntryAt_def)
  have go: "\<not> (b \<and> length (scanBlocks sc) \<le> i)" using Suc.prems(3) i len by simp
  have up: "[i..<length bs] = i # [Suc i..<length bs]" using i by (rule upt_conv_Cons)
  show ?case
  proof (cases "keptBlock sc es i")
    case True
    have "blockChecksum (es ! i) = recordChecksum fmt (CellBlockRecord (bs ! i))" using ix i by (simp add: blocksIndexed_def)
    then have "readBlock fmt past b i sc = Inr (sc\<lparr>indexIt := Some i, scanInput := ?rs,
        blockRec := Some (bs ! i), cellIt := 0, cellEnd := length (bs ! i)\<rparr>, True)"
      using True unfolding readBlock.simps [of fmt past b i sc] if_not_P [OF go] seek
      by (simp add: Let_def e keptBlock_def)
    then show ?thesis using True by (simp add: up)
  next
    case False
    let ?u = "sc\<lparr>indexIt := Some i, scanInput := CellBlockRecord (bs ! i) # ?rs\<rparr>"
    have same: "keptBlock ?u es = keptBlock sc es" by (simp add: keptBlock_def fun_eq_iff timesMiss_def familiesMiss_def)
    have r: "readBlock fmt past b i sc = readBlock fmt past True (Suc i) ?u"
      using False unfolding readBlock.simps [of fmt past b i sc] if_not_P [OF go] seek
      by (auto simp: Let_def e keptBlock_def)
    have "case find (keptBlock ?u es) [Suc i..<length bs] of
      None \<Rightarrow> \<exists>sc'. readBlock fmt past True (Suc i) ?u = Inr (sc', False)
    | Some k \<Rightarrow> readBlock fmt past True (Suc i) ?u = Inr (?u\<lparr>indexIt := Some k, scanInput := map CellBlockRecord (drop (Suc k) bs) @ tl2,
        blockRec := Some (bs ! k), cellIt := 0, cellEnd := length (bs ! k)\<rparr>, True)"
      by (rule Suc.hyps(1) [OF n]) (use Suc.prems i in auto)
    then show ?thesis using False by (simp add: r up same split: option.splits)
  qed
qed

subsection \<open>Row ranges\<close>

fun inRanges :: "string IntervalPoint list \<Rightarrow> string \<Rightarrow> bool" where
  "inRanges (lo # hi # ps) v \<longleftrightarrow> pointValueLt (<) lo v \<and> valuePointLt (<) v hi \<or> inRanges ps v"
| "inRanges ps v \<longleftrightarrow> False"

lemma inRanges_parity:
  "sorted_wrt (pointLt (<)) ps \<Longrightarrow> alternating True ps \<Longrightarrow> even (length ps) \<Longrightarrow>
     odd (below (<) ps (mk_point v PT_POINT)) \<longleftrightarrow> inRanges ps v"
proof (induction ps v rule: inRanges.induct)
  case (1 lo hi ps v)
  have "odd (below (<) (lo # hi # ps) (mk_point v PT_POINT)) \<longleftrightarrow>
     pointLt (<) lo (mk_point v PT_POINT) \<and> pointLt (<) (mk_point v PT_POINT) hi \<or> odd (below (<) ps (mk_point v PT_POINT))"
    by (rule below_pair) (use 1 in auto)
  then show ?case using 1 by (simp add: pointLt_value)
qed (auto simp: below_def)

lemma inRanges_contains: "iset_inv (<) S \<Longrightarrow> isetContains (<) S v \<longleftrightarrow> inRanges (points S) v"
  using std_less.contains_parity [of S v] inRanges_parity [of "points S" v] by (simp add: wf_simps)

abbreviation cellBelow :: "CellData \<Rightarrow> string IntervalPoint \<Rightarrow> bool" where
  "cellBelow c p \<equiv> valuePointLt (<) (cd_row c) p"

abbreviation cellAbove :: "string IntervalPoint \<Rightarrow> CellData \<Rightarrow> bool" where
  "cellAbove p c \<equiv> pointValueLt (<) p (cd_row c)"

lemma above_below: "ptype p \<noteq> PT_POINT \<Longrightarrow> cellAbove p c \<longleftrightarrow> \<not> cellBelow c p"
  using std_less.pointLt_value_total [of p "cd_row c"] by (simp add: pointLt_value)

lemma above_trans: "pointLt (<) p q \<Longrightarrow> cellAbove q c \<Longrightarrow> cellAbove p c"
  using std_less.pointLt_trans [of p q "mk_point (cd_row c) PT_POINT"] by (simp add: pointLt_value)

lemma below_trans: "cellBelow c p \<Longrightarrow> pointLt (<) p q \<Longrightarrow> cellBelow c q"
  using std_less.pointLt_trans [of "mk_point (cd_row c) PT_POINT" p q] by (simp add: pointLt_value)

lemma below_mono:
  assumes "cd_row c \<le> cd_row d" "cellBelow d p"
  shows "cellBelow c p"
proof -
  have "\<not> pointLt (<) (mk_point (cd_row d) PT_POINT) (mk_point (cd_row c) PT_POINT)"
    using assms(1) by (auto simp: pointLt_def isLess_def point_type_defs)
  moreover have "pointLt (<) (mk_point (cd_row d) PT_POINT) p" using assms(2) by (simp add: pointLt_value)
  ultimately have "pointLt (<) (mk_point (cd_row c) PT_POINT) p" by (rule std_less.pointLe_lt_trans)
  then show ?thesis by (simp add: pointLt_value)
qed

lemma bounds_typed: "alternating b ps \<Longrightarrow> p \<in> set ps \<Longrightarrow> ptype p \<noteq> PT_POINT"
  by (induction b ps rule: alternating.induct) (auto simp: point_pred_defs point_type_defs split: if_splits)

definition boundsOk :: "string IntervalPoint list \<Rightarrow> bool" where
  "boundsOk ps \<longleftrightarrow> sorted_wrt (pointLt (<)) ps \<and> alternating True ps \<and> even (length ps)"

lemma ranges_below: "boundsOk ps \<Longrightarrow> (\<And>p. p \<in> set ps \<Longrightarrow> cellBelow c p) \<Longrightarrow> \<not> inRanges ps (cd_row c)"
proof (induction ps "cd_row c" rule: inRanges.induct)
  case (1 lo hi ps)
  have "ptype lo \<noteq> PT_POINT" using 1(2) by (auto simp: boundsOk_def point_pred_defs point_type_defs)
  moreover have "boundsOk ps" using 1(2) by (simp add: boundsOk_def)
  ultimately show ?case using 1(1,3) above_below [of lo c] by auto
qed auto

lemma ranges_cons:
  assumes "boundsOk (lo # hi # ps)"
  shows "cellBelow c lo \<Longrightarrow> \<not> inRanges (lo # hi # ps) (cd_row c)"
    and "\<not> cellBelow c lo \<Longrightarrow> inRanges (lo # hi # ps) (cd_row c) \<longleftrightarrow> \<not> cellAbove hi c \<or> inRanges ps (cd_row c)"
proof -
  have lt: "\<forall>p\<in>set (hi # ps). pointLt (<) lo p" and ty: "ptype lo \<noteq> PT_POINT" "ptype hi \<noteq> PT_POINT"
    using assms bounds_typed [of True "lo # hi # ps"] by (auto simp: boundsOk_def)
  show "\<not> inRanges (lo # hi # ps) (cd_row c)" if "cellBelow c lo"
    using ranges_below [OF assms, of c] that lt below_trans by (metis set_ConsD)
  show "inRanges (lo # hi # ps) (cd_row c) \<longleftrightarrow> \<not> cellAbove hi c \<or> inRanges ps (cd_row c)" if "\<not> cellBelow c lo"
    using that above_below [OF ty(1), of c] above_below [OF ty(2), of c] by simp
qed

subsection \<open>Searching sorted cells\<close>

definition rowsSorted :: "CellData list \<Rightarrow> bool" where
  "rowsSorted ds \<longleftrightarrow> sorted_wrt (\<lambda>a b. cd_row a \<le> cd_row b) ds"

lemma lower_bound_split:
  assumes "rowsSorted ds"
  shows "\<forall>c\<in>set (take (cellLowerBound ds p) ds). cellBelow c p" "\<forall>c\<in>set (drop (cellLowerBound ds p) ds). \<not> cellBelow c p"
    "cellLowerBound ds p \<le> length ds"
proof -
  have w: "takeWhile (\<lambda>c. cellBelow c p) ds = filter (\<lambda>c. cellBelow c p) ds \<and>
      dropWhile (\<lambda>c. cellBelow c p) ds = filter (\<lambda>c. \<not> cellBelow c p) ds"
    by (rule while_filter [OF assms [unfolded rowsSorted_def]]) (rule below_mono)
  show "\<forall>c\<in>set (take (cellLowerBound ds p) ds). cellBelow c p"
    unfolding cellLowerBound_def takeWhile_eq_take [symmetric] by (auto dest: set_takeWhileD)
  have "drop (cellLowerBound ds p) ds = dropWhile (\<lambda>c. cellBelow c p) ds"
    by (simp add: cellLowerBound_def dropWhile_eq_drop)
  also have "\<dots> = filter (\<lambda>c. \<not> cellBelow c p) ds" using w by blast
  finally have "drop (cellLowerBound ds p) ds = filter (\<lambda>c. \<not> cellBelow c p) ds" .
  then show "\<forall>c\<in>set (drop (cellLowerBound ds p) ds). \<not> cellBelow c p" by simp
  show "cellLowerBound ds p \<le> length ds" unfolding cellLowerBound_def by (rule length_takeWhile_le)
qed

lemma upper_bound_split:
  "\<forall>c\<in>set (take (cellUpperBound ds p) ds). \<not> cellAbove p c" "cellUpperBound ds p \<le> length ds"
  "cellUpperBound ds p \<noteq> length ds \<Longrightarrow> cellAbove p (ds ! cellUpperBound ds p)"
proof -
  show "\<forall>c\<in>set (take (cellUpperBound ds p) ds). \<not> cellAbove p c"
    unfolding cellUpperBound_def takeWhile_eq_take [symmetric] by (auto dest: set_takeWhileD)
  show le: "cellUpperBound ds p \<le> length ds" unfolding cellUpperBound_def by (rule length_takeWhile_le)
  show "cellUpperBound ds p \<noteq> length ds \<Longrightarrow> cellAbove p (ds ! cellUpperBound ds p)"
    using le nth_length_takeWhile [of "\<lambda>c. \<not> cellAbove p c" ds] unfolding cellUpperBound_def by simp
qed

subsection \<open>What the scanner still has to deliver\<close>

definition rowsLeft :: "string IntervalPoint list option \<Rightarrow> CellData \<Rightarrow> bool" where
  "rowsLeft ps c \<longleftrightarrow> (case ps of None \<Rightarrow> True | Some ps \<Rightarrow> inRanges ps (cd_row c))"

definition rangeLeft :: "DiskScanner \<Rightarrow> CellData \<Rightarrow> bool" where
  "rangeLeft sc c \<longleftrightarrow> \<not> cellAbove (scanUpper sc) c \<or> rowsLeft (nextRows sc) c"

text \<open>The scanner before the first block, and in the block \<open>j\<close>.\<close>

definition diskParts :: "DiskFormat \<Rightarrow> CellData list list \<Rightarrow> IndexEntryV1 list \<Rightarrow> bool" where
  "diskParts fmt bs es \<longleftrightarrow> blocksIndexed fmt bs es \<and> rowsSorted (concat bs)"

definition scanCommon ::
  "CellData list list \<Rightarrow> IndexEntryV1 list \<Rightarrow> string list \<Rightarrow> nat \<Rightarrow> DiskScanner \<Rightarrow> bool" where
  "scanCommon bs es fams off sc \<longleftrightarrow> scanFile sc = diskFile bs es fams off \<and> scanBlocks sc = es \<and>
     pointIsUpperBound (scanUpper sc) \<and>
     (case nextRows sc of None \<Rightarrow> pointIsInfinite (scanUpper sc) | Some ps \<Rightarrow> boundsOk ps)"

definition scanStart ::
  "CellData list list \<Rightarrow> IndexEntryV1 list \<Rightarrow> string list \<Rightarrow> nat \<Rightarrow> DiskScanner \<Rightarrow> bool" where
  "scanStart bs es fams off sc \<longleftrightarrow> scanCommon bs es fams off sc \<and> blockRec sc = None \<and> indexIt sc = None \<and>
     scanInput sc = diskFile bs es fams off \<and> cellIt sc = 0 \<and> cellEnd sc = 0"

definition scanInBlock ::
  "CellData list list \<Rightarrow> IndexEntryV1 list \<Rightarrow> string list \<Rightarrow> nat \<Rightarrow> nat \<Rightarrow> DiskScanner \<Rightarrow> bool" where
  "scanInBlock bs es fams off j sc \<longleftrightarrow> scanCommon bs es fams off sc \<and> j < length bs \<and> blockRec sc = Some (bs ! j) \<and>
     indexIt sc = Some j \<and>
     scanInput sc = map CellBlockRecord (drop (Suc j) bs) @ [BlockIndexRecord es fams, TableInfoRecord off] \<and>
     cellIt sc \<le> cellEnd sc \<and> cellEnd sc \<le> length (bs ! j) \<and>
     (\<forall>c\<in>set (take (cellEnd sc) (bs ! j)). \<not> cellAbove (scanUpper sc) c) \<and>
     (cellEnd sc \<noteq> length (bs ! j) \<longrightarrow> cellAbove (scanUpper sc) (bs ! j ! cellEnd sc)) \<and>
     (\<forall>ps. nextRows sc = Some ps \<longrightarrow> (\<forall>p\<in>set ps. pointLt (<) (scanUpper sc) p))"

definition restAfter ::
  "CellData list list \<Rightarrow> IndexEntryV1 list \<Rightarrow> DiskScanner \<Rightarrow> nat \<Rightarrow> CellData list" where
  "restAfter bs es sc j = keptCells (keptBlock sc es) bs (Suc j) (length bs)"

definition scanRest :: "CellData list list \<Rightarrow> IndexEntryV1 list \<Rightarrow> nat \<Rightarrow> DiskScanner \<Rightarrow> CellData list" where
  "scanRest bs es j sc = drop (cellIt sc) (take (cellEnd sc) (bs ! j)) @
     filter (rangeLeft sc) (drop (cellEnd sc) (bs ! j) @ restAfter bs es sc j)"

lemma infinite_above: "pointIsUpperBound p \<Longrightarrow> pointIsInfinite p \<Longrightarrow> \<not> pointValueLt (<) (p :: string IntervalPoint) v"
  by (cases "ptype p") (auto simp: pointValueLt_def isLess_def point_pred_defs point_type_defs)

lemma rows_sorted_block:
  assumes "rowsSorted (concat bs)" "j < length bs"
  shows "rowsSorted (bs ! j)"
    "c \<in> set (bs ! j) \<Longrightarrow> i > j \<Longrightarrow> i < length bs \<Longrightarrow> d \<in> set (bs ! i) \<Longrightarrow> cd_row c \<le> cd_row d"
proof -
  have sp: "concat bs = concat (take j bs) @ bs ! j @ concat (drop (Suc j) bs)"
    using assms(2) by (metis concat.simps(2) concat_append id_take_nth_drop)
  show "rowsSorted (bs ! j)" using assms(1) unfolding rowsSorted_def sp by (simp add: sorted_wrt_append)
  assume c: "c \<in> set (bs ! j)" "i > j" "i < length bs" "d \<in> set (bs ! i)"
  have "bs ! i = drop (Suc j) bs ! (i - Suc j)" using c(2,3) by simp
  then have "bs ! i \<in> set (drop (Suc j) bs)" using c(2,3) by (metis Suc_leI diff_less_mono length_drop nth_mem)
  then show "cd_row c \<le> cd_row d" using assms(1) c unfolding rowsSorted_def sp by (auto simp: sorted_wrt_append)
qed

text \<open>The end of a range in a block.\<close>

lemma finish_range:
  assumes sc: "scanCommon bs es fams off sc" "j < length bs" "blockRec sc = Some (bs ! j)" "indexIt sc = Some j"
    "scanInput sc = map CellBlockRecord (drop (Suc j) bs) @ [BlockIndexRecord es fams, TableInfoRecord off]"
    "cellEnd sc = length (bs ! j)" "cellIt sc \<le> length (bs ! j)"
    and before: "\<forall>c\<in>set (take (cellIt sc) (bs ! j)). \<not> cellAbove (scanUpper sc) c"
    and later: "\<forall>ps. nextRows sc = Some ps \<longrightarrow> (\<forall>p\<in>set ps. pointLt (<) (scanUpper sc) p)"
    and sc': "sc' = (if \<not> pointIsInfinite (scanUpper sc)
      then sc\<lparr>cellEnd := cellIt sc + cellUpperBound (drop (cellIt sc) (take (cellEnd sc) (the (blockRec sc)))) (scanUpper sc)\<rparr> else sc)"
  shows "scanInBlock bs es fams off j sc'"
    "scanRest bs es j sc' = filter (rangeLeft sc) (drop (cellIt sc) (bs ! j) @ restAfter bs es sc j)"
proof -
  let ?m = "cellIt sc" and ?b = "bs ! j"
  define e where "e = (if \<not> pointIsInfinite (scanUpper sc) then ?m + cellUpperBound (drop ?m ?b) (scanUpper sc) else length ?b)"
  have up: "pointIsUpperBound (scanUpper sc)" using sc(1) by (simp add: scanCommon_def)
  have same: "sc' = sc\<lparr>cellEnd := e\<rparr>" using sc(3,6) unfolding sc' e_def by simp
  note U = upper_bound_split [where ds = "drop ?m ?b" and p = "scanUpper sc"]
  have le: "?m \<le> e" "e \<le> length ?b" using sc(7) U(2) by (auto simp: e_def)
  have mid: "\<forall>c\<in>set (take (e - ?m) (drop ?m ?b)). \<not> cellAbove (scanUpper sc) c"
    using U(1) infinite_above [OF up] by (auto simp: e_def)
  have tk: "take e ?b = take ?m ?b @ take (e - ?m) (drop ?m ?b)" using le(1) by (metis le_add_diff_inverse take_add)
  have nxt: "e \<noteq> length ?b \<longrightarrow> cellAbove (scanUpper sc) (?b ! e)"
  proof
    assume ne: "e \<noteq> length ?b"
    then have f: "\<not> pointIsInfinite (scanUpper sc)" "e = ?m + cellUpperBound (drop ?m ?b) (scanUpper sc)" by (auto simp: e_def split: if_splits)
    then have "cellUpperBound (drop ?m ?b) (scanUpper sc) \<noteq> length (drop ?m ?b)" using ne sc(7) by auto
    from U(3) [OF this] show "cellAbove (scanUpper sc) (?b ! e)" using f(2) sc(7) by (simp add: nth_drop)
  qed
  have common: "scanCommon bs es fams off sc'" using sc(1) by (auto simp: same scanCommon_def split: option.splits)
  show "scanInBlock bs es fams off j sc'"
    unfolding scanInBlock_def using common sc(2-5) le nxt later before mid by (auto simp: same tk)
  have k: "keptBlock sc' es = keptBlock sc es" "rangeLeft sc' = rangeLeft sc"
    by (simp_all add: same keptBlock_def timesMiss_def familiesMiss_def rangeLeft_def fun_eq_iff)
  have "drop ?m ?b = take (e - ?m) (drop ?m ?b) @ drop e ?b" using le by (metis append_take_drop_id drop_drop le_add_diff_inverse2)
  moreover have "filter (rangeLeft sc) (take (e - ?m) (drop ?m ?b)) = take (e - ?m) (drop ?m ?b)"
    using mid by (auto simp: filter_id_conv rangeLeft_def)
  moreover have "drop ?m (take e ?b) = take (e - ?m) (drop ?m ?b)" by (simp add: drop_take)
  ultimately have "filter (rangeLeft sc) (drop ?m ?b) = drop ?m (take e ?b) @ filter (rangeLeft sc) (drop e ?b)" by (metis filter_append)
  then show "scanRest bs es j sc' = filter (rangeLeft sc) (drop ?m ?b @ restAfter bs es sc j)"
    by (simp add: scanRest_def restAfter_def k) (simp add: same)
qed

subsection \<open>More cells\<close>

lemma keptBlock_cong: "scanTimes a = scanTimes b \<Longrightarrow> scanMask a = scanMask b \<Longrightarrow> keptBlock a es = keptBlock b es"
  by (simp add: keptBlock_def timesMiss_def familiesMiss_def fun_eq_iff)

definition endRange :: "DiskScanner \<Rightarrow> DiskScanner" where
  "endRange sc = (if \<not> pointIsInfinite (scanUpper sc)
     then sc\<lparr>cellEnd := cellIt sc + cellUpperBound (drop (cellIt sc) (take (cellEnd sc) (the (blockRec sc)))) (scanUpper sc)\<rparr> else sc)"

text \<open>What the two ways to go on promise: the rest \<open>R\<close> is delivered from a block on, or is empty.\<close>

definition goesOn ::
  "CellData list list \<Rightarrow> IndexEntryV1 list \<Rightarrow> string list \<Rightarrow> nat \<Rightarrow> CellData list \<Rightarrow> (DiskScanner \<times> bool) result \<Rightarrow> bool" where
  "goesOn bs es fams off R res \<longleftrightarrow> (\<exists>sc r. res = Inr (sc, r) \<and>
     (if r then \<exists>k. scanInBlock bs es fams off k (endRange sc) \<and> scanRest bs es k (endRange sc) = R else R = []))"

lemma getMoreCells_goesOn:
  assumes "goesOn bs es fams off R (if (case blockRec sc of None \<Rightarrow> False | Some ds \<Rightarrow> cellEnd sc = length ds)
      then readNextBlock fmt past sc else getNextRowSegment fmt past sc)"
  shows "\<exists>sc' r. getMoreCells fmt past sc = Inr (sc', r) \<and>
    (if r then \<exists>k. scanInBlock bs es fams off k sc' \<and> scanRest bs es k sc' = R else R = [])"
proof -
  obtain sc1 r where r: "(if (case blockRec sc of None \<Rightarrow> False | Some ds \<Rightarrow> cellEnd sc = length ds)
      then readNextBlock fmt past sc else getNextRowSegment fmt past sc) = Inr (sc1, r)"
    "if r then \<exists>k. scanInBlock bs es fams off k (endRange sc1) \<and> scanRest bs es k (endRange sc1) = R else R = []"
    using assms unfolding goesOn_def by blast
  have "getMoreCells fmt past sc = Inr (if r then endRange sc1 else sc1, r)"
    unfolding getMoreCells_def r(1) by (simp add: endRange_def)
  then show ?thesis using r(2) by (cases r) auto
qed

text \<open>Reading on in the order of the file.\<close>

lemma read_on:
  assumes ix: "blocksIndexed fmt bs es" and sc: "scanCommon bs es fams off sc" "i \<le> length bs"
    "scanInput sc = map CellBlockRecord (drop i bs) @ [BlockIndexRecord es fams, TableInfoRecord off]"
    and later: "\<forall>ps. nextRows sc = Some ps \<longrightarrow> (\<forall>p\<in>set ps. pointLt (<) (scanUpper sc) p)"
  shows "goesOn bs es fams off (filter (rangeLeft sc) (keptCells (keptBlock sc es) bs i (length bs))) (readBlock fmt past False i sc)"
proof -
  let ?tl = "[BlockIndexRecord es fams, TableInfoRecord off]"
  note ok = readBlock_ok [OF ix refl [of ?tl] sc(2), of sc False past]
  have f: "scanFile sc = diskFile bs es fams off" "scanBlocks sc = es" using sc(1) by (auto simp: scanCommon_def)
  show ?thesis
  proof (cases "find (keptBlock sc es) [i..<length bs]")
    case None
    then show ?thesis using ok f sc(3) keptCells_find(1) [OF None, of bs] unfolding goesOn_def by auto
  next
    case (Some k)
    let ?sc = "sc\<lparr>indexIt := Some k, scanInput := map CellBlockRecord (drop (Suc k) bs) @ ?tl,
        blockRec := Some (bs ! k), cellIt := 0, cellEnd := length (bs ! k)\<rparr>"
    have r: "readBlock fmt past False i sc = Inr (?sc, True)" using ok f sc(3) Some by simp
    note K = keptCells_find(2) [OF Some, of bs]
    have common: "scanCommon bs es fams off ?sc" using sc(1) by (auto simp: scanCommon_def split: option.splits)
    have e: "endRange ?sc = (if \<not> pointIsInfinite (scanUpper ?sc)
      then ?sc\<lparr>cellEnd := cellIt ?sc + cellUpperBound (drop (cellIt ?sc) (take (cellEnd ?sc) (the (blockRec ?sc)))) (scanUpper ?sc)\<rparr> else ?sc)"
      by (simp add: endRange_def)
    note F = finish_range [OF common _ _ _ _ _ _ _ _ e, of k]
    have in_block: "scanInBlock bs es fams off k (endRange ?sc)" by (rule F(1)) (use K later in auto)
    have rest: "scanRest bs es k (endRange ?sc) = filter (rangeLeft ?sc) (drop (cellIt ?sc) (bs ! k) @ restAfter bs es ?sc k)"
      by (rule F(2)) (use K later in auto)
    have "rangeLeft ?sc = rangeLeft sc" by (simp add: rangeLeft_def fun_eq_iff)
    moreover have "keptBlock ?sc es = keptBlock sc es" by (rule keptBlock_cong) simp_all
    moreover have "keptCells (keptBlock sc es) bs i (length bs) = bs ! k @ keptCells (keptBlock sc es) bs (Suc k) (length bs)"
      using K by blast
    ultimately have "filter (rangeLeft sc) (keptCells (keptBlock sc es) bs i (length bs)) = scanRest bs es k (endRange ?sc)"
      unfolding rest by (simp add: restAfter_def)
    then show ?thesis unfolding goesOn_def r using in_block
      by (intro exI [of _ ?sc] exI [of _ True] conjI refl) (simp only: if_True, blast)
  qed
qed

text \<open>The next range of rows.\<close>

lemma below_last:
  assumes "rowsSorted (concat bs)" "i < length bs" "c \<in> set (bs ! i)" "cellBelow (last (bs ! i)) p"
  shows "cellBelow c p"
proof -
  have "bs ! i = butlast (bs ! i) @ [last (bs ! i)]" using assms(3) by (metis append_butlast_last_id empty_iff empty_set)
  moreover have "rowsSorted (bs ! i)" by (rule rows_sorted_block(1) [OF assms(1,2)])
  ultimately have "c = last (bs ! i) \<or> cd_row c \<le> cd_row (last (bs ! i))"
    using assms(3) unfolding rowsSorted_def by (metis Un_iff empty_iff insert_iff list.set(1) list.simps(15) set_append sorted_wrt_append)
  then show ?thesis using below_mono assms(4) by blast
qed

lemma entry_below:
  assumes "blocksIndexed fmt bs es" "rowsSorted (concat bs)" "i < entryLowerBound es lo" "c \<in> set (bs ! i)"
  shows "i < length bs" "cellBelow c lo"
proof -
  have len: "length es = length bs" using assms(1) by (simp add: blocksIndexed_def)
  have le: "entryLowerBound es lo \<le> length es" unfolding entryLowerBound_def by (rule length_takeWhile_le)
  then show i: "i < length bs" using assms(3) len by simp
  have "valuePointLt (<) (lastRow (es ! i)) lo"
    using assms(3) unfolding entryLowerBound_def by (metis (lifting) nth_mem set_takeWhileD takeWhile_nth)
  moreover have "lastRow (es ! i) = cd_row (last (bs ! i))" using assms(1) i by (simp add: blocksIndexed_def)
  ultimately show "cellBelow c lo" using below_last [OF assms(2) i assms(4)] by simp
qed

lemma entry_least:
  assumes "blocksIndexed fmt bs es" "entryLowerBound es lo \<noteq> length es"
  shows "entryLowerBound es lo < length bs" "\<not> cellBelow (last (bs ! entryLowerBound es lo)) lo" "bs ! entryLowerBound es lo \<noteq> []"
proof -
  have len: "length es = length bs" using assms(1) by (simp add: blocksIndexed_def)
  have le: "entryLowerBound es lo \<le> length es" unfolding entryLowerBound_def by (rule length_takeWhile_le)
  then show l: "entryLowerBound es lo < length bs" using assms(2) len by simp
  have "\<not> valuePointLt (<) (lastRow (es ! entryLowerBound es lo)) lo"
    using l len unfolding entryLowerBound_def by (metis (lifting) nth_length_takeWhile)
  then show "\<not> cellBelow (last (bs ! entryLowerBound es lo)) lo" "bs ! entryLowerBound es lo \<noteq> []"
    using assms(1) l by (simp_all add: blocksIndexed_def)
qed

lemma filter_drop_below:
  assumes "\<forall>c\<in>set xs. cellBelow c lo" "\<forall>c\<in>set ys. \<not> cellBelow c lo" "boundsOk (lo # hi # ps)"
  shows "filter (rowsLeft (Some (lo # hi # ps))) (xs @ ys) = filter (\<lambda>c. \<not> cellAbove hi c \<or> rowsLeft (Some ps) c) ys"
proof -
  have "filter (rowsLeft (Some (lo # hi # ps))) xs = []"
    using assms(1) ranges_cons(1) [OF assms(3)] by (auto simp: filter_empty_conv rowsLeft_def)
  moreover have "filter (rowsLeft (Some (lo # hi # ps))) ys = filter (\<lambda>c. \<not> cellAbove hi c \<or> rowsLeft (Some ps) c) ys"
    by (rule filter_cong [OF refl]) (use assms(2) ranges_cons(2) [OF assms(3)] in \<open>auto simp: rowsLeft_def\<close>)
  ultimately show ?thesis by simp
qed

text \<open>The next range begins in the current block.\<close>

lemma segment_here:
  assumes ix: "rowsSorted (concat bs)" and sc: "scanCommon bs es fams off sc" "nextRows sc = Some (lo # hi # ps)"
    "blockRec sc = Some (bs ! j)" "indexIt sc = Some j" "j < length bs"
    "scanInput sc = map CellBlockRecord (drop (Suc j) bs) @ [BlockIndexRecord es fams, TableInfoRecord off]"
    and m: "cellLowerBound (bs ! j) lo \<noteq> length (bs ! j)"
  shows "goesOn bs es fams off (filter (rowsLeft (nextRows sc)) (bs ! j @ restAfter bs es sc j)) (getNextRowSegment fmt past sc)"
proof -
  let ?m = "cellLowerBound (bs ! j) lo"
  let ?sc = "sc\<lparr>nextRows := Some ps, scanUpper := hi, cellIt := ?m, cellEnd := length (bs ! j)\<rparr>"
  have ok: "boundsOk (lo # hi # ps)" using sc(1,2) by (simp add: scanCommon_def)
  then have ps: "boundsOk ps" "pointIsUpperBound hi" "pointLt (<) lo hi" "\<forall>p\<in>set ps. pointLt (<) hi p"
    by (auto simp: boundsOk_def)
  have r: "getNextRowSegment fmt past sc = Inr (?sc, True)" using sc(2,3) m by (simp add: getNextRowSegment_def Let_def)
  have common: "scanCommon bs es fams off ?sc" using sc(1) ps by (auto simp: scanCommon_def)
  have e: "endRange ?sc = (if \<not> pointIsInfinite (scanUpper ?sc)
      then ?sc\<lparr>cellEnd := cellIt ?sc + cellUpperBound (drop (cellIt ?sc) (take (cellEnd ?sc) (the (blockRec ?sc)))) (scanUpper ?sc)\<rparr> else ?sc)"
    by (simp add: endRange_def)
  note srt = rows_sorted_block [OF ix sc(5)]
  note L = lower_bound_split [OF srt(1), of lo]
  have before: "\<forall>c\<in>set (take ?m (bs ! j)). \<not> cellAbove hi c"
  proof
    fix c assume "c \<in> set (take ?m (bs ! j))"
    then have "cellBelow c hi" using L(1) below_trans ps(3) by blast
    moreover have "ptype hi \<noteq> PT_POINT" using bounds_typed [of True "lo # hi # ps" hi] ok by (simp add: boundsOk_def)
    ultimately show "\<not> cellAbove hi c" using above_below [of hi c] by simp
  qed
  note F = finish_range [OF common sc(5) _ _ _ _ _ _ _ e]
  have in_block: "scanInBlock bs es fams off j (endRange ?sc)" by (rule F(1)) (use sc L(3) before ps(4) in simp_all)
  have rest: "scanRest bs es j (endRange ?sc) = filter (rangeLeft ?sc) (drop (cellIt ?sc) (bs ! j) @ restAfter bs es ?sc j)"
    by (rule F(2)) (use sc L(3) before ps(4) in simp_all)
  have kept: "restAfter bs es ?sc j = restAfter bs es sc j"
    unfolding restAfter_def using keptBlock_cong [of ?sc sc es] by simp
  have left: "rangeLeft ?sc = (\<lambda>c. \<not> cellAbove hi c \<or> rowsLeft (Some ps) c)" by (simp add: rangeLeft_def fun_eq_iff)
  have ne: "drop ?m (bs ! j) \<noteq> []" using m L(3) by simp
  have later: "\<forall>c\<in>set (drop ?m (bs ! j) @ restAfter bs es sc j). \<not> cellBelow c lo"
  proof
    fix c assume "c \<in> set (drop ?m (bs ! j) @ restAfter bs es sc j)"
    then consider "c \<in> set (drop ?m (bs ! j))" | "c \<in> set (restAfter bs es sc j)" by auto
    then show "\<not> cellBelow c lo"
    proof cases
      case 2
      then obtain i where i: "Suc j \<le> i" "i < length bs" "c \<in> set (bs ! i)"
        by (auto simp: restAfter_def keptCells_def split: if_splits)
      obtain d where d: "d \<in> set (drop ?m (bs ! j))" using ne by (meson list.set_sel(1))
      have "cd_row d \<le> cd_row c" by (rule srt(2)) (use i d in \<open>auto dest: in_set_dropD\<close>)
      then show ?thesis using L(2) d below_mono by blast
    qed (use L(2) in blast)
  qed
  have "filter (rowsLeft (Some (lo # hi # ps))) (take ?m (bs ! j) @ drop ?m (bs ! j) @ restAfter bs es sc j) = scanRest bs es j (endRange ?sc)"
    unfolding rest filter_drop_below [OF L(1) later ok] by (simp add: kept left)
  then have "filter (rowsLeft (nextRows sc)) (bs ! j @ restAfter bs es sc j) = scanRest bs es j (endRange ?sc)"
    unfolding sc(2) append_assoc [symmetric] append_take_drop_id .
  then show ?thesis unfolding goesOn_def r using in_block
    by (intro exI [of _ ?sc] exI [of _ True] conjI refl) (simp only: if_True, blast)
qed

text \<open>The next range is looked up in the index; every cell up to the block \<open>i\<close> lies below it.\<close>

lemma segment_by_index:
  assumes ix: "blocksIndexed fmt bs es" and srt: "rowsSorted (concat bs)"
    and sc: "scanCommon bs es fams off sc" "nextRows sc = Some (lo # hi # ps)"
    and here: "case blockRec sc of None \<Rightarrow> True | Some ds \<Rightarrow> cellLowerBound ds lo = length ds"
    and ent: "i \<le> entryLowerBound es lo" and cur: "\<forall>c\<in>set cur. cellBelow c lo"
  shows "goesOn bs es fams off (filter (rowsLeft (nextRows sc)) (cur @ keptCells (keptBlock sc es) bs i (length bs))) (getNextRowSegment fmt past sc)"
proof -
  let ?ent = "entryLowerBound es lo" and ?K = "keptBlock sc es" and ?n = "length bs"
  let ?sc1 = "sc\<lparr>nextRows := Some ps, scanUpper := hi\<rparr>"
  let ?tl = "[BlockIndexRecord es fams, TableInfoRecord off]"
  have len: "length es = length bs" using ix by (simp add: blocksIndexed_def)
  have le: "?ent \<le> ?n" using len length_takeWhile_le [of "\<lambda>e. valuePointLt (<) (lastRow e) lo" es] by (simp add: entryLowerBound_def)
  have ok: "boundsOk (lo # hi # ps)" using sc by (simp add: scanCommon_def)
  then have ps: "boundsOk ps" "pointIsUpperBound hi" "pointLt (<) lo hi" "\<forall>p\<in>set ps. pointLt (<) hi p"
    by (auto simp: boundsOk_def)
  have f: "scanFile sc = diskFile bs es fams off" "scanBlocks sc = es" using sc(1) by (auto simp: scanCommon_def)
  have K1: "keptBlock ?sc1 es = ?K" by (rule keptBlock_cong) simp_all
  have low: "\<forall>c\<in>set (keptCells ?K bs i ?ent). cellBelow c lo"
    using entry_below(2) [OF ix srt] by (auto simp: keptCells_def split: if_splits)
  have skip: "cur @ keptCells ?K bs i ?n = (cur @ keptCells ?K bs i ?ent) @ keptCells ?K bs ?ent ?n"
    using keptCells_split [OF ent le] by simp
  have lows: "\<forall>c\<in>set (cur @ keptCells ?K bs i ?ent). cellBelow c lo" using cur low by auto
  have seg: "getNextRowSegment fmt past sc =
      (if ?ent = ?n then Inr (?sc1, False)
       else bind_res (readBlock fmt past True ?ent ?sc1) (\<lambda>(sc2, found).
          if found then Inr (sc2\<lparr>cellIt := cellLowerBound (the (blockRec sc2)) lo\<rparr>, True) else Inr (sc2, False)))"
    using here f by (cases "blockRec sc") (simp_all add: getNextRowSegment_def sc(2) Let_def len)
  have none: "goesOn bs es fams off (filter (rowsLeft (nextRows sc)) (cur @ keptCells ?K bs i ?n)) (Inr (u, False))"
    if "keptCells ?K bs ?ent ?n = []" for u
  proof -
    have "filter (rowsLeft (nextRows sc)) (cur @ keptCells ?K bs i ?n) = []"
      unfolding skip that sc(2) using filter_drop_below [OF lows _ ok, of "[]"] by simp
    then show ?thesis unfolding goesOn_def by (intro exI [of _ u] exI [of _ False]) simp
  qed
  show ?thesis
  proof (cases "?ent = ?n")
    case True
    then show ?thesis unfolding seg using none by (simp add: keptCells_def)
  next
    case ent_lt: False
    note least = entry_least [OF ix, of lo]
    have l: "?ent < ?n" using ent_lt le by simp
    note rb = readBlock_ok [OF ix refl [of ?tl] le, where sc = ?sc1 and b = True and past = past, unfolded K1]
    show ?thesis
    proof (cases "find ?K [?ent..<?n]")
      case None
      then obtain u where "readBlock fmt past True ?ent ?sc1 = Inr (u, False)" using rb f by auto
      then show ?thesis unfolding seg using ent_lt none keptCells_find(1) [OF None, of bs] by simp
    next
      case (Some k)
      note K = keptCells_find(2) [OF Some, of bs]
      let ?m = "cellLowerBound (bs ! k) lo"
      let ?sc = "?sc1\<lparr>indexIt := Some k, scanInput := map CellBlockRecord (drop (Suc k) bs) @ ?tl,
        blockRec := Some (bs ! k), cellIt := ?m, cellEnd := length (bs ! k)\<rparr>"
      have k: "k < length bs" "?ent \<le> k" using K by auto
      have r: "getNextRowSegment fmt past sc = Inr (?sc, True)" unfolding seg using rb f Some ent_lt by simp
      have common: "scanCommon bs es fams off ?sc" using sc(1) ps by (auto simp: scanCommon_def)
      have e: "endRange ?sc = (if \<not> pointIsInfinite (scanUpper ?sc)
          then ?sc\<lparr>cellEnd := cellIt ?sc + cellUpperBound (drop (cellIt ?sc) (take (cellEnd ?sc) (the (blockRec ?sc)))) (scanUpper ?sc)\<rparr> else ?sc)"
        by (simp add: endRange_def)
      note L = lower_bound_split [OF rows_sorted_block(1) [OF srt k(1)], of lo]
      have before: "\<forall>c\<in>set (take ?m (bs ! k)). \<not> cellAbove hi c"
      proof
        fix c assume "c \<in> set (take ?m (bs ! k))"
        then have "cellBelow c hi" using L(1) below_trans ps(3) by blast
        moreover have "ptype hi \<noteq> PT_POINT" using bounds_typed [of True "lo # hi # ps" hi] ok by (simp add: boundsOk_def)
        ultimately show "\<not> cellAbove hi c" using above_below [of hi c] by simp
      qed
      note F = finish_range [OF common k(1) _ _ _ _ _ _ _ e]
      have in_block: "scanInBlock bs es fams off k (endRange ?sc)" by (rule F(1)) (use L(3) before ps(4) in simp_all)
      have rest: "scanRest bs es k (endRange ?sc) = filter (rangeLeft ?sc) (drop (cellIt ?sc) (bs ! k) @ restAfter bs es ?sc k)"
        by (rule F(2)) (use L(3) before ps(4) in simp_all)
      have kept: "restAfter bs es ?sc k = keptCells ?K bs (Suc k) ?n"
        unfolding restAfter_def using keptBlock_cong [of ?sc sc es] by simp
      have left: "rangeLeft ?sc = (\<lambda>c. \<not> cellAbove hi c \<or> rowsLeft (Some ps) c)" by (simp add: rangeLeft_def fun_eq_iff)
      have later: "\<forall>c\<in>set (drop ?m (bs ! k) @ keptCells ?K bs (Suc k) ?n). \<not> cellBelow c lo"
      proof
        fix c assume "c \<in> set (drop ?m (bs ! k) @ keptCells ?K bs (Suc k) ?n)"
        then consider "c \<in> set (drop ?m (bs ! k))" | "c \<in> set (keptCells ?K bs (Suc k) ?n)" by auto
        then show "\<not> cellBelow c lo"
        proof cases
          case 2
          then obtain i' where i: "Suc k \<le> i'" "i' < length bs" "c \<in> set (bs ! i')"
            by (auto simp: keptCells_def split: if_splits)
          have "cd_row (last (bs ! ?ent)) \<le> cd_row c"
            by (rule rows_sorted_block(2) [OF srt l]) (use i k least(3) ent_lt len in auto)
          then show ?thesis using least(2) ent_lt len below_mono by metis
        qed (use L(2) in blast)
      qed
      have split: "cur @ keptCells ?K bs i ?n =
          (cur @ keptCells ?K bs i ?ent @ take ?m (bs ! k)) @ drop ?m (bs ! k) @ keptCells ?K bs (Suc k) ?n"
        unfolding skip using K by simp
      have lows': "\<forall>c\<in>set (cur @ keptCells ?K bs i ?ent @ take ?m (bs ! k)). cellBelow c lo"
        using lows L(1) by auto
      have "filter (rowsLeft (nextRows sc)) (cur @ keptCells ?K bs i ?n) = scanRest bs es k (endRange ?sc)"
        unfolding rest split sc(2) filter_drop_below [OF lows' later ok] by (simp add: kept left)
      then show ?thesis unfolding goesOn_def r using in_block
        by (intro exI [of _ ?sc] exI [of _ True] conjI refl) (simp only: if_True, blast)
    qed
  qed
qed

subsection \<open>The whole stream\<close>

definition scanState ::
  "CellData list list \<Rightarrow> IndexEntryV1 list \<Rightarrow> string list \<Rightarrow> nat \<Rightarrow> DiskScanner \<Rightarrow> CellData list \<Rightarrow> bool" where
  "scanState bs es fams off sc R \<longleftrightarrow>
     scanStart bs es fams off sc \<and> R = filter (rowsLeft (nextRows sc)) (keptCells (keptBlock sc es) bs 0 (length bs)) \<or>
     (\<exists>j. scanInBlock bs es fams off j sc \<and> R = scanRest bs es j sc)"

lemma scan_start_more:
  assumes ix: "diskParts fmt bs es" and sc: "scanStart bs es fams off sc"
  shows "goesOn bs es fams off (filter (rowsLeft (nextRows sc)) (keptCells (keptBlock sc es) bs 0 (length bs)))
    (getNextRowSegment fmt past sc)"
proof (cases "nextRows sc")
  case None
  have r: "getNextRowSegment fmt past sc = readBlock fmt past False 0 sc"
    using sc None by (simp add: getNextRowSegment_def readNextBlock_def scanStart_def)
  have "rangeLeft sc = rowsLeft (nextRows sc)" using None by (simp add: rangeLeft_def rowsLeft_def fun_eq_iff)
  then show ?thesis unfolding r
    using read_on [of fmt bs es fams off sc 0 past] ix sc None by (simp add: diskParts_def scanStart_def diskFile_def)
next
  case (Some ps)
  have ok: "boundsOk ps" using sc Some by (simp add: scanStart_def scanCommon_def)
  then consider "ps = []" | lo hi qs where "ps = lo # hi # qs"
    by (cases ps rule: remdups_adj.cases) (auto simp: boundsOk_def)
  then show ?thesis
  proof cases
    case 1
    then show ?thesis using Some unfolding goesOn_def
      by (intro exI [of _ sc] exI [of _ False]) (simp add: getNextRowSegment_def rowsLeft_def)
  next
    case 2
    then show ?thesis
      using segment_by_index [of fmt bs es fams off sc lo hi qs 0 "[]" past] ix sc Some
      by (simp add: diskParts_def scanStart_def)
  qed
qed

lemma in_block_more:
  assumes ix: "diskParts fmt bs es" and sc: "scanInBlock bs es fams off j sc" and at_end: "cellIt sc = cellEnd sc"
    and more: "cellEnd sc \<noteq> length (bs ! j)"
  shows "goesOn bs es fams off (scanRest bs es j sc) (getNextRowSegment fmt past sc)"
proof -
  let ?e = "cellEnd sc" and ?b = "bs ! j" and ?up = "scanUpper sc"
  have bi: "blocksIndexed fmt bs es" and srt: "rowsSorted (concat bs)" using ix by (auto simp: diskParts_def)
  have common: "scanCommon bs es fams off sc" and j: "j < length bs" and blk: "blockRec sc = Some ?b" "indexIt sc = Some j"
    "scanInput sc = map CellBlockRecord (drop (Suc j) bs) @ [BlockIndexRecord es fams, TableInfoRecord off]"
    and le: "?e \<le> length ?b" and before: "\<forall>c\<in>set (take ?e ?b). \<not> cellAbove ?up c"
    and nxt: "cellAbove ?up (?b ! ?e)" and later: "\<forall>ps. nextRows sc = Some ps \<longrightarrow> (\<forall>p\<in>set ps. pointLt (<) ?up p)"
    using sc more by (auto simp: scanInBlock_def)
  have up: "pointIsUpperBound ?up" using common by (simp add: scanCommon_def)
  obtain ps where ps: "nextRows sc = Some ps" "boundsOk ps"
    using common nxt infinite_above [OF up] by (cases "nextRows sc") (auto simp: scanCommon_def)
  have ty: "ptype ?up \<noteq> PT_POINT" using up by (auto simp: point_pred_defs point_type_defs)
  note S = rows_sorted_block [OF srt j]
  have above: "cellAbove ?up c" if "c \<in> set (drop ?e ?b @ restAfter bs es sc j)" for c
  proof -
    have e: "?e < length ?b" using le more by simp
    have "cd_row (?b ! ?e) \<le> cd_row c"
    proof (cases "c \<in> set (drop ?e ?b)")
      case True
      then obtain i where i: "i < length ?b - ?e" "c = ?b ! (?e + i)" by (auto simp: in_set_conv_nth)
      then show ?thesis using S(1) unfolding rowsSorted_def sorted_wrt_iff_nth_less
        by (cases "i = 0") auto
    next
      case False
      then have "c \<in> set (restAfter bs es sc j)" using that by simp
      then obtain i where i: "Suc j \<le> i" "i < length bs" "c \<in> set (bs ! i)"
        by (auto simp: restAfter_def keptCells_def split: if_splits)
      show ?thesis by (rule S(2)) (use i e in auto)
    qed
    then show ?thesis using below_mono [of "?b ! ?e" c ?up] nxt above_below [OF ty] by blast
  qed
  have rest: "scanRest bs es j sc = filter (rowsLeft (nextRows sc)) (drop ?e ?b @ restAfter bs es sc j)"
  proof -
    have "drop ?e (take ?e ?b) = []" by simp
    moreover have "filter (rangeLeft sc) (drop ?e ?b @ restAfter bs es sc j) =
        filter (rowsLeft (nextRows sc)) (drop ?e ?b @ restAfter bs es sc j)"
      by (rule filter_cong [OF refl]) (use above in \<open>simp add: rangeLeft_def\<close>)
    ultimately show ?thesis by (simp add: scanRest_def at_end)
  qed
  have gone: "filter (rowsLeft (nextRows sc)) (take ?e ?b) = []"
  proof -
    have "\<not> inRanges ps (cd_row c)" if "c \<in> set (take ?e ?b)" for c
    proof (rule ranges_below [OF ps(2)])
      fix p assume "p \<in> set ps"
      then show "cellBelow c p" using before that above_below [OF ty] later ps(1) below_trans by blast
    qed
    then show ?thesis using ps(1) by (auto simp: filter_empty_conv rowsLeft_def)
  qed
  have rest': "scanRest bs es j sc = filter (rowsLeft (nextRows sc)) (?b @ restAfter bs es sc j)"
  proof -
    have "?b = take ?e ?b @ drop ?e ?b" by simp
    then have "filter (rowsLeft (nextRows sc)) ?b = filter (rowsLeft (nextRows sc)) (drop ?e ?b)"
      using gone by (metis filter_append self_append_conv2)
    then show ?thesis unfolding rest by simp
  qed
  consider "ps = []" | lo hi qs where "ps = lo # hi # qs"
    using ps(2) by (cases ps rule: remdups_adj.cases) (auto simp: boundsOk_def)
  then show ?thesis
  proof cases
    case 1
    then show ?thesis using ps(1) unfolding goesOn_def rest
      by (intro exI [of _ sc] exI [of _ False]) (simp add: getNextRowSegment_def rowsLeft_def)
  next
    case 2
    note n = ps(1) [unfolded 2]
    show ?thesis
    proof (cases "cellLowerBound ?b lo = length ?b")
      case True
      then have low: "\<forall>c\<in>set ?b. cellBelow c lo" using lower_bound_split(1) [OF S(1), of lo] by simp
      have "Suc j \<le> entryLowerBound es lo"
      proof (rule ccontr)
        assume "\<not> Suc j \<le> entryLowerBound es lo"
        then have ent: "entryLowerBound es lo \<le> j" by simp
        then have "entryLowerBound es lo \<noteq> length es" using bi j by (simp add: blocksIndexed_def)
        note least = entry_least [OF bi this]
        have ne: "?b \<noteq> []" using bi j by (simp add: blocksIndexed_def)
        have "cd_row (last (bs ! entryLowerBound es lo)) \<le> cd_row (last ?b)"
        proof (cases "entryLowerBound es lo = j")
          case False
          show ?thesis by (rule rows_sorted_block(2) [OF srt least(1)]) (use least(3) ne ent False j in auto)
        qed simp
        then show False using least(2) low below_mono ne last_in_set by blast
      qed
      then show ?thesis unfolding rest' restAfter_def
        using segment_by_index [OF bi srt common n, of "Suc j" ?b past] blk True low by simp
    next
      case False
      then show ?thesis unfolding rest' using segment_here [OF srt common n blk(1,2) j blk(3)] by blast
    qed
  qed
qed

lemma getMoreCells_ok:
  assumes ix: "diskParts fmt bs es" and sc: "scanState bs es fams off sc R" and at_end: "cellIt sc = cellEnd sc"
  shows "\<exists>sc' r. getMoreCells fmt past sc = Inr (sc', r) \<and> (if r then scanState bs es fams off sc' R else R = [])"
proof -
  have "goesOn bs es fams off R (if (case blockRec sc of None \<Rightarrow> False | Some ds \<Rightarrow> cellEnd sc = length ds)
      then readNextBlock fmt past sc else getNextRowSegment fmt past sc)"
    using sc unfolding scanState_def
  proof (elim disjE conjE exE)
    assume a: "scanStart bs es fams off sc" "R = filter (rowsLeft (nextRows sc)) (keptCells (keptBlock sc es) bs 0 (length bs))"
    then show ?thesis using scan_start_more [OF ix a(1)] by (simp add: scanStart_def)
  next
    fix j assume a: "scanInBlock bs es fams off j sc" "R = scanRest bs es j sc"
    then have blk: "blockRec sc = Some (bs ! j)" "indexIt sc = Some j" "j < length bs" by (auto simp: scanInBlock_def)
    show ?thesis
    proof (cases "cellEnd sc = length (bs ! j)")
      case True
      have "R = filter (rangeLeft sc) (keptCells (keptBlock sc es) bs (Suc j) (length bs))"
        using True at_end by (simp add: a(2) scanRest_def restAfter_def)
      then show ?thesis
        using read_on [of fmt bs es fams off sc "Suc j" past] ix a(1) blk True
        by (simp add: readNextBlock_def diskParts_def scanInBlock_def)
    next
      case False
      then show ?thesis using in_block_more [OF ix a(1) at_end False] blk a(2) by simp
    qed
  qed
  from getMoreCells_goesOn [OF this] obtain sc' r where "getMoreCells fmt past sc = Inr (sc', r)"
    "if r then \<exists>k. scanInBlock bs es fams off k sc' \<and> scanRest bs es k sc' = R else R = []" by blast
  then show ?thesis unfolding scanState_def by (cases r) auto
qed

lemma take_cell:
  assumes "scanInBlock bs es fams off j sc" "cellIt sc \<noteq> cellEnd sc"
  shows "scanRest bs es j sc = bs ! j ! cellIt sc # scanRest bs es j (sc\<lparr>cellIt := Suc (cellIt sc)\<rparr>)"
    "scanInBlock bs es fams off j (sc\<lparr>cellIt := Suc (cellIt sc)\<rparr>)" "cellIt sc < length (bs ! j)"
proof -
  let ?sc = "sc\<lparr>cellIt := Suc (cellIt sc)\<rparr>"
  have lt: "cellIt sc < cellEnd sc" "cellEnd sc \<le> length (bs ! j)" using assms by (auto simp: scanInBlock_def)
  then show "cellIt sc < length (bs ! j)" by simp
  have common: "scanCommon bs es fams off ?sc" using assms(1) by (auto simp: scanInBlock_def scanCommon_def split: option.splits)
  show "scanInBlock bs es fams off j ?sc"
    using assms(1) common lt unfolding scanInBlock_def by simp
  have "rangeLeft ?sc = rangeLeft sc" by (simp add: rangeLeft_def fun_eq_iff)
  moreover have "restAfter bs es ?sc j = restAfter bs es sc j" unfolding restAfter_def using keptBlock_cong [of ?sc sc es] by simp
  moreover have "drop (cellIt sc) (take (cellEnd sc) (bs ! j)) = bs ! j ! cellIt sc # drop (Suc (cellIt sc)) (take (cellEnd sc) (bs ! j))"
    using lt Cons_nth_drop_Suc [of "cellIt sc" "take (cellEnd sc) (bs ! j)"] by simp
  ultimately show "scanRest bs es j sc = bs ! j ! cellIt sc # scanRest bs es j ?sc"
    by (simp add: scanRest_def)
qed

lemma diskGet_ok:
  "diskParts fmt bs es \<Longrightarrow> scanState bs es fams off sc R \<Longrightarrow>
     (case R of
        [] \<Rightarrow> \<exists>sc'. diskGet fmt past sc = Inr (sc', None)
      | d # R' \<Rightarrow> \<exists>sc'. diskGet fmt past sc = Inr (sc', Some (readCellData d)) \<and> scanState bs es fams off sc' R')"
proof (induction fmt past sc rule: diskGet.induct)
  case (1 fmt past sc)
  show ?case
  proof (cases "cellIt sc = cellEnd sc")
    case False
    then obtain j where j: "scanInBlock bs es fams off j sc" "R = scanRest bs es j sc"
      using 1(3) by (auto simp: scanState_def scanStart_def)
    note T = take_cell [OF j(1) False]
    have "diskGet fmt past sc = Inr (sc\<lparr>cellIt := Suc (cellIt sc)\<rparr>, Some (readCellData (bs ! j ! cellIt sc)))"
      using False T(3) j(1) by (subst diskGet.simps) (simp add: scanInBlock_def)
    then show ?thesis using T(2) unfolding j(2) T(1) scanState_def by auto
  next
    case True
    obtain sc' r where m: "getMoreCells fmt past sc = Inr (sc', r)" "if r then scanState bs es fams off sc' R else R = []"
      using getMoreCells_ok [OF 1(2,3) True] by blast
    have g: "diskGet fmt past sc = (if r then diskGet fmt past sc' else Inr (sc', None))"
      by (subst diskGet.simps) (simp add: True m(1))
    show ?thesis
    proof (cases r)
      case r: True
      then have "diskGet fmt past sc = diskGet fmt past sc'" "scanState bs es fams off sc' R" using g m(2) by simp_all
      then show ?thesis using 1(1) [of "(sc', r)"] True m(1) r 1(2) by (simp split: list.splits)
    next
      case False
      then show ?thesis using m(2) g by simp
    qed
  qed
qed

lemma diskStream_ok:
  "diskParts fmt bs es \<Longrightarrow> scanState bs es fams off sc R \<Longrightarrow> diskStream fmt past sc = Inr (map readCellData R)"
proof (induction R arbitrary: sc)
  case Nil
  then show ?case using diskGet_ok [OF Nil(1,2), of past] by (subst diskStream.simps) auto
next
  case (Cons d R)
  then obtain sc' where "diskGet fmt past sc = Inr (sc', Some (readCellData d))" "scanState bs es fams off sc' R"
    using diskGet_ok [OF Cons(2,3), of past] by auto
  then show ?case using Cons(1) [of sc'] Cons(2) by (subst diskStream.simps) simp
qed

end
