(* ===== verification/DiskWrite.thy ===== *)
theory DiskWrite
  imports DiskScan
begin

section \<open>What a disk table is written as\<close>

text \<open>
  The invariants of the writer: the blocks and their index (\<open>layoutInv\<close>), and the masks of the column
  families (\<open>masksInv\<close>), which agree with the order of the families in the index when no family is the
  name of a row and there are not more than 32 of them (\<open>familiesOk\<close>).
\<close>

subsection \<open>String pools\<close>

definition poolOk :: "StringPool \<Rightarrow> bool" where
  "poolOk p \<longleftrightarrow> distinct (map snd (poolTable p)) \<and> (\<forall>(s, pos)\<in>set (poolTable p). pos < poolSize p)"

lemma alignUp_le: "n \<le> alignUp n 4"
proof -
  have "n + 3 < (n + 3) div 4 * 4 + 4" by (metis add.commute div_mod_decomp mod_less_divisor nat_add_left_cancel_less zero_less_numeral)
  then show ?thesis by (simp add: alignUp_def)
qed

lemma getStringOffset_ok:
  assumes "poolOk p" "getStringOffset s p = (p', pos)"
  shows "poolOk p'" "map_of (poolTable p') s = Some pos" "\<And>t q. map_of (poolTable p) t = Some q \<Longrightarrow> map_of (poolTable p') t = Some q"
    "fst ` set (poolTable p') = insert s (fst ` set (poolTable p))" "poolSize p \<le> pos \<or> p' = p"
    "s \<notin> fst ` set (poolTable p) \<Longrightarrow> poolSize p \<le> pos" "poolSize p \<le> poolSize p'"
proof -
  consider (old) "map_of (poolTable p) s = Some pos" "p' = p"
    | (new) "map_of (poolTable p) s = None" "pos = alignUp (poolSize p) 4"
        "p' = \<lparr>poolTable = (s, pos) # poolTable p, poolSize = pos + 4 + length s\<rparr>"
    using assms(2) by (cases "map_of (poolTable p) s") (auto simp: getStringOffset_def Let_def)
  then have "poolOk p' \<and> map_of (poolTable p') s = Some pos \<and>
      (\<forall>t q. map_of (poolTable p) t = Some q \<longrightarrow> map_of (poolTable p') t = Some q) \<and>
      fst ` set (poolTable p') = insert s (fst ` set (poolTable p)) \<and> (poolSize p \<le> pos \<or> p' = p) \<and>
      (s \<notin> fst ` set (poolTable p) \<longrightarrow> poolSize p \<le> pos) \<and> poolSize p \<le> poolSize p'"
  proof cases
    case old
    then have "s \<in> fst ` set (poolTable p)" by (metis map_of_eq_None_iff option.distinct(1))
    then show ?thesis using old assms(1) by auto
  next
    case new
    have "\<forall>(t, q)\<in>set (poolTable p). q < pos" using assms(1) alignUp_le [of "poolSize p"] new(2) by (fastforce simp: poolOk_def)
    then show ?thesis using new alignUp_le [of "poolSize p"] assms(1) by (force simp: poolOk_def)
  qed
  then show "poolOk p'" "map_of (poolTable p') s = Some pos" "\<And>t q. map_of (poolTable p) t = Some q \<Longrightarrow> map_of (poolTable p') t = Some q"
    "fst ` set (poolTable p') = insert s (fst ` set (poolTable p))" "poolSize p \<le> pos \<or> p' = p"
    "s \<notin> fst ` set (poolTable p) \<Longrightarrow> poolSize p \<le> pos" "poolSize p \<le> poolSize p'" by blast+
qed

lemma getString_ok:
  assumes "poolOk p" "map_of (poolTable p) s = Some pos"
  shows "getString pos p = s" "pos < poolSize p"
proof -
  have m: "(s, pos) \<in> set (poolTable p)" using assms(2) by (rule map_of_SomeD)
  then show "pos < poolSize p" using assms(1) by (auto simp: poolOk_def)
  have "distinct (map fst (map prod.swap (poolTable p)))" using assms(1) by (simp add: poolOk_def comp_def)
  moreover have "(pos, s) \<in> set (map prod.swap (poolTable p))" using m by force
  ultimately have "map_of (map prod.swap (poolTable p)) pos = Some s" by (rule map_of_is_SomeI)
  then show "getString pos p = s" by (simp add: getString_def)
qed

lemma put_last: "\<forall>x\<in>set (map fst m). x < k \<Longrightarrow> mapPut k v m = m @ [(k, v)]"
  by (induction k v m rule: mapPut.induct) auto

subsection \<open>The masks of the column families\<close>

text \<open>\<open>F\<close> are the families in the order in which they came, and \<open>R\<close> the rows.\<close>

definition familyInv :: "string set \<Rightarrow> string list \<Rightarrow> DiskWriter \<Rightarrow> bool" where
  "familyInv R F w \<longleftrightarrow> poolOk (indexPool w) \<and> fst ` set (poolTable (indexPool w)) \<subseteq> set F \<union> R \<and> distinct F \<and>
     omap_wf (colFamilyMasks w) \<and> map snd (colFamilyMasks w) = map (\<lambda>i. push_bit i 1) [0..<length F] \<and>
     map (\<lambda>x. Some (fst x)) (colFamilyMasks w) = map (map_of (poolTable (indexPool w))) F \<and>
     nextColMask w = push_bit (length F) 1"

lemma family_at:
  assumes "familyInv R F w" "k < length F"
  shows "k < length (colFamilyMasks w)" "map_of (poolTable (indexPool w)) (F ! k) = Some (fst (colFamilyMasks w ! k))"
    "snd (colFamilyMasks w ! k) = push_bit k 1"
    "mapFind (fst (colFamilyMasks w ! k)) (colFamilyMasks w) = Some (push_bit k 1)"
proof -
  have e: "map (\<lambda>x. Some (fst x)) (colFamilyMasks w) = map (map_of (poolTable (indexPool w))) F"
    and s: "map snd (colFamilyMasks w) = map (\<lambda>i. push_bit i 1) [0..<length F]" and wf: "omap_wf (colFamilyMasks w)"
    using assms(1) by (auto simp: familyInv_def)
  have "length (colFamilyMasks w) = length F" using arg_cong [OF e, of length] by simp
  then show k: "k < length (colFamilyMasks w)" using assms(2) by simp
  show "map_of (poolTable (indexPool w)) (F ! k) = Some (fst (colFamilyMasks w ! k))"
    using arg_cong [OF e, of "\<lambda>xs. xs ! k"] k assms(2) by simp
  show sn: "snd (colFamilyMasks w ! k) = push_bit k 1"
    using arg_cong [OF s, of "\<lambda>xs. xs ! k"] k assms(2) by simp
  show "mapFind (fst (colFamilyMasks w ! k)) (colFamilyMasks w) = Some (push_bit k 1)"
    unfolding find_mem [OF wf] sn [symmetric] using k by simp
qed

lemma family_names: "familyInv R F w \<Longrightarrow> map (\<lambda>p. getString (fst p) (indexPool w)) (colFamilyMasks w) = F"
proof (rule nth_equalityI, goal_cases)
  case 1
  then have "length (map (\<lambda>x. Some (fst x)) (colFamilyMasks w)) = length F" unfolding familyInv_def by (metis length_map)
  then show ?case by simp
next
  case (2 k)
  then have "length (map (\<lambda>x. Some (fst x)) (colFamilyMasks w)) = length F" unfolding familyInv_def by (metis length_map)
  then have k: "k < length F" using 2 by simp
  have "poolOk (indexPool w)" using 2 by (simp add: familyInv_def)
  then show ?case using getString_ok(1) [OF _ family_at(2) [OF 2(1) k]] family_at(1) [OF 2(1) k] by simp
qed

lemma family_masks_nonzero: "k < 32 \<Longrightarrow> push_bit k (1 :: 32 word) \<noteq> 0"
  using bit_push_bit_iff [of k "1 :: 32 word" k] by auto

lemma addColumnFamily_ok:
  assumes inv: "familyInv R F w" and f: "f \<notin> R" and room: "f \<in> set F \<or> length F < 32"
  defines "G \<equiv> if f \<in> set F then F else F @ [f]"
  shows "familyInv R G (addColumnFamily f w)"
    "\<exists>k<length G. G ! k = f \<and> addColumnFamily f w = w\<lparr>indexPool := indexPool (addColumnFamily f w),
        colFamilyMasks := colFamilyMasks (addColumnFamily f w), nextColMask := nextColMask (addColumnFamily f w),
        curColMask := or (curColMask w) (push_bit k 1)\<rparr>"
proof -
  obtain p pos where p: "getStringOffset f (indexPool w) = (p, pos)" by fastforce
  have ok: "poolOk (indexPool w)" and keys: "fst ` set (poolTable (indexPool w)) \<subseteq> set F \<union> R" and d: "distinct F"
    and wf: "omap_wf (colFamilyMasks w)" and m: "map snd (colFamilyMasks w) = map (\<lambda>i. push_bit i 1) [0..<length F]"
    and o: "map (\<lambda>x. Some (fst x)) (colFamilyMasks w) = map (map_of (poolTable (indexPool w))) F" and n: "nextColMask w = push_bit (length F) 1"
    using inv by (auto simp: familyInv_def)
  note P = getStringOffset_ok [OF ok p]
  have olds: "map (map_of (poolTable p)) F = map (map_of (poolTable (indexPool w))) F"
  proof (rule map_cong [OF refl])
    fix x assume "x \<in> set F"
    then obtain k where k: "k < length F" "x = F ! k" by (auto simp: in_set_conv_nth)
    then show "map_of (poolTable p) x = map_of (poolTable (indexPool w)) x" using P(3) family_at(2) [OF inv k(1)] by simp
  qed
  show "familyInv R G (addColumnFamily f w)"
    "\<exists>k<length G. G ! k = f \<and> addColumnFamily f w = w\<lparr>indexPool := indexPool (addColumnFamily f w),
        colFamilyMasks := colFamilyMasks (addColumnFamily f w), nextColMask := nextColMask (addColumnFamily f w),
        curColMask := or (curColMask w) (push_bit k 1)\<rparr>"
  proof (atomize (full), cases "f \<in> set F")
    case True
    then obtain k where k: "k < length F" "F ! k = f" by (auto simp: in_set_conv_nth)
    have pos: "pos = fst (colFamilyMasks w ! k)" using P(2,3) family_at(2) [OF inv k(1)] k(2) by simp
    have e: "addColumnFamily f w = w\<lparr>indexPool := p, curColMask := or (curColMask w) (push_bit k 1)\<rparr>"
      using family_at(4) [OF inv k(1)] pos by (simp add: addColumnFamily_def p Let_def)
    have "fst ` set (poolTable p) \<subseteq> set F \<union> R" using P(4) keys True by auto
    then have "familyInv R F (w\<lparr>indexPool := p, curColMask := or (curColMask w) (push_bit k 1)\<rparr>)"
      unfolding familyInv_def using P(1) d wf m o olds n by simp
    then show "familyInv R G (addColumnFamily f w) \<and> (\<exists>k<length G. G ! k = f \<and> addColumnFamily f w = w\<lparr>indexPool := indexPool (addColumnFamily f w),
        colFamilyMasks := colFamilyMasks (addColumnFamily f w), nextColMask := nextColMask (addColumnFamily f w),
        curColMask := or (curColMask w) (push_bit k 1)\<rparr>)"
      using True k unfolding G_def e by auto
  next
    case False
    then have new: "f \<notin> fst ` set (poolTable (indexPool w))" using keys f by auto
    have below: "\<forall>x\<in>set (map fst (colFamilyMasks w)). x < pos"
    proof
      fix x assume "x \<in> set (map fst (colFamilyMasks w))"
      then have "Some x \<in> set (map (\<lambda>x. Some (fst x)) (colFamilyMasks w))" by force
      then obtain g where "map_of (poolTable (indexPool w)) g = Some x" unfolding o by auto
      then have "x < poolSize (indexPool w)" by (rule getString_ok(2) [OF ok])
      then show "x < pos" using P(6) [OF new] by simp
    qed
    then have none: "mapFind pos (colFamilyMasks w) = None" by (auto simp: find_None)
    have nz: "nextColMask w \<noteq> 0" unfolding n using family_masks_nonzero room False by blast
    have e: "addColumnFamily f w = w\<lparr>indexPool := p, colFamilyMasks := colFamilyMasks w @ [(pos, push_bit (length F) 1)],
        curColMask := or (curColMask w) (push_bit (length F) 1), nextColMask := push_bit (Suc (length F)) 1\<rparr>"
      using none nz put_last [OF below] unfolding n by (simp add: addColumnFamily_def p Let_def n)
    have "fst ` set (poolTable p) \<subseteq> set (F @ [f]) \<union> R" using P(4) keys by auto
    moreover have "omap_wf (colFamilyMasks w @ [(pos, push_bit (length F) 1)])" using wf below by (simp add: omap_wf_def sorted_wrt_append)
    ultimately have "familyInv R (F @ [f]) (addColumnFamily f w)"
      unfolding familyInv_def e using P(1,2) d False m o olds by simp
    then show "familyInv R G (addColumnFamily f w) \<and> (\<exists>k<length G. G ! k = f \<and> addColumnFamily f w = w\<lparr>indexPool := indexPool (addColumnFamily f w),
        colFamilyMasks := colFamilyMasks (addColumnFamily f w), nextColMask := nextColMask (addColumnFamily f w),
        curColMask := or (curColMask w) (push_bit k 1)\<rparr>)"
      using False unfolding G_def e by (auto intro!: exI [of _ "length F"])
  qed
qed

subsection \<open>The blocks and their index\<close>

lemma addCellData_fields [simp]:
  "diskOutput (addCellData x w) = diskOutput w" "builderCells (addCellData x w) = builderCells w @ [appendCellData x]"
  "indexPool (addCellData x w) = indexPool w" "indexEntries (addCellData x w) = indexEntries w" "lowTime (addCellData x w) = lowTime w"
  "highTime (addCellData x w) = highTime w" "colFamilyMasks (addCellData x w) = colFamilyMasks w"
  "nextColMask (addCellData x w) = nextColMask w" "curColMask (addCellData x w) = curColMask w"
  by (simp_all add: addCellData_def split: prod.splits)

lemma addTimeRange_fields [simp]:
  "diskOutput (addTimeRange t w) = diskOutput w" "builderCells (addTimeRange t w) = builderCells w"
  "indexPool (addTimeRange t w) = indexPool w" "indexEntries (addTimeRange t w) = indexEntries w"
  "colFamilyMasks (addTimeRange t w) = colFamilyMasks w"
  "nextColMask (addTimeRange t w) = nextColMask w" "curColMask (addTimeRange t w) = curColMask w"
  by (simp_all add: addTimeRange_def Let_def)

lemma addColumnFamily_fields [simp]:
  "diskOutput (addColumnFamily f w) = diskOutput w" "builderCells (addColumnFamily f w) = builderCells w"
  "indexEntries (addColumnFamily f w) = indexEntries w"
  "lowTime (addColumnFamily f w) = lowTime w" "highTime (addColumnFamily f w) = highTime w"
  by (simp_all add: addColumnFamily_def Let_def split: prod.splits option.splits)

definition inTimes :: "int \<Rightarrow> int \<Rightarrow> CellData list \<Rightarrow> bool" where
  "inTimes lo hi ds \<longleftrightarrow> (\<forall>d\<in>set ds. lo \<le> cd_timestamp d \<and> cd_timestamp d \<le> hi)"

definition layoutInv :: "DiskFormat \<Rightarrow> Cell list \<Rightarrow> CellData list list \<Rightarrow> DiskWriter \<Rightarrow> bool" where
  "layoutInv fmt cs bs w \<longleftrightarrow> diskOutput w = map CellBlockRecord bs \<and> blocksIndexed fmt bs (indexEntries w) \<and>
     concat bs @ builderCells w = map appendCellData cs \<and>
     (\<forall>i<length bs. inTimes (lowestTime (indexEntries w ! i)) (highestTime (indexEntries w ! i)) (bs ! i)) \<and>
     inTimes (lowTime w) (highTime w) (builderCells w)"

lemma addTimeRange_ok:
  assumes "builderCells w = ds @ [d]" "inTimes (lowTime w) (highTime w) ds"
  shows "inTimes (lowTime (addTimeRange (cd_timestamp d) w)) (highTime (addTimeRange (cd_timestamp d) w)) (builderCells w)"
proof (cases "ds = []")
  case True
  then show ?thesis using assms by (simp add: addTimeRange_def inTimes_def)
next
  case False
  then have "length (builderCells w) \<noteq> 1" using assms(1) by simp
  then show ?thesis using assms by (force simp: addTimeRange_def inTimes_def Let_def)
qed

lemma addCell_layout: "layoutInv fmt cs bs w \<Longrightarrow> layoutInv fmt (cs @ [x]) bs (addCell x w)"
  using addTimeRange_ok [of "addCellData x w" "builderCells w" "appendCellData x"]
  by (simp add: layoutInv_def addCell_def) (simp add: appendCellData_def)

lemma blocksIndexed_snoc:
  assumes "blocksIndexed fmt bs es" "ds \<noteq> []"
    and "blockChecksum e = recordChecksum fmt (CellBlockRecord ds)" "lastRow e = cd_row (last ds)"
      "blockOffset e = fileTell fmt (map CellBlockRecord bs)"
  shows "blocksIndexed fmt (bs @ [ds]) (es @ [e])"
  using assms unfolding blocksIndexed_def
  by (auto simp: nth_append less_Suc_eq take_map)

lemma writeCellBlock_layout:
  assumes "layoutInv fmt cs bs w" "builderCells w \<noteq> []"
  shows "layoutInv fmt cs (bs @ [builderCells w]) (writeCellBlock fmt w)"
proof -
  let ?e = "\<lparr>blockChecksum = recordChecksum fmt (CellBlockRecord (builderCells w)), lastRow = cd_row (last (builderCells w)),
    blockOffset = fileTell fmt (diskOutput w), lowestTime = lowTime w, highestTime = highTime w, colFamilyMask = curColMask w\<rparr>"
  have e: "indexEntries (writeCellBlock fmt w) = indexEntries w @ [?e]" "diskOutput (writeCellBlock fmt w) = diskOutput w @ [CellBlockRecord (builderCells w)]"
    "builderCells (writeCellBlock fmt w) = []"
    by (simp_all add: writeCellBlock_def addIndexEntry_def Let_def)
  have len: "length (indexEntries w) = length bs" using assms(1) by (simp add: layoutInv_def blocksIndexed_def)
  have "blocksIndexed fmt (bs @ [builderCells w]) (indexEntries w @ [?e])"
    by (rule blocksIndexed_snoc) (use assms in \<open>simp_all add: layoutInv_def\<close>)
  then show ?thesis using assms(1) len unfolding layoutInv_def e
    by (auto simp: nth_append less_Suc_eq inTimes_def)
qed

lemma writerPut_layout:
  assumes "layoutInv fmt cs bs w"
  shows "\<exists>bs'. layoutInv fmt (cs @ [x]) bs' (writerPut fmt n x w)"
proof -
  have a: "layoutInv fmt (cs @ [x]) bs (addCell x w)" by (rule addCell_layout [OF assms])
  have "builderCells (addCell x w) \<noteq> []" by (simp add: addCell_def)
  then show ?thesis using a writeCellBlock_layout [OF a] by (auto simp: writerPut_def Let_def)
qed

lemma fold_layout: "layoutInv fmt cs bs w \<Longrightarrow> \<exists>bs'. layoutInv fmt (cs @ xs) bs' (fold (writerPut fmt n) xs w)"
proof (induction xs arbitrary: cs bs w)
  case (Cons x xs)
  then show ?case using writerPut_layout [OF Cons(2), of x n] by fastforce
qed auto

subsection \<open>The families of the blocks\<close>

definition dataFamily :: "CellData \<Rightarrow> string" where
  "dataFamily d = cellColumnFamily (readCellData d)"

definition familyTold :: "string list \<Rightarrow> 32 word \<Rightarrow> CellData \<Rightarrow> bool" where
  "familyTold F m d \<longleftrightarrow> (\<exists>k<length F. F ! k = dataFamily d \<and> bit m k)"

definition masksInv :: "string set \<Rightarrow> string list \<Rightarrow> DiskWriter \<Rightarrow> bool" where
  "masksInv R F w \<longleftrightarrow> familyInv R F w \<and> length (indexEntries w) = length (diskOutput w) \<and>
     (\<forall>i<length (diskOutput w). case diskOutput w ! i of
        CellBlockRecord ds \<Rightarrow> list_all (familyTold F (colFamilyMask (indexEntries w ! i))) ds | _ \<Rightarrow> True) \<and>
     list_all (familyTold F (curColMask w)) (builderCells w)"

lemma told_mono: "familyTold F m d \<Longrightarrow> familyTold (F @ G) (or m m') d"
  by (auto simp: familyTold_def bit_or_iff nth_append intro: less_trans_Suc)

lemma told_mono': "familyTold F m d \<Longrightarrow> familyTold (F @ G) m d"
  using told_mono [of F m d G 0] by simp

lemma data_family [simp]: "dataFamily (appendCellData x) = cellColumnFamily x" "cd_row (appendCellData x) = getRow x"
  by (simp_all add: dataFamily_def cellColumnFamily_def readCellData_def appendCellData_def)

lemma addCell_masks:
  assumes inv: "masksInv R F w" and f: "cellColumnFamily x \<notin> R" and room: "card (insert (cellColumnFamily x) (set F)) \<le> 32"
  shows "\<exists>G. masksInv R G (addCell x w) \<and> set G = insert (cellColumnFamily x) (set F)"
proof -
  let ?f = "cellColumnFamily x" and ?w = "addTimeRange (getTimestamp x) (addCellData x w)"
  let ?G = "if ?f \<in> set F then F else F @ [?f]"
  have d: "distinct F" using inv by (simp add: masksInv_def familyInv_def)
  have room': "?f \<in> set F \<or> length F < 32" using room distinct_card [OF d] by (cases "?f \<in> set F") auto
  have fam: "familyInv R F ?w" using inv by (simp add: masksInv_def familyInv_def)
  note A = addColumnFamily_ok [OF fam f room']
  obtain k where k: "k < length ?G" "?G ! k = ?f" "curColMask (addColumnFamily ?f ?w) = or (curColMask w) (push_bit k 1)"
    using A(2) by (metis (no_types, lifting) addCellData_fields(9) addTimeRange_fields(7) DiskWriter.select_convs(10) DiskWriter.surjective DiskWriter.update_convs(10))
  have len: "length ?G \<le> 32" using room' room distinct_card [OF d] by (cases "?f \<in> set F") (auto simp: insert_absorb)
  have ext: "\<exists>t. ?G = F @ t" by auto
  have "bit (push_bit k (1 :: 32 word)) k" using k(1) len by (simp add: bit_exp_iff possible_bit_word)
  then have new: "familyTold ?G (curColMask (addColumnFamily ?f ?w)) (appendCellData x)"
    using k unfolding familyTold_def k(3) by (auto simp: bit_or_iff simp del: if_image_distrib)
  have old: "familyTold ?G (curColMask (addColumnFamily ?f ?w)) c" if "familyTold F (curColMask w) c" for c
    using told_mono [OF that] ext unfolding k(3) by metis
  have olds: "familyTold ?G m c" if "familyTold F m c" for m c using told_mono' [OF that] ext by metis
  have "masksInv R ?G (addCell x w)"
    using inv A(1) new old olds unfolding masksInv_def addCell_def
    by (auto simp: list_all_iff split: DiskRecord.splits)
  then show ?thesis by (intro exI [of _ ?G]) auto
qed

lemma writeCellBlock_masks:
  assumes inv: "masksInv R F w" and row: "cd_row (last (builderCells w)) \<in> R"
  shows "masksInv R F (writeCellBlock fmt w)"
proof -
  let ?row = "cd_row (last (builderCells w))"
  obtain p pos where p: "getStringOffset ?row (indexPool w) = (p, pos)" by fastforce
  have fam: "familyInv R F w" using inv by (simp add: masksInv_def)
  then have ok: "poolOk (indexPool w)" and keys: "fst ` set (poolTable (indexPool w)) \<subseteq> set F \<union> R"
    and o: "map (\<lambda>x. Some (fst x)) (colFamilyMasks w) = map (map_of (poolTable (indexPool w))) F" by (auto simp: familyInv_def)
  note P = getStringOffset_ok [OF ok p]
  have olds: "map (map_of (poolTable p)) F = map (map_of (poolTable (indexPool w))) F"
  proof (rule map_cong [OF refl])
    fix x assume "x \<in> set F"
    then obtain k where k: "k < length F" "x = F ! k" by (auto simp: in_set_conv_nth)
    then show "map_of (poolTable p) x = map_of (poolTable (indexPool w)) x" using P(3) family_at(2) [OF fam k(1)] by simp
  qed
  have e: "indexPool (writeCellBlock fmt w) = p" "colFamilyMasks (writeCellBlock fmt w) = colFamilyMasks w"
    "nextColMask (writeCellBlock fmt w) = nextColMask w" "builderCells (writeCellBlock fmt w) = []"
    "diskOutput (writeCellBlock fmt w) = diskOutput w @ [CellBlockRecord (builderCells w)]"
    by (simp_all add: writeCellBlock_def addIndexEntry_def Let_def p)
  obtain ent where ent: "indexEntries (writeCellBlock fmt w) = indexEntries w @ [ent]" "colFamilyMask ent = curColMask w"
    by (simp add: writeCellBlock_def addIndexEntry_def Let_def)
  have "fst ` set (poolTable p) \<subseteq> set F \<union> R" using P(4) keys row by auto
  then have "familyInv R F (writeCellBlock fmt w)" using fam P(1) o olds unfolding familyInv_def e by simp
  then show ?thesis using inv unfolding masksInv_def e ent(1)
    by (auto simp: nth_append less_Suc_eq ent(2) split: DiskRecord.splits)
qed

lemma fold_masks:
  "masksInv R F w \<Longrightarrow> \<forall>d\<in>set (builderCells w). cd_row d \<in> R \<Longrightarrow> \<forall>x\<in>set xs. cellColumnFamily x \<notin> R \<and> getRow x \<in> R \<Longrightarrow>
   card (set F \<union> cellColumnFamily ` set xs) \<le> 32 \<Longrightarrow>
   \<exists>G. masksInv R G (fold (writerPut fmt n) xs w) \<and> set G = set F \<union> cellColumnFamily ` set xs \<and>
     (\<forall>d\<in>set (builderCells (fold (writerPut fmt n) xs w)). cd_row d \<in> R)"
proof (induction xs arbitrary: F w)
  case (Cons x xs)
  have "card (insert (cellColumnFamily x) (set F)) \<le> card (set F \<union> cellColumnFamily ` set (x # xs))" by (rule card_mono) auto
  then obtain G where G: "masksInv R G (addCell x w)" "set G = insert (cellColumnFamily x) (set F)"
    using addCell_masks [OF Cons(2), of x] Cons(4,5) by auto
  have cells: "builderCells (addCell x w) = builderCells w @ [appendCellData x]" by (simp add: addCell_def)
  have rows: "\<forall>d\<in>set (builderCells (addCell x w)). cd_row d \<in> R" using Cons(3,4) unfolding cells by auto
  have "masksInv R G (writerPut fmt n x w) \<and> (\<forall>d\<in>set (builderCells (writerPut fmt n x w)). cd_row d \<in> R)"
    using G(1) rows writeCellBlock_masks [OF G(1), of fmt] Cons(4)
    by (simp add: writerPut_def Let_def cells) (simp add: writeCellBlock_def addIndexEntry_def Let_def)
  then show ?case using Cons(1) [of G "writerPut fmt n x w"] Cons(4,5) G(2) by auto
qed auto

definition familiesOk :: "Cell list \<Rightarrow> bool" where
  "familiesOk cs \<longleftrightarrow> card (cellColumnFamily ` set cs) \<le> 32 \<and> cellColumnFamily ` set cs \<inter> getRow ` set cs = {}"

lemma writerOpen_inv: "layoutInv fmt [] [] writerOpen" "masksInv R [] writerOpen"
  by (simp_all add: layoutInv_def writerOpen_def blocksIndexed_def inTimes_def masksInv_def familyInv_def poolOk_def
      StringPool0_def omap_wf_def)

definition tableTold :: "Cell list \<Rightarrow> CellData list list \<Rightarrow> IndexEntryV1 list \<Rightarrow> string list \<Rightarrow> bool" where
  "tableTold cs bs es fams \<longleftrightarrow> concat bs = map appendCellData cs \<and>
     (\<forall>i<length bs. inTimes (lowestTime (es ! i)) (highestTime (es ! i)) (bs ! i)) \<and>
     (familiesOk cs \<longrightarrow> distinct fams \<and> length fams \<le> 32 \<and>
        (\<forall>i<length bs. list_all (familyTold fams (colFamilyMask (es ! i))) (bs ! i)))"

lemma writeTable_ok:
  "\<exists>bs es fams. writeTable fmt n cs = diskFile bs es fams (fileTell fmt (map CellBlockRecord bs)) \<and>
     blocksIndexed fmt bs es \<and> tableTold cs bs es fams"
proof -
  let ?w = "fold (writerPut fmt n) cs writerOpen"
  let ?v = "if builderCells ?w \<noteq> [] then writeCellBlock fmt ?w else ?w"
  have empty: "builderCells ?v = []" by (simp add: writeCellBlock_def Let_def)
  obtain bs1 where "layoutInv fmt cs bs1 ?w" using fold_layout [OF writerOpen_inv(1), of fmt cs n] by auto
  then obtain bs where bs: "layoutInv fmt cs bs ?v" using writeCellBlock_layout [of fmt cs bs1 ?w] by (cases "builderCells ?w = []") auto
  let ?fams = "map (\<lambda>p. getString (fst p) (indexPool ?v)) (colFamilyMasks ?v)"
  have out: "diskOutput ?v = map CellBlockRecord bs" using bs by (simp add: layoutInv_def)
  have wt: "writeTable fmt n cs = diskFile bs (indexEntries ?v) ?fams (fileTell fmt (map CellBlockRecord bs))"
    unfolding writeTable_def writerClose_def Let_def out [symmetric] by (simp add: writeBlockIndex_def diskFile_def out)
  have fam: "distinct ?fams \<and> length ?fams \<le> 32 \<and>
      (\<forall>i<length bs. list_all (familyTold ?fams (colFamilyMask (indexEntries ?v ! i))) (bs ! i))" if "familiesOk cs"
  proof -
    let ?R = "getRow ` set cs"
    have "\<exists>G. masksInv ?R G ?w \<and> set G = cellColumnFamily ` set cs \<and> (\<forall>d\<in>set (builderCells ?w). cd_row d \<in> ?R)"
      using fold_masks [OF writerOpen_inv(2) [of ?R], of cs fmt n] that by (auto simp: familiesOk_def writerOpen_def)
    then obtain G where G: "masksInv ?R G ?w" "set G = cellColumnFamily ` set cs" "\<forall>d\<in>set (builderCells ?w). cd_row d \<in> ?R" by blast
    have v: "masksInv ?R G ?v" using G(1,3) writeCellBlock_masks [OF G(1), of fmt] by simp
    then have F: "familyInv ?R G ?v" by (simp add: masksInv_def)
    have names: "?fams = G" by (rule family_names [OF F])
    have d: "distinct G" using F by (simp add: familyInv_def)
    have "length G \<le> 32" using distinct_card [OF d] that G(2) by (simp add: familiesOk_def)
    moreover have "\<forall>i<length bs. list_all (familyTold G (colFamilyMask (indexEntries ?v ! i))) (bs ! i)"
      using v unfolding masksInv_def out by simp
    ultimately show ?thesis unfolding names using d by blast
  qed
  have "tableTold cs bs (indexEntries ?v) ?fams"
    using bs empty fam unfolding tableTold_def layoutInv_def by simp
  then show ?thesis using wt bs unfolding layoutInv_def by blast
qed

subsection \<open>Reading what was written\<close>

lemma familyBit_at: "distinct F \<Longrightarrow> k < length F \<Longrightarrow> familyBit (F ! k) F (push_bit i 1) = push_bit (i + k) 1"
proof (induction F arbitrary: k i)
  case (Cons g F)
  show ?case
  proof (cases k)
    case (Suc l)
    have p: "push_bit 1 (push_bit i (1 :: 32 word)) = push_bit (Suc i) 1" by (simp add: push_bit_push_bit)
    have "g \<noteq> F ! l" using Cons(2,3) Suc by auto
    then show ?thesis using Cons(1) [of l "Suc i"] Cons(2,3) Suc p by (simp del: push_bit_of_1)
  qed simp
qed simp

lemma familiesMask_bit:
  assumes "bit (familyBit f F 1) k" "f \<in> set wanted"
  shows "bit (familiesMask wanted F) k"
proof -
  have "bit (fold (\<lambda>f m. or m (familyBit f F 1)) ws m) k \<longleftrightarrow> bit m k \<or> (\<exists>f\<in>set ws. bit (familyBit f F 1) k)" for ws m
    by (induction ws arbitrary: m) (auto simp: bit_or_iff)
  then show ?thesis using assms by (auto simp: familiesMask_def)
qed

lemma told_hits:
  assumes "familyTold F m d" "distinct F" "length F \<le> 32" "dataFamily d \<in> set wanted"
  shows "and (familiesMask wanted F) m \<noteq> 0"
proof -
  obtain k where k: "k < length F" "F ! k = dataFamily d" "bit m k" using assms(1) by (auto simp: familyTold_def)
  have "familyBit (dataFamily d) F 1 = push_bit k 1" using familyBit_at [OF assms(2) k(1), of 0] k(2) by simp
  then have "bit (familyBit (dataFamily d) F 1) k" using k(1) assms(3) by (simp add: bit_exp_iff possible_bit_word)
  then have "bit (and (familiesMask wanted F) m) k" using familiesMask_bit assms(4) k(3) by (simp add: bit_and_iff)
  then show ?thesis by auto
qed

end
