(* ===== verification/DiskFragment.thy ===== *)
theory DiskFragment
  imports DiskWrite
begin

section \<open>Disk fragments (src/cc/kdi/tablet/DiskFragment.cc)\<close>

text \<open>
  A disk fragment is a disk table behind the interface of fragments. \<open>popScheme\<close> is \<open>uriPopScheme\<close>. The
  table is loaded when the fragment is made. A scan of a table that was written delivers what
  the predicate allows (\<open>disk_scan\<close>), so disk fragments keep the contract of fragments.
\<close>

subsection \<open>Reading a table that was written\<close>

lemma family_of_prefix:
  assumes "prefix (f @ '':'') (getColumn c)" "CHR '':'' \<notin> set f"
  shows "cellColumnFamily c = f"
proof -
  obtain r where r: "getColumn c = f @ CHR '':'' # r" using assms(1) by (auto simp: prefix_def)
  have "takeWhile (\<lambda>d. d \<noteq> CHR '':'') (getColumn c) = f"
    unfolding r using assms(2) by (induction f) auto
  then show ?thesis unfolding cellColumnFamily_def find_char_def Let_def by (simp add: r)
qed

definition dataAllowed :: "ScanPredicate \<Rightarrow> CellData \<Rightarrow> bool" where
  "dataAllowed p d \<longleftrightarrow> cellAllowed p (readCellData d)"

lemma read_data [simp]: "getRow (readCellData d) = cd_row d" "getColumn (readCellData d) = cd_column d"
  "getTimestamp (readCellData d) = cd_timestamp d"
  by (simp_all add: readCellData_def split: option.splits)

text \<open>A block that is skipped holds no cell that the predicate allows.\<close>

lemma skipped_block:
  assumes pred: "scan_predicate_inv p" and told: "tableTold cs bs es fams" and i: "i < length bs"
    and mask: "scanMask sc = (case getColumnFamilies p of None \<Rightarrow> 0 | Some fs \<Rightarrow> familiesMask fs fams)" "scanTimes sc = timestamps p"
    and fam: "getColumnFamilies p \<noteq> None \<Longrightarrow> familiesOk cs" and miss: "\<not> keptBlock sc es i" and d: "d \<in> set (bs ! i)"
  shows "\<not> dataAllowed p d"
proof
  assume a: "dataAllowed p d"
  then have col: "columnAllowed p (cd_column d)" and tm: "timeAllowed p (cd_timestamp d)"
    by (simp_all add: dataAllowed_def cellAllowed_def)
  have times: "lowestTime (es ! i) \<le> cd_timestamp d" "cd_timestamp d \<le> highestTime (es ! i)"
    using told i d by (auto simp: tableTold_def inTimes_def)
  consider "timesMiss sc (es ! i)" | "familiesMiss sc (es ! i)" using miss by (auto simp: keptBlock_def)
  then show False
  proof cases
    case 1
    then obtain ts where ts: "timestamps p = Some ts" "\<not> isetOverlaps (<) ts
        \<lparr>lowerBound = mk_point (lowestTime (es ! i)) PT_INCLUSIVE_LOWER_BOUND,
         upperBound = mk_point (highestTime (es ! i)) PT_INCLUSIVE_UPPER_BOUND\<rparr>"
      using mask(2) by (auto simp: timesMiss_def split: option.splits)
    have "iset_inv (<) ts" "isetContains (<) ts (cd_timestamp d)"
      using pred tm ts(1) by (simp_all add: scan_predicate_inv_def timeAllowed_def)
    moreover have "intervalContains (<) \<lparr>lowerBound = mk_point (lowestTime (es ! i)) PT_INCLUSIVE_LOWER_BOUND,
         upperBound = mk_point (highestTime (es ! i)) PT_INCLUSIVE_UPPER_BOUND\<rparr> (cd_timestamp d)"
      using times by (auto simp: intervalContains_def pointValueLt_def valuePointLt_def isLess_def point_type_defs point_pred_defs less_PointType_def)
    ultimately show False using std_less.overlaps_correct ts(2) by blast
  next
    case 2
    then obtain fs where fs: "getColumnFamilies p = Some fs" "and (familiesMask fs fams) (colFamilyMask (es ! i)) = 0"
      using mask(1) by (auto simp: familiesMiss_def split: option.splits)
    have F: "distinct fams" "length fams \<le> 32" "familyTold fams (colFamilyMask (es ! i)) d"
      using told fam fs(1) i d by (auto simp: tableTold_def list_all_iff)
    obtain f where f: "f \<in> set fs" "prefix (f @ '':'') (cd_column d)" "CHR '':'' \<notin> set f"
      using getColumnFamilies_correct [OF pred fs(1) col] by blast
    have "dataFamily d = f" using family_of_prefix [of f "readCellData d"] f by (simp add: dataFamily_def)
    then show False using told_hits [OF F(3,1,2), of fs] f(1) fs(2) by simp
  qed
qed

lemma filter_kept:
  assumes "\<And>i d. i < length bs \<Longrightarrow> \<not> K i \<Longrightarrow> d \<in> set (bs ! i) \<Longrightarrow> \<not> Q d"
  shows "filter Q (keptCells K bs 0 (length bs)) = filter Q (concat bs)"
proof -
  have "filter Q (concat (map (\<lambda>k. if K k then bs ! k else []) ks)) = filter Q (concat (map ((!) bs) ks))"
    if "set ks \<subseteq> {..<length bs}" for ks
    using that assms by (induction ks) (auto simp: filter_empty_conv)
  from this [of "[0..<length bs]"] show ?thesis by (simp add: keptCells_def map_nth atLeast0LessThan)
qed

lemma predicate_filter:
  "applyPredicateFilter p cs = (if maxHistory p \<noteq> 0 then historyFilter (maxHistory p) (filter (cellAllowed p) cs) else filter (cellAllowed p) cs)"
  using allowed_filter [of cs p] by (simp add: applyPredicateFilter_def Let_def)

lemma start_state:
  assumes "case rs of None \<Rightarrow> True | Some S \<Rightarrow> iset_inv (<) S"
  shows "scanState bs es fams off (diskScanner (diskFile bs es fams off) es fams rs fs ts)
    (filter (rowsLeft (map_option points rs))
      (keptCells (keptBlock (diskScanner (diskFile bs es fams off) es fams rs fs ts) es) bs 0 (length bs)))"
  using assms
  by (auto simp: scanState_def scanStart_def scanCommon_def diskScanner_def boundsOk_def iset_inv_def point_pred_defs point_type_defs
      split: option.splits)

lemma rows_left: "scan_predicate_inv p \<Longrightarrow> rowsLeft (map_option points (rows p)) d \<longleftrightarrow> rowAllowed p (cd_row d)"
  using inRanges_contains by (auto simp: rowsLeft_def rowAllowed_def scan_predicate_inv_def split: option.splits)

lemma disk_scan:
  assumes pred: "scan_predicate_inv p" and sorted: "sorted (map getRow cs)"
    and fam: "rows p \<noteq> None \<Longrightarrow> getColumnFamilies p \<noteq> None \<Longrightarrow> familiesOk cs"
  shows "diskTableScan fmt past (writeTable fmt n cs) p = Inr (applyPredicateFilter p (map (readCellData \<circ> appendCellData) cs))"
proof -
  obtain bs es fams where t: "writeTable fmt n cs = diskFile bs es fams (fileTell fmt (map CellBlockRecord bs))"
    "blocksIndexed fmt bs es" "tableTold cs bs es fams" using writeTable_ok by blast
  let ?off = "fileTell fmt (map CellBlockRecord bs)"
  let ?file = "diskFile bs es fams ?off"
  define sc where "sc = (if rows p \<noteq> None then diskScanner ?file es fams (rows p) (getColumnFamilies p) (timestamps p)
      else diskScanner ?file es fams None None None)"
  let ?R = "filter (rowsLeft (map_option points (rows p))) (keptCells (keptBlock sc es) bs 0 (length bs))"
  have cells: "concat bs = map appendCellData cs" using t(3) by (simp add: tableTold_def)
  have "rowsSorted (concat bs)" using sorted unfolding rowsSorted_def cells by (simp add: sorted_wrt_map)
  then have parts: "diskParts fmt bs es" using t(2) by (simp add: diskParts_def)
  have st: "scanState bs es fams ?off sc ?R"
    using start_state [of "rows p"] start_state [of None] pred unfolding sc_def
    by (cases "rows p") (simp_all add: scan_predicate_inv_def)
  have skip: "\<not> dataAllowed p d" if "i < length bs" "\<not> keptBlock sc es i" "d \<in> set (bs ! i)" for i d
  proof (cases "rows p")
    case None
    then have "keptBlock sc es i" by (simp add: sc_def keptBlock_def timesMiss_def familiesMiss_def diskScanner_def)
    then show ?thesis using that(2) by simp
  next
    case (Some S)
    then have "scanMask sc = (case getColumnFamilies p of None \<Rightarrow> 0 | Some fs \<Rightarrow> familiesMask fs fams)" "scanTimes sc = timestamps p"
      by (simp_all add: sc_def diskScanner_def)
    from skipped_block [OF pred t(3) that(1) this _ that(2,3)] show ?thesis using fam Some by simp
  qed
  let ?q = "clearRowPredicate p"
  have "filter (cellAllowed ?q) (map readCellData ?R) = map readCellData (filter (dataAllowed p) (keptCells (keptBlock sc es) bs 0 (length bs)))"
  proof -
    have "(rowsLeft (map_option points (rows p)) d \<and> cellAllowed ?q (readCellData d)) = dataAllowed p d" for d
      unfolding rows_left [OF pred] dataAllowed_def
      by (auto simp: cellAllowed_def clearRowPredicate_def rowAllowed_def columnAllowed_def timeAllowed_def)
    then show ?thesis by (simp add: filter_map comp_def)
  qed
  also have "\<dots> = map readCellData (filter (dataAllowed p) (concat bs))" using filter_kept [OF skip] by simp
  also have "\<dots> = filter (cellAllowed p) (map (readCellData \<circ> appendCellData) cs)"
    unfolding cells by (simp add: filter_map comp_def dataAllowed_def)
  finally have "applyPredicateFilter ?q (map readCellData ?R) = applyPredicateFilter p (map (readCellData \<circ> appendCellData) cs)"
    unfolding predicate_filter by (simp add: clearRowPredicate_def)
  moreover have "diskTableScan fmt past ?file p = bind_res (diskStream fmt past sc) (\<lambda>cs. Inr (applyPredicateFilter ?q cs))"
    unfolding diskTableScan_def sc_def loadIndex_ok [OF refl] by simp
  ultimately show ?thesis unfolding t(1) by (simp add: diskStream_ok [OF parts st])
qed

subsection \<open>Fragments\<close>

definition fragmentBlocks :: "DiskFormat \<Rightarrow> DiskRecord list \<Rightarrow> IndexEntryV1 list" where
  "fragmentBlocks fmt file = (case loadIndex fmt file of Inr (off, blocks, fams) \<Rightarrow> blocks | Inl e \<Rightarrow> [])"

definition diskFragments ::
  "DiskFormat \<Rightarrow> IndexEntryV1 \<Rightarrow> (string \<Rightarrow> string) \<Rightarrow> (nat \<Rightarrow> DiskRecord list) \<Rightarrow> (nat \<Rightarrow> string) \<Rightarrow> Fragments" where
  "diskFragments fmt pastIndex popScheme contents uri =
     \<lparr>isImmutable = (\<lambda>f. True), getFragmentUri = uri, getDiskUri = (\<lambda>f. popScheme (uri f)),
      getDiskSize = (\<lambda>f r. diskGetSize (fragmentBlocks fmt (contents f)) r),
      fragmentScan = (\<lambda>f pred. diskTableScan fmt pastIndex (contents f) pred),
      scanIndex = (\<lambda>f r. map (\<lambda>(row, n). (row, of_nat n)) (diskScanIndex (fragmentBlocks fmt (contents f)) r))\<rparr>"

text \<open>The cells of a file that is written in order; a file of other cells is not made.\<close>

definition diskCells :: "Cell list \<Rightarrow> Cell list" where
  "diskCells cs = (if cellsSorted cs \<and> list_all cellOk cs \<and> familiesOk cs then cs else [])"

lemma reread [simp]: "cellKey (readCellData (appendCellData c)) = cellKey c" "cellOk (readCellData (appendCellData c)) = cellOk c"
  by (auto simp: readCellData_def appendCellData_def cellKey_def cellOk_def)

lemma rows_of_sorted: "cellsSorted cs \<Longrightarrow> sorted (map getRow cs)"
  unfolding cellsSorted_def sorted_map
  by (erule sorted_wrt_mono_rel [rotated]) (auto simp: cellKey_def less_prod_def')

lemma diskCells_ok: "cellsSorted (diskCells cs)" "list_all cellOk (diskCells cs)" "familiesOk (diskCells cs)"
proof -
  have "diskCells cs = cs \<and> cellsSorted cs \<and> list_all cellOk cs \<and> familiesOk cs \<or> diskCells cs = []"
    by (simp add: diskCells_def)
  moreover have "cellsSorted []" "list_all cellOk []" "familiesOk []" by (simp_all add: cellsSorted_def familiesOk_def)
  ultimately show "cellsSorted (diskCells cs)" "list_all cellOk (diskCells cs)" "familiesOk (diskCells cs)" by metis+
qed

interpretation disk_fragments: fragment_contract
  "diskFragments fmt past popScheme (\<lambda>f. writeTable fmt n (diskCells (cs f))) uri"
  "\<lambda>f. map (readCellData \<circ> appendCellData) (diskCells (cs f))"
proof
  fix p :: ScanPredicate and f
  assume p: "scan_predicate_inv p" "maxHistory p = 0"
  show "fragmentScan (diskFragments fmt past popScheme (\<lambda>f. writeTable fmt n (diskCells (cs f))) uri) f p =
      Inr (filter (cellAllowed p) (map (readCellData \<circ> appendCellData) (diskCells (cs f))))"
    using disk_scan [OF p(1) rows_of_sorted [OF diskCells_ok(1)], of "cs f" fmt past n] diskCells_ok(3) p(2)
    by (simp add: diskFragments_def predicate_filter)
next
  show "cellsSorted (map (readCellData \<circ> appendCellData) (diskCells (cs f)))" for f
    using diskCells_ok(1) [of "cs f"] by (simp add: cellsSorted_def sorted_wrt_map)
  show "list_all cellOk (map (readCellData \<circ> appendCellData) (diskCells (cs f)))" for f
    using diskCells_ok(2) [of "cs f"] by (simp add: list_all_iff)
qed

lemma historyFilter_subset: "set (historyFilter k cs) \<subseteq> set cs"
proof -
  have "set (historyLoop l prev n cs) \<subseteq> set cs" for l prev n
    by (induction l prev n cs rule: historyLoop.induct) (auto simp: Let_def split: option.splits if_splits)
  then show ?thesis by (simp add: historyFilter_def)
qed


subsection \<open>Scans of files that may be damaged\<close>

lemma fileSeek_suffix: "fileSeek fmt pos xs = Some rs \<Longrightarrow> set rs \<subseteq> set xs"
proof (induction fmt pos xs rule: fileSeek.induct)
  case (2 fmt pos r rs')
  then show ?case by (auto split: if_splits)
qed simp

definition checkedBlock :: "DiskFormat \<Rightarrow> IndexEntryV1 \<Rightarrow> DiskScanner \<Rightarrow> CellData list \<Rightarrow> bool" where
  "checkedBlock fmt past sc ds \<longleftrightarrow> CellBlockRecord ds \<in> set (scanFile sc) \<and>
     (\<exists>e\<in>insert past (set (scanBlocks sc)). blockChecksum e = recordChecksum fmt (CellBlockRecord ds))"

definition checkedScan :: "DiskFormat \<Rightarrow> IndexEntryV1 \<Rightarrow> DiskScanner \<Rightarrow> bool" where
  "checkedScan fmt past sc \<longleftrightarrow> set (scanInput sc) \<subseteq> set (scanFile sc) \<and> (\<forall>ds. blockRec sc = Some ds \<longrightarrow> checkedBlock fmt past sc ds)"

lemma entry_in: "indexEntryAt past sc i \<in> insert past (set (scanBlocks sc))"
  by (simp add: indexEntryAt_def)

lemma readBlock_checked:
  "readBlock fmt past b i sc = Inr (sc', r) \<Longrightarrow> set (scanInput sc) \<subseteq> set (scanFile sc) \<Longrightarrow> r \<Longrightarrow> checkedScan fmt past sc'"
proof (induction rule: readBlock_induct)
  case (skip b i sc rs sc' r)
  have "set rs \<subseteq> set (scanFile sc)" using skip(1,3,7) fileSeek_suffix by (cases b) blast+
  then show ?case using skip by simp
next
  case (bad b i sc rs' ds sc' r)
  have "set (CellBlockRecord ds # rs') \<subseteq> set (scanFile sc)" using bad(1,3,7) fileSeek_suffix by (cases b) (metis | blast)+
  then show ?case using bad by simp
next
  case (good b i sc rs' ds)
  have "set (CellBlockRecord ds # rs') \<subseteq> set (scanFile sc)" using good(1,3,6) fileSeek_suffix by (cases b) (metis | blast)+
  then show ?case using good(5) entry_in [of past sc i] by (auto simp: checkedScan_def checkedBlock_def)
qed simp_all

lemma getMoreCells_checked:
  assumes "getMoreCells fmt past sc = Inr (sc', True)" "checkedScan fmt past sc"
  shows "checkedScan fmt past sc' \<and> scanFile sc' = scanFile sc \<and> scanBlocks sc' = scanBlocks sc"
proof -
  obtain sc1 where sc1: "(if (case blockRec sc of None \<Rightarrow> False | Some ds \<Rightarrow> cellEnd sc = length ds)
      then readNextBlock fmt past sc else getNextRowSegment fmt past sc) = Inr (sc1, True)"
    "scanBlocks sc' = scanBlocks sc1" "scanFile sc' = scanFile sc1" "scanInput sc' = scanInput sc1" "blockRec sc' = blockRec sc1"
    using assms(1) by (auto simp: getMoreCells_def bind_res_eq_Inr simp del: if_split split: if_splits)
  have input: "set (scanInput sc) \<subseteq> set (scanFile sc)" using assms(2) by (simp add: checkedScan_def)
  have next_block: "checkedScan fmt past u' \<and> scanFile u' = scanFile sc \<and> scanBlocks u' = scanBlocks sc"
    if "readBlock fmt past b i u = Inr (u', True)" "scanFile u = scanFile sc" "scanBlocks u = scanBlocks sc" "scanInput u = scanInput sc" for b i u u'
    using readBlock_checked [OF that(1)] readBlock_keeps [OF that(1)] that(2-4) input by simp
  have "checkedScan fmt past sc1 \<and> scanFile sc1 = scanFile sc \<and> scanBlocks sc1 = scanBlocks sc"
  proof (cases "case blockRec sc of None \<Rightarrow> False | Some ds \<Rightarrow> cellEnd sc = length ds")
    case True
    then show ?thesis using sc1(1) next_block by (simp add: readNextBlock_def)
  next
    case False
    note seg = sc1(1) [unfolded if_not_P [OF False]]
    show ?thesis
    proof (cases "nextRows sc")
      case None
      then show ?thesis using seg next_block by (simp add: getNextRowSegment_def readNextBlock_def)
    next
      case (Some qs)
      then obtain lo hi ps where qs: "nextRows sc = Some (lo # hi # ps)"
        using seg by (cases qs; cases "tl qs") (auto simp: getNextRowSegment_def)
      let ?u = "sc\<lparr>nextRows := Some ps, scanUpper := hi\<rparr>"
      consider (here) ds where "sc1 = ?u\<lparr>cellIt := cellLowerBound ds lo, cellEnd := length ds\<rparr>"
        | (index) i u m where "readBlock fmt past True i ?u = Inr (u, True)" "sc1 = u\<lparr>cellIt := m\<rparr>"
        using seg qs by (auto simp: getNextRowSegment_def Let_def bind_res_eq_Inr split: option.splits if_splits)
      then show ?thesis
      proof cases
        case here
        then show ?thesis using assms(2) by (simp add: checkedScan_def checkedBlock_def)
      next
        case index
        have "checkedScan fmt past u \<and> scanFile u = scanFile sc \<and> scanBlocks u = scanBlocks sc"
          by (rule next_block [OF index(1)]) simp_all
        then show ?thesis unfolding index(2) by (auto simp: checkedScan_def checkedBlock_def)
      qed
    qed
  qed
  then show ?thesis using sc1(2-5) by (auto simp: checkedScan_def checkedBlock_def)
qed

lemma diskGet_checked:
  "diskGet fmt past sc = Inr (sc', Some c) \<Longrightarrow> checkedScan fmt past sc \<Longrightarrow>
     checkedScan fmt past sc' \<and> scanFile sc' = scanFile sc \<and> scanBlocks sc' = scanBlocks sc \<and>
     (\<exists>ds. checkedBlock fmt past sc ds \<and> c \<in> readCellData ` set ds)"
proof (induction fmt past sc rule: diskGet.induct)
  case (1 fmt past sc)
  show ?case
  proof (cases "cellIt sc \<noteq> cellEnd sc")
    case True
    then obtain ds where "blockRec sc = Some ds" "cellIt sc < length ds" "sc' = sc\<lparr>cellIt := Suc (cellIt sc)\<rparr>" "c = readCellData (ds ! cellIt sc)"
      using 1(2) by (subst (asm) diskGet.simps) (auto split: option.splits if_splits)
    then show ?thesis using 1(3) by (auto simp: checkedScan_def checkedBlock_def)
  next
    case False
    then obtain sc1 where more: "getMoreCells fmt past sc = Inr (sc1, True)" and go: "diskGet fmt past sc1 = Inr (sc', Some c)"
      using 1(2) by (subst (asm) diskGet.simps) (auto split: sum.splits if_splits)
    note M = getMoreCells_checked [OF more 1(3)]
    have "checkedScan fmt past sc' \<and> scanFile sc' = scanFile sc1 \<and> scanBlocks sc' = scanBlocks sc1 \<and>
        (\<exists>ds. checkedBlock fmt past sc1 ds \<and> c \<in> readCellData ` set ds)"
      using 1(1) [OF _ more] go False M by simp
    then show ?thesis using M by (simp add: checkedBlock_def)
  qed
qed

lemma diskStream_checked:
  "diskStream fmt past sc = Inr cs \<Longrightarrow> checkedScan fmt past sc \<Longrightarrow> c \<in> set cs \<Longrightarrow> \<exists>ds. checkedBlock fmt past sc ds \<and> c \<in> readCellData ` set ds"
proof (induction fmt past sc arbitrary: cs rule: diskStream.induct)
  case (1 fmt past sc)
  obtain sc' o' where g: "diskGet fmt past sc = Inr (sc', o')" using 1(2) by (subst (asm) diskStream.simps) (auto split: sum.splits)
  show ?case
  proof (cases o')
    case None
    then show ?thesis using 1(2,4) g by (subst (asm) diskStream.simps) simp
  next
    case (Some d)
    then obtain ds where ds: "diskStream fmt past sc' = Inr ds" "cs = d # ds"
      using 1(2) g by (subst (asm) diskStream.simps) (auto simp: bind_res_eq_Inr)
    note G = diskGet_checked [OF g [unfolded Some] 1(3)]
    show ?thesis
    proof (cases "c = d")
      case False
      then have "\<exists>ds. checkedBlock fmt past sc' ds \<and> c \<in> readCellData ` set ds"
        using 1(1) [OF g [unfolded Some], of d ds] ds G 1(4) by simp
      then show ?thesis using G by (simp add: checkedBlock_def)
    qed (use G in blast)
  qed
qed

lemma scan_checked:
  assumes "loadIndex fmt file = Inr (off, blocks, fams)" "diskTableScan fmt past file p = Inr cs" "c \<in> set cs"
  shows "\<exists>ds. CellBlockRecord ds \<in> set file \<and> c \<in> readCellData ` set ds \<and>
    (\<exists>e\<in>insert past (set blocks). blockChecksum e = recordChecksum fmt (CellBlockRecord ds))"
proof -
  obtain rs fs ts xs where xs: "diskStream fmt past (diskScanner file blocks fams rs fs ts) = Inr xs" "cs = applyPredicateFilter (clearRowPredicate p) xs"
    using assms(1,2) by (cases "rows p = None") (auto simp: diskTableScan_def bind_res_eq_Inr)
  have "set (applyPredicateFilter q xs) \<subseteq> set xs" for q
    using historyFilter_subset [of "maxHistory q" "filter (cellAllowed q) xs"] by (auto simp: predicate_filter)
  then have "c \<in> set xs" using assms(3) xs(2) by blast
  moreover have "checkedScan fmt past (diskScanner file blocks fams rs fs ts)" by (simp add: checkedScan_def diskScanner_def)
  ultimately have "\<exists>ds. checkedBlock fmt past (diskScanner file blocks fams rs fs ts) ds \<and> c \<in> readCellData ` set ds"
    using diskStream_checked [OF xs(1)] by blast
  then show ?thesis by (auto simp: checkedBlock_def diskScanner_def)
qed

subsection \<open>Examples\<close>

definition exampleFormat :: DiskFormat where
  "exampleFormat =
     \<lparr>recordData = (\<lambda>r. case r of
        CellBlockRecord ds \<Rightarrow> concat (map (\<lambda>d. map (\<lambda>c. of_nat (of_char c)) (cd_row d @ cd_column d)) ds) | _ \<Rightarrow> []),
      storedLength = (\<lambda>r. case r of CellBlockRecord ds \<Rightarrow> 24 * length ds | _ \<Rightarrow> 40)\<rparr>"

definition exampleEntry :: IndexEntryV1 where
  "exampleEntry = \<lparr>blockChecksum = 0, lastRow = [], blockOffset = 0, lowestTime = 0, highestTime = 0, colFamilyMask = 0\<rparr>"

definition familyPredicate :: "string \<Rightarrow> string \<Rightarrow> ScanPredicate" where
  "familyPredicate row family =
     setRowPredicate (isetAdd (<) (setLowerBound row BT_INCLUSIVE (setInfinite [] (Interval0 []))) IntervalSet0)
       (setColumnPredicate (isetAdd (<) (makePrefixInterval family) IntervalSet0) ScanPredicate0)"

definition exampleCells :: "Cell list" where
  "exampleCells = [makeCell ''a'' ''f:x'' 1 ''1'', makeCell ''b'' ''f:x'' 2 ''2'', makeCell ''c'' ''g:x'' 3 ''3'', makeCell ''d'' ''f:y'' 4 ''4'']"




definition damagedTable :: "DiskRecord list" where
  "damagedTable = CellBlockRecord [appendCellData (makeCell ''a'' ''f:z'' 1 ''1'')] # tl (writeTable exampleFormat 1 (take 2 exampleCells))"

definition missedCells :: "Cell list" where
  "missedCells = [makeCell ''a'' ''f:x'' 1 ''1'', makeCell ''b'' ''f:x'' 2 ''2'', makeCell ''c'' ''g:x'' 3 ''3'', makeCell ''d'' ''b:x'' 4 ''4'']"

text \<open>What an entry of the index tells of a block.\<close>

definition entryTells :: "DiskFormat \<Rightarrow> CellData list \<Rightarrow> IndexEntryV1 \<Rightarrow> bool" where
  "entryTells fmt ds e \<longleftrightarrow> ds \<noteq> [] \<and> blockChecksum e = recordChecksum fmt (CellBlockRecord ds) \<and>
     lastRow e = cd_row (last ds) \<and> inTimes (lowestTime e) (highestTime e) ds"

text \<open>
  When a column family has the name of a row that ends an earlier block, the order of the families
  in the index is not that in which the writer gave out their bits, and a scan for some rows of a family
  misses cells. An example: the table holds a cell of the family, which the predicate allows, and the scan
  delivers nothing.
\<close>
lemma family_scan_misses_cells:
  "filter (cellAllowed (familyPredicate ''a'' ''g:'')) missedCells = [makeCell ''c'' ''g:x'' 3 ''3''] \<and>
     diskTableScan exampleFormat exampleEntry (writeTable exampleFormat 1 missedCells) (familyPredicate ''a'' ''g:'') = Inr []"
proof
  show "filter (cellAllowed (familyPredicate ''a'' ''g:'')) missedCells = [makeCell ''c'' ''g:x'' 3 ''3'']" by code_simp
  show "diskTableScan exampleFormat exampleEntry (writeTable exampleFormat 1 missedCells) (familyPredicate ''a'' ''g:'') = Inr []"
    by code_simp
qed

subsection \<open>Properties\<close>

text \<open>
  C8. A scan of the table that is written for sorted cells, with any size of the blocks and any
  marshalling, delivers a copy of exactly the cells that the predicate delivers, in their order. This
  needs, when the predicate restricts both rows and columns, that there are at most 32 column
  families and that none of them is also the name of a row.
\<close>
theorem disk_table_scan_delivers:
  assumes "scan_predicate_inv p" "sorted (map getRow cs)"
    and "rows p \<noteq> None \<Longrightarrow> getColumnFamilies p \<noteq> None \<Longrightarrow> familiesOk cs"
  shows "diskTableScan fmt past (writeTable fmt blockSize cs) p =
    Inr (applyPredicateFilter p (map (readCellData \<circ> appendCellData) cs))"
  by (rule disk_scan [OF assms])

theorem disk_table_scan_delivers_witness:
  "diskTableScan exampleFormat exampleEntry (writeTable exampleFormat 1 exampleCells) (familyPredicate ''b'' ''f:'') =
     Inr [makeCell ''b'' ''f:x'' 2 ''2'', makeCell ''d'' ''f:y'' 4 ''4'']"
proof -
  let ?p = "familyPredicate ''b'' ''f:''"
  have "iset_inv (<) (isetAdd (<) (setLowerBound ''b'' BT_INCLUSIVE (setInfinite [] (Interval0 []))) IntervalSet0)"
    by (rule add_to_empty(1)) (simp add: wf_simps setLowerBound_def setInfinite_def unsetLowerBound_def unsetUpperBound_def
        Interval0_def point_pred_defs point_type_defs pointLt_def isLess_def)
  moreover have "iset_inv (<) (isetAdd (<) (makePrefixInterval ''f:'') IntervalSet0)"
    by (rule add_to_empty(1) [OF makePrefixInterval_wf])
  ultimately have inv: "scan_predicate_inv ?p"
    by (simp add: scan_predicate_inv_def familyPredicate_def setRowPredicate_def setColumnPredicate_def ScanPredicate0_def)
  have fam: "familiesOk exampleCells"
    unfolding familiesOk_def exampleCells_def by (simp add: cellColumnFamily_def find_char_def card_insert_if)
  have rows: "sorted (map getRow exampleCells)" by (simp add: exampleCells_def less_eq_char_def)
  have "applyPredicateFilter ?p (map (readCellData \<circ> appendCellData) exampleCells) =
      [makeCell ''b'' ''f:x'' 2 ''2'', makeCell ''d'' ''f:y'' 4 ''4'']" by code_simp
  then show ?thesis using disk_table_scan_delivers [OF inv rows fam] by simp
qed

text \<open>
  C14. Whatever a file holds, a scan of it delivers only cells of those blocks of the file whose
  checksum is that of an entry of the index. The entry that the code reads when it has advanced past
  the end of the index counts as one.
\<close>
theorem disk_scan_checks_blocks:
  assumes "loadIndex fmt contents = Inr (off, blocks, fams)" "diskTableScan fmt past contents p = Inr cs" "c \<in> set cs"
  shows "\<exists>ds e. CellBlockRecord ds \<in> set contents \<and> c \<in> readCellData ` set ds \<and> e \<in> insert past (set blocks) \<and>
    blockChecksum e = recordChecksum fmt (CellBlockRecord ds)"
  using scan_checked [OF assms] by blast

theorem disk_scan_checks_blocks_witness:
  "diskTableScan exampleFormat exampleEntry damagedTable ScanPredicate0 = Inr [makeCell ''b'' ''f:x'' 2 ''2''] \<and>
     (\<exists>ds. CellBlockRecord ds \<in> set damagedTable \<and> makeCell ''b'' ''f:x'' 2 ''2'' \<in> readCellData ` set ds)"
proof -
  have scan: "diskTableScan exampleFormat exampleEntry damagedTable ScanPredicate0 = Inr [makeCell ''b'' ''f:x'' 2 ''2'']" by code_simp
  have "case loadIndex exampleFormat damagedTable of Inl e \<Rightarrow> False | Inr x \<Rightarrow> True" by code_simp
  then obtain off blocks fams where "loadIndex exampleFormat damagedTable = Inr (off, blocks, fams)"
    by (auto split: sum.splits)
  moreover have "makeCell ''b'' ''f:x'' 2 ''2'' \<in> set [makeCell ''b'' ''f:x'' 2 ''2'']" by simp
  ultimately obtain ds where "CellBlockRecord ds \<in> set damagedTable" "makeCell ''b'' ''f:x'' 2 ''2'' \<in> readCellData ` set ds"
    using disk_scan_checks_blocks [OF _ scan] by metis
  then show ?thesis using scan by (intro conjI exI)
qed

text \<open>
  C20. The file that is written for some cells is made of blocks, one index and the trailer with the
  index's position. The blocks hold the cells in the order in which they were put; none is empty, and
  its entry in the index has its position, its checksum, its last row and bounds of its timestamps.
\<close>
theorem written_table_well_formed:
  "\<exists>bs es fams. writeTable fmt blockSize cs = map CellBlockRecord bs @
       [BlockIndexRecord es fams, TableInfoRecord (fileTell fmt (map CellBlockRecord bs))] \<and>
     concat bs = map appendCellData cs \<and> list_all2 (entryTells fmt) bs es \<and>
     map blockOffset es = map (\<lambda>i. fileTell fmt (map CellBlockRecord (take i bs))) [0..<length bs]"
proof -
  obtain bs es fams where t: "writeTable fmt blockSize cs = diskFile bs es fams (fileTell fmt (map CellBlockRecord bs))"
    "blocksIndexed fmt bs es" "tableTold cs bs es fams" using writeTable_ok by blast
  have "list_all2 (entryTells fmt) bs es"
    using t(2,3) by (simp add: list_all2_conv_all_nth blocksIndexed_def tableTold_def entryTells_def)
  moreover have "map blockOffset es = map (\<lambda>i. fileTell fmt (map CellBlockRecord (take i bs))) [0..<length bs]"
    using t(2) by (intro nth_equalityI) (simp_all add: blocksIndexed_def)
  ultimately show ?thesis using t(1,3) unfolding diskFile_def tableTold_def by blast
qed

end
