(* ===== verification/TabletSave.thy ===== *)
theory TabletSave
  imports TabletScan
begin

section \<open>Threads that save a tablet's configuration (src/cc/kdi/tablet/Tablet.cc)\<close>

text \<open>
  \<open>saveConfig\<close> gives up the tablet's lock while the configuration is written, and a replacement
  gives it up between the change of the chain and the marking of the files that are dead. Here
  these functions are cut at these points, and any number of threads run their pieces in any
  order. In each piece the thread holds the lock. The main results are that the configuration on
  record never names a file to which the tablet has given up its reference, when no two threads
  save at once, and what goes wrong when they do.
\<close>

subsection \<open>The pieces\<close>

datatype SavePc =
    Idle
  | Writing "string \<times> TabletConfig"
  | Written
  | Dropping "nat list"

record SaveState =
  sv_tablet :: Tablet
  sv_world :: World
  sv_threads :: "nat \<Rightarrow> SavePc"

definition takeConfig :: "Fragments \<Rightarrow> Tablet \<Rightarrow> (Tablet \<times> string \<times> TabletConfig) result" where
  "takeConfig env t =
     bind_res (Interval2 (minRow t) (maxRow t)) (\<lambda>r.
       Inr (t\<lparr>configChanged := False\<rparr>, tableName t, \<lparr>tabletRows = r, tableUris = getFragmentUris env t\<rparr>))"

definition writeConfig :: "string \<times> TabletConfig \<Rightarrow> World \<Rightarrow> World" where
  "writeConfig c w = w\<lparr>configs := configs w @ [c]\<rparr>"

definition releaseDead :: "tstate \<Rightarrow> tstate" where
  "releaseDead = (\<lambda>(t, w). (t\<lparr>deadFiles := []\<rparr>, trackAll release (deadFiles t) w))"

definition replaceChain :: "Fragments \<Rightarrow> nat list \<Rightarrow> nat option \<Rightarrow> tstate \<Rightarrow> tstate result" where
  "replaceChain env old new = (\<lambda>(t, w).
     let i = stdSearch (fragments t) old; e = i + length old
     in if i \<noteq> length (fragments t) then
          (case new of
             Some f \<Rightarrow> Inr (t\<lparr>fragments := vec_erase (i + 1) e ((fragments t)[i := f])\<rparr>,
                           updateTracker (addReference (getDiskUri env f)) w)
           | None \<Rightarrow> Inr (t\<lparr>fragments := vec_erase i e (fragments t)\<rparr>, w))
        else Inl (RuntimeError ''replaceFragments with unknown fragment sequence''))"

definition markDead :: "Fragments \<Rightarrow> nat list \<Rightarrow> Tablet \<Rightarrow> Tablet" where
  "markDead env old t = postConfigChange (t\<lparr>deadFiles := deadFiles t @ map (getDiskUri env) old\<rparr>)"

text \<open>Put together without anything in between, the pieces are the functions of \<open>Tablet\<close>.\<close>

lemma replace_pieces:
  "replaceFragmentsInternal env old new s = bind_res (replaceChain env old new s) (\<lambda>(t, w). Inr (markDead env old t, w))"
  by (cases s) (auto simp: replaceFragmentsInternal_def replaceChain_def markDead_def Let_def split: option.split)

lemma save_pieces:
  "saveConfig env [] (t, w) =
     (if \<not> configChanged t then Inr (t, w)
      else bind_res (takeConfig env t) (\<lambda>(t1, c). Inr (releaseDead (t1, writeConfig c w))))"
  by (cases "Interval2 (minRow t) (maxRow t)")
    (simp_all add: saveConfig_def saveRound_def takeConfig_def writeConfig_def releaseDead_def getFragmentUris_def)

subsection \<open>Steps\<close>

fun saving :: "SavePc \<Rightarrow> bool" where
  "saving (Writing c) = True"
| "saving Written = True"
| "saving _ = False"

text \<open>With \<open>solo\<close>, no thread begins to save while another one saves.\<close>

inductive saveStep :: "Fragments \<Rightarrow> bool \<Rightarrow> SaveState \<Rightarrow> SaveState \<Rightarrow> bool" for env solo where
  begin_save: "sv_threads s k = Idle \<Longrightarrow> (solo \<longrightarrow> (\<forall>j. \<not> saving (sv_threads s j))) \<Longrightarrow> configChanged (sv_tablet s) \<Longrightarrow>
     takeConfig env (sv_tablet s) = Inr (t', c) \<Longrightarrow>
     saveStep env solo s (s\<lparr>sv_tablet := t', sv_threads := (sv_threads s)(k := Writing c)\<rparr>)"
| write_config: "sv_threads s k = Writing c \<Longrightarrow>
     saveStep env solo s (s\<lparr>sv_world := writeConfig c (sv_world s), sv_threads := (sv_threads s)(k := Written)\<rparr>)"
| save_again: "sv_threads s k = Written \<Longrightarrow> configChanged (sv_tablet s) \<Longrightarrow> takeConfig env (sv_tablet s) = Inr (t', c) \<Longrightarrow>
     saveStep env solo s (s\<lparr>sv_tablet := t', sv_threads := (sv_threads s)(k := Writing c)\<rparr>)"
| end_save: "sv_threads s k = Written \<Longrightarrow> \<not> configChanged (sv_tablet s) \<Longrightarrow> releaseDead (sv_tablet s, sv_world s) = (t', w') \<Longrightarrow>
     saveStep env solo s (s\<lparr>sv_tablet := t', sv_world := w', sv_threads := (sv_threads s)(k := Idle)\<rparr>)"
| add_fragment: "addFragment env f (sv_tablet s, sv_world s) = (t', w') \<Longrightarrow>
     saveStep env solo s (s\<lparr>sv_tablet := t', sv_world := w'\<rparr>)"
| replace_chain: "sv_threads s k = Idle \<Longrightarrow> old \<noteq> [] \<Longrightarrow> replaceChain env old new (sv_tablet s, sv_world s) = Inr (t', w') \<Longrightarrow>
     saveStep env solo s (s\<lparr>sv_tablet := t', sv_world := w', sv_threads := (sv_threads s)(k := Dropping old)\<rparr>)"
| mark_dead: "sv_threads s k = Dropping old \<Longrightarrow>
     saveStep env solo s (s\<lparr>sv_tablet := markDead env old (sv_tablet s), sv_threads := (sv_threads s)(k := Idle)\<rparr>)"
| split_tablet: "splitSynced env lowId (sv_tablet s, sv_world s) = Inr ((t', w'), low) \<Longrightarrow>
     saveStep env solo s (s\<lparr>sv_tablet := t', sv_world := w'\<rparr>)"
| mutate: "saveStep env solo s (s\<lparr>sv_tablet := (sv_tablet s)\<lparr>mutationsPending := b\<rparr>\<rparr>)"

definition saveStart :: "Tablet \<Rightarrow> World \<Rightarrow> SaveState" where
  "saveStart t w = \<lparr>sv_tablet = t, sv_world = w, sv_threads = (\<lambda>k. Idle)\<rparr>"

subsection \<open>What the tablet holds on to\<close>

definition inChain :: "SaveState \<Rightarrow> nat \<Rightarrow> bool" where
  "inChain s f \<longleftrightarrow> f \<in> set (fragments (sv_tablet s)) \<or> (\<exists>k old. sv_threads s k = Dropping old \<and> f \<in> set old)"

text \<open>The tablet has a reference to the file of a fragment: the fragment is in the chain, or is
  about to be marked, or its file is marked and not yet released.\<close>

definition holdsFile :: "Fragments \<Rightarrow> SaveState \<Rightarrow> nat \<Rightarrow> bool" where
  "holdsFile env s f \<longleftrightarrow> inChain s f \<or> getDiskUri env f \<in> set (deadFiles (sv_tablet s))"

definition namesOnly :: "Fragments \<Rightarrow> (nat \<Rightarrow> bool) \<Rightarrow> string \<times> TabletConfig \<Rightarrow> bool" where
  "namesOnly env P c \<longleftrightarrow> (\<forall>u\<in>set (tableUris (snd c)). \<exists>f. getFragmentUri env f = u \<and> P f)"

lemma namesOnly_mono: "namesOnly env P c \<Longrightarrow> (\<And>f. P f \<Longrightarrow> Q f) \<Longrightarrow> namesOnly env Q c"
  unfolding namesOnly_def by blast

lemma namesOnly_config: "(\<And>f. f \<in> set (fragments t) \<Longrightarrow> P f) \<Longrightarrow> namesOnly env P (configOf env t)"
  unfolding namesOnly_def configOf_def getFragmentUris_def by auto

definition dropping :: "SaveState \<Rightarrow> bool" where
  "dropping s \<longleftrightarrow> (\<exists>k old. sv_threads s k = Dropping old)"

text \<open>A configuration that is as good as the present one, unless the flag says otherwise.\<close>

definition settledConfig :: "Fragments \<Rightarrow> SaveState \<Rightarrow> string \<times> TabletConfig \<Rightarrow> bool" where
  "settledConfig env s c \<longleftrightarrow> configChanged (sv_tablet s) \<or>
     namesOnly env (inChain s) c \<and> (dropping s \<or> c = configOf env (sv_tablet s))"

definition saveInv :: "Fragments \<Rightarrow> SaveState \<Rightarrow> bool" where
  "saveInv env s \<longleftrightarrow> tablet_wf (sv_tablet s) \<and> configs (sv_world s) \<noteq> [] \<and>
     (\<forall>j k. saving (sv_threads s j) \<and> saving (sv_threads s k) \<longrightarrow> j = k) \<and>
     namesOnly env (holdsFile env s) (last (configs (sv_world s))) \<and>
     (\<forall>k c. sv_threads s k = Writing c \<longrightarrow> namesOnly env (holdsFile env s) c \<and> settledConfig env s c) \<and>
     (\<forall>k. sv_threads s k = Written \<longrightarrow> settledConfig env s (last (configs (sv_world s)))) \<and>
     ((\<forall>k. \<not> saving (sv_threads s k)) \<longrightarrow> configChanged (sv_tablet s) \<or>
        deadFiles (sv_tablet s) = [] \<and> settledConfig env s (last (configs (sv_world s))))"

lemma saveInvI:
  assumes "tablet_wf (sv_tablet s)" "configs (sv_world s) \<noteq> []"
    and "\<And>j k. saving (sv_threads s j) \<Longrightarrow> saving (sv_threads s k) \<Longrightarrow> j = k"
    and "namesOnly env (holdsFile env s) (last (configs (sv_world s)))"
    and "\<And>k c. sv_threads s k = Writing c \<Longrightarrow> namesOnly env (holdsFile env s) c \<and> settledConfig env s c"
    and "\<And>k. sv_threads s k = Written \<Longrightarrow> settledConfig env s (last (configs (sv_world s)))"
    and "\<forall>k. \<not> saving (sv_threads s k) \<Longrightarrow> \<not> configChanged (sv_tablet s) \<Longrightarrow>
      deadFiles (sv_tablet s) = [] \<and> settledConfig env s (last (configs (sv_world s)))"
  shows "saveInv env s"
  unfolding saveInv_def
proof (intro conjI)
  show "\<forall>j k. saving (sv_threads s j) \<and> saving (sv_threads s k) \<longrightarrow> j = k" by (intro allI impI, elim conjE) (rule assms(3))
  show "\<forall>k c. sv_threads s k = Writing c \<longrightarrow> namesOnly env (holdsFile env s) c \<and> settledConfig env s c"
    by (intro allI impI) (rule assms(5))
  show "\<forall>k. sv_threads s k = Written \<longrightarrow> settledConfig env s (last (configs (sv_world s)))" by (intro allI impI) (rule assms(6))
  show "(\<forall>k. \<not> saving (sv_threads s k)) \<longrightarrow> configChanged (sv_tablet s) \<or>
        deadFiles (sv_tablet s) = [] \<and> settledConfig env s (last (configs (sv_world s)))"
    using assms(7) by blast
qed (rule assms)+

lemma saveInvD:
  assumes "saveInv env s"
  shows "tablet_wf (sv_tablet s)" "configs (sv_world s) \<noteq> []"
    "saving (sv_threads s j) \<Longrightarrow> saving (sv_threads s k) \<Longrightarrow> j = k"
    "namesOnly env (holdsFile env s) (last (configs (sv_world s)))"
    "sv_threads s k = Writing c \<Longrightarrow> namesOnly env (holdsFile env s) c \<and> settledConfig env s c"
    "sv_threads s k = Written \<Longrightarrow> settledConfig env s (last (configs (sv_world s)))"
    "\<forall>k. \<not> saving (sv_threads s k) \<Longrightarrow> \<not> configChanged (sv_tablet s) \<Longrightarrow>
      deadFiles (sv_tablet s) = [] \<and> settledConfig env s (last (configs (sv_world s)))"
  using assms unfolding saveInv_def by (elim conjE; blast)+

lemma takeConfig_wf:
  assumes "tablet_wf t"
  shows "takeConfig env t = Inr (t\<lparr>configChanged := False\<rparr>, configOf env t)"
  using interval2_wf [OF assms] by (simp add: takeConfig_def configOf_def)

lemma configOf_cong:
  "tableName t' = tableName t \<Longrightarrow> tabletRange t' = tabletRange t \<Longrightarrow> fragments t' = fragments t \<Longrightarrow> configOf env t' = configOf env t"
  by (simp add: configOf_def getFragmentUris_def)

lemma saveInv_start:
  assumes "tablet_wf t" "deadFiles t = []" "configs w \<noteq> []" "last (configs w) = configOf env t"
  shows "saveInv env (saveStart t w)"
  using assms namesOnly_config [of t _ env]
  by (auto simp: saveInv_def saveStart_def settledConfig_def inChain_def holdsFile_def)

text \<open>A piece that only adds to what the tablet holds and sets the flag when the configuration changes.\<close>

lemma saveInv_grow:
  assumes inv: "saveInv env s"
    and s': "s' = s\<lparr>sv_tablet := t', sv_world := w', sv_threads := p\<rparr>"
    and wf: "tablet_wf t'" and cfg: "configs w' = configs (sv_world s)"
    and p: "\<And>k. saving (p k) \<or> saving (sv_threads s k) \<Longrightarrow> p k = sv_threads s k"
    and holds: "\<And>f. holdsFile env s f \<Longrightarrow> holdsFile env s' f"
    and changed: "configChanged t' \<or> configChanged t' = configChanged (sv_tablet s) \<and> deadFiles t' = deadFiles (sv_tablet s) \<and>
      (\<forall>f. inChain s f \<longrightarrow> inChain s' f) \<and>
      (dropping s' \<or> configOf env t' = configOf env (sv_tablet s) \<and> \<not> dropping s)"
  shows "saveInv env s'"
proof -
  have settled: "settledConfig env s' c" if "settledConfig env s c" for c
    using that changed namesOnly_mono [of env "inChain s" c "inChain s'"] unfolding settledConfig_def s' by auto
  have named: "namesOnly env (holdsFile env s') c" if "namesOnly env (holdsFile env s) c" for c
    using namesOnly_mono [OF that holds] .
  have writing: "sv_threads s k = Writing c" if "p k = Writing c" for k c using p [of k] that by simp
  have written: "sv_threads s k = Written" if "p k = Written" for k using p [of k] that by simp
  have same: "saving (p k) = saving (sv_threads s k)" for k using p [of k] by auto
  note I = saveInvD [OF inv]
  show ?thesis
  proof (rule saveInvI)
    show "tablet_wf (sv_tablet s')" "configs (sv_world s') \<noteq> []" using wf I(2) by (simp_all add: s' cfg)
    show "j = k" if "saving (sv_threads s' j)" "saving (sv_threads s' k)" for j k
      using that by (intro I(3)) (simp_all add: s' same)
    show "namesOnly env (holdsFile env s') (last (configs (sv_world s')))" using named [OF I(4)] by (simp add: s' cfg)
    show "namesOnly env (holdsFile env s') c \<and> settledConfig env s' c" if "sv_threads s' k = Writing c" for k c
      using I(5) [OF writing] named settled that s' by simp
    show "settledConfig env s' (last (configs (sv_world s')))" if "sv_threads s' k = Written" for k
      using settled [OF I(6) [OF written]] that by (simp add: s' cfg)
    show "deadFiles (sv_tablet s') = [] \<and> settledConfig env s' (last (configs (sv_world s')))"
      if idle: "\<forall>k. \<not> saving (sv_threads s' k)" and unchanged: "\<not> configChanged (sv_tablet s')"
    proof -
      have "\<forall>k. \<not> saving (sv_threads s k)" using idle by (simp add: s' same)
      moreover have "\<not> configChanged (sv_tablet s)" "deadFiles t' = deadFiles (sv_tablet s)" using unchanged changed by (simp_all add: s')
      ultimately show ?thesis using I(7) settled by (simp add: s' cfg)
    qed
  qed
qed

text \<open>A piece of a thread that saves does not change what other threads are about to mark.\<close>

lemma dropping_upd:
  assumes "\<And>old. p k \<noteq> Dropping old" "\<And>old. pc \<noteq> Dropping old"
  shows "(\<exists>j old. (p(k := pc)) j = Dropping old \<and> Q old) \<longleftrightarrow> (\<exists>j old. p j = Dropping old \<and> Q old)"
  using assms by (metis fun_upd_apply)

lemma save_piece:
  assumes "\<And>old. sv_threads s k \<noteq> Dropping old" "\<And>old. pc \<noteq> Dropping old" "sv_threads s' = (sv_threads s)(k := pc)"
    and "fragments (sv_tablet s') = fragments (sv_tablet s)"
  shows "inChain s' = inChain s" "dropping s' = dropping s"
proof -
  show "inChain s' = inChain s"
    unfolding inChain_def fun_eq_iff assms(3,4) dropping_upd [where p = "sv_threads s" and k = k and pc = pc, OF assms(1,2)] by (rule allI) (rule refl)
  show "dropping s' = dropping s"
    unfolding dropping_def assms(3) using dropping_upd [where p = "sv_threads s" and k = k and pc = pc and Q = "\<lambda>_. True", OF assms(1,2)] by (simp only: simp_thms)
qed

lemma sole_saver: "saveInv env s \<Longrightarrow> saving (sv_threads s k) \<Longrightarrow> j \<noteq> k \<Longrightarrow> \<not> saving (sv_threads s j)"
  using saveInvD(3) by blast

lemma saveInv_take:
  assumes inv: "saveInv env s" and others: "\<And>j. saving (sv_threads s j) \<Longrightarrow> j = k" and idle: "\<And>old. sv_threads s k \<noteq> Dropping old"
  shows "saveInv env (s\<lparr>sv_tablet := (sv_tablet s)\<lparr>configChanged := False\<rparr>,
      sv_threads := (sv_threads s)(k := Writing (configOf env (sv_tablet s)))\<rparr>)" (is "saveInv env ?s")
proof -
  have c: "configOf env (sv_tablet ?s) = configOf env (sv_tablet s)" by (rule configOf_cong) (simp_all add: tabletRange_def)
  have chain: "inChain ?s = inChain s" by (rule save_piece(1) [OF idle, where pc = "Writing (configOf env (sv_tablet s))"]) simp_all
  have h: "holdsFile env ?s = holdsFile env s" by (simp add: holdsFile_def fun_eq_iff chain)
  have n: "namesOnly env (inChain ?s) (configOf env (sv_tablet s))" by (rule namesOnly_config) (simp add: inChain_def)
  then have n': "namesOnly env (holdsFile env ?s) (configOf env (sv_tablet s))"
    by (rule namesOnly_mono) (simp add: holdsFile_def)
  have p: "sv_threads ?s j = (if j = k then Writing (configOf env (sv_tablet s)) else sv_threads s j)" for j by simp
  have none: "\<not> saving (sv_threads s j)" if "j \<noteq> k" for j using others that by blast
  have own: "settledConfig env ?s (configOf env (sv_tablet s))" using n c by (simp add: settledConfig_def)
  show ?thesis
  proof (rule saveInvI)
    show "tablet_wf (sv_tablet ?s)" "configs (sv_world ?s) \<noteq> []"
      using saveInvD(1,2) [OF inv] by (simp_all add: wf_simps tabletRange_def)
    show "j = i" if "saving (sv_threads ?s j)" "saving (sv_threads ?s i)" for i j
      using that none [of i] none [of j] unfolding p by (simp split: if_splits)
    show "namesOnly env (holdsFile env ?s) (last (configs (sv_world ?s)))" using saveInvD(4) [OF inv] h by simp
    show "namesOnly env (holdsFile env ?s) d \<and> settledConfig env ?s d" if d: "sv_threads ?s j = Writing d" for j d
    proof -
      have "j = k" using d none [of j] unfolding p by (cases "j = k") simp_all
      then have "d = configOf env (sv_tablet s)" using d unfolding p by simp
      then show ?thesis using n' own by simp
    qed
    show "settledConfig env ?s (last (configs (sv_world ?s)))" if "sv_threads ?s j = Written" for j
      using that none [of j] unfolding p by (simp split: if_splits)
    show "deadFiles (sv_tablet ?s) = [] \<and> settledConfig env ?s (last (configs (sv_world ?s)))"
      if "\<forall>j. \<not> saving (sv_threads ?s j)" using spec [OF that, of k] unfolding p by simp
  qed
qed

lemma saveInv_write:
  assumes inv: "saveInv env s" and c: "sv_threads s k = Writing c"
  shows "saveInv env (s\<lparr>sv_world := writeConfig c (sv_world s), sv_threads := (sv_threads s)(k := Written)\<rparr>)" (is "saveInv env ?s")
proof -
  have e: "inChain ?s = inChain s" "dropping ?s = dropping s"
    by (rule save_piece [where pc = Written and k = k]; simp add: c)+
  have h: "holdsFile env ?s = holdsFile env s" by (simp add: holdsFile_def fun_eq_iff e(1))
  have settled: "settledConfig env ?s d = settledConfig env s d" for d
    unfolding settledConfig_def e by simp
  have none: "\<not> saving (sv_threads s j)" if "j \<noteq> k" for j using sole_saver [OF inv _ that] c by simp
  have p: "sv_threads ?s j = (if j = k then Written else sv_threads s j)" for j by simp
  have w: "configs (sv_world ?s) = configs (sv_world s) @ [c]" by (simp add: writeConfig_def)
  note C = saveInvD(5) [OF inv c]
  show ?thesis
  proof (rule saveInvI)
    show "tablet_wf (sv_tablet ?s)" "configs (sv_world ?s) \<noteq> []" using saveInvD(1) [OF inv] by (simp_all add: writeConfig_def)
    show "j = i" if "saving (sv_threads ?s j)" "saving (sv_threads ?s i)" for i j
      using that none [of i] none [of j] unfolding p by (simp split: if_splits)
    show "namesOnly env (holdsFile env ?s) (last (configs (sv_world ?s)))"
      "settledConfig env ?s (last (configs (sv_world ?s)))"
      unfolding w h settled using C by simp_all
    show "namesOnly env (holdsFile env ?s) d \<and> settledConfig env ?s d" if "sv_threads ?s j = Writing d" for j d
      using that none [of j] unfolding p by (simp split: if_splits)
    show "deadFiles (sv_tablet ?s) = [] \<and> settledConfig env ?s (last (configs (sv_world ?s)))"
      if "\<forall>j. \<not> saving (sv_threads ?s j)" using spec [OF that, of k] unfolding p by simp
  qed
qed

lemma saveInv_end:
  assumes inv: "saveInv env s" and c: "sv_threads s k = Written" "\<not> configChanged (sv_tablet s)"
  shows "saveInv env (s\<lparr>sv_tablet := (sv_tablet s)\<lparr>deadFiles := []\<rparr>, sv_world := trackAll op us (sv_world s),
      sv_threads := (sv_threads s)(k := Idle)\<rparr>)" (is "saveInv env ?s")
proof -
  have e: "inChain ?s = inChain s" "dropping ?s = dropping s"
    by (rule save_piece [where pc = Idle and k = k]; simp add: c)+
  have cfg: "configOf env (sv_tablet ?s) = configOf env (sv_tablet s)" by (rule configOf_cong) (simp_all add: tabletRange_def)
  have settled: "settledConfig env ?s d = settledConfig env s d" for d
    unfolding settledConfig_def e cfg by simp
  note last = saveInvD(6) [OF inv c(1)]
  have "namesOnly env (inChain s) (last (configs (sv_world s)))" using last c(2) by (simp add: settledConfig_def)
  then have named: "namesOnly env (holdsFile env ?s) (last (configs (sv_world s)))"
    by (rule namesOnly_mono) (simp add: holdsFile_def e(1))
  have none: "\<not> saving (sv_threads s j)" if "j \<noteq> k" for j using sole_saver [OF inv _ that] c by simp
  have p: "sv_threads ?s j = (if j = k then Idle else sv_threads s j)" for j by simp
  have idle: "\<not> saving (sv_threads ?s j)" for j using none [of j] unfolding p by simp
  have w: "configs (sv_world ?s) = configs (sv_world s)" by (simp add: trackAll_def updateTracker_def)
  show ?thesis
  proof (rule saveInvI)
    show "tablet_wf (sv_tablet ?s)" using saveInvD(1) [OF inv] by (simp add: wf_simps tabletRange_def)
    show "configs (sv_world ?s) \<noteq> []" using saveInvD(2) [OF inv] w by simp
    show "namesOnly env (holdsFile env ?s) (last (configs (sv_world ?s)))" unfolding w by (rule named)
    show "deadFiles (sv_tablet ?s) = [] \<and> settledConfig env ?s (last (configs (sv_world ?s)))"
      unfolding w settled using last by simp
    show "settledConfig env ?s (last (configs (sv_world ?s)))" unfolding w settled by (rule last)
    show "j = i" if "saving (sv_threads ?s j)" for i j using that idle by simp
    show "namesOnly env (holdsFile env ?s) d \<and> settledConfig env ?s d" if "sv_threads ?s j = Writing d" for j d
      using idle [of j] that by simp
  qed
qed

text \<open>The pieces that change the chain.\<close>

lemma replaceChain_cases:
  assumes "replaceChain env old new (t, w) = Inr (t', w')" "old \<noteq> []"
  obtains pre post where "fragments t = pre @ old @ post" "t' = t\<lparr>fragments := pre @ optList new @ post\<rparr>"
    "w' = trackAll addReference (map (getDiskUri env) (optList new)) w"
proof (rule replaceInternal_cases [OF assms(2), of t env new w])
  fix pre post
  assume fr: "fragments t = pre @ old @ post"
    and r: "replaceFragmentsInternal env old new (t, w) = Inr (spliced env old new pre post (t, w))"
  have keep: "t' = t\<lparr>fragments := fragments t'\<rparr>"
    using assms(1) by (auto simp: replaceChain_def Let_def split: if_splits option.splits)
  have "(markDead env old t', w') = spliced env old new pre post (t, w)" using r assms(1) by (simp add: replace_pieces)
  then have "fragments t' = pre @ optList new @ post" "w' = trackAll addReference (map (getDiskUri env) (optList new)) w"
    by (auto simp: spliced_def markDead_def postConfigChange_def dest: arg_cong [of _ _ fragments])
  then show thesis using fr that keep by metis
qed (use assms(1) in \<open>simp add: replace_pieces\<close>)

lemma threads_same:
  "s' = s\<lparr>sv_tablet := t, sv_world := w\<rparr> \<Longrightarrow> s' = s\<lparr>sv_tablet := t, sv_world := w, sv_threads := sv_threads s\<rparr>"
  by simp

lemma saveInv_step:
  assumes inv: "saveInv env s" and step: "saveStep env True s s'"
  shows "saveInv env s'"
  using step
proof (cases rule: saveStep.cases)
  case (begin_save k t' c)
  then have "t' = (sv_tablet s)\<lparr>configChanged := False\<rparr>" "c = configOf env (sv_tablet s)"
    using takeConfig_wf [OF saveInvD(1) [OF inv], of env] by simp_all
  then show ?thesis using saveInv_take [OF inv, of k] begin_save by simp
next
  case (write_config k c)
  then show ?thesis using saveInv_write [OF inv] by simp
next
  case (save_again k t' c)
  then have "t' = (sv_tablet s)\<lparr>configChanged := False\<rparr>" "c = configOf env (sv_tablet s)"
    using takeConfig_wf [OF saveInvD(1) [OF inv], of env] by simp_all
  moreover have "saving (sv_threads s j) \<Longrightarrow> j = k" for j using saveInvD(3) [OF inv, of j k] save_again by simp
  ultimately show ?thesis using saveInv_take [OF inv, of k] save_again by simp
next
  case (end_save k t' w')
  then show ?thesis using saveInv_end [OF inv, of k] by (auto simp: releaseDead_def)
next
  case (add_fragment f t' w')
  show ?thesis
  proof (rule saveInv_grow [OF inv threads_same [OF add_fragment(1)]])
    show "tablet_wf t'" "configs w' = configs (sv_world s)"
      using add_fragment(2) saveInvD(1) [OF inv]
      by (auto simp: addFragment_def postConfigChange_def updateTracker_def wf_simps tabletRange_def split: if_splits)
    show "holdsFile env s f \<Longrightarrow> holdsFile env s' f" for f
      using add_fragment by (auto simp: holdsFile_def inChain_def addFragment_def postConfigChange_def split: if_splits)
    show "configChanged t' \<or> configChanged t' = configChanged (sv_tablet s) \<and> deadFiles t' = deadFiles (sv_tablet s) \<and>
      (\<forall>f. inChain s f \<longrightarrow> inChain s' f) \<and> (dropping s' \<or> configOf env t' = configOf env (sv_tablet s) \<and> \<not> dropping s)"
      using add_fragment
      by (auto simp: inChain_def addFragment_def postConfigChange_def dropping_def configOf_def tabletRange_def
          getFragmentUris_def split: if_splits)
  qed simp
next
  case (replace_chain k old new t' w')
  from replaceChain_cases [OF replace_chain(4,3)] obtain pre post where
    r: "fragments (sv_tablet s) = pre @ old @ post" "t' = (sv_tablet s)\<lparr>fragments := pre @ optList new @ post\<rparr>"
      "w' = trackAll addReference (map (getDiskUri env) (optList new)) (sv_world s)" by blast
  have chain: "inChain s' f" if f: "inChain s f" for f
  proof (cases "f \<in> set (fragments (sv_tablet s))")
    case True
    then show ?thesis using r replace_chain(1) by (auto simp: inChain_def)
  next
    case False
    then obtain j o' where j: "sv_threads s j = Dropping o'" "f \<in> set o'" using f by (auto simp: inChain_def)
    then have "sv_threads s' j = Dropping o'" using replace_chain(1,2) by auto
    then show ?thesis using j(2) by (auto simp: inChain_def)
  qed
  have drop: "dropping s'" using replace_chain(1) by (auto simp: dropping_def)
  show ?thesis
    by (rule saveInv_grow [OF inv replace_chain(1)])
      (use chain drop saveInvD(1) [OF inv] replace_chain(2) in
        \<open>auto simp: r holdsFile_def replace_chain(1) trackAll_def updateTracker_def wf_simps tabletRange_def\<close>)
next
  case (mark_dead k old)
  let ?t = "markDead env old (sv_tablet s)"
  have s': "s' = s\<lparr>sv_tablet := ?t, sv_world := sv_world s, sv_threads := (sv_threads s)(k := Idle)\<rparr>" using mark_dead(1) by simp
  have holds: "holdsFile env s' f" if f: "holdsFile env s f" for f
  proof (cases "f \<in> set old")
    case True
    then show ?thesis by (simp add: mark_dead(1) holdsFile_def markDead_def postConfigChange_def)
  next
    case False
    consider "f \<in> set (fragments (sv_tablet s)) \<or> getDiskUri env f \<in> set (deadFiles (sv_tablet s))"
      | j o' where "sv_threads s j = Dropping o'" "f \<in> set o'" using f by (auto simp: holdsFile_def inChain_def)
    then show ?thesis
    proof cases
      case (2 j o')
      then have "sv_threads s' j = Dropping o'" using False mark_dead(1,2) by auto
      then show ?thesis using 2(2) by (auto simp: holdsFile_def inChain_def)
    qed (auto simp: mark_dead(1) holdsFile_def inChain_def markDead_def postConfigChange_def)
  qed
  show ?thesis
    by (rule saveInv_grow [OF inv s'])
      (use holds saveInvD(1) [OF inv] mark_dead(2) in \<open>auto simp: markDead_def postConfigChange_def wf_simps tabletRange_def\<close>)
next
  case (split_tablet lowId t' w' low)
  note wf = saveInvD(1) [OF inv]
  have r: "(t' = sv_tablet s \<and> w' = sv_world s) \<or>
    (configChanged t' \<and> tablet_wf t' \<and> fragments t' = fragments (sv_tablet s) \<and> deadFiles t' = deadFiles (sv_tablet s) \<and>
      configs w' = configs (sv_world s))"
  proof (rule splitSynced_cases [OF wf, of env lowId "sv_world s"], goal_cases)
    case 1
    then show ?case using split_tablet(2) by simp
  next
    case (2 row t1 low1 w1)
    have "deadFiles t1 = deadFiles (sv_tablet s)"
      using 2(1) by (auto simp: splitSynced_def Let_def bind_res_eq_Inr postConfigChange_def split: prod.splits if_splits)
    moreover have "tablet_wf t1"
      unfolding tablet_wf_def 2(3) by (rule half_wf(2) [OF wf [unfolded tablet_wf_def]])
    ultimately show ?case using 2 split_tablet(2) by (simp add: trackAll_def updateTracker_def)
  qed
  then show ?thesis
  proof (elim disjE conjE)
    assume "t' = sv_tablet s" "w' = sv_world s"
    then show ?thesis using inv split_tablet(1) by simp
  next
    assume t': "configChanged t'" "tablet_wf t'" "fragments t' = fragments (sv_tablet s)" "deadFiles t' = deadFiles (sv_tablet s)"
      "configs w' = configs (sv_world s)"
    have "inChain s' = inChain s" by (simp add: split_tablet(1) inChain_def t'(3) fun_eq_iff)
    then have "holdsFile env s' = holdsFile env s" by (simp add: holdsFile_def fun_eq_iff split_tablet(1) t'(4))
    then show ?thesis by (intro saveInv_grow [OF inv threads_same [OF split_tablet(1)] t'(2,5)]) (simp_all add: t'(1))
  qed
next
  case (mutate b)
  have "s' = s\<lparr>sv_tablet := (sv_tablet s)\<lparr>mutationsPending := b\<rparr>, sv_world := sv_world s, sv_threads := sv_threads s\<rparr>" using mutate by simp
  then show ?thesis
    by (rule saveInv_grow [OF inv])
      (use saveInvD(1) [OF inv] in \<open>auto simp: mutate holdsFile_def inChain_def dropping_def configOf_def tabletRange_def
        getFragmentUris_def wf_simps\<close>)
qed

lemma saveInv_steps:
  assumes "(saveStep env True)\<^sup>*\<^sup>* s s'" "saveInv env s"
  shows "saveInv env s'"
  using assms by (induction rule: rtranclp_induct) (auto intro: saveInv_step)

text \<open>No step but the end of a save releases anything.\<close>

lemma saveStep_references:
  assumes "saveStep env solo s s'" "tablet_wf (sv_tablet s)"
  shows "(\<exists>us ds. tracker (sv_world s') = fold addReference us (tracker (sv_world s)) \<and>
      deadFiles (sv_tablet s') = deadFiles (sv_tablet s) @ ds) \<or>
    (\<exists>k. sv_threads s k = Written \<and> \<not> configChanged (sv_tablet s)) \<and> configs (sv_world s') = configs (sv_world s) \<and>
      deadFiles (sv_tablet s') = [] \<and> tracker (sv_world s') = fold release (deadFiles (sv_tablet s)) (tracker (sv_world s))"
  using assms(1)
proof (cases rule: saveStep.cases)
  case (begin_save k t' c)
  then show ?thesis using takeConfig_wf [OF assms(2), of env] by (auto intro: exI [of _ "[]"])
next
  case (write_config k c)
  then show ?thesis by (auto simp: writeConfig_def intro: exI [of _ "[]"])
next
  case (save_again k t' c)
  then show ?thesis using takeConfig_wf [OF assms(2), of env] by (auto intro: exI [of _ "[]"])
next
  case (end_save k t' w')
  then show ?thesis by (auto simp: releaseDead_def trackAll_def updateTracker_def)
next
  case (add_fragment f t' w')
  then have "deadFiles t' = deadFiles (sv_tablet s) @ []"
    "tracker w' = fold addReference [] (tracker (sv_world s)) \<or> tracker w' = fold addReference [getDiskUri env f] (tracker (sv_world s))"
    by (auto simp: addFragment_def postConfigChange_def updateTracker_def split: if_splits)
  moreover have "sv_tablet s' = t'" "sv_world s' = w'" using add_fragment(1) by simp_all
  ultimately show ?thesis by (intro disjI1) metis
next
  case (replace_chain k old new t' w')
  have "deadFiles t' = deadFiles (sv_tablet s) @ []"
    "tracker w' = fold addReference (map (getDiskUri env) (optList new)) (tracker (sv_world s))"
    by (rule replaceChain_cases [OF replace_chain(4,3)], simp add: trackAll_def updateTracker_def)+
  moreover have "sv_tablet s' = t'" "sv_world s' = w'" using replace_chain(1) by simp_all
  ultimately show ?thesis by (intro disjI1) metis
next
  case (mark_dead k old)
  then show ?thesis by (auto simp: markDead_def postConfigChange_def intro: exI [of _ "[]"])
next
  case (split_tablet lowId t' w' low)
  then have "(t' = sv_tablet s \<and> w' = sv_world s) \<or>
      (deadFiles t' = deadFiles (sv_tablet s) \<and> w' = trackAll addReference (map (getDiskUri env) (fragments (sv_tablet s))) (sv_world s))"
    by (auto simp: splitSynced_def cloneTablet_def Let_def bind_res_eq_Inr postConfigChange_def split: if_splits)
  then show ?thesis using split_tablet(1) by (auto simp: trackAll_def updateTracker_def intro: exI [of _ "[]"])
next
  case (mutate b)
  then show ?thesis by (auto intro: exI [of _ "[]"])
qed

text \<open>A whole save, and a whole replacement, as pieces.\<close>

lemma begin_saveI:
  assumes "tablet_wf t" "configChanged t" "p k = Idle" "solo \<longrightarrow> (\<forall>j. \<not> saving (p j))"
  shows "saveStep env solo \<lparr>sv_tablet = t, sv_world = w, sv_threads = p\<rparr>
     \<lparr>sv_tablet = t\<lparr>configChanged := False\<rparr>, sv_world = w, sv_threads = p(k := Writing (configOf env t))\<rparr>"
  using saveStep.begin_save [of "\<lparr>sv_tablet = t, sv_world = w, sv_threads = p\<rparr>" k solo env] takeConfig_wf [OF assms(1), of env] assms(2-4)
  by simp

lemma write_configI:
  assumes "p k = Writing c"
  shows "saveStep env solo \<lparr>sv_tablet = t, sv_world = w, sv_threads = p\<rparr>
     \<lparr>sv_tablet = t, sv_world = writeConfig c w, sv_threads = p(k := Written)\<rparr>"
  using saveStep.write_config [of "\<lparr>sv_tablet = t, sv_world = w, sv_threads = p\<rparr>" k c env solo] assms by simp

lemma end_saveI:
  assumes "p k = Written" "\<not> configChanged t"
  shows "saveStep env solo \<lparr>sv_tablet = t, sv_world = w, sv_threads = p\<rparr>
     \<lparr>sv_tablet = t\<lparr>deadFiles := []\<rparr>, sv_world = trackAll release (deadFiles t) w, sv_threads = p(k := Idle)\<rparr>"
  using saveStep.end_save [of "\<lparr>sv_tablet = t, sv_world = w, sv_threads = p\<rparr>" k] assms by (simp add: releaseDead_def)

lemma replaceI:
  assumes "replaceFragmentsInternal env old new (t, w) = Inr (t', w')" "old \<noteq> []" "p k = Idle"
  shows "(saveStep env solo)\<^sup>*\<^sup>* \<lparr>sv_tablet = t, sv_world = w, sv_threads = p\<rparr> \<lparr>sv_tablet = t', sv_world = w', sv_threads = p\<rparr>"
proof -
  obtain t1 where r: "replaceChain env old new (t, w) = Inr (t1, w')" "t' = markDead env old t1"
    using assms(1) by (auto simp: replace_pieces bind_res_eq_Inr)
  have "saveStep env solo \<lparr>sv_tablet = t, sv_world = w, sv_threads = p\<rparr>
      \<lparr>sv_tablet = t1, sv_world = w', sv_threads = p(k := Dropping old)\<rparr>"
    using saveStep.replace_chain [of "\<lparr>sv_tablet = t, sv_world = w, sv_threads = p\<rparr>" k old env new t1 w' solo] assms(2,3) r(1) by simp
  moreover have "saveStep env solo \<lparr>sv_tablet = t1, sv_world = w', sv_threads = p(k := Dropping old)\<rparr>
      \<lparr>sv_tablet = t', sv_world = w', sv_threads = p\<rparr>"
    using saveStep.mark_dead [of "\<lparr>sv_tablet = t1, sv_world = w', sv_threads = p(k := Dropping old)\<rparr>" k old env solo] assms(3) r(2)
    by (simp add: fun_upd_idem)
  ultimately show ?thesis by (meson converse_rtranclp_into_rtranclp rtranclp.rtrancl_refl)
qed

subsection \<open>Properties\<close>

text \<open>
  C18. However the pieces of the threads that save a tablet's configuration, replace its fragments,
  add to its chain and split it are interleaved, as long as no thread begins to save while another one
  saves: the configuration on record names only fragments whose files the tablet still has its
  references to; when nothing is under way and no change is flagged, it is the configuration of the
  present chain and range, and no dead file is left; and only the end of a save releases
  files: it releases exactly the dead ones, once each, at a moment at which the configuration on
  record names only fragments of the present chain, or which are being taken out of it.
\<close>
theorem saveConfig_releases_saved_files:
  assumes "tablet_wf t" "deadFiles t = []" "configs w \<noteq> []" "last (configs w) = configOf env t"
    and "(saveStep env True)\<^sup>*\<^sup>* (saveStart t w) s"
  shows "namesOnly env (holdsFile env s) (last (configs (sv_world s))) \<and>
    ((\<forall>k. sv_threads s k = Idle) \<and> \<not> configChanged (sv_tablet s) \<longrightarrow>
       last (configs (sv_world s)) = configOf env (sv_tablet s) \<and> deadFiles (sv_tablet s) = []) \<and>
    (\<forall>s'. saveStep env True s s' \<longrightarrow>
       (\<exists>us ds. tracker (sv_world s') = fold addReference us (tracker (sv_world s)) \<and>
          deadFiles (sv_tablet s') = deadFiles (sv_tablet s) @ ds) \<or>
       namesOnly env (inChain s) (last (configs (sv_world s'))) \<and> deadFiles (sv_tablet s') = [] \<and>
          tracker (sv_world s') = fold release (deadFiles (sv_tablet s)) (tracker (sv_world s)))"
proof (intro conjI allI impI)
  have inv: "saveInv env s" by (rule saveInv_steps [OF assms(5) saveInv_start [OF assms(1-4)]])
  show "namesOnly env (holdsFile env s) (last (configs (sv_world s)))" by (rule saveInvD(4) [OF inv])
  show "last (configs (sv_world s)) = configOf env (sv_tablet s)" "deadFiles (sv_tablet s) = []"
    if idle: "(\<forall>k. sv_threads s k = Idle) \<and> \<not> configChanged (sv_tablet s)"
    using saveInvD(7) [OF inv] idle by (simp_all add: settledConfig_def dropping_def)
  fix s' assume step: "saveStep env True s s'"
  have "namesOnly env (inChain s) (last (configs (sv_world s)))"
    if "sv_threads s k = Written" "\<not> configChanged (sv_tablet s)" for k
    using saveInvD(6) [OF inv that(1)] that(2) by (simp add: settledConfig_def)
  then show "(\<exists>us ds. tracker (sv_world s') = fold addReference us (tracker (sv_world s)) \<and>
          deadFiles (sv_tablet s') = deadFiles (sv_tablet s) @ ds) \<or>
       namesOnly env (inChain s) (last (configs (sv_world s'))) \<and> deadFiles (sv_tablet s') = [] \<and>
          tracker (sv_world s') = fold release (deadFiles (sv_tablet s)) (tracker (sv_world s))"
    using saveStep_references [OF step saveInvD(1) [OF inv]] by metis
qed

definition savesEnv :: Fragments where
  "savesEnv = fragments0\<lparr>getFragmentUri := (\<lambda>f. replicate f (CHR ''u'')), getDiskUri := (\<lambda>f. replicate f (CHR ''d''))\<rparr>"

lemma example_replacement:
  "replaceFragmentsInternal savesEnv [2, 3] (Some 9) (tablet0 [1, 2, 3]\<lparr>configChanged := b\<rparr>, w) =
     Inr (postConfigChange (tablet0 [1, 9]\<lparr>deadFiles := map (getDiskUri savesEnv) [2, 3]\<rparr>),
       updateTracker (addReference (getDiskUri savesEnv 9)) w)"
  by (simp add: replaceFragmentsInternal_def tablet0_def vec_erase_def postConfigChange_def)

theorem saveConfig_releases_saved_files_witness:
  "\<exists>s. (saveStep savesEnv True)\<^sup>*\<^sup>* (saveStart (tablet0 [1, 2, 3]) (writeConfig (configOf savesEnv (tablet0 [1, 2, 3])) world0)) s \<and>
     fragments (sv_tablet s) = [1, 9] \<and> namesOnly savesEnv (holdsFile savesEnv s) (last (configs (sv_world s)))"
proof -
  let ?w = "writeConfig (configOf savesEnv (tablet0 [1, 2, 3])) world0"
  have start: "tablet_wf (tablet0 [1, 2, 3])" "deadFiles (tablet0 [1, 2, 3]) = []" "configs ?w \<noteq> []"
    "last (configs ?w) = configOf savesEnv (tablet0 [1, 2, 3])"
    using example_facts(2) by (simp_all add: tablet0_def writeConfig_def)
  have "tablet0 [1, 2, 3]\<lparr>configChanged := False\<rparr> = tablet0 [1, 2, 3]" by (simp add: tablet0_def)
  then have run: "(saveStep savesEnv True)\<^sup>*\<^sup>* (saveStart (tablet0 [1, 2, 3]) ?w)
      \<lparr>sv_tablet = postConfigChange (tablet0 [1, 9]\<lparr>deadFiles := map (getDiskUri savesEnv) [2, 3]\<rparr>),
       sv_world = updateTracker (addReference (getDiskUri savesEnv 9)) ?w, sv_threads = (\<lambda>k. Idle)\<rparr>"
    using replaceI [OF example_replacement [of False ?w], of "\<lambda>k. Idle" 0 True] by (simp add: saveStart_def)
  show ?thesis
    by (rule exI, rule conjI, rule run)
      (use saveConfig_releases_saved_files [OF start run] in \<open>simp add: postConfigChange_def tablet0_def\<close>)
qed

text \<open>
  C38. When two threads may save at once, as a call of \<open>sync\<close> by a client and the work queue can, any
  replacement of fragments can end in a state in which nothing is under way, no change is flagged and the
  references to the replaced files are released, while the configuration on record is the one from
  before the replacement, which names these files: the thread that read it has written it last.
\<close>
theorem overlapping_saves_record_stale_config:
  assumes "tablet_wf t" "configChanged t" "old \<noteq> []" "replaceFragmentsInternal env old new (t, w) = Inr (t1, w1)"
  shows "\<exists>s. (saveStep env False)\<^sup>*\<^sup>* (saveStart t w) s \<and> (\<forall>k. sv_threads s k = Idle) \<and>
    \<not> configChanged (sv_tablet s) \<and> fragments (sv_tablet s) = fragments t1 \<and>
    last (configs (sv_world s)) = configOf env t \<and>
    tracker (sv_world s) = fold release (deadFiles t @ map (getDiskUri env) old) (tracker w1)"
proof -
  let ?p = "\<lambda>k :: nat. Idle" and ?c = "configOf env t"
  let ?p1 = "?p(0 := Writing ?c)"
  let ?t0 = "t\<lparr>configChanged := False\<rparr>" and ?t1 = "t1\<lparr>configChanged := False\<rparr>"
  have t1: "tablet_wf t1" "configChanged t1" "deadFiles t1 = deadFiles t @ map (getDiskUri env) old"
    "replaceFragmentsInternal env old new (?t0, w) = Inr (t1, w1)"
    using assms by (auto simp: replaceFragmentsInternal_def postConfigChange_def Let_def wf_simps tabletRange_def split: if_splits option.splits)
  let ?w2 = "trackAll release (deadFiles t1) (writeConfig (configOf env t1) w1)"
  let ?w3 = "trackAll release [] (writeConfig ?c ?w2)"
  have idle: "?p1(1 := Writing (configOf env t1), 1 := Written, 1 := Idle, 0 := Written, 0 := Idle) = ?p"
    by (simp add: fun_eq_iff)
  have "(saveStep env False)\<^sup>*\<^sup>* (saveStart t w) \<lparr>sv_tablet = ?t0, sv_world = w, sv_threads = ?p1\<rparr>"
    unfolding saveStart_def by (rule r_into_rtranclp, rule begin_saveI) (simp_all add: assms)
  also have "(saveStep env False)\<^sup>*\<^sup>* \<lparr>sv_tablet = ?t0, sv_world = w, sv_threads = ?p1\<rparr>
      \<lparr>sv_tablet = t1, sv_world = w1, sv_threads = ?p1\<rparr>"
    by (rule replaceI [OF t1(4) assms(3), where k = 2]) simp
  also have "saveStep env False \<lparr>sv_tablet = t1, sv_world = w1, sv_threads = ?p1\<rparr>
      \<lparr>sv_tablet = ?t1, sv_world = w1, sv_threads = ?p1(1 := Writing (configOf env t1))\<rparr>"
    by (rule begin_saveI) (simp_all add: t1)
  also have "saveStep env False \<lparr>sv_tablet = ?t1, sv_world = w1, sv_threads = ?p1(1 := Writing (configOf env t1))\<rparr>
      \<lparr>sv_tablet = ?t1, sv_world = writeConfig (configOf env t1) w1, sv_threads = ?p1(1 := Writing (configOf env t1), 1 := Written)\<rparr>"
    by (rule write_configI) simp
  also have "saveStep env False
      \<lparr>sv_tablet = ?t1, sv_world = writeConfig (configOf env t1) w1, sv_threads = ?p1(1 := Writing (configOf env t1), 1 := Written)\<rparr>
      \<lparr>sv_tablet = ?t1\<lparr>deadFiles := []\<rparr>, sv_world = ?w2, sv_threads = ?p1(1 := Writing (configOf env t1), 1 := Written, 1 := Idle)\<rparr>"
    using end_saveI [of "?p1(1 := Writing (configOf env t1), 1 := Written)" 1 ?t1 env False] by simp
  also have "saveStep env False
      \<lparr>sv_tablet = ?t1\<lparr>deadFiles := []\<rparr>, sv_world = ?w2, sv_threads = ?p1(1 := Writing (configOf env t1), 1 := Written, 1 := Idle)\<rparr>
      \<lparr>sv_tablet = ?t1\<lparr>deadFiles := []\<rparr>, sv_world = writeConfig ?c ?w2,
       sv_threads = ?p1(1 := Writing (configOf env t1), 1 := Written, 1 := Idle, 0 := Written)\<rparr>"
    by (rule write_configI) simp
  also have "saveStep env False
      \<lparr>sv_tablet = ?t1\<lparr>deadFiles := []\<rparr>, sv_world = writeConfig ?c ?w2,
       sv_threads = ?p1(1 := Writing (configOf env t1), 1 := Written, 1 := Idle, 0 := Written)\<rparr>
      \<lparr>sv_tablet = ?t1\<lparr>deadFiles := []\<rparr>, sv_world = ?w3, sv_threads = ?p\<rparr>"
    using end_saveI [of "?p1(1 := Writing (configOf env t1), 1 := Written, 1 := Idle, 0 := Written)" 0 "?t1\<lparr>deadFiles := []\<rparr>" env False]
    unfolding idle by simp
  finally show ?thesis
    by (intro exI conjI) (assumption, simp_all add: t1(3) writeConfig_def trackAll_def updateTracker_def)
qed

theorem overlapping_saves_record_stale_config_witness:
  "\<exists>s. (saveStep savesEnv False)\<^sup>*\<^sup>* (saveStart (postConfigChange (tablet0 [1, 2, 3])) world0) s \<and>
     fragments (sv_tablet s) = [1, 9] \<and> last (configs (sv_world s)) = configOf savesEnv (postConfigChange (tablet0 [1, 2, 3]))"
proof -
  have t: "tablet_wf (postConfigChange (tablet0 [1, 2, 3]))" "configChanged (postConfigChange (tablet0 [1, 2, 3]))"
    using example_facts(2) [of "[1, 2, 3]"] by (simp_all add: wf_simps tabletRange_def postConfigChange_def)
  show ?thesis
    using overlapping_saves_record_stale_config [OF t _ example_replacement [of True world0, folded postConfigChange_def]]
    by (auto simp: postConfigChange_def tablet0_def)
qed

end
