(* ===== verification/Spec2Isabelle.thy ===== *)
theory Spec2Isabelle
  imports SuperScan LogUri CompactThread DiskFragment TabletSave
begin

text \<open>
  A verification development for KDI, a distributed table store (src/cc/kdi), and the parts of
  its support libraries that it computes with (src/cc/warp and src/cc/flux).

  THE PROGRAM. A table maps keys, which are a row, a column and a timestamp, to values. It is cut
  into tablets, each of which serves a range of rows. A tablet server runs the tablets: a mutation
  is collected by the shared logger, which writes it to a log and then applies it to a memory
  table; a memory table that has grown is written to a file, a disk fragment; a tablet keeps a
  chain of fragments, oldest first, and a scan merges them; the shared compactor replaces adjacent
  fragments by their merge; a tablet that has grown is split in two that share their fragments; the
  fragment graph knows which tablet uses which fragment, and files are deleted with the last
  reference to them. The calls go downwards: a table (\<open>SuperTablet\<close>, \<open>SuperScanner\<close>) to its tablets
  (\<open>Tablet\<close>, \<open>Scanner\<close>), a tablet to its fragments (\<open>Fragment\<close>), to the logger and to the file
  tracker; the logger and the compactor call back into the graph (\<open>FragDag\<close>), and the graph into the
  tablets. Below them are scan predicates, intervals and interval sets, the ordered merge and the
  cell filters.

  CONVENTIONS. A class is a record and a method is a function from the state to the state and
  the result; what a method throws is \<open>Inl\<close> of the datatype \<open>kdi_error\<close>, and code that C++
  leaves undefined (a null pointer, an iterator at the end) is the error \<open>Undefined\<close>, so that a theorem
  whose conclusion has \<open>Inr\<close> excludes it. An object that is shared is an address, a \<open>nat\<close>, and a map
  from addresses. Sizes and counts that may wrap around are words of 64 bits, timestamps are
  unbounded integers, byte strings are lists of characters. A stream is the list of the cells that
  it has still to deliver. What other threads do is explicit: as the steps of an inductive relation,
  or as a list of changes that take place each time that a lock is given up.

  THEORIES, from the bottom up.

  \<^item> Prelude, OrdMap: errors, lists edited through iterators, the ordered map of the standard library.
  \<^item> Interval, IntervalSet, StringInterval (warp/interval.h, warp/string_interval.cc,
    warp/string_algorithm.h): interval points and their order, intervals, sets of intervals as a
    sorted vector of bounds, the interval of a prefix. The lemmas give each operation its meaning as a
    set of values and keep the class invariant \<open>iset_inv\<close>; the case in which \<open>IntervalSet::add\<close> breaks it
    is stated exactly.
  \<^item> StrUtil (warp/strutil.cc, warp/repr.h, warp/parsing/quoted_str.h): escaping, UTF-8, numbers.
    Round trips and the places where they fail.
  \<^item> ScanPredicate (kdi/scan_predicate.cc): predicates, the evaluation of parsed expressions, the text
    of a predicate. The phrases that the parser recognises are datatypes.
  \<^item> Heap, Merge (warp/heap.h, flux/merge.h): the merge of sorted streams through a heap of
    inputs is a stable sort.
  \<^item> Cell, CellFilter, MemoryTable (kdi/sdstore_*, kdi/cell_filter.cc, kdi/cell_merge.h,
    kdi/memory_table.cc): cells and their order, the filters of a predicate, the merge that lets the
    newest version of a key shadow the others, the table in memory as a map from keys.
  \<^item> FileTracker, Tablet, TabletScan (kdi/tablet/FileTracker.cc, Tablet.cc, Scanner.cc, Fragment.cc,
    LogFragment.cc): reference counts of files; a tablet's chain, its configuration, its scanners and
    its split. TabletScan has the contract of fragments and what a tablet delivers under it.
  \<^item> TabletSave (Tablet::saveConfig and replaceFragmentsInternal, cut where they give up the lock): any
    number of threads that save a tablet's configuration and change the tablet, as a step relation;
    the configuration on record and the files that are released, when saves do not overlap and when
    they do.
  \<^item> FragDag, TabletServer (kdi/tablet/FragDag.cc, and the functions of Tablet.cc that change the
    graph): the graph of fragments and tablets, the choice of what to compact, the replacement of
    fragments in every tablet that uses them.
  \<^item> SuperTablet, SuperScan (kdi/tablet/SuperTablet.cc, SuperScanner.cc): the operations on a table,
    the lull of mutations in which a tablet is split, scanners that go from tablet to tablet and
    survive splits.
  \<^item> SyncQueue, Logger, LogRun (warp/syncqueue.h, kdi/tablet/SharedLogger.cc, LogWriter.cc): the two
    queues and the two threads of the logger. \<open>loggerStep\<close> is one call of a client or one round of a
    thread, and \<open>loggerRun\<close> a run of them with the history of the mutations; a round of the commit
    thread takes a buffer, logs it, applies it and reports it as one step; \<open>loggerInv\<close> is the invariant that relates the log, the queues and the memory tables.
  \<^item> LogRecovery, LogHistory (kdi/tablet/LogReader.cc, CachedLogLoader.cc): the reader of a log, and
    the theorems that what is recovered from a log is what the memory table held, and that nothing
    is lost or reordered on the way.
  \<^item> Uri, UriFacts, LogUri (warp/uri.cc, kdi/tablet/LogWriter.cc, LogFragment.cc, CachedLogLoader.cc): the
    parser of URIs and the operations on their schemes, queries, escapes and paths, with their resolution and
    normalisation; UriFacts shows what the operations of the log undo of each other, that the parts of a
    URI make it up again, and that dot segments are normalised in place as by a stack of segments. LogUri
    has the URIs by which a log and its fragments are known, and the theorem on recovery with them.
  \<^item> Compactor, CompactSplice, CompactData, CompactOutput, CompactServer, CompactRun (flux/cutoff.h,
    kdi/tablet/SharedCompactor.cc): compactions of several tablets at once. CompactData follows the
    cells from the inputs to the outputs, CompactSplice the chains and the graph, CompactOutput the
    loop over the ranges; CompactServer puts them together and CompactRun has the properties.
  \<^item> CompactThread (SharedCompactor::compactLoop and the operations that other threads call): the
    thread as a transition system.
  \<^item> Adler, DiskTable, DiskScan, DiskWrite, DiskFragment (warp/adler.cc, kdi/local/disk_table_writer.cc,
    kdi/local/disk_table.cc, warp/string_pool_builder.h, kdi/tablet/DiskFragment.cc): the files behind the
    fragments. DiskTable has the writer and the scanner; DiskScan shows what a scanner delivers of a file
    that is laid out as the writer does it, DiskWrite that the writer lays it out so, and DiskFragment puts
    the two together. The files are lists of records; the lemmas on scans of arbitrary, possibly damaged
    files are in DiskFragment too.

  INTERFACES. \<open>value_order\<close> is what a less-than functor has to be for the points of intervals to
  be ordered; it is interpreted on the order of a linear order and on the pseudo-numeric order of
  strings. \<open>keyed_values\<close> is what the merge needs of the values of its streams, interpreted on linear
  orders and on cells. \<open>fragment_contract\<close> is what the readers of a fragment rely on: a scan with a
  predicate without a history delivers the allowed ones of the fragment's cells, which are sorted;
  it is interpreted on log fragments (TabletScan) and on disk fragments (DiskFragment). The
  theorems about tablets, splits, compactions and tables rest on the contract alone.

  ARGUMENTS that stand for what is outside the modelled code: \<open>env\<close>, the virtual functions of the
  fragments; \<open>writer\<close>, \<open>writerSize\<close> and \<open>loader\<close>, which write a file, tell its size and open it;
  \<open>wasted\<close>, a product that is computed in double precision; \<open>sorter\<close>, the standard sort,
  whose order of equal elements is unspecified; \<open>nameOf\<close>, \<open>tableUri\<close>, \<open>dataFile\<close>, \<open>writerUri\<close>,
  \<open>logOf\<close> and \<open>tableOf\<close>, which make and take apart the names of tables, logs and files, and of which
  LogUri takes the code's own; \<open>opens\<close>, the file that the file layer finds for a URI; \<open>fmt\<close>, a
  \<open>DiskFormat\<close>, the marshalled data of a record and the length at which it is stored; \<open>pastIndex\<close>, what
  the scanner of a disk table reads behind the end of the index; the changes by other threads.

  BOUNDS AND FUEL. The loop that skips duplicates in a merge has as fuel the number of values
  that are left, and \<open>skipEqual_done\<close> shows that it ends because its condition fails. A reader that
  drains a merge calls \<open>get\<close> as often as there are values, and once more. The loop of a super scanner over its tablets has one round
  more than there are tablets, and \<open>table_scan_delivers\<close> shows that \<open>get\<close> never exceeds it. The chains that are
  offered for compaction have the number of fragments that still fit as their bound, as in the code.
  All other loops are structural or have a measure, with which their termination is proved; the
  scanner of a disk table has one in the bounds of the row set, the entries of the index, the records
  of the file and the cells of the block that are left, for files of any content.

  NOT MODELLED. Files, memory maps, compression and the network are input and output; locks, threads
  and reference counts are the operating system's and the compiler's, and show up as the steps
  above; performance counters, logging and the text of debug output compute nothing that is read.
  The client-side and the older parts of the program (kdi/net, kdi/attic, kdi/hyper, kdi/mux,
  kdi/hash, kdi/meta), the record library (oort), the containers and hashes of warp that the tablet
  server does not use, disk tables of the older version 0, the cache of their indexes, and the vendored
  minilzo are left out. A scan of a memory table that overlaps
  later writes, an error in the middle of a log, and a tablet that others change during a
  compaction are not modelled either.
\<close>

end
